(* ===== verification/Prelude.thy ===== *)
theory Prelude
  imports Main "HOL-Library.Word" "HOL-Library.List_Lexorder" "HOL-Library.Sublist"
    "HOL-Library.Code_Target_Nat"
begin

text \<open>
  The prelude: bytes and byte strings, the little-endian integer encodings of the Rust standard
  library (\<open>to_le_bytes\<close> / \<open>from_le_bytes\<close>), wrapping 64-bit addition, and results as sums with the
  \<open>?\<close> operator.
\<close>

unbundle bit_operations_syntax

named_theorems le_simps \<open>little-endian encodings\<close>
named_theorems bt_simps \<open>lookups in ordered maps and sets\<close>

section \<open>Types\<close>

type_synonym byte = "8 word"
type_synonym bytes = "8 word list"
type_synonym u64 = "64 word"

text \<open>A Rust \<open>Result\<close>: the error on the left, the value on the right.\<close>

type_synonym ('e, 'a) result = "'e + 'a"

text \<open>The \<open>?\<close> operator.\<close>

fun bind_res :: "('e, 'a) result \<Rightarrow> ('a \<Rightarrow> ('e, 'b) result) \<Rightarrow> ('e, 'b) result" where
  "bind_res (Inl e) f = Inl e"
| "bind_res (Inr x) f = f x"

text \<open>\<open>map_err\<close>.\<close>

fun map_err :: "('e \<Rightarrow> 'f) \<Rightarrow> ('e, 'a) result \<Rightarrow> ('f, 'a) result" where
  "map_err f (Inl e) = Inl (f e)"
| "map_err f (Inr x) = Inr x"

lemma bind_res_Inr_iff [simp]: "bind_res r f = Inr y \<longleftrightarrow> (\<exists>x. r = Inr x \<and> f x = Inr y)"
  by (cases r) auto

lemma bind_res_Inl_iff: "bind_res r f = Inl e \<longleftrightarrow> r = Inl e \<or> (\<exists>x. r = Inr x \<and> f x = Inl e)"
  by (cases r) auto

lemma map_err_Inr_iff [simp]: "map_err f r = Inr y \<longleftrightarrow> r = Inr y"
  by (cases r) auto

text \<open>
  A fallible method on \<open>&mut self\<close> returns its result and the object, which it may have changed
  before it failed; \<open>and_then\<close> is the \<open>?\<close> operator between two such calls.
\<close>

type_synonym ('e, 'a, 's) outcome = "('e, 'a) result \<times> 's"

fun and_then :: "('e, 'a, 's) outcome \<Rightarrow> ('a \<Rightarrow> 's \<Rightarrow> ('e, 'b, 't) outcome) \<Rightarrow> ('s \<Rightarrow> 't) \<Rightarrow> ('e, 'b, 't) outcome" where
  "and_then (Inl e, s) f fail = (Inl e, fail s)"
| "and_then (Inr x, s) f fail = f x s"

lemma and_then_Inr_iff [simp]:
  "and_then m f fail = (Inr y, t) \<longleftrightarrow> (\<exists>x s. m = (Inr x, s) \<and> f x s = (Inr y, t))"
  by (cases "(m, f, fail)" rule: and_then.cases) auto

section \<open>Little-endian integers\<close>

text \<open>The \<open>k\<close> low bytes of \<open>n\<close>, least significant first; \<open>u64::to_le_bytes\<close> is \<open>le_bytes 8\<close>.\<close>

fun le_bytes :: "nat \<Rightarrow> nat \<Rightarrow> bytes" where
  "le_bytes 0 n = []"
| "le_bytes (Suc k) n = word_of_nat n # le_bytes k (n div 256)"

fun of_le :: "bytes \<Rightarrow> nat" where
  "of_le [] = 0"
| "of_le (b # bs) = unat b + 256 * of_le bs"

abbreviation le64 :: "nat \<Rightarrow> bytes" where
  "le64 \<equiv> le_bytes 8"

abbreviation le32 :: "nat \<Rightarrow> bytes" where
  "le32 \<equiv> le_bytes 4"

lemma length_le_bytes [simp, le_simps]: "length (le_bytes k n) = k"
  by (induction k arbitrary: n) auto

lemma unat_byte_less [simp]: "unat (b :: 8 word) < 256"
  using unsigned_less [of b] by simp

lemma unat_word8_of_nat: "unat (word_of_nat n :: 8 word) = n mod 256"
  by (simp add: unat_of_nat)

lemma of_le_le_bytes [simp, le_simps]: "of_le (le_bytes k n) = n mod 256 ^ k"
proof (induction k arbitrary: n)
  case 0
  show ?case by simp
next
  case (Suc k)
  have "of_le (le_bytes (Suc k) n) = n mod 256 + 256 * (n div 256 mod 256 ^ k)"
    by (simp add: Suc unat_word8_of_nat)
  also have "\<dots> = n mod (256 * 256 ^ k)"
    by (simp add: mod_mult2_eq)
  finally show ?case by simp
qed

lemma of_le_less: "of_le bs < 256 ^ length bs"
proof (induction bs)
  case Nil
  show ?case by simp
next
  case (Cons b bs)
  obtain p :: nat where p: "p = 256 ^ length bs" by blast
  have "unat b < 256" by (rule unat_byte_less)
  with Cons have "unat b + 256 * of_le bs < 256 * p" unfolding p [symmetric] by arith
  then show ?case by (simp add: p)
qed

lemma le_bytes_of_le [simp, le_simps]: "length bs = k \<Longrightarrow> le_bytes k (of_le bs) = bs"
proof (induction bs arbitrary: k)
  case Nil
  then show ?case by simp
next
  case (Cons b bs)
  have "unat b < 256" by (rule unat_byte_less)
  then have "(unat b + 256 * of_le bs) div 256 = of_le bs" by simp
  moreover have "unat (word_of_nat (unat b + 256 * of_le bs) :: 8 word) = unat b"
    by (subst unat_word8_of_nat) simp
  then have "(word_of_nat (unat b + 256 * of_le bs) :: 8 word) = b"
    by (simp only: word_unat_eq_iff)
  ultimately show ?case using Cons by auto
qed

lemma le_bytes_inj: "m < 256 ^ k \<Longrightarrow> n < 256 ^ k \<Longrightarrow> le_bytes k m = le_bytes k n \<Longrightarrow> m = n"
  by (metis mod_less of_le_le_bytes)

lemma le64_inj: "m < 2 ^ 64 \<Longrightarrow> n < 2 ^ 64 \<Longrightarrow> le64 m = le64 n \<Longrightarrow> m = n"
  by (rule le_bytes_inj [of _ 8]) simp_all

lemma of_le_le64: "n < 2 ^ 64 \<Longrightarrow> of_le (le64 n) = n"
  by simp

lemma of_le_le32: "n < 2 ^ 32 \<Longrightarrow> of_le (le32 n) = n"
  by simp

text \<open>Unsigned 64-bit addition, wrapping (the release profile).\<close>

definition add64 :: "nat \<Rightarrow> nat \<Rightarrow> nat" where
  "add64 a b = (a + b) mod 2 ^ 64"

lemma add64_less [simp]: "add64 a b < 2 ^ 64"
  by (simp add: add64_def)

lemma add64_exact: "a + b < 2 ^ 64 \<Longrightarrow> add64 a b = a + b"
  by (simp add: add64_def)

lemma add64_mod: "add64 (a mod 2 ^ 64) (b mod 2 ^ 64) = (a + b) mod 2 ^ 64"
  by (simp add: add64_def mod_add_eq)

section \<open>Byte strings\<close>

lemma take_append_length: "length xs = n \<Longrightarrow> take n (xs @ ys) = xs"
  by simp

lemma drop_append_length: "length xs = n \<Longrightarrow> drop n (xs @ ys) = ys"
  by simp

lemma append_eq_same_length:
  "length a = length c \<Longrightarrow> a @ b = c @ d \<longleftrightarrow> a = c \<and> b = d"
  by simp

end
