(* ===== verification/Codec.thy ===== *)
theory Codec
  imports Prelude
begin

text \<open>
  Crate \<open>codec\<close> (\<open>crates/codec/src/lib.rs\<close>): LEB128 varints, version frames, tagged records and
  the built-in codecs. Integers are 64-bit words, bytes 8-bit words. A reader takes the byte
  slice and returns the value with the rest of the slice, or the error. \<open>as usize\<close> is the
  identity (a 64-bit target).
\<close>

section \<open>Errors and varints\<close>

text \<open>\<open>CapacityOverflow\<close> is not an error of the crate: it stands for the panic of \<open>Vec::with_capacity\<close>.\<close>

datatype codec_error = Eof | BadVarint | Invalid string | CapacityOverflow

text \<open>\<open>Vec::with_capacity(n)\<close> for elements of \<open>sz\<close> bytes panics when the buffer exceeds \<open>isize::MAX\<close> bytes.\<close>

definition with_capacity :: "nat \<Rightarrow> nat \<Rightarrow> (codec_error, unit) result" where
  "with_capacity sz n = (if n * sz < 2 ^ 63 then Inr () else Inl CapacityOverflow)"

text \<open>\<open>varint::write\<close>: the loop pushes seven bits per byte, continuation bit on all but the last.\<close>

function varint_write :: "bytes \<Rightarrow> u64 \<Rightarrow> bytes" where
  "varint_write out v =
     (let byte = (ucast (v AND 0x7f) :: byte);
          v' = drop_bit 7 v
      in if v' \<noteq> 0 then varint_write (out @ [byte OR 0x80]) v'
         else out @ [byte])"
  by pat_completeness auto

lemma unat_drop_bit_7: "unat (drop_bit 7 v) = unat (v :: u64) div 128"
  by (simp add: unat_drop_bit_eq) (simp add: drop_bit_eq_div)

termination varint_write
proof (relation "measure (\<lambda>(out, v). unat v)", simp, clarsimp)
  fix v :: u64
  assume "drop_bit 7 v \<noteq> 0"
  then have "0 < unat (drop_bit 7 v)" using unat_gt_0 by blast
  then show "unat (drop_bit 7 v) < unat v" by (simp add: unat_drop_bit_7)
qed

declare varint_write.simps [simp del]

text \<open>
  \<open>varint::read\<close>: the loop state is \<open>(result, shift)\<close> and the slice. A shift of a 64-bit value by
  \<open>shift < 64\<close> drops the bits that leave the word.
\<close>

fun varint_loop :: "u64 \<Rightarrow> nat \<Rightarrow> bytes \<Rightarrow> (codec_error, u64 \<times> bytes) result" where
  "varint_loop r shift [] = (if 64 \<le> shift then Inl BadVarint else Inl Eof)"
| "varint_loop r shift (b # rest) =
     (if 64 \<le> shift then Inl BadVarint
      else let r' = r OR push_bit shift (ucast (b AND 0x7f))
           in if b AND 0x80 = 0 then Inr (r', rest) else varint_loop r' (shift + 7) rest)"

definition varint_read :: "bytes \<Rightarrow> (codec_error, u64 \<times> bytes) result" where
  "varint_read bs = varint_loop 0 0 bs"

section \<open>Frames and tagged records\<close>

definition frame :: "u64 \<Rightarrow> bytes \<Rightarrow> bytes" where
  "frame version payload = varint_write [] version @ payload"

definition unframe :: "bytes \<Rightarrow> (codec_error, u64 \<times> bytes) result" where
  "unframe bs = varint_read bs"

definition write_tagged :: "bytes \<Rightarrow> u64 \<Rightarrow> bytes \<Rightarrow> bytes" where
  "write_tagged out tag body =
     (let out = varint_write out tag;
          out = varint_write out (word_of_nat (length body))
      in out @ body)"

definition read_tagged :: "bytes \<Rightarrow> (codec_error, (u64 \<times> bytes) \<times> bytes) result" where
  "read_tagged bs =
     bind_res (varint_read bs) (\<lambda>(tag, bs).
     bind_res (varint_read bs) (\<lambda>(len, bs).
       if length bs < unat len then Inl Eof
       else Inr ((tag, take (unat len) bs), drop (unat len) bs)))"

section \<open>The codec trait and the built-in codecs\<close>

record 'a codec =
  encode_into :: "'a \<Rightarrow> bytes \<Rightarrow> bytes"
  decode :: "bytes \<Rightarrow> (codec_error, 'a) result"

definition encode :: "('a, 'z) codec_scheme \<Rightarrow> 'a \<Rightarrow> bytes" where
  "encode c v = encode_into c v []"

definition u64_codec :: "u64 codec" where
  "u64_codec = \<lparr>
     encode_into = (\<lambda>v out. varint_write out v),
     decode = (\<lambda>bs. bind_res (varint_read bs) (\<lambda>(v, _). Inr v)) \<rparr>"

definition bytes_codec :: "bytes codec" where
  "bytes_codec = \<lparr>
     encode_into = (\<lambda>v out. varint_write out (word_of_nat (length v)) @ v),
     decode = (\<lambda>bs. bind_res (varint_read bs) (\<lambda>(len, b).
                 if length b < unat len then Inl Eof else Inr (take (unat len) b))) \<rparr>"

section \<open>Varint lemmas\<close>

lemma bit_127: "bit (127 :: int) n \<longleftrightarrow> n < 7"
proof -
  have "(127 :: int) = mask 7" by (simp add: mask_eq_exp_minus_1)
  then show ?thesis by (simp only: bit_mask_iff) auto
qed

lemma bit_128: "bit (128 :: int) n \<longleftrightarrow> n = 7"
proof -
  have "(128 :: int) = 2 ^ 7" by simp
  then show ?thesis by (simp only: bit_exp_iff) auto
qed

lemmas varint_bits = bit_simps bit_127 bit_128

lemma ucast_low7 [simp]: "(ucast ((ucast (v AND 0x7f) :: byte) AND 0x7f) :: u64) = v AND 0x7f"
  by (rule bit_word_eqI) (auto simp: varint_bits)

lemma ucast_low7_cont [simp]:
  "(ucast (((ucast (v AND 0x7f) :: byte) OR 0x80) AND 0x7f) :: u64) = v AND 0x7f"
  by (rule bit_word_eqI) (auto simp: varint_bits)

lemma low7_no_cont [simp]: "(ucast (v AND 0x7f :: u64) :: byte) AND 0x80 = 0"
  by (rule bit_word_eqI) (auto simp: varint_bits)

lemma cont_set [simp]: "((x :: byte) OR 0x80) AND 0x80 = 0x80"
  by (rule bit_word_eqI) (auto simp: varint_bits)

lemma push_bit_split7:
  "push_bit s (v :: u64) = push_bit s (v AND 0x7f) OR push_bit (s + 7) (drop_bit 7 v)"
proof (rule bit_word_eqI)
  fix n
  show "bit (push_bit s v) n =
        bit (push_bit s (v AND 0x7f) OR push_bit (s + 7) (drop_bit 7 v)) n"
  proof (cases "s + 7 \<le> n")
    case True
    then have "7 + (n - (s + 7)) = n - s" by simp
    with True show ?thesis by (auto simp: varint_bits)
  next
    case False
    then show ?thesis by (auto simp: varint_bits)
  qed
qed

lemma drop_bit_7_0:
  assumes "drop_bit 7 (v :: u64) = 0"
  shows "v AND 0x7f = v"
proof (rule bit_word_eqI)
  fix n
  have "\<not> bit v n" if "7 \<le> n"
  proof -
    have "bit (drop_bit 7 v) (n - 7) = bit v n" using that by (simp add: bit_simps)
    then show ?thesis using assms by simp
  qed
  then have "bit v n \<longrightarrow> n < 7" by (auto simp: not_le [symmetric])
  then show "bit (v AND 0x7f) n = bit v n" by (auto simp: varint_bits)
qed

text \<open>Induction along the shifts of the writer.\<close>

lemma varint_induct:
  assumes step: "\<And>v :: u64. (drop_bit 7 v \<noteq> 0 \<Longrightarrow> P (drop_bit 7 v)) \<Longrightarrow> P v"
  shows "P v"
proof (induction "unat v" arbitrary: v rule: less_induct)
  case less
  show ?case
  proof (rule step)
    assume "drop_bit 7 v \<noteq> 0"
    then have "0 < unat (drop_bit 7 v)" using unat_gt_0 by blast
    then show "P (drop_bit 7 v)" by (intro less) (simp add: unat_drop_bit_7)
  qed
qed

text \<open>The writer only appends.\<close>

lemma varint_write_append: "varint_write out v = out @ varint_write [] v"
proof (induction v arbitrary: out rule: varint_induct)
  case (1 v)
  let ?b = "ucast (v AND 0x7f) :: byte"
  show ?case
  proof (cases "drop_bit 7 v = 0")
    case True
    then show ?thesis by (simp add: varint_write.simps [of _ v])
  next
    case False
    note 1 [OF this, of "out @ [?b OR 0x80]"] 1 [OF this, of "[] @ [?b OR 0x80]"]
    with False show ?thesis by (simp add: varint_write.simps [of _ v] Let_def)
  qed
qed

lemma varint_write_last: "drop_bit 7 v = 0 \<Longrightarrow> varint_write [] v = [ucast v]"
  using drop_bit_7_0 [of v] by (simp add: varint_write.simps [of _ v])

lemma varint_write_step:
  "drop_bit 7 v \<noteq> 0 \<Longrightarrow>
   varint_write [] v = (ucast (v AND 0x7f) OR 0x80) # varint_write [] (drop_bit 7 v)"
  by (subst varint_write.simps) (simp add: Let_def varint_write_append [of "[_]"])

lemma varint_loop_write:
  assumes "unat v < 2 ^ (64 - s)" "s < 64"
  shows "varint_loop r s (varint_write [] v @ rest) = Inr (r OR push_bit s v, rest)"
  using assms
proof (induction v arbitrary: r s rule: varint_induct)
  case (1 v)
  show ?case
  proof (cases "drop_bit 7 v = 0")
    case True
    then have low: "v AND 0x7f = v" by (rule drop_bit_7_0)
    then have "(ucast ((ucast v :: byte) AND 0x7f) :: u64) = v" "(ucast v :: byte) AND 0x80 = 0"
      using ucast_low7 [of v] low7_no_cont [of v] by simp_all
    then show ?thesis using 1(3) True by (simp add: varint_write_last)
  next
    case False
    have "0 < unat v div 128" using False unat_gt_0 [of "drop_bit 7 v"] unat_drop_bit_7 [of v] by metis
    then have "2 ^ 7 < (2 :: nat) ^ (64 - s)" using 1(2) by simp
    then have "7 < 64 - s" by (rule power_less_imp_less_exp [rotated]) simp
    then have s7: "s + 7 < 64" by simp
    then have "64 - s = (64 - (s + 7)) + 7" by simp
    then have "(2 :: nat) ^ (64 - s) = 2 ^ (64 - (s + 7)) * 2 ^ 7" by (metis power_add)
    then have "unat (drop_bit 7 v) < 2 ^ (64 - (s + 7))"
      using 1(2) by (simp add: unat_drop_bit_7 less_mult_imp_div_less)
    note IH = 1(1) [OF False this s7]
    have "varint_loop r s (varint_write [] v @ rest) =
      varint_loop (r OR push_bit s (v AND 0x7f)) (s + 7) (varint_write [] (drop_bit 7 v) @ rest)"
      using False 1(3) by (simp add: varint_write_step Let_def)
    then show ?thesis by (simp only: IH push_bit_split7 [of s v] or.assoc)
  qed
qed

lemma varint_read_write [simp]: "varint_read (varint_write [] v @ rest) = Inr (v, rest)"
  using varint_loop_write [of v 0 0 rest] unsigned_less [of v] by (simp add: varint_read_def)

lemma varint_read_write_end [simp]: "varint_read (varint_write [] v) = Inr (v, [])"
  using varint_read_write [of v "[]"] by simp

text \<open>The continuation bit.\<close>

definition cont :: "byte \<Rightarrow> bool" where
  "cont b \<longleftrightarrow> b AND 0x80 \<noteq> 0"

lemma cont_write_low: "\<not> cont (ucast (v AND 0x7f :: u64))"
  by (simp add: cont_def)

lemma cont_write_high: "cont (b OR 0x80)"
  by (simp add: cont_def)

text \<open>\<open>n\<close> is the number of leading bytes that announce another one.\<close>

lemma varint_loop_cases:
  assumes "i \<le> 10" "n = length (takeWhile cont bs)"
  shows "(10 - i \<le> n \<longrightarrow> varint_loop r (7 * i) bs = Inl BadVarint) \<and>
         (n < 10 - i \<and> n = length bs \<longrightarrow> varint_loop r (7 * i) bs = Inl Eof) \<and>
         (n < 10 - i \<and> n < length bs \<longrightarrow> (\<exists>v. varint_loop r (7 * i) bs = Inr (v, drop (Suc n) bs)))"
  using assms
proof (induction bs arbitrary: r i n)
  case Nil
  then show ?case by auto
next
  case (Cons b bs)
  have ge: "64 \<le> 7 * i \<longleftrightarrow> i = 10" using Cons.prems(1) by auto
  show ?case
  proof (cases "cont b \<and> i \<noteq> 10")
    case True
    define r' where "r' = r OR push_bit (7 * i) (ucast (b AND 0x7f))"
    have "varint_loop r (7 * i) (b # bs) = varint_loop r' (7 * Suc i) bs"
      using True ge by (simp add: cont_def r'_def Let_def add.commute)
    moreover have "Suc i \<le> 10" using True Cons.prems(1) by simp
    note Cons.IH [OF this refl, of r']
    ultimately show ?thesis using True Cons.prems by auto
  next
    case False
    then show ?thesis using ge Cons.prems by (auto simp: cont_def Let_def)
  qed
qed

lemma varint_write_shape:
  "varint_write [] v \<noteq> [] \<and> list_all cont (butlast (varint_write [] v)) \<and>
   \<not> cont (last (varint_write [] v))"
proof (induction v rule: varint_induct)
  case (1 v)
  show ?case
  proof (cases "drop_bit 7 v = 0")
    case True
    then show ?thesis using drop_bit_7_0 [of v] cont_write_low [of v] by (simp add: varint_write_last)
  next
    case False
    with 1 show ?thesis by (auto simp: varint_write_step cont_write_high)
  qed
qed

lemma varint_write_length:
  assumes "unat v < 2 ^ (7 * k)" "0 < k"
  shows "length (varint_write [] v) \<le> k"
  using assms
proof (induction v arbitrary: k rule: varint_induct)
  case (1 v)
  show ?case
  proof (cases "drop_bit 7 v = 0")
    case True
    then show ?thesis using 1(3) by (simp add: varint_write_last)
  next
    case False
    have pos: "0 < unat v div 128" using False unat_gt_0 [of "drop_bit 7 v"] unat_drop_bit_7 [of v] by metis
    have k1: "k \<noteq> 1" using 1(2) pos by auto
    with 1(3) obtain j where k: "k = Suc j" "0 < j" by (cases k) auto
    have "unat v < 2 ^ (7 * j) * 128" using 1(2) k by (simp add: power_add)
    then have "unat (drop_bit 7 v) < 2 ^ (7 * j)"
      by (simp add: unat_drop_bit_7 less_mult_imp_div_less)
    from 1(1) [OF False this k(2)] show ?thesis using False k by (simp add: varint_write_step)
  qed
qed

section \<open>The interface of a tolerant codec\<close>

text \<open>
  What the log relies on: encoding appends to the output buffer, and decoding returns the value
  whatever bytes follow it. \<open>dom\<close> holds for the values whose lengths fit the wire's 64-bit fields.
\<close>

locale tolerant_codec =
  fixes c :: "'a codec" and dom :: "'a \<Rightarrow> bool"
  assumes encode_appends: "encode_into c v out = out @ encode c v"
    and decode_encode: "dom v \<Longrightarrow> decode c (encode c v @ junk) = Inr v"
begin

lemma decode_encode_exact: "dom v \<Longrightarrow> decode c (encode c v) = Inr v"
  using decode_encode [of v "[]"] by simp

lemma encode_inj: "dom v \<Longrightarrow> dom w \<Longrightarrow> encode c v = encode c w \<Longrightarrow> v = w"
  using decode_encode_exact by (metis sum.inject(2))

text \<open>No encoding is a proper prefix of another one.\<close>

lemma encode_prefix_free:
  "dom v \<Longrightarrow> dom w \<Longrightarrow> encode c v @ x = encode c w @ y \<Longrightarrow> v = w \<and> x = y"
  using decode_encode by (metis append_same_eq same_append_eq sum.inject(2))

end

interpretation u64c: tolerant_codec u64_codec "\<lambda>_. True"
  by unfold_locales (auto simp: u64_codec_def encode_def varint_write_append [of "_ # _"]
      intro: varint_write_append)

lemma unat_length [simp]: "length xs < 2 ^ 64 \<Longrightarrow> unat (word_of_nat (length xs) :: u64) = length xs"
  by (simp add: unat_of_nat)

interpretation bytesc: tolerant_codec bytes_codec "\<lambda>bs. length bs < 2 ^ 64"
  by unfold_locales (auto simp: bytes_codec_def encode_def intro: varint_write_append)

lemma write_tagged_append: "write_tagged out tag body = out @ write_tagged [] tag body"
  unfolding write_tagged_def Let_def by (metis append.assoc append_Nil varint_write_append)

lemma read_write_tagged:
  "length body < 2 ^ 64 \<Longrightarrow> read_tagged (write_tagged [] tag body @ rest) = Inr ((tag, body), rest)"
  by (simp add: write_tagged_def read_tagged_def Let_def varint_write_append [of "varint_write _ _"])

section \<open>Properties\<close>

text \<open>
  A varint read back from the front of any buffer is the value that was written, the
  reader stops exactly behind it, the writer only appends, and an encoding has 1 to 10 bytes.
\<close>

theorem varint_roundtrip:
  "varint_write out v = out @ varint_write [] v \<and>
   varint_read (varint_write [] v @ rest) = Inr (v, rest) \<and>
   1 \<le> length (varint_write [] v) \<and> length (varint_write [] v) \<le> 10"
proof (intro conjI)
  show "1 \<le> length (varint_write [] v)"
    using varint_write_shape [of v] by (simp add: Suc_le_eq)
  have "unat v < 2 ^ (7 * 10)" using unsigned_less [of v] by (rule less_trans) simp
  then show "length (varint_write [] v) \<le> 10" by (rule varint_write_length) simp
qed (rule varint_write_append, simp)

text \<open>
  The outcome of \<open>varint::read\<close> on arbitrary bytes, by the number of leading bytes
  that carry the continuation bit: ten or more are \<open>BadVarint\<close>, fewer but nothing after them is
  \<open>Eof\<close>, and otherwise exactly those bytes and the next one are consumed.
\<close>

theorem varint_read_outcome:
  "(varint_read bs = Inl BadVarint \<longleftrightarrow> 10 \<le> length (takeWhile cont bs)) \<and>
   (varint_read bs = Inl Eof \<longleftrightarrow> length (takeWhile cont bs) < 10 \<and> list_all cont bs) \<and>
   ((\<exists>v. varint_read bs = Inr (v, rest)) \<longleftrightarrow>
      length (takeWhile cont bs) < 10 \<and> \<not> list_all cont bs \<and>
      rest = drop (Suc (length (takeWhile cont bs))) bs)"
proof -
  let ?n = "length (takeWhile cont bs)"
  have all: "list_all cont bs \<longleftrightarrow> ?n = length bs"
    by (induction bs) auto
  have le: "?n \<le> length bs" by (rule length_takeWhile_le)
  note cases = varint_loop_cases [of 0 ?n bs 0, simplified, folded varint_read_def]
  consider "10 \<le> ?n" | "?n < 10" "?n = length bs" | "?n < 10" "?n < length bs" using le by linarith
  then show ?thesis
    by cases (use cases all in \<open>auto simp del: takeWhile_eq_all_conv\<close>)
qed

text \<open>Reading \<open>k\<close> records in turn.\<close>

fun read_records :: "nat \<Rightarrow> bytes \<Rightarrow> (codec_error, (u64 \<times> bytes) list \<times> bytes) result" where
  "read_records 0 bs = Inr ([], bs)"
| "read_records (Suc k) bs =
     bind_res (read_tagged bs) (\<lambda>(r, bs). bind_res (read_records k bs) (\<lambda>(rs, bs). Inr (r # rs, bs)))"

lemma fold_write_tagged:
  "fold (\<lambda>(t, b) out. write_tagged out t b) recs out =
   out @ fold (\<lambda>(t, b) out. write_tagged out t b) recs []"
proof (induction recs arbitrary: out)
  case Nil
  show ?case by simp
next
  case (Cons r recs)
  obtain t b where r: "r = (t, b)" by (cases r)
  show ?case unfolding r fold_Cons o_apply case_prod_conv
    using Cons.IH [of "write_tagged out t b"] Cons.IH [of "write_tagged [] t b"]
      write_tagged_append [of out t b] by simp
qed

text \<open>
  A stream of tagged records of any tags is read back record by record: a reader that
  does not know a tag still finds the next record, and what follows the stream is left unread.
\<close>

theorem tagged_stream_roundtrip:
  assumes "list_all (\<lambda>(t, b). length b < 2 ^ 64) recs"
  shows "read_records (length recs) (fold (\<lambda>(t, b) out. write_tagged out t b) recs [] @ rest) =
         Inr (recs, rest)"
  using assms
proof (induction recs)
  case Nil
  show ?case by simp
next
  case (Cons r recs)
  obtain t b where r: "r = (t, b)" by (cases r)
  have "read_tagged (fold (\<lambda>(t, b) out. write_tagged out t b) (r # recs) [] @ rest) =
        Inr ((t, b), fold (\<lambda>(t, b) out. write_tagged out t b) recs [] @ rest)"
    using Cons.prems fold_write_tagged [of recs "write_tagged [] t b"]
    by (simp add: r read_write_tagged)
  with Cons show ?case by (simp add: r)
qed

theorem tagged_stream_roundtrip_witness:
  "read_records 3 (fold (\<lambda>(t, b) out. write_tagged out t b) [(1, [97]), (99, [1, 2, 3]), (2, [])] [] @ [7]) =
   Inr ([(1, [97]), (99, [1, 2, 3]), (2, [])], [7])"
  using tagged_stream_roundtrip [of "[(1, [97]), (99, [1, 2, 3]), (2, [])]" "[7]"]
  by (simp add: numeral_3_eq_3 del: read_records.simps)

end
