(* ===== verification/Ordered.thy ===== *)
theory Ordered
  imports Prelude
begin

text \<open>
  The standard library's ordered containers. \<open>BTreeMap<K, V>\<close> is a strictly key-sorted
  association list, \<open>BTreeSet<K>\<close> a strictly sorted list. Lookup is \<open>map_of\<close>, iteration is the
  list itself, in ascending key order, and two containers with the same content are equal.
\<close>

section \<open>Ordered maps\<close>

type_synonym ('k, 'v) btmap = "('k \<times> 'v) list"

abbreviation bt_get :: "('k, 'v) btmap \<Rightarrow> 'k \<Rightarrow> 'v option" where
  "bt_get \<equiv> map_of"

definition bt_inv :: "('k::linorder, 'v) btmap \<Rightarrow> bool" where
  "bt_inv m \<longleftrightarrow> sorted_wrt (<) (map fst m)"

fun bt_insert :: "'k::linorder \<Rightarrow> 'v \<Rightarrow> ('k, 'v) btmap \<Rightarrow> ('k, 'v) btmap" where
  "bt_insert k v [] = [(k, v)]"
| "bt_insert k v ((k', v') # m) =
     (if k < k' then (k, v) # (k', v') # m
      else if k = k' then (k, v) # m
      else (k', v') # bt_insert k v m)"

definition bt_remove :: "'k \<Rightarrow> ('k, 'v) btmap \<Rightarrow> ('k, 'v) btmap" where
  "bt_remove k m = filter (\<lambda>(k', _). k' \<noteq> k) m"

definition bt_contains :: "('k, 'v) btmap \<Rightarrow> 'k \<Rightarrow> bool" where
  "bt_contains m k \<longleftrightarrow> bt_get m k \<noteq> None"

text \<open>\<open>retain\<close> with a predicate on the key.\<close>

definition bt_retain :: "('k \<Rightarrow> bool) \<Rightarrow> ('k, 'v) btmap \<Rightarrow> ('k, 'v) btmap" where
  "bt_retain P m = filter (\<lambda>(k, _). P k) m"

text \<open>Collecting an iterator of pairs, in order; a later duplicate key wins.\<close>

definition bt_collect :: "('k::linorder \<times> 'v) list \<Rightarrow> ('k, 'v) btmap" where
  "bt_collect xs = fold (\<lambda>(k, v). bt_insert k v) xs []"

lemma bt_inv_Nil [simp]: "bt_inv []"
  by (simp add: bt_inv_def)

lemma bt_inv_Cons: "bt_inv ((k, v) # m) \<longleftrightarrow> (\<forall>k' \<in> fst ` set m. k < k') \<and> bt_inv m"
  by (auto simp: bt_inv_def)

lemma bt_get_insert [simp, bt_simps]: "bt_get (bt_insert k v m) = (bt_get m)(k \<mapsto> v)"
  by (induction k v m rule: bt_insert.induct) (auto simp: fun_eq_iff)

lemma bt_get_remove [simp, bt_simps]: "bt_get (bt_remove k m) = (bt_get m)(k := None)"
  by (induction m) (auto simp: bt_remove_def fun_eq_iff)

lemma bt_get_retain [simp, bt_simps]:
  "bt_get (bt_retain P m) k = (if P k then bt_get m k else None)"
  by (induction m) (auto simp: bt_retain_def)

lemma fst_set_bt_insert [simp]: "fst ` set (bt_insert k v m) = insert k (fst ` set m)"
  by (induction k v m rule: bt_insert.induct) auto

lemma bt_inv_insert [simp, intro]: "bt_inv m \<Longrightarrow> bt_inv (bt_insert k v m)"
  by (induction k v m rule: bt_insert.induct) (auto simp: bt_inv_Cons)

lemma bt_inv_filter: "bt_inv m \<Longrightarrow> bt_inv (filter P m)"
  by (induction m) (auto simp: bt_inv_Cons)

lemma bt_inv_remove [simp, intro]: "bt_inv m \<Longrightarrow> bt_inv (bt_remove k m)"
  by (simp add: bt_remove_def bt_inv_filter)

lemma bt_inv_retain [simp, intro]: "bt_inv m \<Longrightarrow> bt_inv (bt_retain P m)"
  by (simp add: bt_retain_def bt_inv_filter)

lemma bt_inv_distinct: "bt_inv m \<Longrightarrow> distinct (map fst m)"
  by (simp add: bt_inv_def strict_sorted_imp_sorted strict_sorted_iff)

lemma bt_get_iff: "bt_inv m \<Longrightarrow> bt_get m k = Some v \<longleftrightarrow> (k, v) \<in> set m"
  using bt_inv_distinct map_of_eq_Some_iff by metis

lemma bt_contains_iff: "bt_contains m k \<longleftrightarrow> k \<in> fst ` set m"
  by (simp add: bt_contains_def map_of_eq_None_iff)

lemma bt_contains_insert [simp]: "bt_contains (bt_insert k v m) k' \<longleftrightarrow> k' = k \<or> bt_contains m k'"
  by (auto simp: bt_contains_def)

lemma map_of_same_set:
  assumes "distinct (map fst m)" "distinct (map fst m')" "map_of m = map_of m'"
  shows "set m = set m'"
proof -
  have "(k, v) \<in> set m \<longleftrightarrow> (k, v) \<in> set m'" for k v
    using assms map_of_eq_Some_iff by metis
  then show ?thesis by auto
qed

text \<open>Ordered maps are canonical: the lookup function determines the map.\<close>

lemma bt_ext:
  assumes "bt_inv m" "bt_inv m'" "bt_get m = bt_get m'"
  shows "m = m'"
proof -
  have s: "set m = set m'"
    using assms by (intro map_of_same_set bt_inv_distinct)
  have "map fst m = map fst m'"
    using assms(1,2) s by (intro strict_sorted_equal) (auto simp: bt_inv_def)
  moreover have "inj_on fst (set m \<union> set m')"
    using bt_inv_distinct [OF assms(1)] s by (simp add: distinct_map)
  ultimately show ?thesis by (rule map_inj_on)
qed

lemma bt_get_fold_insert:
  "bt_get (fold (\<lambda>(k, v). bt_insert k v) xs m) = bt_get m ++ bt_get (rev xs)"
  by (induction xs arbitrary: m) (auto simp: map_add_def fun_eq_iff split: option.splits)

lemma bt_get_collect [bt_simps]: "bt_get (bt_collect xs) = bt_get (rev xs)"
  by (simp add: bt_collect_def bt_get_fold_insert)

lemma bt_inv_fold_insert: "bt_inv m \<Longrightarrow> bt_inv (fold (\<lambda>(k, v). bt_insert k v) xs m)"
  by (induction xs arbitrary: m) auto

lemma bt_inv_collect [simp, intro]: "bt_inv (bt_collect xs)"
  by (simp add: bt_collect_def bt_inv_fold_insert)

lemma map_of_rev_distinct: "distinct (map fst xs) \<Longrightarrow> map_of (rev xs) = map_of xs"
  by (rule ext) (metis distinct_rev map_of_eq_Some_iff not_Some_eq rev_map set_rev)

lemma bt_collect_id [simp]: "bt_inv m \<Longrightarrow> bt_collect m = m"
  by (rule bt_ext) (auto simp: bt_get_collect map_of_rev_distinct bt_inv_distinct)

section \<open>Ordered sets\<close>

type_synonym 'k btset = "'k list"

definition bs_inv :: "'k::linorder btset \<Rightarrow> bool" where
  "bs_inv s \<longleftrightarrow> sorted_wrt (<) s"

fun bs_insert :: "'k::linorder \<Rightarrow> 'k btset \<Rightarrow> 'k btset" where
  "bs_insert x [] = [x]"
| "bs_insert x (y # ys) =
     (if x < y then x # y # ys else if x = y then y # ys else y # bs_insert x ys)"

definition bs_remove :: "'k \<Rightarrow> 'k btset \<Rightarrow> 'k btset" where
  "bs_remove x s = filter (\<lambda>y. y \<noteq> x) s"

definition bs_collect :: "'k::linorder list \<Rightarrow> 'k btset" where
  "bs_collect xs = fold bs_insert xs []"

lemma bs_inv_Nil [simp]: "bs_inv []"
  by (simp add: bs_inv_def)

lemma bs_inv_Cons: "bs_inv (x # s) \<longleftrightarrow> (\<forall>y \<in> set s. x < y) \<and> bs_inv s"
  by (simp add: bs_inv_def)

lemma set_bs_insert [simp, bt_simps]: "set (bs_insert x s) = insert x (set s)"
  by (induction x s rule: bs_insert.induct) auto

lemma bs_inv_insert [simp, intro]: "bs_inv s \<Longrightarrow> bs_inv (bs_insert x s)"
  by (induction x s rule: bs_insert.induct) (auto simp: bs_inv_Cons)

lemma set_bs_remove [simp, bt_simps]: "set (bs_remove x s) = set s - {x}"
  by (auto simp: bs_remove_def)

lemma bs_inv_filter [simp, intro]: "bs_inv s \<Longrightarrow> bs_inv (filter P s)"
  by (simp add: bs_inv_def sorted_wrt_filter)

lemma bs_inv_remove [simp, intro]: "bs_inv s \<Longrightarrow> bs_inv (bs_remove x s)"
  by (simp add: bs_remove_def)

lemma set_fold_bs_insert: "set (fold bs_insert xs s) = set xs \<union> set s"
  by (induction xs arbitrary: s) auto

lemma set_bs_collect [simp, bt_simps]: "set (bs_collect xs) = set xs"
  by (simp add: bs_collect_def set_fold_bs_insert)

lemma bs_inv_fold_insert: "bs_inv s \<Longrightarrow> bs_inv (fold bs_insert xs s)"
  by (induction xs arbitrary: s) auto

lemma bs_inv_collect [simp, intro]: "bs_inv (bs_collect xs)"
  by (simp add: bs_collect_def bs_inv_fold_insert)

lemma bs_ext: "bs_inv s \<Longrightarrow> bs_inv s' \<Longrightarrow> set s = set s' \<Longrightarrow> s = s'"
  unfolding bs_inv_def by (rule strict_sorted_equal)

lemma bs_inv_distinct: "bs_inv s \<Longrightarrow> distinct s"
  by (simp add: bs_inv_def strict_sorted_iff)

lemma bs_inv_keys: "bt_inv m \<Longrightarrow> bs_inv (map fst m)"
  by (simp add: bs_inv_def bt_inv_def)

lemma length_le_of_keys: "bt_inv m \<Longrightarrow> (\<And>k v. (k, v) \<in> set m \<Longrightarrow> k < n) \<Longrightarrow> length m \<le> (n :: nat)"
proof -
  assume m: "bt_inv m" and k: "\<And>k v. (k, v) \<in> set m \<Longrightarrow> k < n"
  have "card (fst ` set m) \<le> card {..< n}" using k by (intro card_mono) auto
  moreover have "card (set (map fst m)) = length m"
    using bt_inv_distinct [OF m] by (metis distinct_card length_map)
  ultimately show "length m \<le> n" by simp
qed

end
