(* ===== verification/Linearizer.thy ===== *)
theory Linearizer
  imports Ordered
begin

text \<open>
  The causal DAG of crate \<open>autobase\<close> (\<open>crates/autobase/src/lib.rs\<close> and \<open>linearizer.rs\<close>): node
  identifiers, vector clocks, delivery (\<open>add\<close>), reachability (\<open>sees\<close>, \<open>clock\<close>) and the priority
  topological sort. The quorum machine on top of it is in theory \<open>Consensus\<close>.

  Sequence numbers are naturals (a writer has fewer than \<open>2^63\<close> nodes, so neither \<open>seq + 1\<close> nor
  the casts to \<open>i64\<close> in the quorum machine overflow). A panic is \<open>None\<close>.
\<close>

section \<open>Node identifiers\<close>

datatype node_id = NodeId (key: bytes) (seq: nat)

instantiation node_id :: linorder
begin

definition less_eq_node_id :: "node_id \<Rightarrow> node_id \<Rightarrow> bool" where
  "less_eq_node_id a b \<longleftrightarrow> key a < key b \<or> key a = key b \<and> seq a \<le> seq b"

definition less_node_id :: "node_id \<Rightarrow> node_id \<Rightarrow> bool" where
  "less_node_id a b \<longleftrightarrow> key a < key b \<or> key a = key b \<and> seq a < seq b"

instance
  by standard (auto simp: less_eq_node_id_def less_node_id_def node_id.expand)

end

section \<open>Vector clocks\<close>

type_synonym clock = "(bytes, nat) btmap"

definition clk_get :: "clock \<Rightarrow> bytes \<Rightarrow> nat" where
  "clk_get c k = (case bt_get c k of None \<Rightarrow> 0 | Some n \<Rightarrow> n)"

definition clk_includes :: "clock \<Rightarrow> bytes \<Rightarrow> nat \<Rightarrow> bool" where
  "clk_includes c k len \<longleftrightarrow> 0 < len \<and> len \<le> clk_get c k"

definition clk_raise :: "clock \<Rightarrow> bytes \<Rightarrow> nat \<Rightarrow> clock" where
  "clk_raise c k len = bt_insert k (max (clk_get c k) len) c"

lemma clk_get_Nil [simp]: "clk_get [] k = 0"
  by (simp add: clk_get_def)

lemma clk_get_raise [simp]:
  "clk_get (clk_raise c k len) k' = (if k' = k then max (clk_get c k) len else clk_get c k')"
  by (simp add: clk_get_def clk_raise_def)

section \<open>The linearizer\<close>

record linearizer =
  deps :: "(node_id, node_id btset) btmap"
  dependents :: "(node_id, node_id btset) btmap"
  next_seq :: "(bytes, nat) btmap"
  indexers :: "bytes btset option"
  base :: "node_id list"
  base_clock :: clock

definition new_linearizer :: linearizer where
  "new_linearizer =
     \<lparr> deps = [], dependents = [], next_seq = [], indexers = None, base = [], base_clock = [] \<rparr>"

definition with_indexers :: "bytes list \<Rightarrow> linearizer" where
  "with_indexers ix = new_linearizer\<lparr> indexers := Some (bs_collect ix) \<rparr>"

definition lin_len :: "linearizer \<Rightarrow> nat" where
  "lin_len L = length (deps L)"

definition contains :: "linearizer \<Rightarrow> node_id \<Rightarrow> bool" where
  "contains L n = bt_contains (deps L) n"

datatype add_error =
    Duplicate node_id
  | Gap bytes nat nat
  | MissingHead node_id

text \<open>\<open>entry(k).or_default()\<close> followed by an update of the set.\<close>

definition entry_insert :: "(node_id, node_id btset) btmap \<Rightarrow> node_id \<Rightarrow> node_id \<Rightarrow> (node_id, node_id btset) btmap" where
  "entry_insert m k n = bt_insert k (bs_insert n (case bt_get m k of None \<Rightarrow> [] | Some s \<Rightarrow> s)) m"

definition entry_default :: "(node_id, node_id btset) btmap \<Rightarrow> node_id \<Rightarrow> (node_id, node_id btset) btmap" where
  "entry_default m k = (case bt_get m k of None \<Rightarrow> bt_insert k [] m | Some _ \<Rightarrow> m)"

definition add :: "linearizer \<Rightarrow> node_id \<Rightarrow> node_id list \<Rightarrow> (add_error, linearizer) result" where
  "add L node heads =
     (if contains L node then Inl (Duplicate node)
      else let expected = (case bt_get (next_seq L) (key node) of None \<Rightarrow> 0 | Some n \<Rightarrow> n)
           in if seq node \<noteq> expected then Inl (Gap (key node) expected (seq node))
              else case find (\<lambda>h. \<not> contains L h) heads of
                     Some h \<Rightarrow> Inl (MissingHead h)
                   | None \<Rightarrow>
                       let dep_set = bs_collect heads;
                           dep_set = (if 0 < seq node then bs_insert (NodeId (key node) (seq node - 1)) dep_set
                                      else dep_set);
                           dep_set = bs_remove node dep_set;
                           dts = fold (\<lambda>d m. entry_insert m d node) dep_set (dependents L)
                       in Inr (L\<lparr> deps := bt_insert node dep_set (deps L),
                                  dependents := entry_default dts node,
                                  next_seq := bt_insert (key node) (seq node + 1) (next_seq L) \<rparr>))"

section \<open>Causal heads and tails\<close>

definition heads :: "linearizer \<Rightarrow> node_id btset" where
  "heads L = filter (\<lambda>n. case bt_get (dependents L) n of None \<Rightarrow> True | Some s \<Rightarrow> s = []) (map fst (deps L))"

definition tails :: "linearizer \<Rightarrow> node_id btset" where
  "tails L = map fst (filter (\<lambda>(n, d). d = []) (deps L))"

section \<open>Reachability\<close>

text \<open>
  The body of the depth-first loops: the dependencies not yet visited go on the stack, whose top
  is the head of the list.
\<close>

fun push_new :: "node_id list \<Rightarrow> node_id list \<Rightarrow> node_id btset \<Rightarrow> node_id list \<times> node_id btset" where
  "push_new [] stack visited = (stack, visited)"
| "push_new (d # ds) stack visited =
     (if d \<in> set visited then push_new ds stack visited
      else push_new ds (d # stack) (bs_insert d visited))"

definition dep_targets :: "(node_id, node_id btset) btmap \<Rightarrow> node_id set" where
  "dep_targets m = (\<Union>(n, ds) \<in> set m. set ds)"

lemma finite_dep_targets [simp]: "finite (dep_targets m)"
  by (auto simp: dep_targets_def)

lemma dep_targets_get: "bt_get m n = Some ds \<Longrightarrow> set ds \<subseteq> dep_targets m"
  by (force simp: dep_targets_def dest: map_of_SomeD)

lemma push_new_measure:
  assumes "push_new ds st vis = (st', vis')" "set ds \<subseteq> U" "finite U"
  shows "card (U - set vis') + length st' \<le> card (U - set vis) + length st"
  using assms
proof (induction ds arbitrary: st vis)
  case (Cons d ds)
  show ?case
  proof (cases "d \<in> set vis")
    case True
    then show ?thesis using Cons by simp
  next
    case False
    have "U - set vis = insert d (U - insert d (set vis))" using False Cons.prems(2) by auto
    then have "card (U - set vis) = Suc (card (U - insert d (set vis)))"
      using Cons.prems(3) by (metis (no_types) DiffD2 card_insert_disjoint finite_Diff insertI1)
    then show ?thesis using False Cons.IH [of "d # st" "bs_insert d vis"] Cons.prems by simp
  qed
qed simp

lemma push_new_less:
  "bt_get m node = Some ds \<Longrightarrow> (st', vis') = push_new ds stack visited \<Longrightarrow>
   card (dep_targets m - set vis') + length st' < Suc (card (dep_targets m - set visited) + length stack)"
  using push_new_measure [of ds stack visited st' vis' "dep_targets m"] dep_targets_get [of m node ds] by simp

function sees_loop :: "(node_id, node_id btset) btmap \<Rightarrow> node_id \<Rightarrow> node_id list \<Rightarrow> node_id btset \<Rightarrow> bool" where
  "sees_loop m b [] visited = False"
| "sees_loop m b (node # stack) visited =
     (case bt_get m node of
        None \<Rightarrow> sees_loop m b stack visited
      | Some ds \<Rightarrow>
          if b \<in> set ds then True
          else let (stack, visited) = push_new ds stack visited in sees_loop m b stack visited)"
  by pat_completeness auto
termination
  by (relation "measure (\<lambda>(m, b, stack, visited). card (dep_targets m - set visited) + length stack)")
    (auto dest: push_new_less split: prod.splits)

definition sees :: "linearizer \<Rightarrow> node_id \<Rightarrow> node_id \<Rightarrow> bool" where
  "sees L a b =
     (if a = b then True
      else if \<not> contains L a \<or> \<not> contains L b then False
      else sees_loop (deps L) b [a] [])"

function clock_loop :: "(node_id, node_id btset) btmap \<Rightarrow> node_id list \<Rightarrow> node_id btset \<Rightarrow> clock \<Rightarrow> clock" where
  "clock_loop m [] visited c = c"
| "clock_loop m (v # stack) visited c =
     (let c = clk_raise c (key v) (seq v + 1)
      in case bt_get m v of
           None \<Rightarrow> clock_loop m stack visited c
         | Some ds \<Rightarrow> let (stack, visited) = push_new ds stack visited in clock_loop m stack visited c)"
  by pat_completeness auto
termination
  by (relation "measure (\<lambda>(m, stack, visited, c). card (dep_targets m - set visited) + length stack)")
    (auto dest: push_new_less split: prod.splits)

definition clock :: "linearizer \<Rightarrow> node_id \<Rightarrow> clock" where
  "clock L n = (if \<not> contains L n then [] else clock_loop (deps L) [n] [n] [])"

section \<open>Priority topological sort\<close>

text \<open>
  The inner loop over the dependents of an emitted node. \<open>plain_order\<close> panics on an unknown
  dependent (\<open>strict\<close>), \<open>topo_key_order\<close> skips it; decrementing a zero counter is the overflow
  panic.
\<close>

fun relax :: "bool \<Rightarrow> node_id list \<Rightarrow> (node_id, nat) btmap \<Rightarrow> node_id btset \<Rightarrow>
    ((node_id, nat) btmap \<times> node_id btset) option" where
  "relax strict [] indeg frontier = Some (indeg, frontier)"
| "relax strict (c # cs) indeg frontier =
     (case bt_get indeg c of
        None \<Rightarrow> if strict then None else relax strict cs indeg frontier
      | Some d \<Rightarrow>
          if d = 0 then None
          else relax strict cs (bt_insert c (d - 1) indeg)
                 (if d - 1 = 0 then bs_insert c frontier else frontier))"

definition positive :: "(node_id, nat) btmap \<Rightarrow> node_id set" where
  "positive m = {k. \<exists>d. bt_get m k = Some (Suc d)}"

lemma finite_positive [simp]: "finite (positive m)"
  by (rule finite_subset [of _ "dom (bt_get m)"]) (auto simp: positive_def finite_dom_map_of)

lemma length_bs_insert: "length (bs_insert x s) \<le> Suc (length s)"
  by (induction x s rule: bs_insert.induct) auto

lemma relax_measure:
  "relax strict cs indeg fr = Some (indeg', fr') \<Longrightarrow>
   length fr' + card (positive indeg') \<le> length fr + card (positive indeg)"
proof (induction cs arbitrary: indeg fr)
  case (Cons c cs)
  show ?case
  proof (cases "bt_get indeg c")
    case None
    then show ?thesis using Cons by (auto split: if_splits)
  next
    case (Some d)
    then obtain e where e: "d = Suc e" using Cons.prems by (cases d) auto
    let ?i = "bt_insert c e indeg" and ?f = "if e = 0 then bs_insert c fr else fr"
    have "relax strict cs ?i ?f = Some (indeg', fr')" using Cons.prems Some e by simp
    note ih = Cons.IH [OF this]
    have c: "c \<in> positive indeg" using Some e by (simp add: positive_def)
    have "length ?f + card (positive ?i) \<le> length fr + card (positive indeg)"
    proof (cases "e = 0")
      case True
      then have "positive ?i = positive indeg - {c}" by (auto simp: positive_def)
      then have "Suc (card (positive ?i)) = card (positive indeg)"
        using card_Suc_Diff1 [OF finite_positive c] by (simp del: card_Diff_insert)
      then show ?thesis using True length_bs_insert [of c fr] by simp
    next
      case False
      then have "positive ?i = positive indeg"
        using Some e by (auto simp: positive_def gr0_conv_Suc)
      then show ?thesis using False by simp
    qed
    with ih show ?thesis by linarith
  qed
qed simp

function kahn :: "bool \<Rightarrow> (node_id, node_id btset) btmap \<Rightarrow> (node_id, nat) btmap \<Rightarrow> node_id btset \<Rightarrow>
    node_id list \<Rightarrow> node_id list option" where
  "kahn strict dts indeg [] out = Some out"
| "kahn strict dts indeg (node # frontier) out =
     (case relax strict (case bt_get dts node of None \<Rightarrow> [] | Some cs \<Rightarrow> cs) indeg frontier of
        None \<Rightarrow> None
      | Some (indeg, frontier) \<Rightarrow> kahn strict dts indeg frontier (out @ [node]))"
  by pat_completeness auto
termination
  by (relation "measure (\<lambda>(strict, dts, indeg, frontier, out). length frontier + card (positive indeg))")
    (auto dest!: relax_measure)

definition plain_order :: "linearizer \<Rightarrow> node_id list option" where
  "plain_order L =
     (let indeg = map (\<lambda>(n, d). (n, length d)) (deps L);
          frontier = map fst (filter (\<lambda>(_, d). d = 0) indeg)
      in kahn True (dependents L) indeg frontier [])"

definition topo_key_order :: "linearizer \<Rightarrow> node_id btset \<Rightarrow> node_id btset \<Rightarrow> node_id list option" where
  "topo_key_order L ns emitted =
     (let indeg = map (\<lambda>n. (n, case bt_get (deps L) n of
                              None \<Rightarrow> 0
                            | Some ds \<Rightarrow> length (filter (\<lambda>d. d \<in> set ns \<and> d \<notin> set emitted) ds))) ns;
          frontier = map fst (filter (\<lambda>(_, d). d = 0) indeg)
      in kahn False (dependents L) indeg frontier [])"

section \<open>The invariant of the DAG\<close>

definition dep_of :: "linearizer \<Rightarrow> node_id \<Rightarrow> node_id set" where
  "dep_of L n = (case bt_get (deps L) n of None \<Rightarrow> {} | Some ds \<Rightarrow> set ds)"

definition edges :: "linearizer \<Rightarrow> (node_id \<times> node_id) set" where
  "edges L = {(n, d). d \<in> dep_of L n}"

definition nodes_of :: "linearizer \<Rightarrow> node_id set" where
  "nodes_of L = {n. contains L n}"

text \<open>
  Dependencies are delivered nodes; \<open>dependents\<close> is the reverse of \<open>deps\<close>; every writer's nodes are
  numbered without a gap up to \<open>next_seq\<close>; a node depends on its predecessor; there is no cycle.
\<close>

definition dag_ok :: "linearizer \<Rightarrow> bool" where
  "dag_ok L \<longleftrightarrow>
     bt_inv (deps L) \<and> bt_inv (dependents L) \<and> bt_inv (next_seq L) \<and>
     (\<forall>n ds. bt_get (deps L) n = Some ds \<longrightarrow> bs_inv ds) \<and>
     (\<forall>n. dep_of L n \<subseteq> nodes_of L) \<and>
     (\<forall>n. if contains L n
          then \<exists>cs. bt_get (dependents L) n = Some cs \<and> bs_inv cs \<and> set cs = {c. n \<in> dep_of L c}
          else bt_get (dependents L) n = None) \<and>
     (\<forall>k s. contains L (NodeId k s) \<longleftrightarrow> s < clk_get (next_seq L) k) \<and>
     (\<forall>k. bt_get (next_seq L) k \<noteq> Some 0) \<and>
     (\<forall>k s. contains L (NodeId k (Suc s)) \<longrightarrow> NodeId k s \<in> dep_of L (NodeId k (Suc s))) \<and>
     acyclic (edges L)"

lemma contains_iff: "contains L n \<longleftrightarrow> (\<exists>ds. bt_get (deps L) n = Some ds)"
  by (auto simp: contains_def bt_contains_def)

lemma finite_nodes_of [simp]: "finite (nodes_of L)"
proof -
  have "nodes_of L = dom (bt_get (deps L))" by (auto simp: nodes_of_def contains_iff)
  then show ?thesis by (simp add: finite_dom_map_of)
qed

lemma dep_of_contains: "d \<in> dep_of L n \<Longrightarrow> contains L n"
  by (auto simp: dep_of_def contains_iff split: option.splits)

lemma dag_okD:
  assumes "dag_ok L"
  shows "bt_inv (deps L)" "bt_inv (dependents L)" "bt_inv (next_seq L)"
    "\<And>n ds. bt_get (deps L) n = Some ds \<Longrightarrow> bs_inv ds"
    "\<And>n d. d \<in> dep_of L n \<Longrightarrow> contains L d"
    "\<And>k s. contains L (NodeId k s) \<longleftrightarrow> s < clk_get (next_seq L) k"
    "\<And>k. bt_get (next_seq L) k \<noteq> Some 0"
    "\<And>k s. contains L (NodeId k (Suc s)) \<Longrightarrow> NodeId k s \<in> dep_of L (NodeId k (Suc s))"
    "acyclic (edges L)"
  using assms unfolding dag_ok_def nodes_of_def by blast+

lemma dag_ok_dependents:
  assumes "dag_ok L"
  shows "contains L n \<Longrightarrow>
           \<exists>cs. bt_get (dependents L) n = Some cs \<and> bs_inv cs \<and> set cs = {c. n \<in> dep_of L c}"
    "\<not> contains L n \<Longrightarrow> bt_get (dependents L) n = None"
  using assms by (auto simp: dag_ok_def split: if_splits)

lemma new_linearizer_ok: "dag_ok new_linearizer"
  by (auto simp: dag_ok_def new_linearizer_def contains_def bt_contains_def edges_def dep_of_def acyclic_def)

lemma dag_ok_update [simp]:
  "dag_ok (L\<lparr> indexers := ix \<rparr>) = dag_ok L" "dag_ok (L\<lparr> base := b \<rparr>) = dag_ok L"
  "dag_ok (L\<lparr> base_clock := c \<rparr>) = dag_ok L"
  by (simp_all add: dag_ok_def contains_def edges_def dep_of_def nodes_of_def)

lemma with_indexers_ok: "dag_ok (with_indexers ix)"
  by (simp add: with_indexers_def new_linearizer_ok)

section \<open>Delivery\<close>

definition dep_set :: "node_id \<Rightarrow> node_id list \<Rightarrow> node_id set" where
  "dep_set n hs = set hs \<union> (if 0 < seq n then {NodeId (key n) (seq n - 1)} else {}) - {n}"

lemma bt_get_entry_insert [simp]:
  "bt_get (entry_insert m k n) = (bt_get m)(k \<mapsto> bs_insert n (case bt_get m k of None \<Rightarrow> [] | Some s \<Rightarrow> s))"
  by (simp add: entry_insert_def)

lemma bt_get_entry_default [simp]:
  "bt_get (entry_default m k) = (case bt_get m k of None \<Rightarrow> (bt_get m)(k \<mapsto> []) | Some _ \<Rightarrow> bt_get m)"
  by (simp add: entry_default_def split: option.splits)

lemma bt_inv_entry_default [simp]: "bt_inv m \<Longrightarrow> bt_inv (entry_default m k)"
  by (auto simp: entry_default_def split: option.splits)

lemma fold_entry_insert:
  "distinct ds \<Longrightarrow> bt_get (fold (\<lambda>d m. entry_insert m d n) ds m) k =
   (if k \<in> set ds then Some (bs_insert n (case bt_get m k of None \<Rightarrow> [] | Some s \<Rightarrow> s)) else bt_get m k)"
  by (induction ds arbitrary: m) auto

lemma bt_inv_fold_entry: "bt_inv m \<Longrightarrow> bt_inv (fold (\<lambda>d m. entry_insert m d n) ds m)"
  by (induction ds arbitrary: m) (auto simp: entry_insert_def)

text \<open>The outcome of \<open>add\<close>, branch by branch.\<close>

lemma add_Inr:
  assumes "add L n hs = Inr L'"
  obtains ds where "\<not> contains L n" "seq n = clk_get (next_seq L) (key n)" "\<forall>h \<in> set hs. contains L h"
    "bs_inv ds" "set ds = dep_set n hs"
    "L' = L\<lparr> deps := bt_insert n ds (deps L),
             dependents := entry_default (fold (\<lambda>d m. entry_insert m d n) ds (dependents L)) n,
             next_seq := bt_insert (key n) (seq n + 1) (next_seq L) \<rparr>"
proof
  let ?ds = "bs_remove n (if 0 < seq n then bs_insert (NodeId (key n) (seq n - 1)) (bs_collect hs) else bs_collect hs)"
  show "\<not> contains L n" "seq n = clk_get (next_seq L) (key n)" "\<forall>h \<in> set hs. contains L h"
    using assms by (auto simp: add_def Let_def clk_get_def find_None_iff split: if_splits option.splits)
  show "bs_inv ?ds" by auto
  show "set ?ds = dep_set n hs" by (auto simp: dep_set_def)
  show "L' = L\<lparr> deps := bt_insert n ?ds (deps L),
             dependents := entry_default (fold (\<lambda>d m. entry_insert m d n) ?ds (dependents L)) n,
             next_seq := bt_insert (key n) (seq n + 1) (next_seq L) \<rparr>"
    using assms by (auto simp: add_def Let_def split: if_splits option.splits)
qed

lemma add_Inl:
  "add L n hs = Inl e \<longleftrightarrow>
   (contains L n \<and> e = Duplicate n) \<or>
   (\<not> contains L n \<and> seq n \<noteq> clk_get (next_seq L) (key n) \<and>
      e = Gap (key n) (clk_get (next_seq L) (key n)) (seq n)) \<or>
   (\<not> contains L n \<and> seq n = clk_get (next_seq L) (key n) \<and>
      (\<exists>h. find (\<lambda>h. \<not> contains L h) hs = Some h \<and> e = MissingHead h))"
  by (auto simp: add_def Let_def clk_get_def split: option.splits)

lemma acyclic_new_node:
  assumes "acyclic E" "\<And>x. (x, n) \<notin> E" "(n, n) \<notin> F" "F \<subseteq> {n} \<times> UNIV"
  shows "acyclic (E \<union> F)"
proof -
  have "(x, n) \<notin> (E \<union> F)\<^sup>+" for x
  proof
    assume "(x, n) \<in> (E \<union> F)\<^sup>+"
    then obtain y where "(y, n) \<in> E \<union> F" by (meson tranclD2)
    then show False using assms(2-4) by blast
  qed
  moreover have "(x, y) \<in> (E \<union> F)\<^sup>+ \<Longrightarrow> x \<noteq> n \<Longrightarrow> (x, y) \<in> E\<^sup>+" for x y
  proof (induction rule: trancl_induct)
    case (base y)
    then show ?case using assms(4) by auto
  next
    case (step y z)
    then show ?case
      using assms(4) calculation by (metis Un_iff mem_Sigma_iff singletonD subsetD trancl.trancl_into_trancl)
  qed
  ultimately show ?thesis using assms(1) unfolding acyclic_def by metis
qed

lemma add_effect:
  assumes "add L n hs = Inr L'"
  shows "contains L' m \<longleftrightarrow> m = n \<or> contains L m"
    "dep_of L' m = (if m = n then dep_set n hs else dep_of L m)"
    "nodes_of L' = insert n (nodes_of L)"
    "indexers L' = indexers L" "base L' = base L" "base_clock L' = base_clock L"
    "clk_get (next_seq L') k = (if k = key n then Suc (seq n) else clk_get (next_seq L) k)"
  using assms
  by (auto elim!: add_Inr simp: contains_def dep_of_def nodes_of_def clk_get_def)

lemma add_deps_delivered:
  assumes ok: "dag_ok L" and add: "add L n hs = Inr L'"
  shows "\<not> contains L n" "dep_set n hs \<subseteq> nodes_of L" "n \<notin> dep_set n hs" "n \<notin> dep_of L m"
proof -
  obtain ds where ds: "\<not> contains L n" "seq n = clk_get (next_seq L) (key n)" "\<forall>h \<in> set hs. contains L h"
    using add by (rule add_Inr)
  show "\<not> contains L n" by (rule ds(1))
  have "contains L (NodeId (key n) (seq n - 1))" if "0 < seq n"
    using dag_okD(6) [OF ok] ds(2) that by simp
  then show "dep_set n hs \<subseteq> nodes_of L"
    using ds(3) by (auto simp: dep_set_def nodes_of_def split: if_splits)
  show "n \<notin> dep_set n hs" by (simp add: dep_set_def)
  show "n \<notin> dep_of L m" using dag_okD(5) [OF ok] ds(1) by blast
qed

lemma add_dependents:
  assumes ok: "dag_ok L" and add: "add L n hs = Inr L'"
  shows "if contains L' m
         then \<exists>cs. bt_get (dependents L') m = Some cs \<and> bs_inv cs \<and> set cs = {c. m \<in> dep_of L' c}
         else bt_get (dependents L') m = None"
proof -
  obtain ds where ds: "bs_inv ds" "set ds = dep_set n hs"
      "dependents L' = entry_default (fold (\<lambda>d m. entry_insert m d n) ds (dependents L)) n"
    using add by (rule add_Inr) simp
  note eff = add_effect [OF add] and dd = add_deps_delivered [OF ok add]
  have get: "bt_get (dependents L') m =
      (let g = (if m \<in> set ds then Some (bs_insert n (case bt_get (dependents L) m of None \<Rightarrow> [] | Some s \<Rightarrow> s))
                else bt_get (dependents L) m)
       in if m = n \<and> g = None then Some [] else g)"
    using fold_entry_insert [OF bs_inv_distinct [OF ds(1)], of n "dependents L"] ds(3)
    by (auto split: option.splits)
  show ?thesis
  proof (cases "contains L m")
    case True
    then obtain cs where "bt_get (dependents L) m = Some cs" "bs_inv cs" "set cs = {c. m \<in> dep_of L c}"
      using dag_ok_dependents(1) [OF ok] by blast
    then show ?thesis using True dd ds(2) get eff(1,2) by (auto dest: dep_of_contains)
  next
    case False
    then have "bt_get (dependents L) m = None" "m \<notin> set ds"
      using dag_ok_dependents(2) [OF ok] dd(2) ds(2) by (auto simp: nodes_of_def)
    moreover have "{c. n \<in> dep_of L' c} = {}" using dd(3,4) eff(2) by auto
    ultimately show ?thesis using False get eff(1) by auto
  qed
qed

lemma add_acyclic:
  assumes ok: "dag_ok L" and add: "add L n hs = Inr L'"
  shows "acyclic (edges L')"
proof -
  note dd = add_deps_delivered [OF ok add]
  have "edges L' = edges L \<union> {n} \<times> dep_set n hs"
    using dd(1) by (auto simp: edges_def add_effect(2) [OF add] dest: dep_of_contains split: if_splits)
  moreover have "acyclic (edges L \<union> {n} \<times> dep_set n hs)"
    using dag_okD(9) [OF ok] dd(3,4) by (intro acyclic_new_node) (auto simp: edges_def)
  ultimately show ?thesis by simp
qed

lemma add_ok:
  assumes ok: "dag_ok L" and add: "add L n hs = Inr L'"
  shows "dag_ok L'"
proof -
  obtain ds where ds: "seq n = clk_get (next_seq L) (key n)" "bs_inv ds"
      "L' = L\<lparr> deps := bt_insert n ds (deps L),
               dependents := entry_default (fold (\<lambda>d m. entry_insert m d n) ds (dependents L)) n,
               next_seq := bt_insert (key n) (seq n + 1) (next_seq L) \<rparr>"
    using add by (rule add_Inr)
  note eff = add_effect [OF add] and dd = add_deps_delivered [OF ok add]
  have seqs: "contains L' (NodeId k s) \<longleftrightarrow> s < clk_get (next_seq L') k" for k s
    using dag_okD(6) [OF ok] ds(1) by (cases n) (auto simp: eff(1,7) less_Suc_eq)
  have preds: "NodeId k s \<in> dep_of L' (NodeId k (Suc s))" if "contains L' (NodeId k (Suc s))" for k s
    using that dag_okD(8) [OF ok] by (cases n) (auto simp: eff(1,2) dep_set_def)
  show ?thesis
    unfolding dag_ok_def
  proof (intro conjI)
    show "\<forall>m. dep_of L' m \<subseteq> nodes_of L'"
      using dd(2) dag_okD(5) [OF ok] by (auto simp: eff(1,2) nodes_of_def)
    show "\<forall>m ds. bt_get (deps L') m = Some ds \<longrightarrow> bs_inv ds" using ds(2,3) dag_okD(4) [OF ok] by auto
    show "\<forall>k. bt_get (next_seq L') k \<noteq> Some 0" using ds(3) dag_okD(7) [OF ok] by simp
    show "bt_inv (deps L')" "bt_inv (dependents L')" "bt_inv (next_seq L')"
      using dag_okD(1-3) [OF ok] ds(3) by (simp_all add: bt_inv_fold_entry)
  qed (use add_dependents [OF ok add] add_acyclic [OF ok add] seqs preds in blast)+
qed

lemma no_self_dep: "dag_ok L \<Longrightarrow> n \<notin> dep_of L n"
  using dag_okD(9) [of L] by (auto simp: acyclic_def edges_def)

section \<open>The state is a function of what was delivered\<close>

lemma bt_get_deps_eq:
  assumes "dag_ok L" "dag_ok L'" "\<And>n. contains L n \<longleftrightarrow> contains L' n" "\<And>n. dep_of L n = dep_of L' n"
  shows "deps L = deps L'"
proof (rule bt_ext)
  show "bt_get (deps L) = bt_get (deps L')"
  proof
    fix n
    show "bt_get (deps L) n = bt_get (deps L') n"
    proof (cases "contains L n")
      case True
      then obtain ds ds' where d: "bt_get (deps L) n = Some ds" "bt_get (deps L') n = Some ds'"
        using assms(3) [of n] unfolding contains_iff by blast
      then have "set ds = set ds'" using assms(4) [of n] by (simp add: dep_of_def)
      then show ?thesis using d dag_okD(4) [OF assms(1)] dag_okD(4) [OF assms(2)] bs_ext by metis
    next
      case False
      then show ?thesis using assms(3) [of n] by (auto simp: contains_def bt_contains_def)
    qed
  qed
qed (use dag_okD(1) assms(1,2) in auto)

lemma bt_get_next_seq: "dag_ok L \<Longrightarrow>
  bt_get (next_seq L) k = (if clk_get (next_seq L) k = 0 then None else Some (clk_get (next_seq L) k))"
  using dag_okD(7) [of L k] by (auto simp: clk_get_def split: option.splits)

text \<open>The reverse edges and the counters follow from the dependency map.\<close>

lemma dag_ok_ext:
  assumes ok: "dag_ok L" "dag_ok L'" and eq: "\<And>n. contains L n \<longleftrightarrow> contains L' n" "\<And>n. dep_of L n = dep_of L' n"
    and conf: "indexers L = indexers L'" "base L = base L'" "base_clock L = base_clock L'"
  shows "L = L'"
proof -
  have d: "deps L = deps L'" using ok eq by (rule bt_get_deps_eq)
  have "bt_get (dependents L) n = bt_get (dependents L') n" for n
  proof (cases "contains L n")
    case True
    then obtain cs cs' where c: "bt_get (dependents L) n = Some cs" "bs_inv cs" "set cs = {c. n \<in> dep_of L c}"
        "bt_get (dependents L') n = Some cs'" "bs_inv cs'" "set cs' = {c. n \<in> dep_of L' c}"
      using dag_ok_dependents(1) [OF ok(1), of n] dag_ok_dependents(1) [OF ok(2), of n] eq(1) by blast
    then have "cs = cs'" using eq(2) by (intro bs_ext) simp_all
    with c show ?thesis by simp
  next
    case False
    then show ?thesis using dag_ok_dependents(2) ok eq(1) by metis
  qed
  then have r: "dependents L = dependents L'" using dag_okD(2) ok by (intro bt_ext) auto
  have "clk_get (next_seq L) k = clk_get (next_seq L') k" for k
  proof -
    have "s < clk_get (next_seq L) k \<longleftrightarrow> s < clk_get (next_seq L') k" for s
      using dag_okD(6) [OF ok(1)] dag_okD(6) [OF ok(2)] eq(1) by metis
    from this [of "clk_get (next_seq L) k"] this [of "clk_get (next_seq L') k"] show ?thesis by simp
  qed
  then have "bt_get (next_seq L) k = bt_get (next_seq L') k" for k
    by (simp add: bt_get_next_seq [OF ok(1)] bt_get_next_seq [OF ok(2)])
  then have "next_seq L = next_seq L'" using dag_okD(3) ok by (intro bt_ext) auto
  with d r conf show ?thesis by (cases L; cases L') simp
qed

text \<open>Delivering a sequence of nodes.\<close>

fun deliver :: "linearizer \<Rightarrow> (node_id \<times> node_id list) list \<Rightarrow> (add_error, linearizer) result" where
  "deliver L [] = Inr L"
| "deliver L ((n, hs) # xs) = bind_res (add L n hs) (\<lambda>L. deliver L xs)"

lemma deliver_effect:
  assumes "dag_ok L" "deliver L xs = Inr L'"
  shows "dag_ok L' \<and> indexers L' = indexers L \<and> base L' = base L \<and> base_clock L' = base_clock L \<and>
         (\<forall>m. contains L' m \<longleftrightarrow> contains L m \<or> m \<in> fst ` set xs) \<and>
         (\<forall>m. contains L m \<longrightarrow> dep_of L' m = dep_of L m) \<and>
         (\<forall>(n, hs) \<in> set xs. dep_of L' n = dep_set n hs)"
  using assms
proof (induction L xs rule: deliver.induct)
  case (2 L n hs xs)
  then obtain L1 where L1: "add L n hs = Inr L1" "deliver L1 xs = Inr L'" by auto
  note ih = 2(1) [OF add_ok [OF 2(2) L1(1)] L1(2)]
  have "contains L1 n" "dep_of L1 n = dep_set n hs" by (simp_all add: add_effect [OF L1(1)])
  then have "dep_of L' n = dep_set n hs" using ih by metis
  moreover have "m \<noteq> n" if "contains L m" for m using add_deps_delivered(1) [OF 2(2) L1(1)] that by blast
  ultimately show ?case using ih add_effect [OF L1(1)] by auto
qed auto

lemma deliverD:
  assumes "dag_ok L" "deliver L xs = Inr L'"
  shows "dag_ok L'" "indexers L' = indexers L" "base L' = base L" "base_clock L' = base_clock L"
    "contains L' m \<longleftrightarrow> contains L m \<or> m \<in> fst ` set xs"
    "contains L m \<Longrightarrow> dep_of L' m = dep_of L m"
    "(n, hs) \<in> set xs \<Longrightarrow> dep_of L' n = dep_set n hs"
  using deliver_effect [OF assms] by auto

lemma set_pairs_cong:
  assumes "(n, hs) \<in> set xs" "set (map (\<lambda>(n, hs). (n, set hs)) xs) = set (map (\<lambda>(n, hs). (n, set hs)) ys)"
  obtains hs' where "(n, hs') \<in> set ys" "set hs' = set hs"
proof -
  have "(n, set hs) \<in> (\<lambda>(n, hs). (n, set hs)) ` set xs" using assms(1) by (rule rev_image_eqI) simp
  then have "(n, set hs) \<in> (\<lambda>(n, hs). (n, set hs)) ` set ys" using assms(2) by simp
  then show ?thesis using that by auto
qed

lemma deliver_converges:
  assumes ok: "dag_ok L" and r: "deliver L xs = Inr L1" "deliver L ys = Inr L2"
    and same: "set (map (\<lambda>(n, hs). (n, set hs)) xs) = set (map (\<lambda>(n, hs). (n, set hs)) ys)"
  shows "L1 = L2"
proof -
  note d1 = deliverD [OF ok r(1)] and d2 = deliverD [OF ok r(2)]
  have fst_eq: "fst ` set xs = fst ` set ys"
    using arg_cong [OF same, of "\<lambda>s. fst ` s"] by (simp add: image_image case_prod_beta)
  have con: "contains L1 n \<longleftrightarrow> contains L2 n" for n by (simp only: d1(5) d2(5) fst_eq)
  have dep: "dep_of L1 n = dep_of L2 n" for n
  proof (cases "n \<in> fst ` set xs")
    case True
    then obtain hs where x: "(n, hs) \<in> set xs" by auto
    then obtain hs' where y: "(n, hs') \<in> set ys" "set hs' = set hs" using same by (rule set_pairs_cong)
    show ?thesis using d1(7) [OF x] d2(7) [OF y(1)] y(2) by (simp add: dep_set_def)
  next
    case False
    show ?thesis
    proof (cases "contains L n")
      case True
      then show ?thesis using d1(6) d2(6) by simp
    next
      case nc: False
      then have "\<not> contains L1 n" "\<not> contains L2 n" using False fst_eq d1(5) d2(5) by simp_all
      then show ?thesis using dep_of_contains by blast
    qed
  qed
  show ?thesis
    using d1(1) d2(1) con dep by (rule dag_ok_ext) (simp_all add: d1(2-4) d2(2-4))
qed

section \<open>Reachability\<close>

definition dep_edges :: "(node_id, node_id btset) btmap \<Rightarrow> (node_id \<times> node_id) set" where
  "dep_edges m = {(n, d). \<exists>ds. bt_get m n = Some ds \<and> d \<in> set ds}"

lemma dep_edges_edges: "dep_edges (deps L) = edges L"
  by (auto simp: dep_edges_def edges_def dep_of_def split: option.splits)

lemma push_new_sets:
  "push_new ds st vis = (st', vis') \<Longrightarrow> set vis' = set vis \<union> set ds \<and> set st' = set st \<union> (set ds - set vis)"
  by (induction ds arbitrary: st vis) (auto split: if_splits)

lemma closed_reach:
  assumes "\<And>v. v \<in> V - S \<Longrightarrow> E `` {v} \<subseteq> V \<and> b \<notin> E `` {v}" "d \<in> V" "(d, b) \<in> E\<^sup>+"
  shows "\<exists>s \<in> S. (s, b) \<in> E\<^sup>+"
  using assms(3,2)
proof (induction rule: converse_trancl_induct)
  case (base y)
  then have "y \<in> S" using assms(1) [of y] by blast
  then show ?case using base by blast
next
  case (step y z)
  then show ?case using assms(1) [of y] by (cases "y \<in> S") (auto intro: trancl_into_trancl2)
qed

lemma sees_loop_iff:
  assumes "\<And>v. v \<in> set vis - set st \<Longrightarrow> dep_edges m `` {v} \<subseteq> set vis \<and> b \<notin> dep_edges m `` {v}"
  shows "sees_loop m b st vis \<longleftrightarrow> (\<exists>s \<in> set st. (s, b) \<in> (dep_edges m)\<^sup>+)"
  using assms
proof (induction m b st vis rule: sees_loop.induct)
  case (1 m b vis)
  then show ?case by simp
next
  case (2 m b n st vis)
  show ?case
  proof (cases "bt_get m n")
    case None
    then have no: "dep_edges m `` {n} = {}" by (auto simp: dep_edges_def)
    then have "(n, b) \<notin> (dep_edges m)\<^sup>+" by (auto dest: tranclD)
    moreover have "dep_edges m `` {v} \<subseteq> set vis \<and> b \<notin> dep_edges m `` {v}" if "v \<in> set vis - set st" for v
      using 2(3) [of v] that no by (cases "v = n") auto
    ultimately show ?thesis using 2(1) [OF None] None by simp
  next
    case (Some ds)
    then have succ: "dep_edges m `` {n} = set ds" by (auto simp: dep_edges_def)
    show ?thesis
    proof (cases "b \<in> set ds")
      case True
      then have "(n, b) \<in> dep_edges m" using succ by auto
      then show ?thesis using True Some by auto
    next
      case False
      obtain st' vis' where p: "push_new ds st vis = (st', vis')" by fastforce
      note sets = push_new_sets [OF p]
      have inv: "dep_edges m `` {v} \<subseteq> set vis' \<and> b \<notin> dep_edges m `` {v}" if "v \<in> set vis' - set st'" for v
        using 2(3) [of v] that sets succ False by (cases "v = n") auto
      have ih: "sees_loop m b st' vis' \<longleftrightarrow> (\<exists>s \<in> set st'. (s, b) \<in> (dep_edges m)\<^sup>+)"
        using 2(2) [OF Some False p [symmetric] refl] inv by simp
      have "(\<exists>s \<in> set st'. (s, b) \<in> (dep_edges m)\<^sup>+) \<longleftrightarrow> (\<exists>s \<in> set (n # st). (s, b) \<in> (dep_edges m)\<^sup>+)"
      proof
        assume "\<exists>s \<in> set st'. (s, b) \<in> (dep_edges m)\<^sup>+"
        then show "\<exists>s \<in> set (n # st). (s, b) \<in> (dep_edges m)\<^sup>+"
          using sets succ by (auto intro: trancl_into_trancl2)
      next
        assume "\<exists>s \<in> set (n # st). (s, b) \<in> (dep_edges m)\<^sup>+"
        moreover have "\<exists>s \<in> set st'. (s, b) \<in> (dep_edges m)\<^sup>+" if nb: "(n, b) \<in> (dep_edges m)\<^sup>+"
        proof -
          obtain d where d: "(n, d) \<in> dep_edges m" "(d, b) \<in> (dep_edges m)\<^sup>*" using nb by (meson tranclD)
          then have "d \<in> set ds" "d \<noteq> b" using succ False by auto
          then show ?thesis using closed_reach [of "set vis'" "set st'" "dep_edges m" b d] inv sets d(2)
            by (auto simp: rtrancl_eq_or_trancl)
        qed
        ultimately show "\<exists>s \<in> set st'. (s, b) \<in> (dep_edges m)\<^sup>+" using sets by auto
      qed
      then show ?thesis using ih Some False p by simp
    qed
  qed
qed

lemma sees_iff:
  assumes "dag_ok L"
  shows "sees L a b \<longleftrightarrow> (a, b) \<in> (edges L)\<^sup>*"
proof (cases "a = b")
  case True
  then show ?thesis by (simp add: sees_def)
next
  case False
  have "contains L a \<and> contains L b" if "(a, b) \<in> (edges L)\<^sup>*"
    using that False dag_okD(5) [OF assms] dep_of_contains
    by (metis (mono_tags, lifting) converse_rtranclE edges_def mem_Collect_eq old.prod.case rtranclE)
  moreover have "sees_loop (deps L) b [a] [] \<longleftrightarrow> (a, b) \<in> (edges L)\<^sup>+"
    using sees_loop_iff [of "[]" "[a]" "deps L" b] by (simp add: dep_edges_edges del: sees_loop.simps)
  ultimately show ?thesis using False by (auto simp: sees_def rtrancl_eq_or_trancl)
qed

section \<open>Clocks count the causal past\<close>

text \<open>The clock \<open>c\<close> extended by the nodes reachable from \<open>S\<close> reaches \<open>len\<close> for writer \<open>k\<close>.\<close>

definition covers :: "(node_id \<times> node_id) set \<Rightarrow> node_id set \<Rightarrow> clock \<Rightarrow> bytes \<Rightarrow> nat \<Rightarrow> bool" where
  "covers E S c k len \<longleftrightarrow> len \<le> clk_get c k \<or> (\<exists>v. v \<in> E\<^sup>* `` S \<and> key v = k \<and> len \<le> Suc (seq v))"

lemma covers_closed:
  assumes "\<And>v. v \<in> V - S \<Longrightarrow> E `` {v} \<subseteq> V \<and> Suc (seq v) \<le> clk_get c (key v)" "d \<in> V" "(d, v) \<in> E\<^sup>*"
    and "len \<le> Suc (seq v)"
  shows "covers E S c (key v) len"
  using assms(3,2)
proof (induction rule: converse_rtrancl_induct)
  case base
  then show ?case using assms(1) [of v] assms(4) by (cases "v \<in> S") (auto simp: covers_def)
next
  case (step y z)
  show ?case
  proof (cases "y \<in> S")
    case True
    have "(y, v) \<in> E\<^sup>*" using step.hyps by (rule converse_rtrancl_into_rtrancl)
    then show ?thesis using True assms(4) by (auto simp: covers_def)
  next
    case False
    then show ?thesis using step assms(1) [of y] by blast
  qed
qed

lemma clock_loop_iff:
  assumes "\<And>v. v \<in> set vis - set st \<Longrightarrow>
      dep_edges m `` {v} \<subseteq> set vis \<and> Suc (seq v) \<le> clk_get c (key v)"
  shows "len \<le> clk_get (clock_loop m st vis c) k \<longleftrightarrow> covers (dep_edges m) (set st) c k len"
  using assms
proof (induction m st vis c rule: clock_loop.induct)
  case (1 m vis c)
  then show ?case by (simp add: covers_def)
next
  case (2 m n st vis c)
  let ?c = "clk_raise c (key n) (seq n + 1)" and ?E = "dep_edges m"
  define ds where "ds = (case bt_get m n of None \<Rightarrow> [] | Some ds \<Rightarrow> ds)"
  obtain st' vis' where p: "push_new ds st vis = (st', vis')" by fastforce
  note sets = push_new_sets [OF p]
  have succ: "?E `` {n} = set ds" unfolding ds_def dep_edges_def by (cases "bt_get m n") auto
  have inv: "?E `` {v} \<subseteq> set vis' \<and> Suc (seq v) \<le> clk_get ?c (key v)" if "v \<in> set vis' - set st'" for v
    using 2(3) [of v] that sets succ by (cases "v = n") (auto simp: max_def)
  have step: "clock_loop m (n # st) vis c = clock_loop m st' vis' ?c"
    using p by (auto simp: ds_def split: option.splits)
  have "len \<le> clk_get (clock_loop m st' vis' ?c) k \<longleftrightarrow> covers ?E (set st') ?c k len"
  proof (cases "bt_get m n")
    case None
    then have "st' = st" "vis' = vis" using p by (simp_all add: ds_def)
    then show ?thesis using 2(1) [OF refl None] inv by simp
  next
    case (Some ds')
    then show ?thesis using 2(2) [OF refl Some] inv p by (simp add: ds_def)
  qed
  also have "\<dots> \<longleftrightarrow> covers ?E (set (n # st)) c k len"
  proof
    assume "covers ?E (set st') ?c k len"
    then consider "len \<le> clk_get ?c k" | v s where "s \<in> set st'" "(s, v) \<in> ?E\<^sup>*" "key v = k" "len \<le> Suc (seq v)"
      unfolding covers_def by blast
    then show "covers ?E (set (n # st)) c k len"
    proof cases
      case 1
      then have "len \<le> clk_get c k \<or> key n = k \<and> len \<le> Suc (seq n)" by (auto simp: max_def split: if_splits)
      then show ?thesis unfolding covers_def by auto
    next
      case 2
      have "(n, v) \<in> ?E\<^sup>* \<or> s \<in> set st"
        using 2(1,2) sets succ by (auto intro: converse_rtrancl_into_rtrancl)
      then show ?thesis using 2 unfolding covers_def by auto
    qed
  next
    assume "covers ?E (set (n # st)) c k len"
    then consider "len \<le> clk_get c k" | v s where "s \<in> set st" "(s, v) \<in> ?E\<^sup>*" "key v = k" "len \<le> Suc (seq v)"
      | v where "(n, v) \<in> ?E\<^sup>*" "key v = k" "len \<le> Suc (seq v)"
      unfolding covers_def by auto
    then show "covers ?E (set st') ?c k len"
    proof cases
      case 3
      show ?thesis
      proof (cases "v = n")
        case False
        then obtain d where d: "(n, d) \<in> ?E" "(d, v) \<in> ?E\<^sup>*" using 3(1) by (metis converse_rtranclE)
        then have "d \<in> set vis'" using succ sets by auto
        then show ?thesis using covers_closed [OF inv _ d(2) 3(3)] 3(2) by blast
      qed (use 3 in \<open>auto simp: covers_def max_def\<close>)
    qed (use sets in \<open>auto simp: covers_def max_def\<close>)
  qed
  finally show ?case unfolding step .
qed

lemma own_history:
  assumes "dag_ok L" "contains L (NodeId k s)" "r \<le> s"
  shows "(NodeId k s, NodeId k r) \<in> (edges L)\<^sup>*"
  using assms(3,2)
proof (induction rule: dec_induct)
  case (step t)
  then have "(NodeId k (Suc t), NodeId k t) \<in> edges L"
    using dag_okD(8) [OF assms(1)] by (simp add: edges_def)
  moreover from this have "contains L (NodeId k t)"
    using dag_okD(5) [OF assms(1)] by (simp add: edges_def)
  ultimately show ?case using step.IH by (meson converse_rtrancl_into_rtrancl)
qed simp

lemma reach_contains:
  assumes "dag_ok L" "(a, b) \<in> (edges L)\<^sup>*" "contains L a"
  shows "contains L b"
  using assms(2,3)
  by (induction rule: rtrancl_induct) (auto simp: edges_def dest: dag_okD(5) [OF assms(1)])

lemma clock_sees:
  assumes ok: "dag_ok L" and n: "contains L n"
  shows "s < clk_get (clock L n) k \<longleftrightarrow> sees L n (NodeId k s)"
proof -
  have "s < clk_get (clock L n) k \<longleftrightarrow> covers (edges L) {n} [] k (Suc s)"
    using clock_loop_iff [of "[n]" "[n]" "deps L" "[]" "Suc s" k] n
    by (simp add: clock_def Suc_le_eq dep_edges_edges del: clock_loop.simps)
  also have "\<dots> \<longleftrightarrow> (n, NodeId k s) \<in> (edges L)\<^sup>*"
  proof
    assume "covers (edges L) {n} [] k (Suc s)"
    then obtain v where v: "(n, v) \<in> (edges L)\<^sup>*" "key v = k" "s \<le> seq v" by (auto simp: covers_def)
    then have "contains L (NodeId k (seq v))" using reach_contains [OF ok v(1) n] by auto
    from own_history [OF ok this v(3)] have "(v, NodeId k s) \<in> (edges L)\<^sup>*" using v(2) by auto
    with v(1) show "(n, NodeId k s) \<in> (edges L)\<^sup>*" by (rule rtrancl_trans)
  next
    assume "(n, NodeId k s) \<in> (edges L)\<^sup>*"
    then show "covers (edges L) {n} [] k (Suc s)" by (force simp: covers_def)
  qed
  finally show ?thesis by (simp add: sees_iff [OF ok])
qed

section \<open>Correctness of the topological sort\<close>

lemma relax_spec:
  assumes "distinct cs" "bs_inv fr"
    and "\<And>c. c \<in> set cs \<Longrightarrow> bt_get indeg c \<noteq> Some 0"
    and "strict \<longrightarrow> (\<forall>c \<in> set cs. bt_get indeg c \<noteq> None)"
  shows "\<exists>indeg' fr'. relax strict cs indeg fr = Some (indeg', fr') \<and>
      (\<forall>n. bt_get indeg' n = (if n \<in> set cs then map_option (\<lambda>d. d - 1) (bt_get indeg n) else bt_get indeg n)) \<and>
      bs_inv fr' \<and> set fr' = set fr \<union> {c \<in> set cs. bt_get indeg c = Some 1}"
  using assms
proof (induction cs arbitrary: indeg fr)
  case (Cons c cs)
  show ?case
  proof (cases "bt_get indeg c")
    case None
    then have "\<not> strict" using Cons.prems(4) by auto
    then obtain indeg' fr' where r: "relax strict cs indeg fr = Some (indeg', fr')"
        "\<forall>n. bt_get indeg' n = (if n \<in> set cs then map_option (\<lambda>d. d - 1) (bt_get indeg n) else bt_get indeg n)"
        "bs_inv fr'" "set fr' = set fr \<union> {c \<in> set cs. bt_get indeg c = Some 1}"
      using Cons.IH [of fr indeg] Cons.prems by auto
    then show ?thesis using None \<open>\<not> strict\<close> by auto
  next
    case (Some d)
    then obtain e where e: "d = Suc e" using Cons.prems(3) [of c] by (cases d) auto
    let ?i = "bt_insert c e indeg" and ?f = "if e = 0 then bs_insert c fr else fr"
    have "c \<notin> set cs" using Cons.prems(1) by simp
    then have same: "bt_get ?i x = bt_get indeg x" if "x \<in> set cs" for x using that by auto
    then obtain indeg' fr' where r: "relax strict cs ?i ?f = Some (indeg', fr')"
        "\<forall>n. bt_get indeg' n = (if n \<in> set cs then map_option (\<lambda>d. d - 1) (bt_get ?i n) else bt_get ?i n)"
        "bs_inv fr'" "set fr' = set ?f \<union> {c \<in> set cs. bt_get ?i c = Some 1}"
    proof -
      have "distinct cs" "bs_inv ?f" "\<And>x. x \<in> set cs \<Longrightarrow> bt_get ?i x \<noteq> Some 0"
        "strict \<longrightarrow> (\<forall>x \<in> set cs. bt_get ?i x \<noteq> None)"
        using Cons.prems same by auto
      from Cons.IH [OF this] show ?thesis using that by blast
    qed
    have "set fr' = set fr \<union> {x \<in> set (c # cs). bt_get indeg x = Some 1}"
      using r(4) same \<open>c \<notin> set cs\<close> Some e by auto
    moreover have "bt_get indeg' n = (if n \<in> set (c # cs) then map_option (\<lambda>d. d - 1) (bt_get indeg n) else bt_get indeg n)" for n
      using r(2) same \<open>c \<notin> set cs\<close> Some e by auto
    ultimately show ?thesis using r(1,3) Some e by auto
  qed
qed auto

definition topo :: "linearizer \<Rightarrow> node_id set \<Rightarrow> node_id list \<Rightarrow> bool" where
  "topo L N out \<longleftrightarrow> (\<forall>i < length out. dep_of L (out ! i) \<inter> N \<subseteq> set (take i out))"

lemma topo_snoc: "topo L N (out @ [x]) \<longleftrightarrow> topo L N out \<and> dep_of L x \<inter> N \<subseteq> set out"
  by (auto simp: topo_def nth_append less_Suc_eq)

lemma topo_closed: "topo L N out \<Longrightarrow> n \<in> set out \<Longrightarrow> dep_of L n \<inter> N \<subseteq> set out"
  by (auto simp: topo_def in_set_conv_nth) (metis IntI in_set_takeD subsetD in_set_conv_nth)

definition kahn_inv :: "linearizer \<Rightarrow> node_id set \<Rightarrow> (node_id, nat) btmap \<Rightarrow> node_id btset \<Rightarrow> node_id list \<Rightarrow> bool" where
  "kahn_inv L N indeg fr out \<longleftrightarrow>
     (\<forall>n. bt_get indeg n = (if n \<in> N then Some (card (dep_of L n \<inter> N - set out)) else None)) \<and>
     bs_inv fr \<and> set fr = {n \<in> N. n \<notin> set out \<and> dep_of L n \<inter> N \<subseteq> set out} \<and>
     distinct out \<and> set out \<subseteq> N \<and> topo L N out"

lemma finite_dep_of [simp]: "finite (dep_of L n)"
  by (auto simp: dep_of_def split: option.splits)

lemma kahn_step:
  assumes ok: "dag_ok L" and N: "N \<subseteq> nodes_of L" "strict \<Longrightarrow> N = nodes_of L"
    and inv: "kahn_inv L N indeg (x # fr) out"
  shows "\<exists>indeg' fr'. relax strict (case bt_get (dependents L) x of None \<Rightarrow> [] | Some cs \<Rightarrow> cs) indeg fr =
           Some (indeg', fr') \<and> kahn_inv L N indeg' fr' (out @ [x])"
proof -
  have x: "x \<in> N" "x \<notin> set out" "dep_of L x \<inter> N \<subseteq> set out" using inv by (auto simp: kahn_inv_def)
  obtain cs where cs: "bt_get (dependents L) x = Some cs" "bs_inv cs" "set cs = {c. x \<in> dep_of L c}"
    using dag_ok_dependents(1) [OF ok, of x] x(1) N(1) by (auto simp: nodes_of_def)
  have indeg: "bt_get indeg n = (if n \<in> N then Some (card (dep_of L n \<inter> N - set out)) else None)" for n
    using inv by (simp add: kahn_inv_def)
  have pos: "bt_get indeg c \<noteq> Some 0" if "c \<in> set cs" for c
    using that cs(3) x by (auto simp: indeg)
  have known: "strict \<longrightarrow> (\<forall>c \<in> set cs. bt_get indeg c \<noteq> None)"
    using cs(3) N(2) by (auto simp: indeg nodes_of_def dest: dep_of_contains)
  have fr: "bs_inv fr" "set fr = {n \<in> N. n \<notin> set out \<and> dep_of L n \<inter> N \<subseteq> set out} - {x}"
    using inv by (auto simp: kahn_inv_def bs_inv_Cons)
  obtain indeg' fr' where r: "relax strict cs indeg fr = Some (indeg', fr')"
      "\<And>n. bt_get indeg' n = (if n \<in> set cs then map_option (\<lambda>d. d - 1) (bt_get indeg n) else bt_get indeg n)"
      "bs_inv fr'" "set fr' = set fr \<union> {c \<in> set cs. bt_get indeg c = Some 1}"
    using relax_spec [OF bs_inv_distinct [OF cs(2)] fr(1) pos known] by blast
  have rest: "dep_of L n \<inter> N - set (out @ [x]) = dep_of L n \<inter> N - set out - {x}" for n by auto
  have "bt_get indeg' n = (if n \<in> N then Some (card (dep_of L n \<inter> N - set (out @ [x]))) else None)" for n
    using x cs(3) unfolding r(2) indeg rest by (auto simp: card_Diff_singleton_if)
  moreover have "n \<in> set fr' \<longleftrightarrow> n \<in> N \<and> n \<notin> set (out @ [x]) \<and> dep_of L n \<inter> N \<subseteq> set (out @ [x])" for n
  proof (cases "x \<in> dep_of L n")
    case True
    then have xn: "x \<in> dep_of L n \<inter> N - set out" using x by simp
    have "n \<notin> set (out @ [x])" "n \<notin> set fr"
      using True x topo_closed [of L N out] inv no_self_dep [OF ok] fr(2) by (auto simp: kahn_inv_def)
    moreover have "card (dep_of L n \<inter> N - set out) = 1 \<longleftrightarrow> dep_of L n \<inter> N - set out = {x}"
      using xn unfolding One_nat_def card_1_singleton_iff by (metis singletonD)
    ultimately show ?thesis using True x cs(3) xn unfolding r(4) indeg by auto
  next
    case False
    then show ?thesis using x cs(3) unfolding r(4) fr(2) by auto
  qed
  moreover have "topo L N (out @ [x])" using inv x(3) by (simp add: topo_snoc kahn_inv_def)
  ultimately show ?thesis using r(1,3) cs(1) inv x unfolding kahn_inv_def by auto
qed

lemma kahn_done:
  assumes ok: "dag_ok L" and N: "N \<subseteq> nodes_of L" and inv: "kahn_inv L N indeg [] out"
  shows "set out = N"
proof (rule ccontr)
  assume "set out \<noteq> N"
  then obtain n where n: "n \<in> N - set out" using inv by (auto simp: kahn_inv_def)
  have "edges L \<subseteq> nodes_of L \<times> nodes_of L"
    using dag_okD(5) [OF ok] by (auto simp: edges_def nodes_of_def dest: dep_of_contains)
  then have "finite (edges L)" by (rule finite_subset) simp
  then have "wf ((edges L)\<inverse>)" using dag_okD(9) [OF ok] by (rule finite_acyclic_wf_converse)
  from wfE_min [OF this n] obtain m where m: "m \<in> N - set out" "\<And>y. (y, m) \<in> (edges L)\<inverse> \<Longrightarrow> y \<notin> N - set out" by blast
  then have "dep_of L m \<inter> N \<subseteq> set out" by (auto simp: edges_def)
  then show False using m(1) inv by (auto simp: kahn_inv_def)
qed

lemma kahn_correct:
  assumes ok: "dag_ok L" and N: "N \<subseteq> nodes_of L" "strict \<Longrightarrow> N = nodes_of L"
    and "kahn_inv L N indeg fr out"
  shows "\<exists>res. kahn strict (dependents L) indeg fr out = Some res \<and> distinct res \<and> set res = N \<and> topo L N res"
  using assms(4)
proof (induction "card (N - set out)" arbitrary: indeg fr out rule: less_induct)
  case less
  have fin: "finite N" using N(1) finite_subset finite_nodes_of by blast
  show ?case
  proof (cases fr)
    case Nil
    then have "set out = N" using less.prems kahn_done [OF ok N(1)] by blast
    then show ?thesis using Nil less.prems by (simp add: kahn_inv_def)
  next
    case (Cons x fr0)
    have x: "x \<in> N - set out" using less.prems Cons by (auto simp: kahn_inv_def)
    obtain indeg' fr' where r: "relax strict (case bt_get (dependents L) x of None \<Rightarrow> [] | Some cs \<Rightarrow> cs) indeg fr0 =
        Some (indeg', fr')" "kahn_inv L N indeg' fr' (out @ [x])"
      using kahn_step [OF ok N] less.prems Cons by blast
    have "N - set (out @ [x]) = (N - set out) - {x}" by auto
    then have "card (N - set (out @ [x])) < card (N - set out)" using x fin by (metis card_Diff1_less finite_Diff)
    then show ?thesis using less.hyps [OF _ r(2)] Cons r(1) by simp
  qed
qed

lemma topo_full: "dag_ok L \<Longrightarrow> topo L (nodes_of L) out \<longleftrightarrow> (\<forall>i < length out. dep_of L (out ! i) \<subseteq> set (take i out))"
  using dag_okD(5) [of L] unfolding topo_def nodes_of_def by blast

lemma sorted_wrt_map_fst_filter: "bt_inv m \<Longrightarrow> bs_inv (map fst (filter P m))"
  using bs_inv_keys bt_inv_filter by blast

lemma set_zero_keys:
  "bt_inv m \<Longrightarrow> set (map fst (filter (\<lambda>(_, d). d = (0 :: nat)) m)) = {n. bt_get m n = Some 0}"
  by (auto simp: bt_get_iff image_iff)

lemma kahn_inv_init:
  assumes "bt_inv indeg" "\<And>n. bt_get indeg n = (if n \<in> N then Some (card (dep_of L n \<inter> N)) else None)"
  shows "kahn_inv L N indeg (map fst (filter (\<lambda>(_, d). d = 0) indeg)) []"
  using assms sorted_wrt_map_fst_filter [OF assms(1)] set_zero_keys [OF assms(1)]
  by (auto simp: kahn_inv_def topo_def split: if_splits)

lemma bt_inv_map: "bt_inv (map (\<lambda>(n, d). (n, f n d)) m) \<longleftrightarrow> bt_inv m"
  by (simp add: bt_inv_def o_def case_prod_beta)

lemma bt_get_map: "bt_get (map (\<lambda>(n, d). (n, f n d)) m) n = map_option (f n) (bt_get m n)"
  by (induction m) auto

lemma plain_order_correct:
  assumes ok: "dag_ok L"
  shows "\<exists>out. plain_order L = Some out \<and> distinct out \<and> set out = nodes_of L \<and> topo L (nodes_of L) out"
proof -
  let ?i = "map (\<lambda>(n, d). (n, length d)) (deps L)"
  have "bt_get ?i n = (if n \<in> nodes_of L then Some (card (dep_of L n \<inter> nodes_of L)) else None)" for n
  proof (cases "bt_get (deps L) n")
    case None
    then show ?thesis using bt_get_map [of "\<lambda>_. length" "deps L" n] by (simp add: nodes_of_def contains_iff)
  next
    case (Some ds)
    have "dep_of L n \<inter> nodes_of L = dep_of L n" using dag_okD(5) [OF ok] by (auto simp: nodes_of_def)
    moreover have "length ds = card (set ds)"
      using bs_inv_distinct [OF dag_okD(4) [OF ok Some]] by (simp add: distinct_card)
    ultimately show ?thesis using Some bt_get_map [of "\<lambda>_. length" "deps L" n] by (simp add: nodes_of_def contains_iff dep_of_def)
  qed
  moreover have "bt_inv ?i" using dag_okD(1) [OF ok] bt_inv_map [of "\<lambda>_. length" "deps L"] by simp
  ultimately have "kahn_inv L (nodes_of L) ?i (map fst (filter (\<lambda>(_, d). d = 0) ?i)) []"
    by (intro kahn_inv_init)
  from kahn_correct [OF ok _ _ this, of True] show ?thesis by (simp add: plain_order_def Let_def)
qed

lemma topo_key_order_correct:
  assumes ok: "dag_ok L" and ns: "bs_inv ns" "set ns \<subseteq> nodes_of L" "set ns \<inter> set emitted = {}"
  shows "\<exists>out. topo_key_order L ns emitted = Some out \<and> distinct out \<and> set out = set ns \<and> topo L (set ns) out"
proof -
  let ?f = "\<lambda>n. case bt_get (deps L) n of
      None \<Rightarrow> 0 | Some ds \<Rightarrow> length (filter (\<lambda>d. d \<in> set ns \<and> d \<notin> set emitted) ds)"
  let ?i = "map (\<lambda>n. (n, ?f n)) ns"
  have f: "?f n = card (dep_of L n \<inter> set ns)" if n: "n \<in> set ns" for n
  proof -
    obtain ds where ds: "bt_get (deps L) n = Some ds"
      using subsetD [OF ns(2) n] by (auto simp: nodes_of_def contains_iff)
    have "distinct (filter (\<lambda>d. d \<in> set ns \<and> d \<notin> set emitted) ds)"
      using bs_inv_distinct [OF dag_okD(4) [OF ok ds]] by simp
    from distinct_card [OF this]
    have "?f n = card (set (filter (\<lambda>d. d \<in> set ns \<and> d \<notin> set emitted) ds))"
      using ds by simp
    moreover have "set (filter (\<lambda>d. d \<in> set ns \<and> d \<notin> set emitted) ds) = dep_of L n \<inter> set ns"
      using ds ns(3) by (auto simp: dep_of_def)
    ultimately show ?thesis by simp
  qed
  have "bt_get ?i n = (if n \<in> set ns then Some (?f n) else None)" for n
    by (simp add: map_of_map_restrict restrict_map_def)
  then have "bt_get ?i n = (if n \<in> set ns then Some (card (dep_of L n \<inter> set ns)) else None)" for n
    using f by simp
  moreover have "bt_inv ?i" using ns(1) by (simp add: bt_inv_def bs_inv_def o_def)
  ultimately have "kahn_inv L (set ns) ?i (map fst (filter (\<lambda>(_, d). d = 0) ?i)) []"
    by (intro kahn_inv_init)
  from kahn_correct [OF ok ns(2) _ this, of False] show ?thesis by (simp add: topo_key_order_def Let_def)
qed

section \<open>Properties\<close>

text \<open>
  Delivery: \<open>add\<close> reports a duplicate, a sequence gap with the number it expected, or
  the first undelivered head, in this order; otherwise it succeeds, the node is there with exactly
  its heads and its predecessor as dependencies, nothing else changes, and the DAG invariant
  (closed, gap free, mirrored in \<open>dependents\<close>, acyclic) still holds.
\<close>

theorem add_delivers:
  assumes "dag_ok L"
  shows "case add L n hs of
           Inl e \<Rightarrow> e = (if contains L n then Duplicate n
                        else if seq n \<noteq> clk_get (next_seq L) (key n)
                             then Gap (key n) (clk_get (next_seq L) (key n)) (seq n)
                        else MissingHead (the (find (\<lambda>h. \<not> contains L h) hs)))
         | Inr L' \<Rightarrow> \<not> contains L n \<and> (\<forall>h \<in> set hs. contains L h) \<and> dag_ok L' \<and>
                     nodes_of L' = insert n (nodes_of L) \<and>
                     (\<forall>m. dep_of L' m = (if m = n then dep_set n hs else dep_of L m))"
proof (cases "add L n hs")
  case (Inl e)
  then show ?thesis using add_Inl [of L n hs e] by auto
next
  case (Inr L')
  then show ?thesis
    using add_ok [OF assms Inr] add_effect [OF Inr] by (auto elim: add_Inr)
qed

theorem add_delivers_witness:
  "case add new_linearizer (NodeId [1] 0) [] of
     Inl e \<Rightarrow> False
   | Inr L' \<Rightarrow> dag_ok L' \<and> nodes_of L' = insert (NodeId [1] 0) (nodes_of new_linearizer)"
proof -
  have "\<not> isl (add new_linearizer (NodeId [1] 0) [])" by code_simp
  then show ?thesis
    using add_delivers [OF new_linearizer_ok, of "NodeId [1] 0" "[]"]
    by (cases "add new_linearizer (NodeId [1] 0) []") auto
qed

text \<open>
  Convergence of delivery: two replicas that start alike and successfully receive the
  same nodes with the same heads, in whatever order, end in the same state, so every order, clock
  and quorum computed from it is the same.
\<close>

theorem delivery_order_irrelevant:
  assumes "dag_ok L" "deliver L xs = Inr L1" "deliver L ys = Inr L2"
    and "set (map (\<lambda>(n, hs). (n, set hs)) xs) = set (map (\<lambda>(n, hs). (n, set hs)) ys)"
  shows "L1 = L2"
  using assms by (rule deliver_converges)

theorem delivery_order_irrelevant_witness:
  "\<exists>L1. deliver new_linearizer [(NodeId [1] 0, []), (NodeId [2] 0, []), (NodeId [1] 1, [NodeId [2] 0])] = Inr L1 \<and>
        deliver new_linearizer [(NodeId [2] 0, []), (NodeId [1] 0, []), (NodeId [1] 1, [NodeId [2] 0])] = Inr L1"
proof -
  let ?xs = "[(NodeId [1] 0, []), (NodeId [2] 0, []), (NodeId [1] 1, [NodeId [2] 0])]"
  let ?ys = "[(NodeId [2] 0, []), (NodeId [1] 0, []), (NodeId [1] 1, [NodeId [2] 0])]"
  have "\<not> isl (deliver new_linearizer ?xs)" "\<not> isl (deliver new_linearizer ?ys)" by code_simp+
  then obtain L1 L2 where r: "deliver new_linearizer ?xs = Inr L1" "deliver new_linearizer ?ys = Inr L2"
    by (metis isl_def sum.exhaust)
  from delivery_order_irrelevant [OF new_linearizer_ok r] r show ?thesis by auto
qed

text \<open>
  \<open>sees\<close> is reachability along dependencies, and the vector clock of a node is its
  exact causal past: it includes length \<open>s + 1\<close> of a writer just if the node sees that writer's
  node number \<open>s\<close>.
\<close>

theorem sees_and_clock:
  assumes "dag_ok L"
  shows "(sees L a b \<longleftrightarrow> (a, b) \<in> (edges L)\<^sup>*) \<and>
         (contains L a \<longrightarrow> (clk_includes (clock L a) k (Suc s) \<longleftrightarrow> sees L a (NodeId k s)))"
  using sees_iff [OF assms] clock_sees [OF assms] by (auto simp: clk_includes_def Suc_le_eq)

theorem sees_and_clock_witness:
  "sees new_linearizer (NodeId [1] 0) (NodeId [1] 0) \<longleftrightarrow>
   (NodeId [1] 0, NodeId [1] 0) \<in> (edges new_linearizer)\<^sup>*"
  using sees_and_clock [OF new_linearizer_ok] by blast

text \<open>
  The priority Kahn sort always returns, emits every delivered node exactly once, and
  emits a node only after all its dependencies.
\<close>

theorem plain_order_topological:
  assumes "dag_ok L"
  shows "\<exists>out. plain_order L = Some out \<and> distinct out \<and> set out = nodes_of L \<and>
               (\<forall>i < length out. dep_of L (out ! i) \<subseteq> set (take i out))"
  using plain_order_correct [OF assms] topo_full [OF assms] by blast

theorem plain_order_topological_witness:
  "\<exists>out. plain_order new_linearizer = Some out \<and> distinct out \<and> set out = nodes_of new_linearizer"
  using plain_order_topological [OF new_linearizer_ok] by blast

end
