(* ===== verification/Consensus.thy ===== *)
theory Consensus
  imports Linearizer
begin

text \<open>
  The indexer quorum of crate \<open>autobase\<close> (\<open>linearizer.rs\<close>, the port of \<open>consensus.js\<close>): merges,
  indexer tails, acknowledgements, confirmation, the \<open>shift\<close> driver, the confirmed view, the final
  order, reconfiguration and quorum degrees.

  \<open>removed\<close> is the clock of what is already confirmed. The loops that the code bounds only by the
  shape of the DAG carry fuel, the number of nodes plus one; the lemmas show that it is never used
  up. \<open>None\<close> is a panic or exhausted fuel.
\<close>

section \<open>Predicates on the DAG\<close>

definition majority :: "linearizer \<Rightarrow> nat option" where
  "majority L = map_option (\<lambda>ix. length ix div 2 + 1) (indexers L)"

definition merge_heads :: "linearizer \<Rightarrow> node_id \<Rightarrow> clock \<Rightarrow> bytes btset \<Rightarrow> node_id list" where
  "merge_heads L node removed ix =
     (let clk = clock L node
      in concat (map (\<lambda>idx.
           let sq = int (clk_get clk idx) - 1 - (if idx = key node then 1 else 0)
           in if sq < 0 then []
              else let head = NodeId idx (nat sq)
                   in if \<not> contains L head \<or> clk_includes removed idx (nat sq + 1) then [] else [head]) ix))"

definition is_merge :: "linearizer \<Rightarrow> node_id \<Rightarrow> clock \<Rightarrow> bool" where
  "is_merge L node removed =
     (case indexers L of
        None \<Rightarrow> False
      | Some ix \<Rightarrow>
          if key node \<notin> set ix then False
          else let hs = merge_heads L node removed ix;
                   maximal = filter (\<lambda>h. \<not> (\<exists>p \<in> set hs. p \<noteq> h \<and> sees L p h)) hs
               in 1 < length maximal)"

text \<open>The scan over the current tails: whether \<open>head\<close> is a tail, and the tails it supersedes.\<close>

fun tail_scan :: "linearizer \<Rightarrow> node_id \<Rightarrow> node_id list \<Rightarrow> bool \<times> node_id list" where
  "tail_scan L head [] = (True, [])"
| "tail_scan L head (t # ts) =
     (if sees L head t then (False, [])
      else let (is_tail, rem) = tail_scan L head ts
           in (is_tail, if sees L t head then t # rem else rem))"

definition tail_step :: "linearizer \<Rightarrow> clock \<Rightarrow> bytes \<Rightarrow> node_id list \<Rightarrow> node_id list" where
  "tail_step L removed idx ts =
     (let head = NodeId idx (clk_get removed idx)
      in if \<not> contains L head \<or> clk_includes removed (key head) (seq head + 1) then ts
         else let (is_tail, rem) = tail_scan L head ts;
                  ts = filter (\<lambda>t. t \<notin> set rem) ts
              in if is_tail then ts @ [head] else ts)"

definition indexer_tails :: "linearizer \<Rightarrow> clock \<Rightarrow> node_id btset" where
  "indexer_tails L removed =
     (case indexers L of
        None \<Rightarrow> []
      | Some ix \<Rightarrow> bs_collect (fold (tail_step L removed) ix []))"

definition newer_for :: "linearizer \<Rightarrow> node_id \<Rightarrow> clock \<Rightarrow> clock \<Rightarrow> bytes \<times> nat \<Rightarrow> bool" where
  "newer_for L object oclk removed = (\<lambda>(k, latest).
     if (case indexers L of None \<Rightarrow> False | Some ix \<Rightarrow> k \<notin> set ix) then True
     else let oldest = clk_get removed k
          in if latest \<le> oldest then True
             else let len = max (clk_get oclk k) oldest
                  in if latest < len then False
                     else if latest = len then True
                     else let next = NodeId k len
                          in if \<not> contains L next then True else sees L next object)"

definition strictly_newer :: "linearizer \<Rightarrow> node_id \<Rightarrow> node_id \<Rightarrow> clock \<Rightarrow> bool" where
  "strictly_newer L object par removed =
     (if \<not> sees L par object then False
      else list_all (newer_for L object (clock L object) removed) (clock L par))"

definition acks :: "linearizer \<Rightarrow> node_id \<Rightarrow> clock \<Rightarrow> node_id list" where
  "acks L target removed =
     (case indexers L of
        None \<Rightarrow> []
      | Some ix \<Rightarrow>
          let tclk = clock L target
          in (if key target \<in> set ix then [target] else []) @
             concat (map (\<lambda>idx.
               if idx = key target then []
               else let node = NodeId idx (max (clk_get tclk idx) (clk_get removed idx))
                    in if \<not> contains L node \<or> \<not> sees L node target \<or>
                          \<not> strictly_newer L target node removed then [] else [node]) ix))"

section \<open>Confirmation\<close>

datatype confirm = Unseen | Newer | Acked

definition indexer_length :: "linearizer \<Rightarrow> bytes \<Rightarrow> nat" where
  "indexer_length L k = (case bt_get (next_seq L) k of None \<Rightarrow> 0 | Some n \<Rightarrow> n)"

text \<open>The scan of an indexer's nodes, newest first; the argument is \<open>i + 1\<close>.\<close>

primrec confirms_loop :: "linearizer \<Rightarrow> bytes \<Rightarrow> node_id \<Rightarrow> node_id list \<Rightarrow> nat \<Rightarrow> clock \<Rightarrow> bool \<Rightarrow> nat \<Rightarrow> confirm" where
  "confirms_loop L idx target aks maj removed newer 0 = Unseen"
| "confirms_loop L idx target aks maj removed newer (Suc i) =
     (let head = NodeId idx i
      in if \<not> contains L head then Unseen
         else let seen = length (filter (sees L head) aks)
              in if \<not> newer \<and> seen < maj then Unseen
                 else if \<not> strictly_newer L target head removed
                      then confirms_loop L idx target aks maj removed False i
                 else if seen < maj then Newer
                 else Acked)"

definition confirms :: "linearizer \<Rightarrow> bytes \<Rightarrow> node_id \<Rightarrow> node_id list \<Rightarrow> nat \<Rightarrow> clock \<Rightarrow> confirm" where
  "confirms L idx target aks len removed =
     (case majority L of
        None \<Rightarrow> Unseen
      | Some maj \<Rightarrow>
          if len = 0 \<or> len \<le> clk_get removed idx then Unseen
          else confirms_loop L idx target aks maj removed True len)"

fun acked_loop :: "linearizer \<Rightarrow> node_id \<Rightarrow> nat \<Rightarrow> nat \<Rightarrow> node_id list \<Rightarrow> bool" where
  "acked_loop L par maj seen [] = False"
| "acked_loop L par maj seen (n # ns) =
     (if \<not> sees L par n
      then if seen + length ns < maj then False else acked_loop L par maj seen ns
      else if maj \<le> seen + 1 then True
      else acked_loop L par maj (seen + 1) ns)"

definition acked_at :: "linearizer \<Rightarrow> node_id list \<Rightarrow> node_id \<Rightarrow> bool" where
  "acked_at L aks par = (case majority L of None \<Rightarrow> False | Some maj \<Rightarrow> acked_loop L par maj 0 aks)"

fun confirmable_loop :: "linearizer \<Rightarrow> node_id \<Rightarrow> clock \<Rightarrow> clock \<Rightarrow> nat \<Rightarrow> bytes btset \<Rightarrow> clock \<Rightarrow> nat \<Rightarrow> bytes list \<Rightarrow> bool" where
  "confirmable_loop L target pclk tclk maj confs removed potential [] = False"
| "confirmable_loop L target pclk tclk maj confs removed potential (idx # ix) =
     (if idx \<in> set confs then confirmable_loop L target pclk tclk maj confs removed potential ix
      else let len = clk_get pclk idx;
               is_seen = clk_includes tclk idx len;
               head = NodeId idx (len - 1)
           in if \<not> is_seen \<and> 1 \<le> len \<and> contains L head \<and> \<not> clk_includes removed (key head) (seq head + 1) \<and>
                 \<not> strictly_newer L target head removed
              then confirmable_loop L target pclk tclk maj confs removed potential ix
              else if maj \<le> potential + 1 then True
              else confirmable_loop L target pclk tclk maj confs removed (potential + 1) ix)"

definition is_confirmable_at :: "linearizer \<Rightarrow> node_id \<Rightarrow> node_id \<Rightarrow> node_id list \<Rightarrow> bytes btset \<Rightarrow> clock \<Rightarrow> bool" where
  "is_confirmable_at L target par aks confs removed =
     (case (majority L, indexers L) of
        (Some maj, Some ix) \<Rightarrow>
          if \<not> acked_at L aks par then False
          else confirmable_loop L target (clock L par) (clock L target) maj confs removed (length confs) ix
      | _ \<Rightarrow> False)"

text \<open>The loop over the indexers; \<open>Inl\<close> is the early \<open>return true\<close>.\<close>

fun confirmed_scan :: "linearizer \<Rightarrow> node_id \<Rightarrow> node_id list \<Rightarrow> node_id option \<Rightarrow> nat \<Rightarrow> clock \<Rightarrow>
    bytes btset \<Rightarrow> bool \<Rightarrow> bytes list \<Rightarrow> unit + bytes btset \<times> bool" where
  "confirmed_scan L target aks par maj removed confs all_newer [] = Inr (confs, all_newer)"
| "confirmed_scan L target aks par maj removed confs all_newer (idx # ix) =
     (let len = (case par of
                   Some p \<Rightarrow> if key p = idx then seq p else clk_get (clock L p) idx
                 | None \<Rightarrow> indexer_length L idx)
      in case confirms L idx target aks len removed of
           Acked \<Rightarrow>
             let confs = bs_insert idx confs
             in if maj \<le> length confs then Inl ()
                else confirmed_scan L target aks par maj removed confs all_newer ix
         | Unseen \<Rightarrow> confirmed_scan L target aks par maj removed confs False ix
         | Newer \<Rightarrow> confirmed_scan L target aks par maj removed confs all_newer ix)"

definition is_confirmed :: "linearizer \<Rightarrow> node_id \<Rightarrow> node_id option \<Rightarrow> clock \<Rightarrow> bool" where
  "is_confirmed L target par removed =
     (case (majority L, indexers L) of
        (Some maj, Some ix) \<Rightarrow>
          let aks = acks L target removed
          in if length aks < maj then False
             else (case confirmed_scan L target aks par maj removed [] True ix of
                     Inl _ \<Rightarrow> True
                   | Inr (confs, all_newer) \<Rightarrow>
                       (case par of
                          Some p \<Rightarrow> is_confirmable_at L target p aks confs removed
                        | None \<Rightarrow> all_newer))
      | _ \<Rightarrow> False)"

section \<open>The shift driver\<close>

definition merge_nodes :: "linearizer \<Rightarrow> clock \<Rightarrow> node_id list" where
  "merge_nodes L removed =
     (case indexers L of
        None \<Rightarrow> []
      | Some ix \<Rightarrow>
          filter (\<lambda>n. is_merge L n removed)
            (filter (\<lambda>n. key n \<in> set ix \<and> \<not> clk_includes removed (key n) (seq n + 1)) (map fst (deps L))))"

definition tails_seen :: "linearizer \<Rightarrow> node_id \<Rightarrow> node_id btset \<Rightarrow> node_id list" where
  "tails_seen L node ts = filter (sees L node) ts"

definition tails_and_merges_seen :: "linearizer \<Rightarrow> node_id \<Rightarrow> node_id btset \<Rightarrow> clock \<Rightarrow> node_id list" where
  "tails_and_merges_seen L node ts removed =
     fold (\<lambda>m all. if m \<noteq> node \<and> sees L node m \<and> m \<notin> set all then all @ [m] else all)
       (merge_nodes L removed) (tails_seen L node ts)"

definition raise_all :: "node_id list \<Rightarrow> clock \<Rightarrow> clock" where
  "raise_all ns removed = fold (\<lambda>t c. clk_raise c (key t) (seq t + 1)) ns removed"

fun yield_next :: "nat \<Rightarrow> linearizer \<Rightarrow> node_id \<Rightarrow> node_id btset \<Rightarrow> clock \<Rightarrow> (node_id list \<times> clock) option" where
  "yield_next 0 L node ts removed = None"
| "yield_next (Suc fuel) L node ts removed =
     (if node \<in> set ts then Some ([node], clk_raise removed (key node) (seq node + 1))
      else case find (\<lambda>t. is_confirmed L t (Some node) removed) (tails_and_merges_seen L node ts removed) of
             Some t \<Rightarrow> yield_next fuel L t ts removed
           | None \<Rightarrow> let arm = tails_seen L node ts in Some (arm, raise_all arm removed))"

definition shift_once :: "linearizer \<Rightarrow> clock \<Rightarrow> (node_id list \<times> clock) option" where
  "shift_once L removed =
     (let ts = indexer_tails L removed
      in case find (\<lambda>t. is_confirmed L t None removed) ts of
           Some t \<Rightarrow> Some ([t], clk_raise removed (key t) (seq t + 1))
         | None \<Rightarrow>
             (case find (\<lambda>m. is_confirmed L m None removed) (merge_nodes L removed) of
                Some m \<Rightarrow> yield_next (Suc (lin_len L)) L m ts removed
              | None \<Rightarrow> Some ([], removed)))"

fun prefix_loop :: "nat \<Rightarrow> linearizer \<Rightarrow> clock \<Rightarrow> node_id list \<Rightarrow> node_id list option" where
  "prefix_loop 0 L removed out = None"
| "prefix_loop (Suc fuel) L removed out =
     (case shift_once L removed of
        None \<Rightarrow> None
      | Some (batch, removed) \<Rightarrow>
          if batch = [] then Some out else prefix_loop fuel L removed (out @ batch))"

definition confirmed_prefix :: "linearizer \<Rightarrow> node_id list option" where
  "confirmed_prefix L =
     (if majority L = None then Some (base L)
      else prefix_loop (Suc (lin_len L)) L (base_clock L) (base L))"

section \<open>The confirmed view and the order\<close>

lemma fresh_less:
  assumes "n \<notin> set fresh" "set st \<subseteq> dep_targets m \<union> set stack"
  shows "card (dep_targets m \<union> set st - insert n (set fresh)) <
         card (dep_targets m \<union> insert n (set stack) - set fresh)"
proof (rule psubset_card_mono)
  show "dep_targets m \<union> set st - insert n (set fresh) \<subset> dep_targets m \<union> insert n (set stack) - set fresh"
    using assms by auto
qed simp

lemma fresh_le: "card (dep_targets m \<union> set stack - set fresh) \<le> card (dep_targets m \<union> insert n (set stack) - set fresh)"
  by (intro card_mono) auto

text \<open>The causal closure of a batch, minus what is already emitted.\<close>

function fresh_loop :: "(node_id, node_id btset) btmap \<Rightarrow> node_id list \<Rightarrow> node_id list \<Rightarrow> node_id btset \<Rightarrow> node_id btset" where
  "fresh_loop m emitted [] fresh = fresh"
| "fresh_loop m emitted (n # stack) fresh =
     (if n \<in> set emitted \<or> n \<in> set fresh then fresh_loop m emitted stack fresh
      else let fresh = bs_insert n fresh
           in case bt_get m n of
                None \<Rightarrow> fresh_loop m emitted stack fresh
              | Some ds \<Rightarrow> fresh_loop m emitted (rev (filter (\<lambda>d. d \<notin> set emitted) ds) @ stack) fresh)"
  by pat_completeness auto

termination
proof (relation "measures [\<lambda>(m, emitted, stack, fresh). card (dep_targets m \<union> set stack - set fresh),
                          \<lambda>(m, emitted, stack, fresh). length stack]", goal_cases)
  case 1
  show ?case by simp
next
  case (2 m emitted n stack fresh)
  then show ?case using fresh_le [of m stack fresh n] by (auto simp: le_less)
next
  case (3 m emitted n stack fresh x)
  then show ?case using fresh_less [of n fresh stack m stack] by simp
next
  case (4 m emitted n stack fresh x ds)
  then show ?case
    using fresh_less [of n fresh "rev (filter (\<lambda>d. d \<notin> set emitted) ds) @ stack" m stack] dep_targets_get [of m n ds]
    by auto
qed

fun view_loop :: "nat \<Rightarrow> linearizer \<Rightarrow> clock \<Rightarrow> node_id btset \<Rightarrow> node_id list \<Rightarrow> node_id list option" where
  "view_loop 0 L removed emitted out = None"
| "view_loop (Suc fuel) L removed emitted out =
     (case shift_once L removed of
        None \<Rightarrow> None
      | Some (batch, removed) \<Rightarrow>
          if batch = [] then Some out
          else let fresh = fresh_loop (deps L) emitted (rev batch) []
               in case topo_key_order L fresh emitted of
                    None \<Rightarrow> None
                  | Some ns \<Rightarrow> view_loop fuel L removed (fold bs_insert ns emitted) (out @ ns))"

definition confirmed_view :: "linearizer \<Rightarrow> node_id list option" where
  "confirmed_view L =
     (if majority L = None then Some (base L)
      else view_loop (Suc (lin_len L)) L (base_clock L) (bs_collect (base L)) (base L))"

definition order :: "linearizer \<Rightarrow> node_id list option" where
  "order L =
     (case confirmed_view L of
        None \<Rightarrow> None
      | Some confirmed \<Rightarrow>
          if confirmed = [] then plain_order L
          else let emitted = bs_collect confirmed;
                   remaining = filter (\<lambda>n. n \<notin> set emitted) (map fst (deps L))
               in map_option (\<lambda>rest. confirmed @ rest) (topo_key_order L remaining emitted))"

definition finalized :: "linearizer \<Rightarrow> node_id list option" where
  "finalized L = confirmed_view L"

definition view :: "linearizer \<Rightarrow> node_id list option" where
  "view L = order L"

definition view_len :: "linearizer \<Rightarrow> nat" where
  "view_len L = lin_len L"

definition view_get :: "linearizer \<Rightarrow> nat \<Rightarrow> node_id option option" where
  "view_get L i = map_option (\<lambda>ns. if i < length ns then Some (ns ! i) else None) (order L)"

definition indexed_view :: "linearizer \<Rightarrow> node_id list option" where
  "indexed_view L = finalized L"

definition indexed_view_len :: "linearizer \<Rightarrow> nat option" where
  "indexed_view_len L = map_option length (finalized L)"

section \<open>Reconfiguration\<close>

datatype reconfigure_error =
    BaseShrinks
  | MissingNode node_id
  | NotCausallyClosed node_id node_id
  | DuplicateNode node_id
  | BeyondConfirmed nat nat

fun check_members :: "linearizer \<Rightarrow> node_id list \<Rightarrow> node_id btset \<Rightarrow> (reconfigure_error, node_id btset) result" where
  "check_members L [] members = Inr members"
| "check_members L (n # ns) members =
     (if \<not> contains L n then Inl (MissingNode n)
      else if n \<in> set members then Inl (DuplicateNode n)
      else check_members L ns (bs_insert n members))"

fun check_closed :: "linearizer \<Rightarrow> node_id btset \<Rightarrow> node_id list \<Rightarrow> clock \<Rightarrow> (reconfigure_error, clock) result" where
  "check_closed L members [] c = Inr c"
| "check_closed L members (n # ns) c =
     (case find (\<lambda>d. d \<notin> set members) (case bt_get (deps L) n of None \<Rightarrow> [] | Some ds \<Rightarrow> ds) of
        Some d \<Rightarrow> Inl (NotCausallyClosed n d)
      | None \<Rightarrow> check_closed L members ns (clk_raise c (key n) (seq n + 1)))"

definition reconfigure_at :: "linearizer \<Rightarrow> node_id list \<Rightarrow> bytes list \<Rightarrow> (reconfigure_error, linearizer) result" where
  "reconfigure_at L new_base ix =
     (if take (length (base L)) new_base \<noteq> base L then Inl BaseShrinks
      else bind_res (check_members L new_base []) (\<lambda>members.
           bind_res (check_closed L members new_base []) (\<lambda>c.
             Inr (L\<lparr> base := new_base, base_clock := c, indexers := Some (bs_collect ix) \<rparr>))))"

definition reconfigure :: "linearizer \<Rightarrow> nat \<Rightarrow> bytes list \<Rightarrow> (reconfigure_error, linearizer) result option" where
  "reconfigure L through ix =
     (case confirmed_view L of
        None \<Rightarrow> None
      | Some confirmed \<Rightarrow>
          Some (if length confirmed < through then Inl (BeyondConfirmed (length confirmed) through)
                else reconfigure_at L (take through confirmed) ix))"

section \<open>Quorum degrees\<close>

text \<open>
  The loop that raises the degree of a node while a majority vouches for the level below. The code
  has no bound on it; \<open>None\<close> is exhausted fuel.
\<close>

fun degree_loop :: "nat \<Rightarrow> bytes btset \<Rightarrow> bytes \<Rightarrow> (bytes, nat) btmap \<Rightarrow> nat \<Rightarrow> nat \<Rightarrow> nat \<Rightarrow> nat \<Rightarrow> nat option" where
  "degree_loop 0 ix author pre self_vote m d deg = None"
| "degree_loop (Suc fuel) ix author pre self_vote m d deg =
     (let level = d - 1;
          count = length (filter (\<lambda>w. w \<noteq> author \<and>
                    (case bt_get pre w of None \<Rightarrow> False | Some pd \<Rightarrow> level \<le> pd)) ix)
      in if m \<le> count + self_vote then degree_loop fuel ix author pre self_vote m (d + 1) d
         else Some deg)"

text \<open>\<open>pre\<close>: per indexer the best degree among the dependencies.\<close>

definition merge_best :: "(bytes, nat) btmap \<Rightarrow> (bytes, nat) btmap \<Rightarrow> (bytes, nat) btmap" where
  "merge_best bd pre = fold (\<lambda>(w, deg) pre.
     bt_insert w (case bt_get pre w of None \<Rightarrow> deg | Some e \<Rightarrow> max e deg) pre) bd pre"

record degree_state =
  bestdeg :: "(node_id, (bytes, nat) btmap) btmap"
  seesx :: "(node_id, bool) btmap"
  max_degree :: nat

definition degree_step :: "nat \<Rightarrow> linearizer \<Rightarrow> bytes btset \<Rightarrow> nat \<Rightarrow> node_id \<Rightarrow> node_id \<Rightarrow> degree_state \<Rightarrow> degree_state option" where
  "degree_step fuel L ix m target v st =
     (let ds = (case bt_get (deps L) v of None \<Rightarrow> [] | Some ds \<Rightarrow> ds);
          sees_target = (v = target \<or> list_ex (\<lambda>d. bt_get (seesx st) d = Some True) ds);
          pre = fold (\<lambda>d pre. case bt_get (bestdeg st) d of None \<Rightarrow> pre | Some bd \<Rightarrow> merge_best bd pre) ds [];
          author = key v;
          author_is_indexer = (author \<in> set ix)
      in case (if sees_target then degree_loop fuel ix author pre (if author_is_indexer then 1 else 0) m 1 0
               else Some 0) of
           None \<Rightarrow> None
         | Some deg_v \<Rightarrow>
             let bd = (if sees_target \<and> author_is_indexer
                       then bt_insert author (case bt_get pre author of None \<Rightarrow> deg_v | Some e \<Rightarrow> max e deg_v) pre
                       else pre)
             in Some \<lparr> bestdeg = bt_insert v bd (bestdeg st), seesx = bt_insert v sees_target (seesx st),
                       max_degree = (if sees_target then max deg_v (max_degree st) else max_degree st) \<rparr>)"

fun degree_steps :: "nat \<Rightarrow> linearizer \<Rightarrow> bytes btset \<Rightarrow> nat \<Rightarrow> node_id \<Rightarrow> node_id list \<Rightarrow> degree_state \<Rightarrow> degree_state option" where
  "degree_steps fuel L ix m target [] st = Some st"
| "degree_steps fuel L ix m target (v # vs) st =
     Option.bind (degree_step fuel L ix m target v st) (degree_steps fuel L ix m target vs)"

definition quorum_degree :: "nat \<Rightarrow> linearizer \<Rightarrow> node_id \<Rightarrow> nat option" where
  "quorum_degree fuel L target =
     (case (majority L, indexers L) of
        (Some m, Some ix) \<Rightarrow>
          if \<not> contains L target then Some 0
          else Option.bind (plain_order L) (\<lambda>vs.
               map_option max_degree
                 (degree_steps fuel L ix m target vs \<lparr> bestdeg = [], seesx = [], max_degree = 0 \<rparr>))
      | _ \<Rightarrow> Some 0)"

section \<open>The shift driver makes progress\<close>

definition tail_ok :: "linearizer \<Rightarrow> clock \<Rightarrow> node_id \<Rightarrow> bool" where
  "tail_ok L removed t \<longleftrightarrow> contains L t \<and> seq t = clk_get removed (key t)"

lemma tail_step_ok:
  "list_all (tail_ok L removed) ts \<Longrightarrow> list_all (tail_ok L removed) (tail_step L removed idx ts)"
  by (auto simp: tail_step_def tail_ok_def Let_def list_all_iff split: prod.splits)

lemma fold_tail_step_ok:
  "list_all (tail_ok L removed) ts \<Longrightarrow> list_all (tail_ok L removed) (fold (tail_step L removed) ix ts)"
  by (induction ix arbitrary: ts) (simp_all add: tail_step_ok)

lemma indexer_tails_ok: "t \<in> set (indexer_tails L removed) \<Longrightarrow> tail_ok L removed t"
  using fold_tail_step_ok [of L removed "[]"]
  by (auto simp: indexer_tails_def list_all_iff split: option.splits)

lemma seen_others:
  assumes "node \<notin> set ts" "t \<in> set (tails_and_merges_seen L node ts removed)"
  shows "t \<noteq> node \<and> sees L node t"
proof -
  have "set (fold (\<lambda>m all. if m \<noteq> node \<and> sees L node m \<and> m \<notin> set all then all @ [m] else all) ms all)
      \<subseteq> set all \<union> {m. m \<noteq> node \<and> sees L node m}" for ms all
  proof (induction ms arbitrary: all)
    case (Cons m ms)
    show ?case using Cons [of all] Cons [of "all @ [m]"] by (cases "m \<noteq> node \<and> sees L node m \<and> m \<notin> set all") auto
  qed simp
  then show ?thesis using assms by (fastforce simp: tails_and_merges_seen_def tails_seen_def)
qed

definition history :: "linearizer \<Rightarrow> node_id \<Rightarrow> node_id set" where
  "history L n = {m. (n, m) \<in> (edges L)\<^sup>*}"

lemma history_sub: "dag_ok L \<Longrightarrow> contains L n \<Longrightarrow> history L n \<subseteq> nodes_of L"
  using reach_contains by (auto simp: history_def nodes_of_def)

lemma history_less:
  assumes ok: "dag_ok L" "contains L n" and t: "sees L n t" "t \<noteq> n"
  shows "card (history L t) < card (history L n)"
proof (rule psubset_card_mono)
  show "finite (history L n)" using history_sub [OF ok] finite_subset finite_nodes_of by blast
  have nt: "(n, t) \<in> (edges L)\<^sup>*" using t(1) sees_iff [OF ok(1)] by simp
  then have "(n, t) \<in> (edges L)\<^sup>+" using t(2) by (auto simp: rtrancl_eq_or_trancl)
  then have "n \<notin> history L t"
    using dag_okD(9) [OF ok(1)] unfolding history_def acyclic_def by (auto dest: trancl_rtrancl_trancl)
  moreover have "n \<in> history L n" by (simp add: history_def)
  moreover have "history L t \<subseteq> history L n" using nt by (auto simp: history_def intro: rtrancl_trans)
  ultimately show "history L t \<subset> history L n" by auto
qed

lemma yield_next_ok:
  assumes ok: "dag_ok L" and "contains L node" "card (history L node) < fuel"
  shows "\<exists>batch. yield_next fuel L node ts removed = Some (batch, raise_all batch removed) \<and> set batch \<subseteq> set ts"
  using assms(2-)
proof (induction fuel arbitrary: node)
  case (Suc fuel)
  show ?case
  proof (cases "node \<in> set ts")
    case True
    then show ?thesis by (simp add: raise_all_def)
  next
    case False
    show ?thesis
    proof (cases "find (\<lambda>t. is_confirmed L t (Some node) removed) (tails_and_merges_seen L node ts removed)")
      case None
      then show ?thesis using False by (auto simp: tails_seen_def Let_def)
    next
      case (Some t)
      then have "t \<in> set (tails_and_merges_seen L node ts removed)" by (auto simp: find_Some_iff)
      from seen_others [OF False this] have t: "t \<noteq> node" "sees L node t" by simp_all
      have "contains L t" using t Suc.prems(1) reach_contains [OF ok] by (simp add: sees_iff [OF ok])
      moreover have "card (history L t) < fuel" using history_less [OF ok Suc.prems(1) t(2,1)] Suc.prems(2) by simp
      ultimately show ?thesis using Suc.IH False Some by simp
    qed
  qed
qed simp

lemma lin_len_card: "dag_ok L \<Longrightarrow> lin_len L = card (nodes_of L)"
proof -
  assume ok: "dag_ok L"
  have "nodes_of L = set (map fst (deps L))"
    by (auto simp: nodes_of_def contains_def bt_contains_iff)
  then show ?thesis using distinct_card [OF bt_inv_distinct [OF dag_okD(1) [OF ok]]] by (simp add: lin_len_def)
qed

lemma shift_once_ok:
  assumes ok: "dag_ok L"
  shows "\<exists>batch. shift_once L removed = Some (batch, raise_all batch removed) \<and>
                 set batch \<subseteq> set (indexer_tails L removed)"
proof (cases "find (\<lambda>t. is_confirmed L t None removed) (indexer_tails L removed)")
  case (Some t)
  then have "t \<in> set (indexer_tails L removed)" by (auto simp: find_Some_iff)
  then show ?thesis using Some by (simp add: shift_once_def raise_all_def)
next
  case None
  show ?thesis
  proof (cases "find (\<lambda>m. is_confirmed L m None removed) (merge_nodes L removed)")
    case none: None
    then show ?thesis using None by (simp add: shift_once_def raise_all_def)
  next
    case (Some m)
    then have "m \<in> set (merge_nodes L removed)" by (auto simp: find_Some_iff)
    then have c: "contains L m"
      by (auto simp: merge_nodes_def contains_def bt_contains_iff split: option.splits)
    have "card (history L m) \<le> card (nodes_of L)" using history_sub [OF ok c] by (intro card_mono) auto
    then have "card (history L m) < Suc (lin_len L)" by (simp add: lin_len_card [OF ok])
    from yield_next_ok [OF ok c this] show ?thesis
      using None Some by (simp add: shift_once_def Let_def del: yield_next.simps)
  qed
qed

text \<open>The nodes not yet confirmed away.\<close>

definition pending :: "linearizer \<Rightarrow> clock \<Rightarrow> node_id set" where
  "pending L removed = {n \<in> nodes_of L. clk_get removed (key n) \<le> seq n}"

lemma raise_all_ge:
  "clk_get removed k \<le> clk_get (raise_all ns removed) k \<and>
   (\<forall>t \<in> set ns. Suc (seq t) \<le> clk_get (raise_all ns removed) (key t))"
proof (induction ns arbitrary: removed k)
  case (Cons t ns)
  let ?r = "clk_raise removed (key t) (seq t + 1)"
  have step: "raise_all (t # ns) removed = raise_all ns ?r" by (simp add: raise_all_def)
  have "clk_get removed k \<le> clk_get ?r k" "Suc (seq t) \<le> clk_get ?r (key t)" by simp_all
  then show ?case unfolding step using Cons [of ?r k] Cons [of ?r "key t"] by (auto intro: le_trans)
qed (simp add: raise_all_def)

lemma pending_less:
  assumes "set batch \<subseteq> set (indexer_tails L removed)" "batch \<noteq> []"
  shows "card (pending L (raise_all batch removed)) < card (pending L removed)"
proof (rule psubset_card_mono)
  show "finite (pending L removed)" by (simp add: pending_def)
  obtain t where t: "t \<in> set batch" using assms(2) by (cases batch) auto
  then have "tail_ok L removed t" using assms(1) indexer_tails_ok by blast
  then have "t \<in> pending L removed" by (simp add: pending_def tail_ok_def nodes_of_def)
  moreover have "t \<notin> pending L (raise_all batch removed)"
    using raise_all_ge [of removed "key t" batch] t by (auto simp: pending_def)
  moreover have "pending L (raise_all batch removed) \<subseteq> pending L removed"
    using raise_all_ge [of removed _ batch] by (auto simp: pending_def intro: le_trans)
  ultimately show "pending L (raise_all batch removed) \<subset> pending L removed" by blast
qed

section \<open>The confirmed view is a causal prefix\<close>

definition causal :: "linearizer \<Rightarrow> node_id list \<Rightarrow> bool" where
  "causal L out \<longleftrightarrow>
     distinct out \<and> set out \<subseteq> nodes_of L \<and> (\<forall>i < length out. dep_of L (out ! i) \<subseteq> set (take i out))"

lemma causal_Nil [simp]: "causal L []"
  by (simp add: causal_def)

lemma causal_closed: "causal L out \<Longrightarrow> n \<in> set out \<Longrightarrow> dep_of L n \<subseteq> set out"
  by (auto simp: causal_def in_set_conv_nth) (metis in_set_takeD subsetD in_set_conv_nth)

lemma causal_append:
  assumes out: "causal L out" and ns: "distinct ns" "set ns \<subseteq> nodes_of L" "set ns \<inter> set out = {}"
    "topo L (set ns) ns" and closed: "\<And>n. n \<in> set ns \<Longrightarrow> dep_of L n \<subseteq> set ns \<union> set out"
  shows "causal L (out @ ns)"
proof -
  have "dep_of L ((out @ ns) ! i) \<subseteq> set (take i (out @ ns))" if "i < length (out @ ns)" for i
  proof (cases "i < length out")
    case True
    then show ?thesis using out by (auto simp: causal_def nth_append)
  next
    case False
    then have j: "i - length out < length ns" using that by simp
    then have "dep_of L (ns ! (i - length out)) \<inter> set ns \<subseteq> set (take (i - length out) ns)"
      using ns(4) by (simp add: topo_def)
    then show ?thesis using False closed [OF nth_mem [OF j]] by (auto simp: nth_append)
  qed
  then show ?thesis using out ns by (auto simp: causal_def)
qed

lemma fresh_loop_ok:
  assumes "dag_ok L" "m = deps L" "bs_inv fresh" "set fresh \<inter> set emitted = {}" "set fresh \<subseteq> nodes_of L"
    "set stack \<subseteq> nodes_of L" "\<And>n. n \<in> set fresh \<Longrightarrow> dep_of L n \<subseteq> set fresh \<union> set emitted \<union> set stack"
  shows "let R = fresh_loop m emitted stack fresh
         in bs_inv R \<and> set R \<inter> set emitted = {} \<and> set R \<subseteq> nodes_of L \<and>
            (\<forall>n \<in> set R. dep_of L n \<subseteq> set R \<union> set emitted)"
  using assms
proof (induction m emitted stack fresh rule: fresh_loop.induct)
  case (1 m emitted fresh)
  then show ?case by (simp add: Let_def)
next
  case (2 m emitted n stack fresh)
  show ?case
  proof (cases "n \<in> set emitted \<or> n \<in> set fresh")
    case True
    have "dep_of L x \<subseteq> set fresh \<union> set emitted \<union> set stack" if "x \<in> set fresh" for x
      using 2(10) [OF that] True by auto
    then show ?thesis using 2(1) [OF True] 2(4-9) True by simp
  next
    case False
    obtain ds where ds: "bt_get m n = Some ds" "dep_of L n = set ds"
      using 2(5,9) by (auto simp: nodes_of_def contains_iff dep_of_def)
    let ?st = "rev (filter (\<lambda>d. d \<notin> set emitted) ds) @ stack" and ?f = "bs_insert n fresh"
    have "bs_inv ?f" "set ?f \<inter> set emitted = {}" "set ?f \<subseteq> nodes_of L" "set ?st \<subseteq> nodes_of L"
      using 2(4-9) False dag_okD(5) [OF 2(4), of _ n] unfolding ds(2) by (auto simp: nodes_of_def)
    moreover have "dep_of L x \<subseteq> set ?f \<union> set emitted \<union> set ?st" if "x \<in> set ?f" for x
      using that 2(10) [of x] ds(2) by (cases "x = n") auto
    ultimately show ?thesis
      using 2(3) [OF False refl ds(1) 2(4,5)] False ds(1) by (simp add: Let_def)
  qed
qed

lemma view_loop_ok:
  assumes ok: "dag_ok L" and "causal L out" "set emitted = set out" "card (pending L removed) < fuel"
  shows "\<exists>res. view_loop fuel L removed emitted out = Some res \<and> prefix out res \<and> causal L res"
  using assms(2-)
proof (induction fuel arbitrary: removed emitted out)
  case (Suc fuel)
  obtain batch where b: "shift_once L removed = Some (batch, raise_all batch removed)"
      "set batch \<subseteq> set (indexer_tails L removed)"
    using shift_once_ok [OF ok] by blast
  show ?case
  proof (cases "batch = []")
    case True
    then show ?thesis using b Suc.prems by simp
  next
    case False
    define R where "R = fresh_loop (deps L) emitted (rev batch) []"
    have "set (rev batch) \<subseteq> nodes_of L"
      using b(2) indexer_tails_ok by (force simp: tail_ok_def nodes_of_def)
    then have R: "bs_inv R" "set R \<inter> set emitted = {}" "set R \<subseteq> nodes_of L"
        "\<And>n. n \<in> set R \<Longrightarrow> dep_of L n \<subseteq> set R \<union> set emitted"
      using fresh_loop_ok [OF ok refl, of "[]" emitted "rev batch"] by (simp_all add: R_def Let_def)
    obtain ns where ns: "topo_key_order L R emitted = Some ns" "distinct ns" "set ns = set R" "topo L (set R) ns"
      using topo_key_order_correct [OF ok R(1,3,2)] by blast
    have "causal L (out @ ns)"
      using Suc.prems(1,2) R ns by (intro causal_append) auto
    moreover have "set (fold bs_insert ns emitted) = set (out @ ns)"
      using Suc.prems(2) by (auto simp: set_fold_bs_insert)
    moreover have "card (pending L (raise_all batch removed)) < fuel"
      using pending_less [OF b(2) False] Suc.prems(3) by simp
    ultimately obtain res where "view_loop fuel L (raise_all batch removed) (fold bs_insert ns emitted) (out @ ns) = Some res"
        "prefix (out @ ns) res" "causal L res"
      using Suc.IH by blast
    then show ?thesis using b(1) False ns(1) by (auto simp: R_def [symmetric] Let_def intro: append_prefixD)
  qed
qed simp

lemma pending_bound: "dag_ok L \<Longrightarrow> card (pending L removed) < Suc (lin_len L)"
  unfolding lin_len_card less_Suc_eq_le by (intro card_mono) (auto simp: pending_def)

lemma confirmed_view_ok:
  assumes "dag_ok L" "causal L (base L)"
  shows "\<exists>res. confirmed_view L = Some res \<and> prefix (base L) res \<and> causal L res"
  using view_loop_ok [OF assms, of "bs_collect (base L)" "base_clock L" "Suc (lin_len L)"] pending_bound [OF assms(1)] assms(2)
  by (simp add: confirmed_view_def del: view_loop.simps)

lemma order_ok:
  assumes ok: "dag_ok L" and base: "causal L (base L)"
  shows "\<exists>out fin. order L = Some out \<and> finalized L = Some fin \<and> prefix (base L) fin \<and> prefix fin out \<and>
                   causal L out \<and> set out = nodes_of L"
proof -
  obtain conf where c: "confirmed_view L = Some conf" "prefix (base L) conf" "causal L conf"
    using confirmed_view_ok [OF assms] by blast
  show ?thesis
  proof (cases "conf = []")
    case True
    obtain out where "plain_order L = Some out" "distinct out" "set out = nodes_of L" "topo L (nodes_of L) out"
      using plain_order_correct [OF ok] by blast
    then show ?thesis using c True topo_full [OF ok] by (simp add: order_def finalized_def causal_def)
  next
    case False
    let ?rem = "filter (\<lambda>n. n \<notin> set (bs_collect conf)) (map fst (deps L))"
    have nodes: "set (map fst (deps L)) = nodes_of L" by (auto simp: nodes_of_def contains_def bt_contains_iff)
    have rem: "bs_inv ?rem" "set ?rem = nodes_of L - set conf"
      using bs_inv_keys [OF dag_okD(1) [OF ok]] nodes by auto
    obtain rest where r: "topo_key_order L ?rem (bs_collect conf) = Some rest" "distinct rest"
        "set rest = set ?rem" "topo L (set ?rem) rest"
      using topo_key_order_correct [OF ok rem(1), of "bs_collect conf"] rem(2) by auto
    have "causal L (conf @ rest)"
    proof (rule causal_append [OF c(3) r(2)])
      show "topo L (set rest) rest" using r(3,4) by simp
      fix n assume "n \<in> set rest"
      then show "dep_of L n \<subseteq> set rest \<union> set conf"
        using dag_okD(5) [OF ok] r(3) rem(2) by (auto simp: nodes_of_def)
    qed (use r(3) rem(2) in auto)
    moreover have "set (conf @ rest) = nodes_of L" using r(3) rem(2) c(3) by (auto simp: causal_def)
    moreover have "order L = Some (conf @ rest)" using c(1) False r(1) by (simp add: order_def Let_def)
    ultimately show ?thesis using c(1,2) by (auto simp: finalized_def)
  qed
qed

section \<open>Reconfiguration\<close>

lemma check_members_ok:
  "check_members L ns members = Inr ms \<Longrightarrow>
   set ns \<subseteq> nodes_of L \<and> distinct ns \<and> set ns \<inter> set members = {} \<and> set ms = set members \<union> set ns"
proof (induction ns arbitrary: members)
  case (Cons a ns)
  then have a: "contains L a" "a \<notin> set members" "check_members L ns (bs_insert a members) = Inr ms"
    by (auto split: if_splits)
  from Cons.IH [OF a(3)] show ?case using a(1,2) by (auto simp: nodes_of_def)
qed simp

lemma check_closed_ok:
  "check_closed L members ns c = Inr c' \<Longrightarrow> n \<in> set ns \<Longrightarrow> dep_of L n \<subseteq> set members"
proof (induction ns arbitrary: c)
  case (Cons a ns)
  then have "find (\<lambda>d. d \<notin> set members) (case bt_get (deps L) a of None \<Rightarrow> [] | Some ds \<Rightarrow> ds) = None"
    by (auto split: option.splits)
  then have "dep_of L a \<subseteq> set members" by (auto simp: find_None_iff dep_of_def split: option.splits)
  then show ?case using Cons by (auto split: option.splits)
qed simp

lemma reconfigure_at_ok:
  assumes "reconfigure_at L new_base ix = Inr L'"
  shows "base L' = new_base" "prefix (base L) new_base" "indexers L' = Some (bs_collect ix)" "deps L' = deps L"
    "dag_ok L' = dag_ok L" "dep_of L' n = dep_of L n" "nodes_of L' = nodes_of L"
    "distinct new_base" "set new_base \<subseteq> nodes_of L" "\<forall>n \<in> set new_base. dep_of L n \<subseteq> set new_base"
proof -
  obtain ms c where m: "take (length (base L)) new_base = base L" "check_members L new_base [] = Inr ms"
      "check_closed L ms new_base [] = Inr c"
      "L' = L\<lparr> base := new_base, base_clock := c, indexers := Some (bs_collect ix) \<rparr>"
    using assms by (auto simp: reconfigure_at_def split: if_splits)
  show "prefix (base L) new_base" using m(1) by (metis take_is_prefix)
  show "distinct new_base" "set new_base \<subseteq> nodes_of L" using check_members_ok [OF m(2)] by simp_all
  show "\<forall>n \<in> set new_base. dep_of L n \<subseteq> set new_base"
    using check_members_ok [OF m(2)] check_closed_ok [OF m(3)] by auto
  show "base L' = new_base" "indexers L' = Some (bs_collect ix)" "deps L' = deps L"
    "dag_ok L' = dag_ok L" "dep_of L' n = dep_of L n" "nodes_of L' = nodes_of L"
    using m(4) by (simp_all add: dep_of_def nodes_of_def contains_def)
qed

lemma check_members_complete:
  "set ns \<subseteq> nodes_of L \<Longrightarrow> distinct ns \<Longrightarrow> set ns \<inter> set members = {} \<Longrightarrow>
   \<exists>ms. check_members L ns members = Inr ms \<and> set ms = set members \<union> set ns"
proof (induction ns arbitrary: members)
  case (Cons a ns)
  then have "\<exists>ms. check_members L ns (bs_insert a members) = Inr ms \<and> set ms = set (bs_insert a members) \<union> set ns"
    by (intro Cons.IH) auto
  then show ?case using Cons.prems by (auto simp: nodes_of_def)
qed simp

lemma check_closed_complete:
  "\<forall>n \<in> set ns. dep_of L n \<subseteq> set members \<Longrightarrow> \<exists>c'. check_closed L members ns c = Inr c'"
proof (induction ns arbitrary: c)
  case (Cons a ns)
  then have "find (\<lambda>d. d \<notin> set members) (case bt_get (deps L) a of None \<Rightarrow> [] | Some ds \<Rightarrow> ds) = None"
    by (auto simp: find_None_iff dep_of_def split: option.splits)
  then show ?case using Cons by simp
qed simp

text \<open>On a causal list the only obstacle is a base that would shrink.\<close>

lemma reconfigure_at_Inl:
  assumes "causal L (take k fin)" "prefix (base L) fin" "reconfigure_at L (take k fin) ix = Inl e"
  shows "e = BaseShrinks \<and> k < length (base L)"
proof -
  have c: "set (take k fin) \<subseteq> nodes_of L" "distinct (take k fin)"
      "\<forall>n \<in> set (take k fin). dep_of L n \<subseteq> set (take k fin)"
    using assms(1) causal_closed [OF assms(1)] by (auto simp: causal_def)
  obtain ms c' where "check_members L (take k fin) [] = Inr ms" "set ms = set (take k fin)"
      "check_closed L ms (take k fin) [] = Inr c'"
    using check_members_complete [OF c(1,2), of "[]"] check_closed_complete [of "take k fin" L] c(3) by force
  then have e: "e = BaseShrinks" "take (length (base L)) (take k fin) \<noteq> base L"
    using assms(3) by (auto simp: reconfigure_at_def split: if_splits)
  have "take (length (base L)) fin = base L" using assms(2) by (auto simp: prefix_def)
  then have "k < length (base L)" using e(2) by (metis min.absorb1 not_le take_take)
  with e(1) show ?thesis by simp
qed

lemma causal_take: "causal L out \<Longrightarrow> causal L (take k out)"
  by (auto simp: causal_def dest: in_set_takeD)

section \<open>Quorum degrees terminate with two indexers or more\<close>

lemma degree_loop_returns:
  assumes "\<forall>w pd. bt_get pre w = Some pd \<longrightarrow> pd < B" "self_vote < m"
  shows "\<exists>r. \<forall>fuel. B + 2 \<le> fuel + d \<and> 0 < fuel \<longrightarrow> degree_loop fuel ix author pre self_vote m d deg = Some r"
proof (induction "Suc B - d" arbitrary: d deg rule: less_induct)
  case less
  let ?n = "length (filter (\<lambda>w. w \<noteq> author \<and> (case bt_get pre w of None \<Rightarrow> False | Some pd \<Rightarrow> d - 1 \<le> pd)) ix)"
  show ?case
  proof (cases "m \<le> ?n + self_vote")
    case False
    then have "degree_loop fuel ix author pre self_vote m d deg = Some deg" if "0 < fuel" for fuel
      using that by (cases fuel) (simp_all add: Let_def del: One_nat_def)
    then show ?thesis by blast
  next
    case True
    then have "0 < ?n" using assms(2) by linarith
    then obtain w where "(case bt_get pre w of None \<Rightarrow> False | Some pd \<Rightarrow> d - 1 \<le> pd)"
      by (auto simp: filter_empty_conv)
    then have "d \<le> B" using assms(1) by (fastforce split: option.splits)
    then obtain r where r: "\<forall>fuel. B + 2 \<le> fuel + Suc d \<and> 0 < fuel \<longrightarrow>
        degree_loop fuel ix author pre self_vote m (Suc d) d = Some r"
      using less [of "Suc d" d] by (metis diff_less_mono2 le_imp_less_Suc lessI)
    have "degree_loop fuel ix author pre self_vote m d deg = Some r" if fuel: "B + 2 \<le> fuel + d" for fuel
    proof -
      obtain f where f: "fuel = Suc f" "0 < f"
        using fuel \<open>d \<le> B\<close> less_imp_Suc_add [of 1 fuel] by force
      then show ?thesis using r fuel True by (simp add: Let_def del: One_nat_def) simp
    qed
    then show ?thesis by blast
  qed
qed

lemma degree_step_returns:
  assumes "2 \<le> m"
  shows "\<exists>f0 r. \<forall>fuel \<ge> f0. degree_step fuel L ix m target v st = Some r"
proof -
  define ds where "ds = (case bt_get (deps L) v of None \<Rightarrow> [] | Some ds \<Rightarrow> ds)"
  define pre where "pre = fold (\<lambda>d pre. case bt_get (bestdeg st) d of None \<Rightarrow> pre | Some bd \<Rightarrow> merge_best bd pre) ds []"
  have "\<exists>B. \<forall>w pd. bt_get pre w = Some pd \<longrightarrow> pd < B"
  proof -
    have "finite (ran (bt_get pre))" by (simp add: finite_ran finite_dom_map_of)
    then obtain B where "\<forall>x \<in> ran (bt_get pre). x < B" using finite_nat_set_iff_bounded by blast
    then show ?thesis by (auto simp: ran_def)
  qed
  then obtain B where B: "\<forall>w pd. bt_get pre w = Some pd \<longrightarrow> pd < B" by blast
  have sv: "(if key v \<in> set ix then 1 else 0) < m" using assms by auto
  obtain r where r: "\<And>fuel. B + 2 \<le> fuel + 1 \<Longrightarrow> 0 < fuel \<Longrightarrow>
      degree_loop fuel ix (key v) pre (if key v \<in> set ix then 1 else 0) m 1 0 = Some r"
    using degree_loop_returns [of pre B "if key v \<in> set ix then 1 else 0" m 1 ix "key v" 0, OF B sv] by blast
  have "\<exists>q. \<forall>fuel \<ge> B + 2. degree_step fuel L ix m target v st = Some q"
    using r unfolding degree_step_def ds_def [symmetric] Let_def pre_def [symmetric]
    by (cases "v = target \<or> list_ex (\<lambda>d. bt_get (seesx st) d = Some True) ds") auto
  then show ?thesis by blast
qed

lemma degree_steps_returns:
  assumes "2 \<le> m"
  shows "\<exists>f0 r. \<forall>fuel \<ge> f0. degree_steps fuel L ix m target vs st = Some r"
proof (induction vs arbitrary: st)
  case (Cons v vs)
  obtain f1 q where q: "\<forall>fuel \<ge> f1. degree_step fuel L ix m target v st = Some q"
    using degree_step_returns [OF assms] by blast
  obtain f2 r where "\<forall>fuel \<ge> f2. degree_steps fuel L ix m target vs q = Some r" using Cons by blast
  then have "\<forall>fuel \<ge> max f1 f2. degree_steps fuel L ix m target (v # vs) st = Some r" using q by simp
  then show ?case by blast
qed simp

section \<open>Properties\<close>



text \<open>
  Reconfiguring to the first \<open>through\<close> finalized nodes fails with the right error when
  the request is longer than the finalized prefix or shorter than the pinned base, and otherwise
  pins exactly that prefix: whatever the new indexers confirm, the new finalized prefix extends it.
\<close>

theorem reconfigure_keeps_finality:
  assumes "dag_ok L" "causal L (base L)" "finalized L = Some fin"
  shows "\<exists>r. reconfigure L through ix = Some r \<and>
     (case r of
        Inl e \<Rightarrow> e = BeyondConfirmed (length fin) through \<and> length fin < through \<or>
                 e = BaseShrinks \<and> through < length (base L)
      | Inr L' \<Rightarrow> base L' = take through fin \<and> dag_ok L' \<and> causal L' (base L') \<and>
                  (\<exists>fin'. finalized L' = Some fin' \<and> prefix (take through fin) fin'))"
proof -
  have fin: "confirmed_view L = Some fin" "prefix (base L) fin" "causal L fin"
    using confirmed_view_ok [OF assms(1,2)] assms(3) by (auto simp: finalized_def)
  show ?thesis
  proof (cases "length fin < through")
    case True
    then show ?thesis using fin(1) by (simp add: reconfigure_def)
  next
    case False
    let ?b = "take through fin"
    have r: "reconfigure L through ix = Some (reconfigure_at L ?b ix)"
      using fin(1) False by (simp add: reconfigure_def)
    have cb: "causal L ?b" using fin(3) by (rule causal_take)
    show ?thesis
    proof (cases "reconfigure_at L ?b ix")
      case (Inl e)
      then show ?thesis using r reconfigure_at_Inl [OF cb fin(2) Inl] by auto
    next
      case (Inr L')
      note R = reconfigure_at_ok [OF Inr]
      have "causal L' (base L')" using cb R(1,6,7) by (simp add: causal_def)
      moreover have "dag_ok L'" using assms(1) R(5) by simp
      ultimately show ?thesis using confirmed_view_ok [of L'] r Inr R(1) by (auto simp: finalized_def)
    qed
  qed
qed

theorem reconfigure_keeps_finality_witness:
  "\<exists>r fin. finalized (with_indexers [[1]]) = Some fin \<and> reconfigure (with_indexers [[1]]) 0 [[2]] = Some r \<and>
     (case r of Inl e \<Rightarrow> False | Inr L' \<Rightarrow> base L' = take 0 fin \<and> dag_ok L')"
proof -
  have b: "base (with_indexers [[1]]) = []" by (simp add: with_indexers_def new_linearizer_def)
  then obtain fin where fin: "finalized (with_indexers [[1]]) = Some fin"
    using order_ok [OF with_indexers_ok [of "[[1]]"]] by auto
  show ?thesis
    using reconfigure_keeps_finality [OF with_indexers_ok _ fin, of 0 "[[2]]"] b fin
    by (fastforce split: sum.splits)
qed

text \<open>
  The quorum degree is computed in finitely many steps, with a result that does not
  depend on the fuel, whenever there are at least two indexers.
\<close>

theorem quorum_degree_returns:
  assumes "dag_ok L" "indexers L = Some ix" "2 \<le> length ix"
  shows "\<exists>f0 d. \<forall>fuel \<ge> f0. quorum_degree fuel L target = Some d"
proof -
  let ?m = "length ix div 2 + 1"
  have m: "2 \<le> ?m" using assms(3) by simp
  obtain vs where vs: "plain_order L = Some vs" using plain_order_correct [OF assms(1)] by blast
  obtain f0 r where "\<forall>fuel \<ge> f0. degree_steps fuel L ix ?m target vs \<lparr> bestdeg = [], seesx = [], max_degree = 0 \<rparr> = Some r"
    using degree_steps_returns [OF m] by blast
  then have "\<forall>fuel \<ge> f0. quorum_degree fuel L target =
      (if \<not> contains L target then Some 0 else Some (max_degree r))"
    using vs assms(2) by (simp add: quorum_degree_def majority_def)
  then show ?thesis by meson
qed

theorem quorum_degree_returns_witness:
  "\<exists>f0 d. \<forall>fuel \<ge> f0. quorum_degree fuel (with_indexers [[1], [2]]) (NodeId [1] 0) = Some d"
  using quorum_degree_returns [OF with_indexers_ok, of "[[1], [2]]" "[[1], [2]]"]
  by (simp add: with_indexers_def new_linearizer_def bs_collect_def)


text \<open>
  \<open>reconfigure_at\<close> checks that the base is causally closed as a set, but not that it
  lists causes before effects: a base in the wrong order is accepted, and from then on \<open>order\<close>
  emits a node before a node it depends on.
\<close>

theorem reconfigure_at_accepts_misordered_base:
  "\<exists>L L'. deliver (with_indexers [[1], [2]]) [(NodeId [1] 0, []), (NodeId [2] 0, [NodeId [1] 0])] = Inr L \<and>
     reconfigure_at L [NodeId [2] 0, NodeId [1] 0] [[1], [2]] = Inr L' \<and>
     order L' = Some [NodeId [2] 0, NodeId [1] 0] \<and> NodeId [1] 0 \<in> dep_of L' (NodeId [2] 0)"
proof -
  let ?xs = "[(NodeId [1] 0, []), (NodeId [2] 0, [NodeId [1] 0])]"
  have "\<not> isl (deliver (with_indexers [[1], [2]]) ?xs) \<and>
     (let L = projr (deliver (with_indexers [[1], [2]]) ?xs)
      in \<not> isl (reconfigure_at L [NodeId [2] 0, NodeId [1] 0] [[1], [2]]) \<and>
         (let L' = projr (reconfigure_at L [NodeId [2] 0, NodeId [1] 0] [[1], [2]])
          in order L' = Some [NodeId [2] 0, NodeId [1] 0] \<and> NodeId [1] 0 \<in> dep_of L' (NodeId [2] 0)))"
    by code_simp
  then show ?thesis unfolding Let_def by (metis sum.collapse(2))
qed

end
