(* ===== verification/Store.thy ===== *)
theory Store
  imports Ordered
begin

text \<open>
  The crate \<open>storage\<close>, its interface and the two simple backends: the \<open>Store\<close> trait as a record of
  operations with its contract as a locale (\<open>crates/storage/src/lib.rs\<close>), \<open>MemoryStore\<close>, and the
  write-through combinator \<open>TeeStore\<close> (\<open>crates/storage/src/tee.rs\<close>), which meets the contract
  whenever its two sides do.
\<close>

section \<open>The trait\<close>

text \<open>
  Keys are \<open>u64\<close>, here natural numbers below \<open>2 ^ 64\<close>. Methods on \<open>&mut self\<close> return the store as
  well: a failed call may have changed it.
\<close>

record ('e, 's) store =
  st_put :: "'s \<Rightarrow> nat \<Rightarrow> bytes \<Rightarrow> ('e, unit, 's) outcome"
  st_get :: "'s \<Rightarrow> nat \<Rightarrow> ('e, bytes option) result"
  st_delete :: "'s \<Rightarrow> nat \<Rightarrow> ('e, unit, 's) outcome"
  st_len :: "'s \<Rightarrow> ('e, nat) result"

definition st_contains :: "('e, 's) store \<Rightarrow> 's \<Rightarrow> nat \<Rightarrow> ('e, bool) result" where
  "st_contains S s k = bind_res (st_get S s k) (\<lambda>v. Inr (v \<noteq> None))"

definition st_is_empty :: "('e, 's) store \<Rightarrow> 's \<Rightarrow> ('e, bool) result" where
  "st_is_empty S s = bind_res (st_len S s) (\<lambda>n. Inr (n = 0))"

section \<open>The backends\<close>

type_synonym memory_store = "(nat, bytes) btmap"

definition mem_store :: "('e, memory_store) store" where
  "mem_store = \<lparr>
     st_put = (\<lambda>m k v. (Inr (), bt_insert k v m)),
     st_get = (\<lambda>m k. Inr (bt_get m k)),
     st_delete = (\<lambda>m k. (Inr (), bt_remove k m)),
     st_len = (\<lambda>m. Inr (length m)) \<rparr>"

record ('p, 'c) tee =
  primary :: 'p
  cache :: 'c

datatype ('pe, 'ce) tee_error = Primary 'pe | Cache 'ce

definition map_fst :: "('e \<Rightarrow> 'f) \<Rightarrow> ('e, 'a, 's) outcome \<Rightarrow> ('f, 'a, 's) outcome" where
  "map_fst f m = (map_err f (fst m), snd m)"

definition tee_put :: "('pe, 'p) store \<Rightarrow> ('ce, 'c) store \<Rightarrow> ('p, 'c) tee \<Rightarrow> nat \<Rightarrow> bytes \<Rightarrow>
    (('pe, 'ce) tee_error, unit, ('p, 'c) tee) outcome" where
  "tee_put P C t k v =
     and_then (map_fst Primary (st_put P (primary t) k v)) (\<lambda>_ p.
       let t = t\<lparr> primary := p \<rparr>
       in and_then (map_fst Cache (st_put C (cache t) k v)) (\<lambda>_ c. (Inr (), t\<lparr> cache := c \<rparr>))
            (\<lambda>c. t\<lparr> cache := c \<rparr>)) (\<lambda>p. t\<lparr> primary := p \<rparr>)"

definition tee_get :: "('pe, 'p) store \<Rightarrow> ('ce, 'c) store \<Rightarrow> ('p, 'c) tee \<Rightarrow> nat \<Rightarrow>
    (('pe, 'ce) tee_error, bytes option) result" where
  "tee_get P C t k =
     bind_res (map_err Primary (st_get P (primary t) k)) (\<lambda>r.
       case r of Some v \<Rightarrow> Inr (Some v) | None \<Rightarrow> map_err Cache (st_get C (cache t) k))"

definition tee_delete :: "('pe, 'p) store \<Rightarrow> ('ce, 'c) store \<Rightarrow> ('p, 'c) tee \<Rightarrow> nat \<Rightarrow>
    (('pe, 'ce) tee_error, unit, ('p, 'c) tee) outcome" where
  "tee_delete P C t k =
     and_then (map_fst Primary (st_delete P (primary t) k)) (\<lambda>_ p.
       let t = t\<lparr> primary := p \<rparr>
       in and_then (map_fst Cache (st_delete C (cache t) k)) (\<lambda>_ c. (Inr (), t\<lparr> cache := c \<rparr>))
            (\<lambda>c. t\<lparr> cache := c \<rparr>)) (\<lambda>p. t\<lparr> primary := p \<rparr>)"

definition tee_len :: "('pe, 'p) store \<Rightarrow> ('ce, 'c) store \<Rightarrow> ('p, 'c) tee \<Rightarrow>
    (('pe, 'ce) tee_error, nat) result" where
  "tee_len P C t =
     bind_res (map_err Primary (st_len P (primary t))) (\<lambda>p.
       if 0 < p then Inr p else map_err Cache (st_len C (cache t)))"

definition tee_store :: "('pe, 'p) store \<Rightarrow> ('ce, 'c) store \<Rightarrow> (('pe, 'ce) tee_error, ('p, 'c) tee) store" where
  "tee_store P C = \<lparr> st_put = tee_put P C, st_get = tee_get P C, st_delete = tee_delete P C, st_len = tee_len P C \<rparr>"

section \<open>The contract\<close>

text \<open>
  What \<open>contract::run\<close> demands of a backend, for every call that succeeds: the store is a finite map
  from keys to byte strings. \<open>ok\<close> is the backend's own invariant, \<open>fits\<close> the values it can hold
  (the log-structured store has 32-bit lengths).
\<close>

locale byte_store =
  fixes S :: "('e, 's) store" and ok :: "'s \<Rightarrow> bool" and content :: "'s \<Rightarrow> nat \<Rightarrow> bytes option"
    and fits :: "bytes \<Rightarrow> bool"
  assumes put_law: "\<lbrakk>ok s; k < 2 ^ 64; fits v; st_put S s k v = (Inr (), s')\<rbrakk> \<Longrightarrow>
      ok s' \<and> content s' = (content s)(k \<mapsto> v)"
    and delete_law: "\<lbrakk>ok s; k < 2 ^ 64; st_delete S s k = (Inr (), s')\<rbrakk> \<Longrightarrow>
      ok s' \<and> content s' = (content s)(k := None)"
    and get_law: "\<lbrakk>ok s; st_get S s k = Inr r\<rbrakk> \<Longrightarrow> r = content s k"
    and len_law: "\<lbrakk>ok s; st_len S s = Inr n\<rbrakk> \<Longrightarrow> n = card (dom (content s))"
    and finite_content: "ok s \<Longrightarrow> finite (dom (content s))"
begin

lemma get_put: "\<lbrakk>ok s; k < 2 ^ 64; fits v; st_put S s k v = (Inr (), s'); st_get S s' j = Inr r\<rbrakk> \<Longrightarrow>
    r = (if j = k then Some v else content s j)"
  using put_law [of s k v s'] get_law [of s' j r] by auto

lemma get_delete: "\<lbrakk>ok s; k < 2 ^ 64; st_delete S s k = (Inr (), s'); st_get S s' j = Inr r\<rbrakk> \<Longrightarrow>
    r = (if j = k then None else content s j)"
  using delete_law [of s k s'] get_law [of s' j r] by auto

lemma contains_law: "\<lbrakk>ok s; st_contains S s k = Inr b\<rbrakk> \<Longrightarrow> b \<longleftrightarrow> k \<in> dom (content s)"
  using get_law by (auto simp: st_contains_def)

lemma is_empty_law: "\<lbrakk>ok s; st_is_empty S s = Inr b\<rbrakk> \<Longrightarrow> b \<longleftrightarrow> content s = Map.empty"
  using len_law [of s] finite_content [of s] by (auto simp: st_is_empty_def)

end

text \<open>A backend none of whose operations fails on a valid state.\<close>

locale total_store = byte_store +
  assumes put_total: "\<lbrakk>ok s; k < 2 ^ 64; fits v\<rbrakk> \<Longrightarrow> \<exists>s'. st_put S s k v = (Inr (), s')"
    and delete_total: "\<lbrakk>ok s; k < 2 ^ 64\<rbrakk> \<Longrightarrow> \<exists>s'. st_delete S s k = (Inr (), s')"
    and get_total: "ok s \<Longrightarrow> \<exists>r. st_get S s k = Inr r"
    and len_total: "ok s \<Longrightarrow> \<exists>n. st_len S s = Inr n"
begin

lemma get_eq: "ok s \<Longrightarrow> st_get S s k = Inr (content s k)"
  using get_total get_law by blast

lemma len_eq: "ok s \<Longrightarrow> st_len S s = Inr (card (dom (content s)))"
  using len_total len_law by blast

end

section \<open>MemoryStore meets the contract\<close>

lemma bt_inv_card: "bt_inv m \<Longrightarrow> card (dom (bt_get m)) = length m"
  using distinct_card [OF bt_inv_distinct, of m] by (simp add: dom_map_of_conv_image_fst)

interpretation mem: total_store mem_store bt_inv bt_get "\<lambda>_. True"
  by unfold_locales (auto simp: mem_store_def bt_inv_card finite_dom_map_of)

section \<open>TeeStore meets the contract when its sides do\<close>

text \<open>In normal operation both sides hold the same data.\<close>

definition lockstep :: "('p \<Rightarrow> bool) \<Rightarrow> ('p \<Rightarrow> nat \<Rightarrow> bytes option) \<Rightarrow> ('c \<Rightarrow> bool) \<Rightarrow> ('c \<Rightarrow> nat \<Rightarrow> bytes option) \<Rightarrow>
    ('p, 'c) tee \<Rightarrow> bool" where
  "lockstep okp contp okc contc t \<longleftrightarrow> okp (primary t) \<and> okc (cache t) \<and> contp (primary t) = contc (cache t)"

lemma map_fst_Inr [simp]: "map_fst f m = (Inr x, s) \<longleftrightarrow> m = (Inr x, s)"
  by (cases m) (auto simp: map_fst_def)

lemma tee_put_Inr: "tee_put P C t k v = (Inr (), t') \<longleftrightarrow>
    (\<exists>p c. st_put P (primary t) k v = (Inr (), p) \<and> st_put C (cache t) k v = (Inr (), c) \<and>
           t' = t\<lparr> primary := p, cache := c \<rparr>)"
  by (auto simp: tee_put_def Let_def)

lemma tee_delete_Inr: "tee_delete P C t k = (Inr (), t') \<longleftrightarrow>
    (\<exists>p c. st_delete P (primary t) k = (Inr (), p) \<and> st_delete C (cache t) k = (Inr (), c) \<and>
           t' = t\<lparr> primary := p, cache := c \<rparr>)"
  by (auto simp: tee_delete_def Let_def)

locale tee_sides =
  p: byte_store P okp contp fits + c: byte_store C okc contc fits
  for P :: "('pe, 'p) store" and okp contp fits and C :: "('ce, 'c) store" and okc contc

sublocale tee_sides \<subseteq> t: byte_store "tee_store P C" "lockstep okp contp okc contc" "\<lambda>t. contc (cache t)" fits
proof unfold_locales
  fix t k v and t' :: "('p, 'c) tee"
  assume t: "lockstep okp contp okc contc t" "k < 2 ^ 64" "fits v" "st_put (tee_store P C) t k v = (Inr (), t')"
  then obtain p' c' where t': "st_put P (primary t) k v = (Inr (), p')" "st_put C (cache t) k v = (Inr (), c')"
    "t' = t\<lparr> primary := p', cache := c' \<rparr>" by (auto simp: tee_store_def tee_put_Inr)
  show "lockstep okp contp okc contc t' \<and> contc (cache t') = (contc (cache t))(k \<mapsto> v)"
    using p.put_law [OF _ t(2,3) t'(1)] c.put_law [OF _ t(2,3) t'(2)] t(1) t'(3) by (simp add: lockstep_def)
next
  fix t k and t' :: "('p, 'c) tee"
  assume t: "lockstep okp contp okc contc t" "k < 2 ^ 64" "st_delete (tee_store P C) t k = (Inr (), t')"
  then obtain p' c' where t': "st_delete P (primary t) k = (Inr (), p')" "st_delete C (cache t) k = (Inr (), c')"
    "t' = t\<lparr> primary := p', cache := c' \<rparr>" by (auto simp: tee_store_def tee_delete_Inr)
  show "lockstep okp contp okc contc t' \<and> contc (cache t') = (contc (cache t))(k := None)"
    using p.delete_law [OF _ t(2) t'(1)] c.delete_law [OF _ t(2) t'(2)] t(1) t'(3) by (simp add: lockstep_def)
next
  fix t k r
  assume t: "lockstep okp contp okc contc t" "st_get (tee_store P C) t k = Inr r"
  then obtain q where q: "st_get P (primary t) k = Inr q" by (auto simp: tee_store_def tee_get_def)
  show "r = contc (cache t) k"
    using p.get_law [OF _ q] c.get_law [of "cache t" k r] t q
    by (auto simp: tee_store_def tee_get_def lockstep_def split: option.splits)
next
  fix t n
  assume t: "lockstep okp contp okc contc t" "st_len (tee_store P C) t = Inr n"
  then obtain m where m: "st_len P (primary t) = Inr m" by (auto simp: tee_store_def tee_len_def)
  show "n = card (dom (contc (cache t)))"
    using p.len_law [OF _ m] c.len_law [of "cache t" n] t m
    by (auto simp: tee_store_def tee_len_def lockstep_def split: if_splits)
qed (auto simp: lockstep_def c.finite_content)

interpretation memtee: tee_sides mem_store bt_inv bt_get "\<lambda>_. True" mem_store bt_inv bt_get
  by unfold_locales

section \<open>Properties\<close>

text \<open>
  \<open>TeeStore\<close> writes through: after a successful write or delete both sides hold the
  updated map, a read returns it, and a read still answers from the cache when the primary was
  lost and replaced by an empty store.
\<close>

theorem tee_write_through:
  fixes P :: "('pe, 'p) store" and C :: "('ce, 'c) store"
  assumes "byte_store P okp contp fits" "byte_store C okc contc fits" "lockstep okp contp okc contc t"
    "k < 2 ^ 64" "fits v" "okp fresh" "contp fresh = Map.empty"
  shows "(tee_put P C t k v = (Inr (), t') \<longrightarrow>
            contp (primary t') = (contp (primary t))(k \<mapsto> v) \<and> contc (cache t') = (contc (cache t))(k \<mapsto> v)) \<and>
         (tee_delete P C t k = (Inr (), t') \<longrightarrow>
            contp (primary t') = (contp (primary t))(k := None) \<and> contc (cache t') = (contc (cache t))(k := None)) \<and>
         (tee_get P C t j = Inr r \<longrightarrow> r = contp (primary t) j) \<and>
         (tee_get P C (t\<lparr> primary := fresh \<rparr>) j = Inr r' \<longrightarrow> r' = contc (cache t) j)"
proof (intro conjI impI)
  note laws = assms(3) [unfolded lockstep_def]
  show "contp (primary t') = (contp (primary t))(k \<mapsto> v)" if "tee_put P C t k v = (Inr (), t')"
    using that byte_store.put_law [OF assms(1) _ assms(4,5)] laws by (auto simp: tee_put_Inr)
  show "contc (cache t') = (contc (cache t))(k \<mapsto> v)" if "tee_put P C t k v = (Inr (), t')"
    using that byte_store.put_law [OF assms(2) _ assms(4,5)] laws by (auto simp: tee_put_Inr)
  show "contp (primary t') = (contp (primary t))(k := None)" if "tee_delete P C t k = (Inr (), t')"
    using that byte_store.delete_law [OF assms(1) _ assms(4)] laws by (auto simp: tee_delete_Inr)
  show "contc (cache t') = (contc (cache t))(k := None)" if "tee_delete P C t k = (Inr (), t')"
    using that byte_store.delete_law [OF assms(2) _ assms(4)] laws by (auto simp: tee_delete_Inr)
  show "r = contp (primary t) j" if "tee_get P C t j = Inr r"
    using that byte_store.get_law [OF assms(1), of "primary t" j] byte_store.get_law [OF assms(2), of "cache t" j] laws
    by (auto simp: tee_get_def split: option.splits)
  show "r' = contc (cache t) j" if "tee_get P C (t\<lparr> primary := fresh \<rparr>) j = Inr r'"
    using that byte_store.get_law [OF assms(1) assms(6), of j] byte_store.get_law [OF assms(2), of "cache t" j] laws assms(7)
    by (auto simp: tee_get_def split: option.splits)
qed

theorem tee_write_through_witness:
  "\<exists>t' :: (memory_store, memory_store) tee.
     tee_put mem_store mem_store \<lparr> primary = [(1, [7])], cache = [(1, [7])] \<rparr> 2 [8] = (Inr (), t') \<and>
     bt_get (primary t') 2 = Some [8] \<and> bt_get (cache t') 2 = Some [8]"
proof -
  let ?t = "\<lparr> primary = [(1, [7])], cache = [(1, [7])] \<rparr> :: (memory_store, memory_store) tee"
  let ?t' = "\<lparr> primary = [(1, [7]), (2, [8])], cache = [(1, [7]), (2, [8])] \<rparr> :: (memory_store, memory_store) tee"
  have put: "tee_put mem_store mem_store ?t 2 [8] = (Inr (), ?t')"
    by (simp add: tee_put_Inr mem_store_def)
  show ?thesis
    using tee_write_through [of mem_store bt_inv bt_get "\<lambda>_. True" mem_store bt_inv bt_get ?t 2 "[8]" "[]" ?t',
        OF mem.byte_store_axioms mem.byte_store_axioms] put
    by (auto simp: lockstep_def bt_inv_Cons)
qed

end
