(* ===== verification/Log_Store.thy ===== *)
theory Log_Store
  imports Store
begin

text \<open>
  The log-structured store over a synchronous file, \<open>crates/storage/src/log.rs\<close>: the \<open>SyncFile\<close>
  trait as a record of operations with its contract as a locale, \<open>MemFile\<close>, record encoding,
  replay on open, append, tombstones, compaction. The store meets the contract \<open>byte_store\<close> over every
  file that meets \<open>sync_file\<close>; \<open>StdFile\<close> is the operating system's file and a parameter here.
\<close>

section \<open>Files\<close>

record ('e, 'f) file_ops =
  sf_size :: "'f \<Rightarrow> ('e, nat) result"
  sf_read :: "'f \<Rightarrow> nat \<Rightarrow> nat \<Rightarrow> ('e, bytes) result"
  sf_write :: "'f \<Rightarrow> nat \<Rightarrow> bytes \<Rightarrow> ('e, unit, 'f) outcome"
  sf_truncate :: "'f \<Rightarrow> nat \<Rightarrow> ('e, unit, 'f) outcome"
  sf_flush :: "'f \<Rightarrow> ('e, unit, 'f) outcome"

text \<open>
  \<open>MemFile\<close> has \<open>Error = Infallible\<close>; the one value of \<open>fault\<close> is the panic of a slice index out of
  range. A read past the end leaves the rest of the zeroed buffer as it is.
\<close>

datatype fault = Panic

definition mem_read :: "bytes \<Rightarrow> nat \<Rightarrow> nat \<Rightarrow> (fault, bytes) result" where
  "mem_read data off len =
     (let n = min len (length data - off)
      in if length data < off then Inl Panic
         else Inr (take n (drop off data) @ replicate (len - n) 0))"

definition mem_write :: "bytes \<Rightarrow> nat \<Rightarrow> bytes \<Rightarrow> (fault, unit, bytes) outcome" where
  "mem_write data off buf =
     (let data = (if length data < off + length buf
                  then data @ replicate (off + length buf - length data) 0 else data)
      in (Inr (), take off data @ buf @ drop (off + length buf) data))"

definition mem_file :: "(fault, bytes) file_ops" where
  "mem_file = \<lparr>
     sf_size = (\<lambda>f. Inr (length f)),
     sf_read = mem_read,
     sf_write = mem_write,
     sf_truncate = (\<lambda>f n. (Inr (), take n f)),
     sf_flush = (\<lambda>f. (Inr (), f)) \<rparr>"

section \<open>Records\<close>

abbreviation HDR :: nat where "HDR \<equiv> 13"

abbreviation KIND_PUT :: byte where "KIND_PUT \<equiv> 0"

abbreviation KIND_DEL :: byte where "KIND_DEL \<equiv> 1"

abbreviation MIN_COMPACT :: nat where "MIN_COMPACT \<equiv> 4096"

text \<open>\<open>value.len() as u32\<close>: the four low bytes of the length.\<close>

definition encode_record :: "nat \<Rightarrow> byte \<Rightarrow> bytes \<Rightarrow> bytes" where
  "encode_record key kind v = le64 key @ [kind] @ le32 (length v) @ v"

section \<open>The store\<close>

record 'f log_store =
  log_file :: 'f
  log_index :: "(nat, nat \<times> nat) btmap"
  log_end :: nat
  log_dead :: nat

text \<open>The bytes that \<open>insert\<close> or \<open>remove\<close> of a key make reclaimable.\<close>

definition superseded :: "(nat, nat \<times> nat) btmap \<Rightarrow> nat \<Rightarrow> nat" where
  "superseded idx k = (case bt_get idx k of None \<Rightarrow> 0 | Some (_, old) \<Rightarrow> HDR + old)"

text \<open>
  The replay loop of \<open>open\<close>, on the bytes from \<open>pos\<close> on; the result is the index, the dead bytes and
  the position behind the last complete record.
\<close>

function replay :: "bytes \<Rightarrow> nat \<Rightarrow> (nat, nat \<times> nat) btmap \<Rightarrow> nat \<Rightarrow> (nat, nat \<times> nat) btmap \<times> nat \<times> nat" where
  "replay buf pos idx dead =
     (if length buf < HDR then (idx, dead, pos)
      else let key = of_le (take 8 buf);
               kind = buf ! 8;
               len = of_le (take 4 (drop 9 buf))
           in if length buf < HDR + len then (idx, dead, pos)
              else if kind = KIND_PUT
                   then replay (drop (HDR + len) buf) (pos + HDR + len) (bt_insert key (pos + HDR, len) idx)
                          (dead + superseded idx key)
              else if kind = KIND_DEL
                   then replay (drop (HDR + len) buf) (pos + HDR + len) (bt_remove key idx)
                          (dead + superseded idx key + HDR)
              else (idx, dead, pos))"
  by pat_completeness auto
termination
  by (relation "measure (\<lambda>(buf, pos, idx, dead). length buf)") auto

declare replay.simps [simp del]

definition open_log :: "('e, 'f) file_ops \<Rightarrow> 'f \<Rightarrow> ('e, 'f log_store, 'f) outcome" where
  "open_log F file =
     (case sf_size F file of
        Inl e \<Rightarrow> (Inl e, file)
      | Inr sz \<Rightarrow>
          (case (if 0 < sz then sf_read F file 0 sz else Inr []) of
             Inl e \<Rightarrow> (Inl e, file)
           | Inr buf \<Rightarrow>
               let (idx, dead, end) = replay buf 0 [] 0
               in and_then (if end < sz then sf_truncate F file end else (Inr (), file))
                    (\<lambda>_ file. (Inr \<lparr> log_file = file, log_index = idx, log_end = end, log_dead = dead \<rparr>, file))
                    (\<lambda>file. file)))"

text \<open>\<open>vec![0u8; len]\<close>, filled by \<open>read_at\<close> unless it is empty.\<close>

definition read_value :: "('e, 'f) file_ops \<Rightarrow> 'f \<Rightarrow> nat \<times> nat \<Rightarrow> ('e, bytes) result" where
  "read_value F file = (\<lambda>(off, len). if 0 < len then sf_read F file off len else Inr [])"

fun read_live :: "('e, 'f) file_ops \<Rightarrow> 'f \<Rightarrow> (nat, nat \<times> nat) btmap \<Rightarrow> ('e, (nat \<times> bytes) list) result" where
  "read_live F file [] = Inr []"
| "read_live F file ((k, e) # idx) =
     bind_res (read_value F file e) (\<lambda>v. bind_res (read_live F file idx) (\<lambda>live. Inr ((k, v) # live)))"

fun fresh_records :: "(nat \<times> bytes) list \<Rightarrow> bytes \<Rightarrow> (nat, nat \<times> nat) btmap \<Rightarrow> bytes \<times> (nat, nat \<times> nat) btmap" where
  "fresh_records [] fresh idx = (fresh, idx)"
| "fresh_records ((k, v) # live) fresh idx =
     fresh_records live (fresh @ encode_record k KIND_PUT v)
       (bt_insert k (length fresh + HDR, length v mod 2 ^ 32) idx)"

definition compact :: "('e, 'f) file_ops \<Rightarrow> 'f log_store \<Rightarrow> ('e, unit, 'f log_store) outcome" where
  "compact F s =
     (case read_live F (log_file s) (log_index s) of
        Inl e \<Rightarrow> (Inl e, s)
      | Inr live \<Rightarrow>
          let (fresh, idx) = fresh_records live [] [];
              keep = (\<lambda>f. s\<lparr> log_file := f \<rparr>)
          in and_then (sf_truncate F (log_file s) 0) (\<lambda>_ f.
             and_then (if fresh \<noteq> [] then sf_write F f 0 fresh else (Inr (), f)) (\<lambda>_ f.
             and_then (sf_flush F f) (\<lambda>_ f.
               (Inr (), s\<lparr> log_file := f, log_index := idx, log_end := length fresh, log_dead := 0 \<rparr>))
               keep) keep) keep)"

definition maybe_compact :: "('e, 'f) file_ops \<Rightarrow> 'f log_store \<Rightarrow> ('e, unit, 'f log_store) outcome" where
  "maybe_compact F s =
     (if MIN_COMPACT < log_end s \<and> log_end s < min (log_dead s * 2) (2 ^ 64 - 1) then compact F s
      else (Inr (), s))"

definition log_put :: "('e, 'f) file_ops \<Rightarrow> 'f log_store \<Rightarrow> nat \<Rightarrow> bytes \<Rightarrow> ('e, unit, 'f log_store) outcome" where
  "log_put F s key v =
     (let rec = encode_record key KIND_PUT v
      in and_then (sf_write F (log_file s) (log_end s) rec) (\<lambda>_ f.
           let s = s\<lparr> log_file := f,
                      log_index := bt_insert key (log_end s + HDR, length v mod 2 ^ 32) (log_index s),
                      log_dead := log_dead s + superseded (log_index s) key,
                      log_end := log_end s + length rec \<rparr>
           in and_then (sf_flush F f) (\<lambda>_ f. maybe_compact F (s\<lparr> log_file := f \<rparr>)) (\<lambda>f. s\<lparr> log_file := f \<rparr>))
         (\<lambda>f. s\<lparr> log_file := f \<rparr>))"

definition log_get :: "('e, 'f) file_ops \<Rightarrow> 'f log_store \<Rightarrow> nat \<Rightarrow> ('e, bytes option) result" where
  "log_get F s key =
     (case bt_get (log_index s) key of
        None \<Rightarrow> Inr None
      | Some e \<Rightarrow> bind_res (read_value F (log_file s) e) (\<lambda>v. Inr (Some v)))"

definition log_delete :: "('e, 'f) file_ops \<Rightarrow> 'f log_store \<Rightarrow> nat \<Rightarrow> ('e, unit, 'f log_store) outcome" where
  "log_delete F s key =
     (if bt_contains (log_index s) key
      then let old = superseded (log_index s) key;
               s = s\<lparr> log_index := bt_remove key (log_index s) \<rparr>;
               rec = encode_record key KIND_DEL []
           in and_then (sf_write F (log_file s) (log_end s) rec) (\<lambda>_ f.
                let s = s\<lparr> log_file := f, log_end := log_end s + length rec, log_dead := log_dead s + old + HDR \<rparr>
                in and_then (sf_flush F f) (\<lambda>_ f. maybe_compact F (s\<lparr> log_file := f \<rparr>)) (\<lambda>f. s\<lparr> log_file := f \<rparr>))
              (\<lambda>f. s\<lparr> log_file := f \<rparr>)
      else (Inr (), s))"

definition log_len :: "'f log_store \<Rightarrow> ('e, nat) result" where
  "log_len s = Inr (length (log_index s))"

definition log_ops :: "('e, 'f) file_ops \<Rightarrow> ('e, 'f log_store) store" where
  "log_ops F = \<lparr> st_put = log_put F, st_get = log_get F, st_delete = log_delete F, st_len = log_len \<rparr>"

section \<open>The contract of a file\<close>

text \<open>
  What the log relies on, for every call that succeeds: reads and writes inside the file or at its
  end, truncation to a prefix, and a flush that changes nothing.
\<close>

locale sync_file =
  fixes F :: "('e, 'f) file_ops" and data :: "'f \<Rightarrow> bytes"
  assumes size_law: "sf_size F f = Inr n \<Longrightarrow> n = length (data f)"
    and read_law: "\<lbrakk>off + len \<le> length (data f); sf_read F f off len = Inr buf\<rbrakk> \<Longrightarrow> buf = take len (drop off (data f))"
    and write_law: "\<lbrakk>off \<le> length (data f); sf_write F f off buf = (Inr (), f')\<rbrakk> \<Longrightarrow>
        data f' = take off (data f) @ buf @ drop (off + length buf) (data f)"
    and truncate_law: "\<lbrakk>n \<le> length (data f); sf_truncate F f n = (Inr (), f')\<rbrakk> \<Longrightarrow> data f' = take n (data f)"
    and flush_law: "sf_flush F f = (Inr (), f') \<Longrightarrow> data f' = data f"

interpretation memf: sync_file mem_file "\<lambda>f. f"
  by unfold_locales (auto simp: mem_file_def mem_read_def mem_write_def Let_def split: if_splits)

section \<open>Replay\<close>

lemma replay_short: "length buf < HDR \<Longrightarrow> replay buf pos idx dead = (idx, dead, pos)"
  by (subst replay.simps) simp

lemma length_encode_record [simp]: "length (encode_record k kind v) = HDR + length v"
  by (simp add: encode_record_def)

lemma encode_record_fields:
  assumes "k < 2 ^ 64" "length v < 2 ^ 32"
  shows "of_le (take 8 (encode_record k kind v @ rest)) = k"
    "(encode_record k kind v @ rest) ! 8 = kind"
    "of_le (take 4 (drop 9 (encode_record k kind v @ rest))) = length v"
    "drop (HDR + length v) (encode_record k kind v @ rest) = rest"
proof -
  show "drop (HDR + length v) (encode_record k kind v @ rest) = rest" by simp
qed (use assms in \<open>simp_all add: encode_record_def nth_append\<close>)

lemma replay_put:
  assumes "k < 2 ^ 64" "length v < 2 ^ 32"
  shows "replay (encode_record k KIND_PUT v @ rest) pos idx dead =
         replay rest (pos + HDR + length v) (bt_insert k (pos + HDR, length v) idx) (dead + superseded idx k)"
  by (subst replay.simps) (simp only: Let_def encode_record_fields [OF assms], simp)

lemma replay_del:
  assumes "k < 2 ^ 64"
  shows "replay (encode_record k KIND_DEL [] @ rest) pos idx dead =
         replay rest (pos + HDR) (bt_remove k idx) (dead + superseded idx k + HDR)"
  using encode_record_fields [of k "[]" KIND_DEL rest] assms
  by (subst replay.simps) (simp add: Let_def del: of_le.simps)

text \<open>A log that was read to its end can be continued.\<close>

lemma replay_append:
  assumes "replay c pos idx dead = (idx', dead', pos + length c)"
  shows "replay (c @ d) pos idx dead = replay d (pos + length c) idx' dead'"
  using assms
proof (induction c pos idx dead rule: replay.induct)
  case (1 c pos idx dead)
  let ?key = "of_le (take 8 c)" and ?kind = "c ! 8" and ?len = "of_le (take 4 (drop 9 c))"
  show ?case
  proof (cases "length c < HDR \<or> length c < HDR + ?len \<or> (?kind \<noteq> KIND_PUT \<and> ?kind \<noteq> KIND_DEL)")
    case True
    then have "replay c pos idx dead = (idx, dead, pos)" by (subst replay.simps) (auto simp: Let_def)
    then show ?thesis using 1(3) by simp
  next
    case False
    have fields: "take 8 (c @ d) = take 8 c" "(c @ d) ! 8 = ?kind" "take 4 (drop 9 (c @ d)) = take 4 (drop 9 c)"
      "drop (HDR + ?len) (c @ d) = drop (HDR + ?len) c @ d" "\<not> length (c @ d) < HDR" "\<not> length (c @ d) < HDR + ?len"
      using False by (auto simp: nth_append)
    have step: "replay (c @ e) pos idx dead =
        (if ?kind = KIND_PUT
         then replay (drop (HDR + ?len) c @ e) (pos + HDR + ?len) (bt_insert ?key (pos + HDR, ?len) idx) (dead + superseded idx ?key)
         else replay (drop (HDR + ?len) c @ e) (pos + HDR + ?len) (bt_remove ?key idx) (dead + superseded idx ?key + HDR))" for e
      using False by (subst replay.simps) (auto simp: Let_def nth_append)
    have len: "pos + HDR + ?len + length (drop (HDR + ?len) c) = pos + length c" using False by simp
    show ?thesis
    proof (cases "?kind = KIND_PUT")
      case True
      then show ?thesis
        using 1(1) [OF _ refl refl refl _ True] 1(3) False step [of d] step [of "[]"] len by simp
    next
      case k: False
      then show ?thesis
        using 1(2) [OF _ refl refl refl _ k] 1(3) False step [of d] step [of "[]"] len by simp
    qed
  qed
qed

text \<open>Every entry of the index lies in the part of the file already read.\<close>

definition entries_ok :: "(nat, nat \<times> nat) btmap \<Rightarrow> nat \<Rightarrow> bool" where
  "entries_ok idx pos \<longleftrightarrow>
     bt_inv idx \<and> (\<forall>k off len. bt_get idx k = Some (off, len) \<longrightarrow> k < 2 ^ 64 \<and> len < 2 ^ 32 \<and> off + len \<le> pos)"

lemma entries_ok_Nil [simp]: "entries_ok [] pos"
  by (simp add: entries_ok_def)

lemma entries_ok_insert:
  "\<lbrakk>entries_ok idx pos; k < 2 ^ 64; len < 2 ^ 32; off + len \<le> pos'; pos \<le> pos'\<rbrakk> \<Longrightarrow> entries_ok (bt_insert k (off, len) idx) pos'"
  unfolding entries_ok_def by (auto intro: le_trans)

lemma entries_ok_remove: "\<lbrakk>entries_ok idx pos; pos \<le> pos'\<rbrakk> \<Longrightarrow> entries_ok (bt_remove k idx) pos'"
  unfolding entries_ok_def by (auto intro: le_trans)

lemma of_le_take: "of_le (take n xs) < 256 ^ n"
  using of_le_less [of "take n xs"] by (simp add: min_def split: if_splits) (meson less_le_trans nat_le_linear power_increasing one_le_numeral)

lemma replay_entries:
  assumes "replay buf pos idx dead = (idx', dead', pos')" "entries_ok idx pos"
  shows "entries_ok idx' pos' \<and> pos' \<le> pos + length buf"
  using assms
proof (induction buf pos idx dead rule: replay.induct)
  case (1 buf pos idx dead)
  let ?key = "of_le (take 8 buf)" and ?len = "of_le (take 4 (drop 9 buf))"
  have b: "?key < 2 ^ 64" "?len < 2 ^ 32" using of_le_take [of 8 buf] of_le_take [of 4 "drop 9 buf"] by simp_all
  have ins: "entries_ok (bt_insert ?key (pos + HDR, ?len) idx) (pos + HDR + ?len)"
    using 1(4) b by (intro entries_ok_insert) auto
  have rem: "entries_ok (bt_remove ?key idx) (pos + HDR + ?len)"
    using 1(4) by (intro entries_ok_remove) auto
  show ?case
    using 1(3) 1(1) [OF _ refl refl refl _ _ _ ins] 1(2) [OF _ refl refl refl _ _ _ _ rem] 1(4)
    by (subst (asm) replay.simps) (auto simp: Let_def split: if_splits)
qed

text \<open>The value stored for a key in a file and its index.\<close>

definition value_at :: "bytes \<Rightarrow> (nat, nat \<times> nat) btmap \<Rightarrow> nat \<Rightarrow> bytes option" where
  "value_at d idx k = map_option (\<lambda>(off, len). take len (drop off d)) (bt_get idx k)"

lemma value_at_Nil [simp]: "value_at d [] = Map.empty"
  by (simp add: value_at_def fun_eq_iff)

lemma value_at_append: "entries_ok idx (length d) \<Longrightarrow> value_at (d @ e) idx = value_at d idx"
proof
  fix k
  assume "entries_ok idx (length d)"
  then have "off + len \<le> length d" if "bt_get idx k = Some (off, len)" for off len
    using that by (simp add: entries_ok_def)
  then have "len \<le> length d - off \<and> (len = 0 \<or> off < length d)" if "bt_get idx k = Some (off, len)" for off len
    using that by fastforce
  then show "value_at (d @ e) idx k = value_at d idx k"
    by (cases "bt_get idx k") (auto simp: value_at_def)
qed

lemma value_at_insert: "value_at d (bt_insert k (off, len) idx) = (value_at d idx)(k \<mapsto> take len (drop off d))"
  by (auto simp: value_at_def)

lemma value_at_remove: "value_at d (bt_remove k idx) = (value_at d idx)(k := None)"
  by (auto simp: value_at_def)

definition replays :: "bytes \<Rightarrow> (nat, nat \<times> nat) btmap \<Rightarrow> nat \<Rightarrow> bool" where
  "replays d idx dead \<longleftrightarrow> replay d 0 [] 0 = (idx, dead, length d)"

lemma replays_entries: "replays d idx dead \<Longrightarrow> entries_ok idx (length d)"
  using replay_entries [of d 0 "[]" 0] by (simp add: replays_def)

lemma put_step:
  assumes "replays d idx dead" "k < 2 ^ 64" "length v < 2 ^ 32"
  shows "replays (d @ encode_record k KIND_PUT v) (bt_insert k (length d + HDR, length v) idx) (dead + superseded idx k)"
    "value_at (d @ encode_record k KIND_PUT v) (bt_insert k (length d + HDR, length v) idx) = (value_at d idx)(k \<mapsto> v)"
proof -
  have "replay (d @ encode_record k KIND_PUT v) 0 [] 0 = replay (encode_record k KIND_PUT v @ []) (length d) idx dead"
    using replay_append [of d 0 "[]" 0 idx dead] assms(1) by (simp add: replays_def)
  then show "replays (d @ encode_record k KIND_PUT v) (bt_insert k (length d + HDR, length v) idx) (dead + superseded idx k)"
    unfolding replay_put [OF assms(2,3)] by (simp add: replays_def replay_short)
  show "value_at (d @ encode_record k KIND_PUT v) (bt_insert k (length d + HDR, length v) idx) = (value_at d idx)(k \<mapsto> v)"
    using replays_entries [OF assms(1)] by (simp add: value_at_insert value_at_append encode_record_def)
qed

lemma del_step:
  assumes "replays d idx dead" "k < 2 ^ 64"
  shows "replays (d @ encode_record k KIND_DEL []) (bt_remove k idx) (dead + superseded idx k + HDR)"
    "value_at (d @ encode_record k KIND_DEL []) (bt_remove k idx) = (value_at d idx)(k := None)"
proof -
  have "replay (d @ encode_record k KIND_DEL []) 0 [] 0 = replay (encode_record k KIND_DEL [] @ []) (length d) idx dead"
    using replay_append [of d 0 "[]" 0 idx dead] assms(1) by (simp add: replays_def)
  then show "replays (d @ encode_record k KIND_DEL []) (bt_remove k idx) (dead + superseded idx k + HDR)"
    unfolding replay_del [OF assms(2)] by (simp add: replays_def replay_short)
  show "value_at (d @ encode_record k KIND_DEL []) (bt_remove k idx) = (value_at d idx)(k := None)"
    using replays_entries [OF assms(1)] by (simp add: value_at_remove value_at_append)
qed

section \<open>Live and dead bytes\<close>

definition live_bytes :: "(nat, nat \<times> nat) btmap \<Rightarrow> nat" where
  "live_bytes idx = (\<Sum>(k, off, len) \<leftarrow> idx. HDR + len)"

lemma superseded_Nil [simp]: "superseded [] k = 0"
  by (simp add: superseded_def)

lemma superseded_absent: "k \<notin> fst ` set idx \<Longrightarrow> superseded idx k = 0"
  by (simp add: superseded_def map_of_eq_None_iff [symmetric])

lemma live_bytes_insert:
  "bt_inv idx \<Longrightarrow> live_bytes (bt_insert k (off, len) idx) + superseded idx k = live_bytes idx + HDR + len"
proof (induction idx)
  case (Cons e idx)
  obtain k' off' len' where e: "e = (k', off', len')" by (metis prod.exhaust)
  have "k < k' \<Longrightarrow> superseded (e # idx) k = 0"
    using Cons(2) by (intro superseded_absent) (auto simp: e bt_inv_Cons)
  then show ?case
    using Cons by (auto simp: e live_bytes_def bt_inv_Cons superseded_def split: option.splits)
qed (simp add: live_bytes_def)

lemma live_bytes_remove: "bt_inv idx \<Longrightarrow> live_bytes (bt_remove k idx) + superseded idx k = live_bytes idx"
proof (induction idx)
  case (Cons e idx)
  obtain k' off' len' where e: "e = (k', off', len')" by (metis prod.exhaust)
  have "k' = k \<Longrightarrow> superseded idx k = 0"
    using Cons(2) by (intro superseded_absent) (auto simp: e bt_inv_Cons)
  then show ?case
    using Cons by (auto simp: e live_bytes_def bt_inv_Cons bt_remove_def superseded_def split: option.splits)
qed (simp add: live_bytes_def bt_remove_def)

section \<open>Compaction\<close>

lemma fresh_records_ok:
  assumes "fresh_records live fr idx = (fr', idx')" "replays fr idx 0" "live_bytes idx = length fr"
    "distinct (map fst live)" "fst ` set live \<inter> fst ` set idx = {}"
    "\<forall>(k, v) \<in> set live. k < 2 ^ 64 \<and> length v < 2 ^ 32"
  shows "replays fr' idx' 0 \<and> live_bytes idx' = length fr' \<and>
         value_at fr' idx' = value_at fr idx ++ map_of live"
  using assms
proof (induction live fr idx arbitrary: fr' idx' rule: fresh_records.induct)
  case (2 k v live fr idx)
  let ?fr = "fr @ encode_record k KIND_PUT v" and ?idx = "bt_insert k (length fr + HDR, length v) idx"
  have k: "k < 2 ^ 64" "length v < 2 ^ 32" "superseded idx k = 0" "k \<notin> dom (map_of live)"
    using 2(5-7) by (auto intro: superseded_absent simp: dom_map_of_conv_image_fst)
  have inv: "bt_inv idx" using replays_entries [OF 2(3)] by (simp add: entries_ok_def)
  have "replays ?fr ?idx 0" using put_step(1) [OF 2(3) k(1,2)] k(3) by simp
  moreover have "live_bytes ?idx = length ?fr"
    using live_bytes_insert [OF inv, of k "length fr + HDR" "length v"] 2(4) k(3) by simp
  moreover have "fst ` set live \<inter> fst ` set ?idx = {}" using 2(5,6) by auto
  ultimately have IH: "replays fr' idx' 0 \<and> live_bytes idx' = length fr' \<and>
      value_at fr' idx' = value_at ?fr ?idx ++ map_of live"
    using 2(1) [of fr' idx'] 2(2,5,7) k(2) by simp
  moreover have "value_at ?fr ?idx ++ map_of live = value_at fr idx ++ map_of ((k, v) # live)"
    using put_step(2) [OF 2(3) k(1,2)] k(4) by (auto simp: map_add_def fun_eq_iff split: option.splits)
  ultimately show ?case by metis
qed simp

section \<open>The store meets the contract\<close>

text \<open>
  The invariant: replaying the file gives the index and the dead bytes in memory, and the end of the
  log is the end of the file.
\<close>

definition log_ok :: "('f \<Rightarrow> bytes) \<Rightarrow> 'f log_store \<Rightarrow> bool" where
  "log_ok data s \<longleftrightarrow> replays (data (log_file s)) (log_index s) (log_dead s) \<and> log_end s = length (data (log_file s))"

definition log_content :: "('f \<Rightarrow> bytes) \<Rightarrow> 'f log_store \<Rightarrow> nat \<Rightarrow> bytes option" where
  "log_content data s = value_at (data (log_file s)) (log_index s)"

text \<open>Every byte of the log is live or counted as dead.\<close>

definition log_tight :: "'f log_store \<Rightarrow> bool" where
  "log_tight s \<longleftrightarrow> log_dead s + live_bytes (log_index s) = log_end s"

abbreviation fits32 :: "bytes \<Rightarrow> bool" where
  "fits32 v \<equiv> length v < 2 ^ 32"

context sync_file
begin

lemma read_value_ok:
  assumes "entries_ok idx (length (data f))" "bt_get idx k = Some e" "read_value F f e = Inr v"
  shows "value_at (data f) idx k = Some v"
proof -
  obtain off len where e: "e = (off, len)" by (cases e)
  have "off + len \<le> length (data f)" using assms(1,2) by (simp add: entries_ok_def e)
  then have "v = take len (drop off (data f))"
    using read_law [of off len f v] assms(3) by (auto simp: read_value_def e split: if_splits)
  then show ?thesis using assms(2) by (simp add: value_at_def e)
qed

lemma read_live_ok:
  assumes "entries_ok idx (length (data f))" "set xs \<subseteq> set idx" "distinct (map fst xs)" "read_live F f xs = Inr live"
  shows "map fst live = map fst xs \<and> (\<forall>(k, v) \<in> set live. value_at (data f) idx k = Some v)"
  using assms(2-)
proof (induction xs arbitrary: live)
  case (Cons x xs)
  obtain k e where x: "x = (k, e)" by (cases x)
  obtain v live' where v: "read_value F f e = Inr v" "read_live F f xs = Inr live'" "live = (k, v) # live'"
    using Cons(4) by (auto simp: x)
  have "bt_get idx k = Some e" using Cons(2) assms(1) by (simp add: x entries_ok_def bt_get_iff)
  then show ?case using Cons read_value_ok [OF assms(1) _ v(1)] v(2,3) by (simp add: x)
qed simp

lemma live_content:
  assumes "map fst live = map fst idx" "\<forall>(k, v) \<in> set live. value_at d idx k = Some v"
  shows "value_at d idx = map_of live"
proof
  fix k
  show "value_at d idx k = map_of live k"
  proof (cases "map_of live k")
    case None
    then have "bt_get idx k = None" using assms(1) by (metis list.set_map map_of_eq_None_iff)
    then show ?thesis using None by (simp add: value_at_def)
  next
    case (Some v)
    then show ?thesis using assms(2) map_of_SomeD by fastforce
  qed
qed

lemma compact_ok:
  assumes "log_ok data s" "compact F s = (Inr (), s')"
  shows "log_ok data s' \<and> log_content data s' = log_content data s \<and> log_dead s' = 0 \<and>
         log_end s' = live_bytes (log_index s')"
proof -
  let ?d = "data (log_file s)" and ?idx = "log_index s"
  have ent: "entries_ok ?idx (length ?d)" using assms(1) replays_entries by (auto simp: log_ok_def)
  obtain live where live: "read_live F (log_file s) ?idx = Inr live"
    using assms(2) by (auto simp: compact_def split: sum.splits)
  obtain fr idx' where fr: "fresh_records live [] [] = (fr, idx')" by fastforce
  obtain f1 f2 f3 where fs: "sf_truncate F (log_file s) 0 = (Inr (), f1)"
    "(if fr \<noteq> [] then sf_write F f1 0 fr else (Inr (), f1)) = (Inr (), f2)" "sf_flush F f2 = (Inr (), f3)"
    "s' = s\<lparr> log_file := f3, log_index := idx', log_end := length fr, log_dead := 0 \<rparr>"
    using assms(2) live fr by (auto simp: compact_def Let_def)
  have "data f1 = []" using truncate_law [OF _ fs(1)] by simp
  then have d: "data f3 = fr"
    using write_law [of 0 f1 fr f2] flush_law [OF fs(3)] fs(2) by (auto split: if_splits)
  have inv: "bt_inv ?idx" "distinct (map fst ?idx)" using ent bt_inv_distinct by (auto simp: entries_ok_def)
  have lv: "map fst live = map fst ?idx" "\<forall>(k, v) \<in> set live. value_at ?d ?idx k = Some v"
    using read_live_ok [OF ent subset_refl inv(2) live] by simp_all
  have bound: "\<forall>(k, v) \<in> set live. k < 2 ^ 64 \<and> length v < 2 ^ 32"
    using lv(2) ent by (fastforce simp: value_at_def entries_ok_def)
  have same: "value_at ?d ?idx = map_of live" using lv by (rule live_content)
  have "replays fr idx' 0 \<and> live_bytes idx' = length fr \<and> value_at fr idx' = value_at [] [] ++ map_of live"
    using fresh_records_ok [OF fr] bound lv(1) inv(2) by (simp add: replays_def replay_short live_bytes_def)
  then show ?thesis using d same by (simp add: fs(4) log_ok_def log_content_def)
qed


lemma maybe_compact_ok:
  assumes "log_ok data s" "maybe_compact F s = (Inr (), s')"
  shows "log_ok data s' \<and> log_content data s' = log_content data s \<and>
         (log_tight s \<longrightarrow> log_tight s' \<and>
           (log_end s' < 2 ^ 64 - 1 \<longrightarrow> log_end s' \<le> max MIN_COMPACT (2 * live_bytes (log_index s'))))"
  using assms compact_ok [OF assms(1), of s'] unfolding maybe_compact_def log_tight_def
  by (auto split: if_splits)

lemma appended: "\<lbrakk>log_ok data s; sf_write F (log_file s) (log_end s) rec = (Inr (), f)\<rbrakk> \<Longrightarrow>
    data f = data (log_file s) @ rec"
  using write_law [of "log_end s" "log_file s" rec f] by (simp add: log_ok_def)

lemma log_put_ok:
  assumes "log_ok data s" "k < 2 ^ 64" "fits32 v" "log_put F s k v = (Inr (), s')"
  shows "log_ok data s' \<and> log_content data s' = (log_content data s)(k \<mapsto> v) \<and>
         (log_tight s \<longrightarrow> log_tight s' \<and>
           (log_end s' < 2 ^ 64 - 1 \<longrightarrow> log_end s' \<le> max MIN_COMPACT (2 * live_bytes (log_index s'))))"
proof -
  let ?d = "data (log_file s)" and ?idx = "bt_insert k (log_end s + HDR, length v) (log_index s)"
  have ok: "replays ?d (log_index s) (log_dead s)" "log_end s = length ?d" using assms(1) by (simp_all add: log_ok_def)
  obtain f1 f2 where f: "sf_write F (log_file s) (log_end s) (encode_record k KIND_PUT v) = (Inr (), f1)"
    "sf_flush F f1 = (Inr (), f2)"
    "maybe_compact F (s\<lparr> log_index := ?idx, log_dead := log_dead s + superseded (log_index s) k,
       log_end := log_end s + length (encode_record k KIND_PUT v), log_file := f2 \<rparr>) = (Inr (), s')"
    using assms(3,4) by (auto simp: log_put_def Let_def)
  let ?s = "s\<lparr> log_index := ?idx, log_dead := log_dead s + superseded (log_index s) k,
       log_end := log_end s + length (encode_record k KIND_PUT v), log_file := f2 \<rparr>"
  have d: "data f2 = ?d @ encode_record k KIND_PUT v" using appended [OF assms(1) f(1)] flush_law [OF f(2)] by simp
  have "log_ok data ?s" "log_content data ?s = (log_content data s)(k \<mapsto> v)"
    using put_step [OF ok(1) assms(2,3)] ok(2) by (simp_all add: log_ok_def log_content_def d)
  moreover have "log_tight ?s" if "log_tight s"
    using live_bytes_insert [of "log_index s" k "log_end s + HDR" "length v"] replays_entries [OF ok(1)] that
    by (simp add: log_tight_def entries_ok_def)
  ultimately show ?thesis using maybe_compact_ok [OF _ f(3)] by simp
qed

lemma log_delete_ok:
  assumes "log_ok data s" "k < 2 ^ 64" "log_delete F s k = (Inr (), s')"
  shows "log_ok data s' \<and> log_content data s' = (log_content data s)(k := None) \<and> (log_tight s \<longrightarrow> log_tight s')"
proof (cases "bt_contains (log_index s) k")
  case True
  let ?d = "data (log_file s)" and ?rec = "encode_record k KIND_DEL []"
  have ok: "replays ?d (log_index s) (log_dead s)" "log_end s = length ?d" using assms(1) by (simp_all add: log_ok_def)
  obtain f1 f2 where f: "sf_write F (log_file s) (log_end s) ?rec = (Inr (), f1)" "sf_flush F f1 = (Inr (), f2)"
    "maybe_compact F (s\<lparr> log_index := bt_remove k (log_index s), log_end := log_end s + length ?rec,
       log_dead := log_dead s + superseded (log_index s) k + HDR, log_file := f2 \<rparr>) = (Inr (), s')"
    using assms(3) True by (auto simp: log_delete_def Let_def)
  let ?s = "s\<lparr> log_index := bt_remove k (log_index s), log_end := log_end s + length ?rec,
       log_dead := log_dead s + superseded (log_index s) k + HDR, log_file := f2 \<rparr>"
  have d: "data f2 = ?d @ ?rec" using appended [OF assms(1) f(1)] flush_law [OF f(2)] by simp
  have "log_ok data ?s" "log_content data ?s = (log_content data s)(k := None)"
    using del_step [OF ok(1) assms(2)] ok(2) by (simp_all add: log_ok_def log_content_def d)
  moreover have "log_tight ?s" if "log_tight s"
    using live_bytes_remove [of "log_index s" k] replays_entries [OF ok(1)] that
    by (simp add: log_tight_def entries_ok_def)
  ultimately show ?thesis using maybe_compact_ok [OF _ f(3)] by simp
next
  case False
  then have none: "bt_get (log_index s) k = None" by (simp only: bt_contains_def not_not)
  have "s' = s" "log_content data s k = None"
    using assms(3) False none by (simp_all add: log_delete_def log_content_def value_at_def)
  then show ?thesis using assms(1) by (auto simp: fun_upd_idem)
qed

lemma log_get_ok:
  assumes "log_ok data s" "log_get F s k = Inr r"
  shows "r = log_content data s k"
proof (cases "bt_get (log_index s) k")
  case None
  then show ?thesis using assms(2) by (simp add: log_get_def log_content_def value_at_def)
next
  case (Some e)
  then obtain v where v: "read_value F (log_file s) e = Inr v" "r = Some v" using assms(2) by (auto simp: log_get_def)
  have "entries_ok (log_index s) (length (data (log_file s)))"
    using assms(1) replays_entries by (auto simp: log_ok_def)
  then show ?thesis using read_value_ok [OF _ Some v(1)] v(2) by (simp add: log_content_def)
qed

lemma log_content_card: "log_ok data s \<Longrightarrow> card (dom (log_content data s)) = length (log_index s) \<and>
    finite (dom (log_content data s))"
proof -
  assume "log_ok data s"
  then have "bt_inv (log_index s)" using replays_entries by (auto simp: log_ok_def entries_ok_def)
  moreover have "dom (log_content data s) = dom (bt_get (log_index s))"
    by (auto simp: log_content_def value_at_def dom_def)
  ultimately show ?thesis using bt_inv_card [of "log_index s"] by (simp add: finite_dom_map_of)
qed

text \<open>Opening a file keeps its complete records and drops the rest.\<close>

lemma open_log_ok:
  assumes "open_log F f = (Inr s, f')" "replay (data f) 0 [] 0 = (idx, dead, end)"
  shows "data (log_file s) = take end (data f) \<and> log_index s = idx \<and> log_dead s = dead \<and> log_end s = end"
proof -
  obtain n where n: "sf_size F f = Inr n" using assms(1) by (auto simp: open_log_def split: sum.splits)
  then have len: "n = length (data f)" by (rule size_law)
  have "(if 0 < n then sf_read F f 0 n else Inr []) = Inr buf \<Longrightarrow> buf = data f" for buf
    using read_law [of 0 n f buf] len by (auto split: if_splits)
  moreover obtain buf where buf: "(if 0 < n then sf_read F f 0 n else Inr []) = Inr buf"
    using assms(1) n by (auto simp: open_log_def split: sum.splits)
  ultimately have b: "(if 0 < n then sf_read F f 0 n else Inr []) = Inr (data f)" by metis
  have "end \<le> length (data f)" using replay_entries [OF assms(2)] by simp
  then show ?thesis
    using assms(1) n b assms(2) truncate_law [of "end" f] len
    by (auto simp: open_log_def Let_def split: if_splits)
qed

end

sublocale sync_file \<subseteq> log: byte_store "log_ops F" "log_ok data" "log_content data" fits32
  by unfold_locales (auto simp: log_ops_def log_len_def log_content_card dest: log_put_ok log_delete_ok log_get_ok)

section \<open>The in-memory file never fails\<close>

lemma mem_read_total: "off + len \<le> length d \<Longrightarrow> mem_read d off len = Inr (take len (drop off d))"
  by (simp add: mem_read_def min_def)

lemma mem_read_live_total: "entries_ok idx (length d) \<Longrightarrow> set xs \<subseteq> set idx \<Longrightarrow> \<exists>live. read_live mem_file d xs = Inr live"
proof (induction xs)
  case (Cons x xs)
  obtain k off len where x: "x = (k, off, len)" by (metis prod.exhaust)
  have "off + len \<le> length d" using Cons(2,3) by (auto simp: x entries_ok_def bt_get_iff)
  then show ?case using Cons mem_read_total by (auto simp: x read_value_def mem_file_def)
qed simp

lemma mem_compact_total: "log_ok (\<lambda>f. f) s \<Longrightarrow> \<exists>s'. compact mem_file s = (Inr (), s')"
proof -
  assume "log_ok (\<lambda>f. f) s"
  then have "entries_ok (log_index s) (length (log_file s))" using replays_entries by (auto simp: log_ok_def)
  then obtain live where "read_live mem_file (log_file s) (log_index s) = Inr live" using mem_read_live_total by blast
  then show ?thesis by (auto simp: compact_def mem_file_def mem_write_def Let_def split: prod.splits)
qed

interpretation memlog: total_store "log_ops mem_file" "log_ok (\<lambda>f. f)" "log_content (\<lambda>f. f)" fits32
proof unfold_locales
  fix s :: "bytes log_store" and k :: nat and v :: bytes
  assume s: "log_ok (\<lambda>f. f) s" and k: "k < 2 ^ 64"
  let ?d = "log_file s"
  have ok: "replays ?d (log_index s) (log_dead s)" "log_end s = length ?d" using s by (simp_all add: log_ok_def)
  have wr: "sf_write mem_file ?d (length ?d) rec = (Inr (), ?d @ rec)" for rec
    by (simp add: mem_file_def mem_write_def)
  have flush: "sf_flush mem_file f = (Inr (), f)" for f by (simp add: mem_file_def)
  have mc: "\<exists>s'. maybe_compact mem_file t = (Inr (), s')" if "log_ok (\<lambda>f. f) t" for t
    using mem_compact_total [OF that] by (auto simp: maybe_compact_def)
  show "\<exists>s'. st_put (log_ops mem_file) s k v = (Inr (), s')" if "fits32 v"
    using put_step(1) [OF ok(1) k that] that
    by (simp add: log_ops_def log_put_def ok(2) wr flush Let_def) (rule mc, simp add: log_ok_def)
  show "\<exists>s'. st_delete (log_ops mem_file) s k = (Inr (), s')"
    using del_step(1) [OF ok(1) k]
    by (simp add: log_ops_def log_delete_def ok(2) wr flush Let_def) (intro impI mc, simp add: log_ok_def)
next
  fix s :: "bytes log_store" and k :: nat
  assume "log_ok (\<lambda>f. f) s"
  then have e: "entries_ok (log_index s) (length (log_file s))" using replays_entries by (auto simp: log_ok_def)
  show "\<exists>r. st_get (log_ops mem_file) s k = Inr r"
  proof (cases "bt_get (log_index s) k")
    case (Some x)
    then show ?thesis using e mem_read_total
      by (cases x) (auto simp: log_ops_def log_get_def read_value_def mem_file_def entries_ok_def)
  qed (simp add: log_ops_def log_get_def)
qed (simp add: log_ops_def log_len_def)

section \<open>Properties\<close>

text \<open>Operations in sequence: \<open>Some v\<close> is a put, \<open>None\<close> a delete.\<close>

fun run_log :: "('e, 'f) file_ops \<Rightarrow> (nat \<times> bytes option) list \<Rightarrow> 'f log_store \<Rightarrow> ('e, unit, 'f log_store) outcome" where
  "run_log F [] s = (Inr (), s)"
| "run_log F ((k, v) # ops) s =
     and_then (case v of Some v \<Rightarrow> log_put F s k v | None \<Rightarrow> log_delete F s k) (\<lambda>_ s. run_log F ops s) (\<lambda>s. s)"

definition ops_ok :: "(nat \<times> bytes option) list \<Rightarrow> bool" where
  "ops_ok ops \<longleftrightarrow> (\<forall>(k, v) \<in> set ops. k < 2 ^ 64 \<and> (case v of Some v \<Rightarrow> fits32 v | None \<Rightarrow> True))"

lemma run_log_ok:
  assumes "sync_file F data" "log_ok data s" "ops_ok ops" "run_log F ops s = (Inr (), s')"
  shows "log_ok data s' \<and> log_content data s' = fold (\<lambda>(k, v) m. m(k := v)) ops (log_content data s) \<and>
         (log_tight s \<longrightarrow> log_tight s')"
  using assms(2-)
proof (induction ops arbitrary: s)
  case (Cons op ops)
  obtain k v where op: "op = (k, v)" by (cases op)
  have k: "k < 2 ^ 64" "ops_ok ops" using Cons(3) by (auto simp: ops_ok_def op)
  obtain s1 where s1: "(case v of Some v \<Rightarrow> log_put F s k v | None \<Rightarrow> log_delete F s k) = (Inr (), s1)"
    "run_log F ops s1 = (Inr (), s')" using Cons(4) by (auto simp: op)
  have step: "log_ok data s1 \<and> log_content data s1 = (log_content data s)(k := v) \<and> (log_tight s \<longrightarrow> log_tight s1)"
  proof (cases v)
    case None
    then show ?thesis using sync_file.log_delete_ok [OF assms(1) Cons(2) k(1)] s1(1) by simp
  next
    case (Some w)
    then have "fits32 w" using Cons(3) by (simp add: ops_ok_def op)
    then show ?thesis using sync_file.log_put_ok [OF assms(1) Cons(2) k(1)] s1(1) Some by auto
  qed
  show ?case using Cons(1) [OF _ k(2) s1(2)] step by (simp add: op)
qed simp

lemma mem_run_total: "\<lbrakk>log_ok (\<lambda>f. f) s; ops_ok ops\<rbrakk> \<Longrightarrow> \<exists>s'. run_log mem_file ops s = (Inr (), s')"
proof (induction ops arbitrary: s)
  case (Cons op ops)
  obtain k v where op: "op = (k, v)" by (cases op)
  have k: "k < 2 ^ 64" "ops_ok ops" using Cons(3) by (auto simp: ops_ok_def op)
  obtain s1 where s1: "run_log mem_file [op] s = (Inr (), s1)"
  proof (cases v)
    case None
    then show ?thesis using that memlog.delete_total [OF Cons(2) k(1)] by (auto simp: op log_ops_def)
  next
    case (Some w)
    then have "fits32 w" using Cons(3) by (simp add: ops_ok_def op)
    then show ?thesis using that memlog.put_total [OF Cons(2) k(1)] Some by (auto simp: op log_ops_def)
  qed
  have "log_ok (\<lambda>f. f) s1" using run_log_ok [OF memf.sync_file_axioms Cons(2) _ s1] Cons(3) by (auto simp: ops_ok_def)
  then show ?case using Cons(1) [OF _ k(2)] s1 by (auto simp: op)
qed simp

lemma mem_open_total: "\<exists>s. open_log mem_file f = (Inr s, log_file s)"
proof -
  obtain idx dead pos where "replay f 0 [] 0 = (idx, dead, pos)" by (metis prod.exhaust)
  then show ?thesis
    using mem_read_total [of 0 "length f" f]
    by (intro exI [of _ "\<lparr> log_file = (if pos < length f then take pos f else f), log_index = idx,
          log_end = pos, log_dead = dead \<rparr>"])
      (cases f; auto simp: open_log_def mem_file_def Let_def)
qed

lemma log_ok_empty: "log_ok data \<lparr> log_file = f, log_index = [], log_end = 0, log_dead = 0 \<rparr> \<longleftrightarrow> data f = []"
  by (auto simp: log_ok_def replays_def replay_short)

text \<open>
  Property C29. The log-structured store refines a finite map: any sequence of puts and deletes on a
  fresh in-memory log succeeds, every read then returns what the sequence says, \<open>len\<close> counts the
  keys, and reopening the file gives the same store back.
\<close>

theorem log_store_refines_map:
  assumes "ops_ok ops"
  shows "\<exists>s0 s. open_log mem_file [] = (Inr s0, []) \<and> run_log mem_file ops s0 = (Inr (), s) \<and>
     (let m = fold (\<lambda>(k, v) m. m(k := v)) ops Map.empty
      in (\<forall>k. log_get mem_file s k = Inr (m k)) \<and> log_len s = (Inr (card (dom m)) :: (fault, nat) result) \<and>
         open_log mem_file (log_file s) = (Inr s, log_file s))"
proof -
  let ?s0 = "\<lparr> log_file = [] :: bytes, log_index = [], log_end = 0, log_dead = 0 \<rparr>"
  have s0: "open_log mem_file [] = (Inr ?s0, [])" by (simp add: open_log_def mem_file_def replay_short)
  have ok0: "log_ok (\<lambda>f. f) ?s0" by (simp add: log_ok_empty)
  obtain s where s: "run_log mem_file ops ?s0 = (Inr (), s)" using mem_run_total [OF ok0 assms] by blast
  have ok: "log_ok (\<lambda>f. f) s" "log_content (\<lambda>f. f) s = fold (\<lambda>(k, v) m. m(k := v)) ops Map.empty"
    using run_log_ok [OF memf.sync_file_axioms ok0 assms s] by (simp_all add: log_content_def)
  have "open_log mem_file (log_file s) = (Inr s, log_file s)"
    using ok(1) mem_read_total [of 0 "length (log_file s)" "log_file s"]
    by (cases "log_file s") (simp_all add: open_log_def mem_file_def log_ok_def replays_def)
  then show ?thesis using s0 s memlog.get_eq [OF ok(1)] memlog.len_eq [OF ok(1)] ok(2) by (auto simp: log_ops_def Let_def)
qed

theorem log_store_refines_map_witness:
  "\<exists>s0 s. open_log mem_file [] = (Inr s0, []) \<and>
     run_log mem_file [(1, Some [7]), (2, Some [8]), (1, Some [9]), (2, None)] s0 = (Inr (), s) \<and>
     log_get mem_file s 1 = Inr (Some [9]) \<and> log_get mem_file s 2 = Inr None"
proof -
  let ?ops = "[(1, Some [7]), (2, Some [8]), (1, Some [9]), (2, None)] :: (nat \<times> bytes option) list"
  have "ops_ok ?ops" by (simp add: ops_ok_def)
  from log_store_refines_map [OF this] show ?thesis by (auto simp: Let_def)
qed

text \<open>
  Property C30. Interrupted writes: when the file ends with a proper prefix of a record that was
  being appended, opening it drops exactly that prefix and restores the state before the write.
\<close>

theorem torn_write_is_dropped:
  assumes "sync_file F data" "log_ok data s" "k < 2 ^ 64" "fits32 v" "kind = KIND_PUT \<or> kind = KIND_DEL"
    "strict_prefix t (encode_record k kind v)" "data f = data (log_file s) @ t" "open_log F f = (Inr s', f')"
  shows "log_ok data s' \<and> log_content data s' = log_content data s \<and>
         log_index s' = log_index s \<and> data (log_file s') = data (log_file s)"
proof -
  have ok: "replays (data (log_file s)) (log_index s) (log_dead s)" "log_end s = length (data (log_file s))"
    using assms(2) by (simp_all add: log_ok_def)
  have len: "length t < HDR + length v" using assms(6) prefix_length_less by fastforce
  obtain u where u: "encode_record k kind v = t @ u" using assms(6) by (auto simp: strict_prefix_def prefix_def)
  have stop: "replay t pos idx dead = (idx, dead, pos)" for pos idx dead
  proof (cases "length t < HDR")
    case False
    then have "take 4 (drop 9 t) = take 4 (drop 9 (encode_record k kind v))" by (simp add: u)
    then have "of_le (take 4 (drop 9 t)) = length v"
      using encode_record_fields(3) [OF assms(3,4), of kind "[]"] by simp
    then show ?thesis using len by (subst replay.simps) (simp add: Let_def)
  qed (simp add: replay_short)
  have "replay (data f) 0 [] 0 = (log_index s, log_dead s, length (data (log_file s)))"
    using replay_append [of "data (log_file s)" 0 "[]" 0] ok(1) stop assms(7) by (simp add: replays_def)
  from sync_file.open_log_ok [OF assms(1,8) this] show ?thesis
    using assms(2,7) ok by (simp add: log_ok_def log_content_def)
qed

theorem torn_write_is_dropped_witness:
  "\<exists>s s'. log_content (\<lambda>f. f) s = [1 \<mapsto> [7]] \<and>
     open_log mem_file (log_file s @ take 14 (encode_record 2 KIND_PUT [8, 9])) = (Inr s', log_file s') \<and>
     log_content (\<lambda>f. f) s' = [1 \<mapsto> [7]]"
proof -
  let ?rec = "encode_record 1 KIND_PUT [7]" and ?t = "take 14 (encode_record 2 KIND_PUT [8, 9])"
  let ?s = "\<lparr> log_file = ?rec, log_index = [(1, 13, 1)], log_end = 14, log_dead = 0 \<rparr>"
  have "replays [] [] 0" by (simp add: replays_def replay_short)
  from put_step [OF this, of 1 "[7]"]
  have ok: "log_ok (\<lambda>f. f) ?s" "log_content (\<lambda>f. f) ?s = [1 \<mapsto> [7]]"
    by (simp_all add: log_ok_def log_content_def)
  have p: "strict_prefix ?t (encode_record 2 KIND_PUT [8, 9])"
    using arg_cong [of ?t "encode_record 2 KIND_PUT [8, 9]" length] by (auto simp: strict_prefix_def take_is_prefix)
  obtain s' where s': "open_log mem_file (?rec @ ?t) = (Inr s', log_file s')" using mem_open_total by blast
  from torn_write_is_dropped [OF memf.sync_file_axioms ok(1) _ _ _ p _ s'] ok(2) s' show ?thesis
    by (intro exI [of _ ?s] exI [of _ s']) simp
qed

text \<open>
  Property C31. Space: the dead-byte counter is exact, so after every successful put the file holds at
  most twice the live records (or \<open>MIN_COMPACT\<close> bytes); a compaction changes no value and leaves
  exactly the live records.
\<close>

theorem log_file_is_bounded:
  assumes "sync_file F data" "log_ok data s" "log_tight s" "k < 2 ^ 64" "fits32 v"
  shows "(log_put F s k v = (Inr (), s') \<longrightarrow>
            log_ok data s' \<and> log_tight s' \<and>
            (log_end s' < 2 ^ 64 - 1 \<longrightarrow> length (data (log_file s')) \<le> max 4096 (2 * live_bytes (log_index s')))) \<and>
         (compact F s = (Inr (), s') \<longrightarrow>
            log_content data s' = log_content data s \<and> log_tight s' \<and>
            length (data (log_file s')) = live_bytes (log_index s'))"
proof (intro conjI impI)
  assume "log_put F s k v = (Inr (), s')"
  from sync_file.log_put_ok [OF assms(1,2,4,5) this] assms(3)
  show "log_ok data s'" "log_tight s'"
    "log_end s' < 2 ^ 64 - 1 \<Longrightarrow> length (data (log_file s')) \<le> max 4096 (2 * live_bytes (log_index s'))"
    by (auto simp: log_ok_def)
next
  assume "compact F s = (Inr (), s')"
  from sync_file.compact_ok [OF assms(1,2) this]
  show "log_content data s' = log_content data s" "log_tight s'" "length (data (log_file s')) = live_bytes (log_index s')"
    by (auto simp: log_ok_def log_tight_def)
qed

theorem log_file_is_bounded_witness:
  "\<exists>s'. log_put mem_file \<lparr> log_file = [], log_index = [], log_end = 0, log_dead = 0 \<rparr> 3 [7] = (Inr (), s') \<and>
     log_tight s' \<and> live_bytes (log_index s') = 14"
proof -
  let ?s = "\<lparr> log_file = [] :: bytes, log_index = [], log_end = 0, log_dead = 0 \<rparr>"
  let ?s' = "\<lparr> log_file = encode_record 3 0 [7], log_index = [(3, (13, 1))], log_end = 14, log_dead = 0 \<rparr>"
  have put: "log_put mem_file ?s 3 [7] = (Inr (), ?s')"
    by (simp add: log_put_def mem_file_def mem_write_def maybe_compact_def superseded_def Let_def)
  have "log_tight ?s'"
    using log_file_is_bounded [OF memf.sync_file_axioms, of ?s 3 "[7]" ?s'] put
    by (simp add: log_ok_empty log_tight_def live_bytes_def)
  then show ?thesis using put by (simp add: live_bytes_def)
qed

text \<open>
  Compaction is not atomic: it truncates the file before it writes the live records, so
  when that write fails (or the process stops there) the call reports the error, but every record is
  gone from the file and reopening it gives an empty store.
\<close>

theorem interrupted_compaction_loses_data:
  fixes s :: "bytes log_store"
  defines "broken \<equiv> mem_file\<lparr> sf_write := \<lambda>f off buf. (Inl Panic, f) \<rparr>"
  assumes "log_ok (\<lambda>f. f) s" "log_index s \<noteq> []"
  shows "\<exists>s' s''. compact broken s = (Inl Panic, s') \<and> open_log mem_file (log_file s') = (Inr s'', []) \<and>
           log_content (\<lambda>f. f) s'' = Map.empty"
proof -
  have live_same: "read_live broken f xs = read_live mem_file f xs" for f xs
    by (induction xs) (auto simp: broken_def read_value_def)
  have "entries_ok (log_index s) (length (log_file s))" using assms(2) replays_entries by (auto simp: log_ok_def)
  then obtain live where live: "read_live mem_file (log_file s) (log_index s) = Inr live"
    using mem_read_live_total by blast
  then have "live \<noteq> []" using assms(3) by (cases "log_index s") auto
  moreover have "fst (fresh_records xs fr idx) \<noteq> []" if "fr \<noteq> [] \<or> xs \<noteq> []" for xs fr idx
    using that by (induction xs fr idx rule: fresh_records.induct) (auto simp: encode_record_def)
  ultimately obtain fr idx where fr: "fresh_records live [] [] = (fr, idx)" "fr \<noteq> []"
    by (metis prod.collapse)
  have "compact broken s = (Inl Panic, s\<lparr> log_file := [] \<rparr>)"
    using live fr unfolding compact_def live_same by (simp add: broken_def mem_file_def)
  moreover have "open_log mem_file [] = (Inr \<lparr> log_file = [], log_index = [], log_end = 0, log_dead = 0 \<rparr>, [])"
    by (simp add: open_log_def mem_file_def replay_short)
  ultimately show ?thesis by (simp add: log_content_def)
qed

theorem interrupted_compaction_loses_data_witness:
  "\<exists>s :: bytes log_store. log_content (\<lambda>f. f) s 1 = Some [7] \<and>
     (\<exists>s' s''. compact (mem_file\<lparr> sf_write := \<lambda>f off buf. (Inl Panic, f) \<rparr>) s = (Inl Panic, s') \<and>
        open_log mem_file (log_file s') = (Inr s'', []) \<and> log_content (\<lambda>f. f) s'' 1 = None)"
proof -
  let ?s = "\<lparr> log_file = encode_record 1 KIND_PUT [7], log_index = [(1, 13, 1)], log_end = 14, log_dead = 0 \<rparr>"
  have "replays [] [] 0" by (simp add: replays_def replay_short)
  from put_step [OF this, of 1 "[7]"]
  have ok: "log_ok (\<lambda>f. f) ?s" "log_content (\<lambda>f. f) ?s 1 = Some [7]" by (simp_all add: log_ok_def log_content_def)
  show ?thesis
    using interrupted_compaction_loses_data [OF ok(1)] ok(2) by (intro exI [of _ ?s]) auto
qed

end
