(* ===== verification/Flat.thy ===== *)
theory Flat
  imports Prelude
begin

text \<open>
  Module \<open>merkle::flat\<close> (\<open>crates/merkle/src/flat.rs\<close>): flat-tree index arithmetic. Leaves have even
  indices, parents odd ones; a node is determined by its depth and its offset within that depth.
  The functions are given over \<open>nat\<close>, and once more over 64-bit words exactly as the source
  computes them; below the overflow bound the two agree, so the rest of the development uses the
  former. \<open>full_roots\<close> asserts that its argument is even: \<open>None\<close> is the panic.
\<close>

section \<open>Index arithmetic\<close>

text \<open>\<open>trailing_zeros\<close> of a positive number.\<close>

fun tz :: "nat \<Rightarrow> nat" where
  "tz n = (if n = 0 \<or> odd n then 0 else Suc (tz (n div 2)))"

declare tz.simps [simp del]

definition depth :: "nat \<Rightarrow> nat" where
  "depth i = tz (i + 1)"

definition offset :: "nat \<Rightarrow> nat" where
  "offset i = (if i AND 1 = 0 then i div 2 else (drop_bit (depth i) (i + 1) - 1) div 2)"

definition index :: "nat \<Rightarrow> nat \<Rightarrow> nat" where
  "index d off = (1 + 2 * off) * 2 ^ d - 1"

definition parent :: "nat \<Rightarrow> nat" where
  "parent i = index (depth i + 1) (drop_bit 1 (offset i))"

definition sibling :: "nat \<Rightarrow> nat" where
  "sibling i = index (depth i) (offset i XOR 1)"

definition children :: "nat \<Rightarrow> (nat \<times> nat) option" where
  "children i =
     (if i AND 1 = 0 then None
      else let d = depth i; off = offset i * 2
           in Some (index (d - 1) off, index (d - 1) (off + 1)))"

definition block_range :: "nat \<Rightarrow> nat \<times> nat" where
  "block_range i =
     (let d = depth i; count = 2 ^ d; first = offset i * count in (first, first + count))"

text \<open>The inner loop of \<open>full_roots\<close>; \<open>factor\<close> is positive at every call.\<close>

function grow_factor :: "nat \<Rightarrow> nat \<Rightarrow> nat" where
  "grow_factor factor idx =
     (if 0 < factor \<and> factor * 2 \<le> idx then grow_factor (factor * 2) idx else factor)"
  by pat_completeness auto
termination by (relation "measure (\<lambda>(factor, idx). idx - factor)") auto

declare grow_factor.simps [simp del]

lemma grow_factor_pos: "0 < f \<Longrightarrow> 0 < grow_factor f i"
proof (induction f i rule: grow_factor.induct)
  case (1 f i)
  then show ?case by (subst grow_factor.simps) simp
qed

function roots_loop :: "nat \<Rightarrow> nat \<Rightarrow> nat list" where
  "roots_loop idx off =
     (if 0 < idx
      then let factor = grow_factor 1 idx
           in (off * 2 + factor - 1) # roots_loop (idx - factor) (off + factor)
      else [])"
  by pat_completeness auto
termination by (relation "measure fst") (auto simp: grow_factor_pos)

declare roots_loop.simps [simp del]

definition full_roots :: "nat \<Rightarrow> nat list option" where
  "full_roots idx = (if idx AND 1 = 0 then Some (roots_loop (idx div 2) 0) else None)"

section \<open>Depth and offset are coordinates\<close>

lemma and_1_nat: "(n :: nat) AND 1 = 0 \<longleftrightarrow> even n"
  by (simp add: and_one_eq even_iff_mod_2_eq_zero)

lemma xor_1_nat: "(n :: nat) XOR 1 = (if even n then n + 1 else n - 1)"
  unfolding xor_one_eq by (auto simp: of_bool_def)

lemma offset_unfold:
  "offset i = (if even i then i div 2 else (Suc i div 2 ^ depth i - 1) div 2)"
  unfolding offset_def and_1_nat drop_bit_eq_div by simp

lemma children_unfold:
  "children i = (if even i then None
     else Some (index (depth i - 1) (offset i * 2), index (depth i - 1) (offset i * 2 + 1)))"
  unfolding children_def and_1_nat by (simp add: Let_def)

lemma tz_double: "0 < m \<Longrightarrow> tz (2 * m) = Suc (tz m)"
  by (subst tz.simps) simp

lemma tz_odd_mult: "tz ((1 + 2 * k) * 2 ^ d) = d"
proof (induction d)
  case 0
  show ?case by (subst tz.simps) simp
next
  case (Suc d)
  have eq: "(1 + 2 * k) * 2 ^ Suc d = 2 * ((1 + 2 * k) * 2 ^ d)" by simp
  show ?case unfolding eq by (subst tz_double) (simp_all only: Suc, simp)
qed

lemma odd_part: "0 < n \<Longrightarrow> \<exists>k. n = (1 + 2 * k) * 2 ^ tz n"
proof (induction n rule: tz.induct)
  case (1 n)
  show ?case
  proof (cases "odd n")
    case True
    then obtain k where k: "n = 2 * k + 1" by (rule oddE)
    have "tz n = 0" using True by (subst tz.simps) simp
    then show ?thesis by (intro exI [of _ k]) (simp add: k)
  next
    case False
    then have "0 < n div 2" using 1(2) by (auto elim: evenE)
    with 1 False obtain k where "n div 2 = (1 + 2 * k) * 2 ^ tz (n div 2)" by auto
    then have "n = (1 + 2 * k) * 2 ^ Suc (tz (n div 2))" using False by (auto elim: evenE)
    then show ?thesis using False 1(2) by (intro exI [of _ k]) (simp add: tz.simps [of n])
  qed
qed

lemma index_Suc: "Suc (index d off) = (1 + 2 * off) * 2 ^ d"
  by (simp add: index_def)

lemma depth_index [simp]: "depth (index d off) = d"
  using tz_odd_mult [of off d] index_Suc [of d off] by (simp add: depth_def)

lemma index_even_iff: "even (index d off) \<longleftrightarrow> d = 0"
proof -
  have "even (index d off) \<longleftrightarrow> odd (Suc (index d off))" by simp
  also have "\<dots> \<longleftrightarrow> d = 0" unfolding index_Suc by simp
  finally show ?thesis .
qed

lemma offset_index [simp]: "offset (index d off) = off"
proof (cases d)
  case 0
  then show ?thesis by (simp add: offset_unfold index_def)
next
  case (Suc e)
  have "odd (index d off)" using Suc index_even_iff [of d off] by simp
  then have "offset (index d off) = (Suc (index d off) div 2 ^ d - 1) div 2"
    by (simp add: offset_unfold)
  also have "\<dots> = off" unfolding index_Suc by simp
  finally show ?thesis .
qed

lemma index_depth_offset [simp]: "index (depth i) (offset i) = i"
proof -
  obtain k where "i + 1 = (1 + 2 * k) * 2 ^ tz (i + 1)" using odd_part [of "i + 1"] by auto
  then have "i = index (tz (i + 1)) k" by (simp add: index_def)
  then show ?thesis by (metis depth_index offset_index)
qed

lemma index_eq_iff [simp]: "index d off = index d' off' \<longleftrightarrow> d = d' \<and> off = off'"
  by (metis depth_index offset_index)

text \<open>Every node is \<open>index d off\<close> for one pair \<open>(d, off)\<close>.\<close>

lemma node_cases: obtains d off where "i = index d off"
  by (metis index_depth_offset)

lemma index_leaf: "index 0 b = 2 * b"
  by (simp add: index_def)

lemma parent_index [simp]: "parent (index d off) = index (Suc d) (off div 2)"
  by (simp add: parent_def drop_bit_eq_div)

lemma sibling_index [simp]:
  "sibling (index d off) = index d (if even off then off + 1 else off - 1)"
  unfolding sibling_def xor_1_nat by simp

lemma children_index_0 [simp]: "children (index 0 off) = None"
  by (simp add: children_unfold index_leaf)

lemma children_index_Suc [simp]:
  "children (index (Suc d) off) = Some (index d (2 * off), index d (2 * off + 1))"
  using index_even_iff [of "Suc d" off] by (simp add: children_unfold mult.commute)

lemma block_range_index [simp]: "block_range (index d off) = (off * 2 ^ d, Suc off * 2 ^ d)"
  by (simp add: block_range_def Let_def)

lemma index_mono_offset: "index d a < index d b \<longleftrightarrow> a < b"
proof -
  have "index d a < index d b \<longleftrightarrow> Suc (index d a) < Suc (index d b)" by simp
  also have "\<dots> \<longleftrightarrow> a < b" unfolding index_Suc by simp
  finally show ?thesis .
qed

lemma index_bound: "Suc (index d off) \<le> 2 * (Suc off * 2 ^ d)"
  unfolding index_Suc by (simp add: algebra_simps)

text \<open>A node whose blocks lie below \<open>n\<close> has an index below \<open>2 n\<close>.\<close>

lemma index_lt_double: "Suc off * 2 ^ d \<le> n \<Longrightarrow> index d off < 2 * n"
  using index_bound [of d off] by linarith

section \<open>Roots\<close>

text \<open>A node is complete below \<open>n\<close> when all its blocks are.\<close>

definition complete :: "nat \<Rightarrow> nat \<Rightarrow> bool" where
  "complete i n \<longleftrightarrow> snd (block_range i) \<le> n"

lemma complete_index: "complete (index d off) n \<longleftrightarrow> Suc off \<le> n div 2 ^ d"
  unfolding complete_def block_range_index snd_conv by (simp add: less_eq_div_iff_mult_less_eq)

lemma complete_index_mult: "complete (index d off) n \<longleftrightarrow> Suc off * 2 ^ d \<le> n"
  by (simp add: complete_def)

lemma complete_mono: "complete i m \<Longrightarrow> m \<le> n \<Longrightarrow> complete i n"
  by (simp add: complete_def)

text \<open>The nodes that become complete with block \<open>n\<close> are those ending just behind it.\<close>

lemma complete_Suc_index:
  "complete (index d off) (Suc n) \<longleftrightarrow> complete (index d off) n \<or> Suc off * 2 ^ d = Suc n"
  unfolding complete_index_mult by linarith

lemma grow_factor_pow:
  "2 ^ k \<le> n \<Longrightarrow> \<exists>j. grow_factor (2 ^ k) n = 2 ^ j \<and> 2 ^ j \<le> n \<and> n < 2 ^ Suc j"
proof (induction "n - 2 ^ k" arbitrary: k rule: less_induct)
  case less
  show ?case
  proof (cases "2 ^ k * 2 \<le> n")
    case True
    then have "2 ^ Suc k \<le> n" by simp
    moreover have "(2 :: nat) ^ k < 2 ^ Suc k" by simp
    moreover have "2 ^ k < n" using calculation(2,1) by (rule less_le_trans)
    ultimately have "2 ^ Suc k \<le> n" "n - 2 ^ Suc k < n - 2 ^ k" by (auto intro: diff_less_mono2)
    then obtain j where "grow_factor (2 ^ Suc k) n = 2 ^ j" "2 ^ j \<le> n" "n < 2 ^ Suc j"
      using less.hyps by blast
    then show ?thesis using True by (subst grow_factor.simps) (auto simp: mult.commute)
  next
    case False
    then show ?thesis using less.prems by (subst grow_factor.simps) (auto intro!: exI [of _ k])
  qed
qed

lemma grow_factor_1:
  assumes "0 < n"
  obtains j where "grow_factor 1 n = 2 ^ j" "2 ^ j \<le> n" "n < 2 ^ Suc j"
  using grow_factor_pow [of 0 n] assms by auto

lemma roots_loop_0 [simp]: "roots_loop 0 off = []"
  by (subst roots_loop.simps) simp

lemma roots_loop_pos:
  assumes "0 < n" "n < 2 ^ k" "2 ^ k dvd off"
  obtains j where "j < k" "2 ^ j \<le> n" "n < 2 ^ Suc j" "2 ^ j dvd off" "even (off div 2 ^ j)"
    "roots_loop n off = index j (off div 2 ^ j) # roots_loop (n - 2 ^ j) (off + 2 ^ j)"
proof -
  obtain j where j: "grow_factor 1 n = 2 ^ j" "2 ^ j \<le> n" "n < 2 ^ Suc j"
    using assms(1) by (rule grow_factor_1)
  have "(2 :: nat) ^ j < 2 ^ k" using j(2) assms(2) by (rule le_less_trans)
  then have jk: "j < k" by (rule power_less_imp_less_exp [rotated]) simp
  then have "2 ^ Suc j dvd off" using assms(3) by (meson Suc_leI dvd_trans le_imp_power_dvd)
  then have ev: "2 ^ j dvd off" "even (off div 2 ^ j)"
    by (auto elim!: dvdE simp: mult.assoc)
  have "index j (off div 2 ^ j) = off * 2 + 2 ^ j - 1"
    using ev(1) by (auto elim!: dvdE simp: index_def algebra_simps)
  then have "roots_loop n off = index j (off div 2 ^ j) # roots_loop (n - 2 ^ j) (off + 2 ^ j)"
    using assms(1) j(1) by (subst roots_loop.simps) (simp add: Let_def)
  with that jk j ev show ?thesis by blast
qed

text \<open>The block ranges of the nodes follow each other from \<open>a\<close> to \<open>b\<close>.\<close>

fun consecutive :: "nat \<Rightarrow> nat list \<Rightarrow> nat \<Rightarrow> bool" where
  "consecutive a [] b \<longleftrightarrow> a = b"
| "consecutive a (i # is) b \<longleftrightarrow> fst (block_range i) = a \<and> consecutive (snd (block_range i)) is b"

lemma roots_loop_consecutive:
  assumes "n < 2 ^ k" "2 ^ k dvd off"
  shows "consecutive off (roots_loop n off) (off + n)"
  using assms
proof (induction n arbitrary: k off rule: less_induct)
  case (less n)
  show ?case
  proof (cases "n = 0")
    case True
    then show ?thesis by simp
  next
    case False
    then have "0 < n" by simp
    then obtain j where j: "2 ^ j \<le> n" "n < 2 ^ Suc j" "2 ^ j dvd off"
      "roots_loop n off = index j (off div 2 ^ j) # roots_loop (n - 2 ^ j) (off + 2 ^ j)"
      using roots_loop_pos [OF _ less.prems] by metis
    have "consecutive (off + 2 ^ j) (roots_loop (n - 2 ^ j) (off + 2 ^ j)) (off + 2 ^ j + (n - 2 ^ j))"
      using j(1,2,3) \<open>0 < n\<close> by (intro less.IH [of _ j]) auto
    then show ?thesis using j by (simp add: add.commute)
  qed
qed

lemma roots_loop_set:
  assumes "n < 2 ^ k" "2 ^ k dvd off"
  shows "set (roots_loop n off) =
         {index d ((off + n) div 2 ^ d - 1) | d. d < k \<and> odd ((off + n) div 2 ^ d)}"
  using assms
proof (induction n arbitrary: k off rule: less_induct)
  case (less n)
  have dvd_div: "(off + m) div 2 ^ d = off div 2 ^ d + m div 2 ^ d" if "d \<le> k" for d m
  proof (rule div_plus_div_distrib_dvd_left)
    show "2 ^ d dvd off" using le_imp_power_dvd [OF that] less.prems(2) by (rule dvd_trans)
  qed
  have even_hi: "even (off div 2 ^ d)" if "d < k" for d
  proof -
    have "2 ^ Suc d dvd off"
      using that less.prems(2) by (meson Suc_leI dvd_trans le_imp_power_dvd)
    then show ?thesis by (auto elim!: dvdE simp: mult.assoc)
  qed
  show ?case
  proof (cases "n = 0")
    case True
    then show ?thesis using even_hi by auto
  next
    case False
    then have "0 < n" by simp
    then obtain j where j: "j < k" "2 ^ j \<le> n" "n < 2 ^ Suc j" "2 ^ j dvd off" "even (off div 2 ^ j)"
      "roots_loop n off = index j (off div 2 ^ j) # roots_loop (n - 2 ^ j) (off + 2 ^ j)"
      using roots_loop_pos [OF _ less.prems] by metis
    have IH: "set (roots_loop (n - 2 ^ j) (off + 2 ^ j)) =
        {index d ((off + n) div 2 ^ d - 1) | d. d < j \<and> odd ((off + n) div 2 ^ d)}"
      using less.IH [of "n - 2 ^ j" j "off + 2 ^ j"] j \<open>0 < n\<close> by simp
    have nj: "n div 2 ^ j = 1" using j(2,3) by (simp add: div_nat_eqI)
    have hi: "n div 2 ^ d = 0" if "j < d" for d
    proof -
      have "(2 :: nat) ^ Suc j \<le> 2 ^ d" using that by (intro power_increasing) auto
      then show ?thesis using j(3) by simp
    qed
    have mid: "odd ((off + n) div 2 ^ d) \<Longrightarrow> d < k \<Longrightarrow> d \<le> j" for d
      using dvd_div [of d n] hi [of d] even_hi [of d] by fastforce
    have top: "odd ((off + n) div 2 ^ j)" "(off + n) div 2 ^ j - 1 = off div 2 ^ j"
      using dvd_div [of j n] nj j(1,5) by auto
    have "{index d ((off + n) div 2 ^ d - 1) | d. d < k \<and> odd ((off + n) div 2 ^ d)} =
          insert (index j (off div 2 ^ j))
            {index d ((off + n) div 2 ^ d - 1) | d. d < j \<and> odd ((off + n) div 2 ^ d)}"
      using j(1) mid top by (fastforce simp: le_less)
    then show ?thesis using j(6) IH by simp
  qed
qed

lemma less_two_power: "n < (2 :: nat) ^ n"
  by (rule less_exp)

lemma roots_consecutive: "consecutive 0 (roots_loop n 0) n"
  using roots_loop_consecutive [of n n 0] less_two_power [of n] by simp

text \<open>The roots are the complete nodes whose parent is not complete.\<close>

lemma roots_iff: "i \<in> set (roots_loop n 0) \<longleftrightarrow> complete i n \<and> \<not> complete (parent i) n"
proof -
  obtain d off where i: "i = index d off" by (rule node_cases)
  have bound: "d < n" if "odd (n div 2 ^ d)"
  proof (rule ccontr)
    assume "\<not> d < n"
    then have "n < 2 ^ d" using less_two_power [of d] by linarith
    then show False using that by simp
  qed
  have arith: "Suc off \<le> m \<and> \<not> Suc (off div 2) \<le> m div 2 \<longleftrightarrow> odd m \<and> off = m - 1" for m
    by presburger
  have "i \<in> set (roots_loop n 0) \<longleftrightarrow> odd (n div 2 ^ d) \<and> off = n div 2 ^ d - 1"
    using roots_loop_set [of n n 0] less_two_power [of n] bound by (auto simp: i)
  also have "\<dots> \<longleftrightarrow> complete i n \<and> \<not> complete (parent i) n"
    unfolding i parent_index complete_index arith [symmetric] power_Suc2 div_mult2_eq ..
  finally show ?thesis .
qed

lemma full_roots_double [simp]: "full_roots (2 * n) = Some (roots_loop n 0)"
  unfolding full_roots_def and_1_nat by simp

lemma full_roots_double' [simp]: "full_roots (n * 2) = Some (roots_loop n 0)"
  using full_roots_double [of n] by (simp add: mult.commute)

lemma full_roots_odd: "odd n \<Longrightarrow> full_roots n = None"
  unfolding full_roots_def and_1_nat by simp

section \<open>The 64-bit code\<close>

text \<open>The same functions over \<open>u64\<close>, with wrapping arithmetic, as \<open>flat.rs\<close> has them.\<close>

definition trailing_zeros64 :: "u64 \<Rightarrow> nat" where
  "trailing_zeros64 w = (if w = 0 then 64 else tz (unat w))"

definition depth64 :: "u64 \<Rightarrow> nat" where
  "depth64 i = trailing_zeros64 (i + 1)"

definition offset64 :: "u64 \<Rightarrow> u64" where
  "offset64 i = (if i AND 1 = 0 then i div 2 else (drop_bit (depth64 i) (i + 1) - 1) div 2)"

definition index64 :: "nat \<Rightarrow> u64 \<Rightarrow> u64" where
  "index64 d off = (1 + 2 * off) * push_bit d 1 - 1"

definition parent64 :: "u64 \<Rightarrow> u64" where
  "parent64 i = index64 (depth64 i + 1) (drop_bit 1 (offset64 i))"

definition sibling64 :: "u64 \<Rightarrow> u64" where
  "sibling64 i = index64 (depth64 i) (offset64 i XOR 1)"

definition block_range64 :: "u64 \<Rightarrow> u64 \<times> u64" where
  "block_range64 i =
     (let d = depth64 i; count = push_bit d 1; first = offset64 i * count in (first, first + count))"

lemma unat_plus_1: "unat (i :: u64) < 2 ^ 64 - 1 \<Longrightarrow> unat (i + 1) = unat i + 1"
  by (simp add: unat_word_ariths)

lemma plus_1_neq_0: "unat (i :: u64) < 2 ^ 64 - 1 \<Longrightarrow> i + 1 \<noteq> 0"
  using unat_plus_1 [of i] by (metis add_eq_0_iff_both_eq_0 unsigned_0 zero_neq_one)

lemma depth64_unat: "unat i < 2 ^ 64 - 1 \<Longrightarrow> depth64 i = depth (unat i)"
  using plus_1_neq_0 [of i] unat_plus_1 [of i] by (simp add: depth64_def trailing_zeros64_def depth_def)

lemma depth_pow_le: "2 ^ depth i \<le> Suc i"
  using index_Suc [of "depth i" "offset i"] by simp

lemma offset_le: "offset i \<le> i"
proof -
  have "Suc i = (1 + 2 * offset i) * 2 ^ depth i"
    using index_Suc [of "depth i" "offset i"] by (simp only: index_depth_offset)
  moreover have "(1 + 2 * offset i) * 1 \<le> (1 + 2 * offset i) * 2 ^ depth i"
    by (rule mult_le_mono2) simp
  ultimately show ?thesis by simp
qed

lemma and_1_word: "(w :: u64) AND 1 = 0 \<longleftrightarrow> even (unat w)"
proof -
  have "even (unat w) \<longleftrightarrow> even w"
    by (transfer, simp add: even_nat_iff take_bit_Suc)
  then show ?thesis by (simp add: and_one_eq even_iff_mod_2_eq_zero)
qed

lemma offset64_unat:
  assumes "unat i < 2 ^ 64 - 1"
  shows "unat (offset64 i) = offset (unat i)"
proof (cases "even (unat i)")
  case True
  then show ?thesis by (simp add: offset64_def and_1_word offset_unfold unat_div_distrib)
next
  case False
  let ?d = "depth (unat i)"
  have p: "unat (drop_bit ?d (i + 1)) = Suc (unat i) div 2 ^ ?d"
    using unat_plus_1 [OF assms] by (simp add: unat_drop_bit_eq) (simp add: drop_bit_eq_div)
  then have "0 < unat (drop_bit ?d (i + 1))"
    using depth_pow_le [of "unat i"] by (simp add: div_greater_zero_iff)
  then have "unat (drop_bit ?d (i + 1) - 1) = Suc (unat i) div 2 ^ ?d - 1"
    using p unat_minus_one [of "drop_bit ?d (i + 1)"] by force
  then show ?thesis using False assms
    by (simp add: offset64_def and_1_word offset_unfold depth64_unat unat_div_distrib)
qed

lemma unat_shift_one: "d < 64 \<Longrightarrow> unat (push_bit d 1 :: u64) = 2 ^ d"
  using power_strict_increasing [of d 64 "2::nat"]
  by (subst unsigned_push_bit_eq) (simp add: take_bit_eq_mod)

lemma unat_mult_exact: "unat (a :: u64) * unat b < 2 ^ 64 \<Longrightarrow> unat (a * b) = unat a * unat b"
  using unat_mult_lem [of a b] by simp

lemma unat_minus_1_pos: "0 < unat (w :: u64) \<Longrightarrow> unat (w - 1) = unat w - 1"
  using unat_minus_one [of w] by force

lemma index64_unat:
  assumes "d < 64" "(1 + 2 * unat off) * 2 ^ d < 2 ^ 64"
  shows "unat (index64 d off) = index d (unat off)"
proof -
  let ?m = "(1 + 2 * unat off) * 2 ^ d"
  have "(1 + 2 * unat off) * 1 \<le> ?m" by (rule mult_le_mono2) simp
  then have "(1 + 2 * unat off) * 1 < 2 ^ 64" using assms(2) by (rule le_less_trans)
  then have o: "unat (1 + 2 * off) = 1 + 2 * unat off"
    by (simp add: unat_word_ariths)
  have prod: "unat ((1 + 2 * off) * push_bit d 1) = ?m"
    using unat_mult_exact [of "1 + 2 * off" "push_bit d 1"]
    unfolding o unat_shift_one [OF assms(1)] using assms(2) by blast
  have "0 < ?m" by simp
  then have "0 < unat ((1 + 2 * off) * push_bit d 1)" unfolding prod .
  from unat_minus_1_pos [OF this] show ?thesis unfolding prod index64_def index_def .
qed

lemma depth_less_62:
  assumes "Suc i < 2 ^ 62"
  shows "depth i < 62"
proof -
  have "(2::nat) ^ depth i < 2 ^ 62" using depth_pow_le [of i] assms by (rule le_less_trans)
  then show ?thesis by (rule power_less_imp_less_exp [rotated]) simp
qed

lemma coord_Suc: "(1 + 2 * offset i) * 2 ^ depth i = Suc i"
  using index_Suc [of "depth i" "offset i"] by (simp only: index_depth_offset)

lemma parent64_unat:
  assumes "unat i < 2 ^ 62 - 1"
  shows "unat (parent64 i) = parent (unat i)"
proof -
  let ?d = "depth (unat i)" and ?o = "offset (unat i)"
  have i: "unat i < 2 ^ 64 - 1" and s: "Suc (unat i) < 2 ^ 62" using assms by simp_all
  have o: "unat (drop_bit 1 (offset64 i)) = drop_bit 1 ?o"
    by (simp add: unat_drop_bit_eq offset64_unat [OF i])
  have "1 + 2 * drop_bit 1 ?o \<le> 1 + 2 * ?o" by (simp add: drop_bit_eq_div)
  then have "(1 + 2 * drop_bit 1 ?o) * 2 ^ ?d \<le> Suc (unat i)"
    unfolding coord_Suc [symmetric] by (rule mult_le_mono1)
  then have "(1 + 2 * drop_bit 1 ?o) * 2 ^ Suc ?d < 2 ^ 64" using s by simp
  then show ?thesis
    using index64_unat [of "Suc ?d" "drop_bit 1 (offset64 i)"] depth_less_62 [OF s] unfolding o
    by (simp add: parent64_def parent_def depth64_unat [OF i])
qed

lemma xor_1_le: "(n::nat) XOR 1 \<le> Suc n"
  using xor_one_eq [of n] by (cases "even n") auto

lemma sibling64_unat:
  assumes "unat i < 2 ^ 62 - 1"
  shows "unat (sibling64 i) = sibling (unat i)"
proof -
  let ?d = "depth (unat i)" and ?o = "offset (unat i)"
  have i: "unat i < 2 ^ 64 - 1" and s: "Suc (unat i) < 2 ^ 62" using assms by simp_all
  have o: "unat (offset64 i XOR 1) = ?o XOR 1"
    by (simp add: unsigned_xor_eq offset64_unat [OF i])
  have "x \<le> Suc n \<Longrightarrow> 1 + 2 * x \<le> 3 * (1 + 2 * n)" for x n :: nat by simp
  then have "1 + 2 * (?o XOR 1) \<le> 3 * (1 + 2 * ?o)" using xor_1_le by blast
  then have "(1 + 2 * (?o XOR 1)) * 2 ^ ?d \<le> 3 * (1 + 2 * ?o) * 2 ^ ?d" by (rule mult_le_mono1)
  also have "\<dots> = 3 * Suc (unat i)" unfolding coord_Suc [symmetric] by (simp only: mult.assoc)
  finally have "(1 + 2 * (?o XOR 1)) * 2 ^ ?d < 2 ^ 64" using s by simp
  then show ?thesis
    using index64_unat [of ?d "offset64 i XOR 1"] depth_less_62 [OF s] unfolding o
    by (simp add: sibling64_def sibling_def depth64_unat [OF i])
qed

lemma block_range64_unat:
  assumes "unat i < 2 ^ 62 - 1"
  shows "map_prod unat unat (block_range64 i) = block_range (unat i)"
proof -
  let ?d = "depth (unat i)" and ?o = "offset (unat i)"
  have i: "unat i < 2 ^ 64 - 1" and s: "Suc (unat i) < 2 ^ 62" using assms by simp_all
  have p: "unat (push_bit ?d 1 :: u64) = 2 ^ ?d" using depth_less_62 [OF s] by (intro unat_shift_one) linarith
  have "?o * 2 ^ ?d \<le> Suc (unat i)"
    unfolding coord_Suc [symmetric] by (rule mult_le_mono1) simp
  then have b: "?o * 2 ^ ?d + 2 ^ ?d < 2 ^ 64" using depth_pow_le [of "unat i"] s by simp
  then have f: "unat (offset64 i * push_bit ?d 1) = ?o * 2 ^ ?d"
    using unat_mult_exact [of "offset64 i" "push_bit ?d 1"] unfolding p offset64_unat [OF i] by simp
  have "unat (offset64 i * push_bit ?d 1 + push_bit ?d 1) = ?o * 2 ^ ?d + 2 ^ ?d"
    using b unat_add_lem [of "offset64 i * push_bit ?d 1" "push_bit ?d 1"] unfolding f p by simp
  with f show ?thesis by (simp add: block_range64_def block_range_def Let_def depth64_unat [OF i])
qed

section \<open>Properties\<close>

text \<open>
  Property C34. The \<open>u64\<close> functions compute the coordinates exactly, with no wrap-around, for every
  node index below \<open>2^62 - 1\<close> (trees of up to \<open>2^61\<close> blocks).
\<close>

theorem flat_u64_refinement:
  assumes "unat i < 2 ^ 62 - 1"
  shows "depth64 i = depth (unat i) \<and> unat (offset64 i) = offset (unat i) \<and>
         unat (parent64 i) = parent (unat i) \<and> unat (sibling64 i) = sibling (unat i) \<and>
         map_prod unat unat (block_range64 i) = block_range (unat i)"
  using assms depth64_unat [of i] offset64_unat [of i] parent64_unat [of i] sibling64_unat [of i]
    block_range64_unat [of i] by simp

theorem flat_u64_refinement_witness:
  "unat (23 :: u64) < 2 ^ 62 - 1 \<and> unat (parent64 23) = parent 23"
  using flat_u64_refinement [of 23] by simp

text \<open>
  Navigation is consistent: a node and its sibling have the same parent, the sibling of
  the sibling is the node, the children of the parent are the two of them in block order, and the
  parent covers exactly their two adjacent block ranges.
\<close>

theorem flat_navigation:
  "parent (sibling i) = parent i \<and> sibling (sibling i) = i \<and>
   children (parent i) = Some (min i (sibling i), max i (sibling i)) \<and>
   snd (block_range (min i (sibling i))) = fst (block_range (max i (sibling i))) \<and>
   block_range (parent i) =
     (fst (block_range (min i (sibling i))), snd (block_range (max i (sibling i))))"
proof -
  obtain d off where i: "i = index d off" by (rule node_cases)
  have lt: "index d k < index d (Suc k)" for k by (simp add: index_mono_offset)
  have mm: "min (index d k) (index d (Suc k)) = index d k"
      "max (index d k) (index d (Suc k)) = index d (Suc k)"
      "min (index d (Suc k)) (index d k) = index d k"
      "max (index d (Suc k)) (index d k) = index d (Suc k)" for k
    using lt [of k] by simp_all
  show ?thesis
  proof (cases "even off")
    case True
    then obtain k where "off = 2 * k" by blast
    then show ?thesis by (simp add: i mm)
  next
    case False
    then obtain k where "off = 2 * k + 1" by (rule oddE)
    then show ?thesis by (simp add: i mm)
  qed
qed

text \<open>
  \<open>full_roots\<close> of an even index returns, and the roots it returns cover the blocks
  \<open>0 ..< n\<close> consecutively and are exactly the complete nodes with an incomplete parent; an odd
  index is the panic of its assertion.
\<close>

theorem full_roots_partition:
  "full_roots (2 * n + 1) = None \<and>
   (\<exists>rs. full_roots (2 * n) = Some rs \<and> consecutive 0 rs n \<and>
      (\<forall>i. i \<in> set rs \<longleftrightarrow> complete i n \<and> \<not> complete (parent i) n))"
  by (simp add: full_roots_odd roots_consecutive roots_iff)

end
