(* ===== verification/Merkle.thy ===== *)
theory Merkle
  imports Flat Ordered
begin

text \<open>
  The Merkle tree of crate \<open>merkle\<close> (\<open>crates/merkle/src/lib.rs\<close> and \<open>tree.rs\<close>). BLAKE3 is the
  parameter \<open>H\<close> of every definition that hashes. Node indices and lengths are naturals (theory
  \<open>Flat\<close> shows that the \<open>u64\<close> index arithmetic is exact below \<open>2^62\<close>); byte sizes are added
  modulo \<open>2^64\<close> as the code adds them. A panic on an absent node (\<open>self.nodes[&i]\<close>) is \<open>None\<close>.

  The specification is \<open>subtree\<close>: the node at depth \<open>d\<close>, offset \<open>o\<close> of the tree over a list of
  blocks, by recursion over \<open>d\<close>. The invariant \<open>tree_ok H bs t\<close> says that \<open>t\<close> stores exactly
  the complete nodes of \<open>bs\<close> with their specified content.
\<close>

section \<open>Nodes and hashes\<close>

record node =
  node_index :: nat
  node_hash :: bytes
  node_size :: nat

type_synonym hashfun = "bytes \<Rightarrow> bytes"

definition leaf_input :: "bytes \<Rightarrow> bytes" where
  "leaf_input data = [0x00] @ le64 (length data) @ data"

definition parent_input :: "node \<Rightarrow> node \<Rightarrow> bytes" where
  "parent_input l r =
     [0x01] @ node_hash l @ le64 (node_size l) @ node_hash r @ le64 (node_size r)"

definition root_input :: "node \<Rightarrow> bytes" where
  "root_input r = node_hash r @ le64 (node_index r) @ le64 (node_size r)"

definition tree_input :: "node list \<Rightarrow> bytes" where
  "tree_input roots = [0x02] @ concat (map root_input roots)"

definition leaf_hash :: "hashfun \<Rightarrow> bytes \<Rightarrow> bytes" where
  "leaf_hash H data = H (leaf_input data)"

definition parent_hash :: "hashfun \<Rightarrow> node \<Rightarrow> node \<Rightarrow> bytes" where
  "parent_hash H l r = H (parent_input l r)"

definition tree_hash :: "hashfun \<Rightarrow> node list \<Rightarrow> bytes" where
  "tree_hash H roots = H (tree_input roots)"

text \<open>The two node literals of the source.\<close>

definition leaf_node :: "hashfun \<Rightarrow> nat \<Rightarrow> bytes \<Rightarrow> node" where
  "leaf_node H i data = \<lparr> node_index = i, node_hash = leaf_hash H data, node_size = length data \<rparr>"

definition parent_node :: "hashfun \<Rightarrow> nat \<Rightarrow> node \<Rightarrow> node \<Rightarrow> node" where
  "parent_node H p l r =
     \<lparr> node_index = p, node_hash = parent_hash H l r,
       node_size = add64 (node_size l) (node_size r) \<rparr>"

section \<open>The tree and its operations\<close>

record merkle_tree =
  nodes :: "(nat, node) btmap"
  tree_len :: nat

definition empty_tree :: merkle_tree where
  "empty_tree = \<lparr> nodes = [], tree_len = 0 \<rparr>"

lemma sibling_le_offset:
  assumes "\<not> cur < sibling cur"
  shows "offset (parent cur) < offset cur"
proof -
  obtain d off where c: "cur = index d off" by (rule node_cases)
  have "odd off" using assms by (auto simp: c index_mono_offset split: if_splits)
  then show ?thesis by (auto simp: c elim!: oddE)
qed

text \<open>
  The roll-up loop of \<open>append\<close>. Its state is the node map and the node just stored at \<open>cur\<close>,
  which the code reads back as \<open>self.nodes[&cur]\<close>.
\<close>

function append_climb :: "hashfun \<Rightarrow> (nat, node) btmap \<Rightarrow> nat \<Rightarrow> node \<Rightarrow> (nat, node) btmap" where
  "append_climb H ns cur right =
     (let sib = sibling cur
      in if cur < sib then ns
         else case bt_get ns sib of
                None \<Rightarrow> ns
              | Some left \<Rightarrow>
                  let p = parent cur; n = parent_node H p left right
                  in append_climb H (bt_insert p n ns) p n)"
  by pat_completeness auto

termination
  by (relation "measure (\<lambda>(H, ns, cur, right). offset cur)") (auto simp: sibling_le_offset)

declare append_climb.simps [simp del]

definition append :: "hashfun \<Rightarrow> merkle_tree \<Rightarrow> bytes \<Rightarrow> nat \<times> merkle_tree" where
  "append H t data =
     (let block = tree_len t;
          cur = block * 2;
          leaf = leaf_node H cur data;
          ns = append_climb H (bt_insert cur leaf (nodes t)) cur leaf
      in (block, \<lparr> nodes = ns, tree_len = tree_len t + 1 \<rparr>))"

definition truncate :: "merkle_tree \<Rightarrow> nat \<Rightarrow> bool \<times> merkle_tree" where
  "truncate t new_len =
     (if tree_len t \<le> new_len then (False, t)
      else (True, \<lparr> nodes = bt_retain (\<lambda>i. snd (block_range i) \<le> new_len) (nodes t),
                    tree_len = new_len \<rparr>))"

text \<open>\<open>roots\<close>: \<open>None\<close> is the panic on an absent root.\<close>

definition roots :: "merkle_tree \<Rightarrow> node list option" where
  "roots t =
     (if tree_len t = 0 then Some []
      else Option.bind (full_roots (tree_len t * 2)) (\<lambda>is. those (map (bt_get (nodes t)) is)))"

definition byte_length :: "merkle_tree \<Rightarrow> nat option" where
  "byte_length t = map_option (\<lambda>rs. foldl add64 0 (map node_size rs)) (roots t)"

definition root_hash :: "hashfun \<Rightarrow> merkle_tree \<Rightarrow> bytes option" where
  "root_hash H t = map_option (tree_hash H) (roots t)"

text \<open>\<open>try_roots\<close> and \<open>prefix_roots\<close> return \<open>None\<close> for an absent node.\<close>

definition try_roots :: "merkle_tree \<Rightarrow> node list option" where
  "try_roots t =
     (if tree_len t = 0 then Some []
      else Option.bind (full_roots (tree_len t * 2)) (\<lambda>is. those (map (bt_get (nodes t)) is)))"

definition try_root_hash :: "hashfun \<Rightarrow> merkle_tree \<Rightarrow> bytes option" where
  "try_root_hash H t = map_option (tree_hash H) (try_roots t)"

definition prefix_roots :: "merkle_tree \<Rightarrow> nat \<Rightarrow> node list option" where
  "prefix_roots t len =
     (if tree_len t < len then None
      else Option.bind (full_roots (len * 2)) (\<lambda>is. those (map (bt_get (nodes t)) is)))"

definition prefix_root_hash :: "hashfun \<Rightarrow> merkle_tree \<Rightarrow> nat \<Rightarrow> bytes option" where
  "prefix_root_hash H t len = map_option (tree_hash H) (prefix_roots t len)"

definition agree :: "hashfun \<Rightarrow> merkle_tree \<Rightarrow> merkle_tree \<Rightarrow> nat \<Rightarrow> bool" where
  "agree H t u a \<longleftrightarrow>
     a = 0 \<or> (case (prefix_root_hash H t a, prefix_root_hash H u a) of
               (Some x, Some y) \<Rightarrow> x = y | _ \<Rightarrow> False)"

function lca_loop :: "(nat \<Rightarrow> bool) \<Rightarrow> nat \<Rightarrow> nat \<Rightarrow> nat" where
  "lca_loop ag lo hi =
     (if lo < hi
      then let mid = (lo + hi + 1) div 2
           in if ag mid then lca_loop ag mid hi else lca_loop ag lo (mid - 1)
      else lo)"
  by pat_completeness auto
termination by (relation "measure (\<lambda>(ag, lo, hi). hi - lo)") auto

declare lca_loop.simps [simp del]

definition lowest_common_ancestor :: "hashfun \<Rightarrow> merkle_tree \<Rightarrow> merkle_tree \<Rightarrow> nat" where
  "lowest_common_ancestor H t u = lca_loop (agree H t u) 0 (min (tree_len t) (tree_len u))"

definition reorg :: "hashfun \<Rightarrow> merkle_tree \<Rightarrow> merkle_tree \<Rightarrow> nat \<times> merkle_tree" where
  "reorg H t u =
     (let ancestors = lowest_common_ancestor H t u;
          t = snd (truncate t ancestors);
          ns = fold (\<lambda>(i, n). bt_insert i n) (nodes u) (nodes t)
      in (ancestors, \<lparr> nodes = ns, tree_len = tree_len u \<rparr>))"

text \<open>Repair mode.\<close>

definition has_node :: "merkle_tree \<Rightarrow> nat \<Rightarrow> bool" where
  "has_node t i = bt_contains (nodes t) i"

definition remove_node :: "merkle_tree \<Rightarrow> nat \<Rightarrow> bool \<times> merkle_tree" where
  "remove_node t i = (bt_contains (nodes t) i, t\<lparr> nodes := bt_remove i (nodes t) \<rparr>)"

definition missing_nodes :: "merkle_tree \<Rightarrow> nat list" where
  "missing_nodes t =
     (if tree_len t = 0 then []
      else filter (\<lambda>i. snd (block_range i) \<le> tree_len t \<and> \<not> bt_contains (nodes t) i)
             [0 ..< 2 * tree_len t])"

definition is_intact :: "merkle_tree \<Rightarrow> bool" where
  "is_intact t \<longleftrightarrow> missing_nodes t = []"

datatype in_repair_mode = InRepairMode

definition try_append :: "hashfun \<Rightarrow> merkle_tree \<Rightarrow> bytes \<Rightarrow> (in_repair_mode, nat \<times> merkle_tree) result" where
  "try_append H t data = (if is_intact t then Inr (append H t data) else Inl InRepairMode)"

section \<open>Persistence\<close>

definition serialize_node :: "node \<Rightarrow> bytes" where
  "serialize_node n = le64 (node_index n) @ le64 (node_size n) @ node_hash n"

definition serialize :: "merkle_tree \<Rightarrow> bytes" where
  "serialize t =
     le64 (tree_len t) @ le64 (length (nodes t)) @ concat (map (serialize_node \<circ> snd) (nodes t))"

text \<open>
  The node loop of \<open>deserialize\<close>: \<open>rest\<close> is the buffer from \<open>off\<close> on.
\<close>

fun deserialize_nodes :: "nat \<Rightarrow> bytes \<Rightarrow> (nat, node) btmap \<Rightarrow> ((nat, node) btmap \<times> bytes) option" where
  "deserialize_nodes 0 rest ns = Some (ns, rest)"
| "deserialize_nodes (Suc k) rest ns =
     (if length rest < 48 then None
      else let i = of_le (take 8 rest);
               size = of_le (take 8 (drop 8 rest));
               hash = take 32 (drop 16 rest)
           in deserialize_nodes k (drop 48 rest)
                (bt_insert i \<lparr> node_index = i, node_hash = hash, node_size = size \<rparr> ns))"

definition deserialize :: "bytes \<Rightarrow> merkle_tree option" where
  "deserialize bs =
     (if length bs < 16 then None
      else let len = of_le (take 8 bs); count = of_le (take 8 (drop 8 bs))
           in case deserialize_nodes count (drop 16 bs) [] of
                None \<Rightarrow> None
              | Some (ns, rest) \<Rightarrow>
                  if rest \<noteq> [] then None else Some \<lparr> nodes = ns, tree_len = len \<rparr>)"

section \<open>Byte offsets\<close>

lemma children_depth: "children i = Some (l, r) \<Longrightarrow> depth l < depth i \<and> depth r < depth i"
proof -
  assume c: "children i = Some (l, r)"
  obtain d off where i: "i = index d off" by (rule node_cases)
  with c show ?thesis by (cases d) auto
qed

text \<open>
  \<open>seek_descend\<close>: the outer option is the panic on an absent node. The depth bounds the loop.
\<close>

function seek_descend :: "(nat, node) btmap \<Rightarrow> nat \<Rightarrow> nat \<Rightarrow> (nat \<times> nat) option" where
  "seek_descend ns i bytes =
     (case children i of
        None \<Rightarrow> Some (i div 2, bytes)
      | Some (l, r) \<Rightarrow>
          (case bt_get ns l of
             None \<Rightarrow> None
           | Some left \<Rightarrow>
               if bytes < node_size left then seek_descend ns l bytes
               else seek_descend ns r (bytes - node_size left)))"
  by pat_completeness auto

termination
  by (relation "measure (\<lambda>(ns, i, bytes). depth i)") (auto dest: children_depth)

declare seek_descend.simps [simp del]

fun seek_roots :: "(nat, node) btmap \<Rightarrow> nat \<Rightarrow> node list \<Rightarrow> nat \<Rightarrow> (nat \<times> nat) option" where
  "seek_roots ns len [] remaining = Some (len, remaining)"
| "seek_roots ns len (root # rs) remaining =
     (if remaining < node_size root then seek_descend ns (node_index root) remaining
      else seek_roots ns len rs (remaining - node_size root))"

definition seek :: "merkle_tree \<Rightarrow> nat \<Rightarrow> (nat \<times> nat) option" where
  "seek t bytes = Option.bind (roots t) (\<lambda>rs. seek_roots (nodes t) (tree_len t) rs bytes)"

section \<open>The specified tree\<close>

fun subtree :: "hashfun \<Rightarrow> bytes list \<Rightarrow> nat \<Rightarrow> nat \<Rightarrow> node" where
  "subtree H bs 0 off = leaf_node H (index 0 off) (bs ! off)"
| "subtree H bs (Suc d) off =
     parent_node H (index (Suc d) off) (subtree H bs d (2 * off)) (subtree H bs d (2 * off + 1))"

definition spec_node :: "hashfun \<Rightarrow> bytes list \<Rightarrow> nat \<Rightarrow> node" where
  "spec_node H bs i = subtree H bs (depth i) (offset i)"

definition tree_ok :: "hashfun \<Rightarrow> bytes list \<Rightarrow> merkle_tree \<Rightarrow> bool" where
  "tree_ok H bs t \<longleftrightarrow>
     bt_inv (nodes t) \<and> tree_len t = length bs \<and>
     (\<forall>i. bt_get (nodes t) i = (if complete i (length bs) then Some (spec_node H bs i) else None))"

text \<open>The tree the code builds from a list of blocks.\<close>

definition tree_of :: "hashfun \<Rightarrow> bytes list \<Rightarrow> merkle_tree" where
  "tree_of H bs = fold (\<lambda>b t. snd (append H t b)) bs empty_tree"

lemma spec_node_index [simp]: "spec_node H bs (index d off) = subtree H bs d off"
  by (simp add: spec_node_def)

lemma subtree_index [simp]: "node_index (subtree H bs d off) = index d off"
  by (cases d) (simp_all add: leaf_node_def parent_node_def)

lemma spec_node_node_index [simp]: "node_index (spec_node H bs i) = i"
  by (simp add: spec_node_def)

lemma subtree_cong:
  "(\<And>k. off * 2 ^ d \<le> k \<Longrightarrow> k < Suc off * 2 ^ d \<Longrightarrow> bs ! k = cs ! k) \<Longrightarrow>
   subtree H bs d off = subtree H cs d off"
proof (induction d arbitrary: off)
  case 0
  then show ?case by simp
next
  case (Suc d)
  have "subtree H bs d (2 * off) = subtree H cs d (2 * off)"
    by (rule Suc.IH, rule Suc.prems) (auto simp: algebra_simps)
  moreover have "subtree H bs d (2 * off + 1) = subtree H cs d (2 * off + 1)"
    by (rule Suc.IH, rule Suc.prems) (auto simp: algebra_simps)
  ultimately show ?case by simp
qed

text \<open>A complete node depends on the blocks it covers only.\<close>

lemma spec_node_append: "complete i (length bs) \<Longrightarrow> spec_node H (bs @ cs) i = spec_node H bs i"
proof -
  assume c: "complete i (length bs)"
  obtain d off where i: "i = index d off" by (rule node_cases)
  show ?thesis using c unfolding i spec_node_index complete_index_mult
    by (intro subtree_cong) (simp add: nth_append)
qed

lemma spec_node_take:
  assumes "complete i n" "n \<le> length bs"
  shows "spec_node H (take n bs) i = spec_node H bs i"
  using spec_node_append [of i "take n bs" H "drop n bs"] assms by simp

lemma tree_ok_unique: "tree_ok H bs t \<Longrightarrow> tree_ok H bs u \<Longrightarrow> t = u"
  by (cases t; cases u) (auto simp: tree_ok_def fun_eq_iff intro: bt_ext)

lemma tree_ok_empty: "tree_ok H [] empty_tree"
proof -
  have "\<not> complete i 0" for i
  proof -
    obtain d off where i: "i = index d off" by (rule node_cases)
    then show ?thesis by (simp add: complete_index)
  qed
  then show ?thesis by (simp add: tree_ok_def empty_tree_def)
qed

section \<open>Append\<close>

text \<open>
  While block \<open>n\<close> is being added, after the climb has reached depth \<open>d\<close>, the map holds the nodes
  that were complete before and the newly complete ones up to that depth.
\<close>

definition climbing :: "hashfun \<Rightarrow> bytes list \<Rightarrow> nat \<Rightarrow> nat \<Rightarrow> (nat, node) btmap \<Rightarrow> bool" where
  "climbing H bs n d ns \<longleftrightarrow>
     bt_inv ns \<and>
     (\<forall>i. bt_get ns i =
        (if complete i n \<or> complete i (Suc n) \<and> depth i \<le> d then Some (spec_node H bs i) else None))"

lemma climbing_leaf:
  assumes "tree_ok H bs t" "n = length bs"
  shows "climbing H (bs @ [b]) n 0 (bt_insert (index 0 n) (subtree H (bs @ [b]) 0 n) (nodes t))"
  unfolding climbing_def
proof (intro conjI allI)
  show "bt_inv (bt_insert (index 0 n) (subtree H (bs @ [b]) 0 n) (nodes t))"
    using assms by (simp add: tree_ok_def)
next
  fix i
  obtain d off where i: "i = index d off" by (rule node_cases)
  have "complete (index 0 off) (Suc n) \<longleftrightarrow> complete (index 0 off) n \<or> off = n"
    by (simp add: complete_Suc_index)
  moreover have "\<not> complete (index 0 n) n" by (simp add: complete_index)
  ultimately show "bt_get (bt_insert (index 0 n) (subtree H (bs @ [b]) 0 n) (nodes t)) i =
      (if complete i n \<or> complete i (Suc n) \<and> depth i \<le> 0 then Some (spec_node H (bs @ [b]) i)
       else None)"
    using assms unfolding i tree_ok_def bt_get_insert
    by (cases "d = 0") (auto simp: spec_node_append spec_node_index [symmetric] simp del: subtree.simps spec_node_index)
qed

lemma climbing_step:
  assumes "climbing H bs n d ns" "Suc off * 2 ^ Suc d = Suc n"
  shows "climbing H bs n (Suc d) (bt_insert (index (Suc d) off) (subtree H bs (Suc d) off) ns)"
  unfolding climbing_def
proof (intro conjI allI)
  show "bt_inv (bt_insert (index (Suc d) off) (subtree H bs (Suc d) off) ns)"
    using assms(1) by (simp add: climbing_def)
next
  fix i
  obtain d' off' where i: "i = index d' off'" by (rule node_cases)
  have "complete (index (Suc d) off') (Suc n) \<longleftrightarrow> complete (index (Suc d) off') n \<or> off' = off"
  proof -
    have "Suc off' * 2 ^ Suc d = Suc n \<longleftrightarrow> off' = off"
      unfolding assms(2) [symmetric] mult_cancel2 by simp
    then show ?thesis unfolding complete_Suc_index by simp
  qed
  then show "bt_get (bt_insert (index (Suc d) off) (subtree H bs (Suc d) off) ns) i =
      (if complete i n \<or> complete i (Suc n) \<and> depth i \<le> Suc d then Some (spec_node H bs i) else None)"
    using assms(1) unfolding i climbing_def bt_get_insert
    by (auto simp: le_Suc_eq spec_node_index [symmetric] simp del: subtree.simps spec_node_index)
qed

lemma climbing_done:
  assumes "climbing H bs n d ns" "Suc off * 2 ^ d = Suc n" "even off" "length bs = Suc n"
  shows "tree_ok H bs \<lparr> nodes = ns, tree_len = Suc n \<rparr>"
proof -
  have "complete i n \<or> complete i (Suc n) \<and> depth i \<le> d \<longleftrightarrow> complete i (Suc n)" for i
  proof -
    obtain d' off' where i: "i = index d' off'" by (rule node_cases)
    have "d' \<le> d" if "Suc off' * 2 ^ d' = Suc n"
    proof (rule ccontr)
      assume "\<not> d' \<le> d"
      then have "(2::nat) ^ Suc d dvd 2 ^ d'" by (intro le_imp_power_dvd) simp
      then have "2 * 2 ^ d dvd Suc off * 2 ^ d" using that assms(2)
        by (metis dvd_mult power_Suc)
      then have "2 dvd Suc off" using dvd_times_right_cancel_iff [of "(2::nat) ^ d" 2 "Suc off"] by simp
      with assms(3) show False by simp
    qed
    then show ?thesis unfolding i complete_Suc_index by auto
  qed
  then show ?thesis using assms(1,4) by (simp add: tree_ok_def climbing_def)
qed

lemma append_climb_ok:
  assumes "climbing H bs n d ns" "Suc off * 2 ^ d = Suc n" "length bs = Suc n"
  shows "tree_ok H bs \<lparr> nodes = append_climb H ns (index d off) (subtree H bs d off), tree_len = Suc n \<rparr>"
  using assms
proof (induction off arbitrary: d ns rule: less_induct)
  case (less off)
  show ?case
  proof (cases "even off")
    case True
    then have "append_climb H ns (index d off) (subtree H bs d off) = ns"
      by (subst append_climb.simps) (simp add: index_mono_offset)
    then show ?thesis using climbing_done [OF less.prems(1,2) True less.prems(3)] by simp
  next
    case False
    then obtain k where k: "off = 2 * k + 1" by (rule oddE)
    have "Suc off * 2 ^ d = Suc (2 * k) * 2 ^ d + 2 ^ d" by (simp add: k)
    moreover have "0 < (2::nat) ^ d" by simp
    ultimately have "complete (index d (2 * k)) n"
      using less.prems(2) unfolding complete_index_mult by linarith
    then have left: "bt_get ns (index d (2 * k)) = Some (subtree H bs d (2 * k))"
      using less.prems(1) by (simp add: climbing_def)
    have end': "Suc k * 2 ^ Suc d = Suc n" using less.prems(2) k by simp
    have "append_climb H ns (index d off) (subtree H bs d off) =
      append_climb H (bt_insert (index (Suc d) k) (subtree H bs (Suc d) k) ns)
        (index (Suc d) k) (subtree H bs (Suc d) k)"
      by (subst append_climb.simps) (simp add: k left index_mono_offset Let_def)
    then show ?thesis
      using less.IH [OF _ climbing_step [OF less.prems(1) end'] end' less.prems(3)] k by simp
  qed
qed

lemma append_ok:
  assumes "tree_ok H bs t"
  shows "fst (append H t b) = length bs \<and> tree_ok H (bs @ [b]) (snd (append H t b))"
proof -
  let ?n = "length bs"
  have leaf: "leaf_node H (?n * 2) b = subtree H (bs @ [b]) 0 ?n"
    by (simp add: index_leaf mult.commute)
  have len: "tree_len t = ?n" using assms by (simp add: tree_ok_def)
  have "climbing H (bs @ [b]) ?n 0 (bt_insert (index 0 ?n) (subtree H (bs @ [b]) 0 ?n) (nodes t))"
    using assms by (rule climbing_leaf) simp
  then have "tree_ok H (bs @ [b]) \<lparr> nodes = append_climb H
       (bt_insert (index 0 ?n) (subtree H (bs @ [b]) 0 ?n) (nodes t)) (index 0 ?n)
       (subtree H (bs @ [b]) 0 ?n), tree_len = Suc ?n \<rparr>"
    by (rule append_climb_ok) simp_all
  then show ?thesis
    unfolding append_def Let_def len leaf by (simp add: index_leaf mult.commute del: subtree.simps)
qed

lemma tree_of_ok: "tree_ok H bs (tree_of H bs)"
proof (induction bs rule: rev_induct)
  case Nil
  show ?case using tree_ok_empty by (simp add: tree_of_def)
next
  case (snoc b bs)
  from append_ok [OF this] show ?case by (simp add: tree_of_def)
qed

lemma tree_ok_iff: "tree_ok H bs t \<longleftrightarrow> t = tree_of H bs"
  using tree_ok_unique tree_of_ok by blast

section \<open>Truncate\<close>

lemma truncate_ok:
  assumes "tree_ok H bs t"
  shows "fst (truncate t n) = (n < length bs) \<and> tree_ok H (take n bs) (snd (truncate t n))"
proof (cases "n < length bs")
  case True
  have "complete i n \<Longrightarrow> complete i (length bs)" for i using True complete_mono by simp
  then show ?thesis
    using assms True
    by (auto simp: truncate_def tree_ok_def complete_def [symmetric] spec_node_take)
next
  case False
  then show ?thesis using assms by (simp add: truncate_def tree_ok_def)
qed

section \<open>Roots\<close>

definition spec_roots :: "hashfun \<Rightarrow> bytes list \<Rightarrow> node list" where
  "spec_roots H bs = map (spec_node H bs) (roots_loop (length bs) 0)"

lemma those_map_Some: "(\<And>x. x \<in> set xs \<Longrightarrow> f x = Some (g x)) \<Longrightarrow> those (map f xs) = Some (map g xs)"
  by (induction xs) auto

lemma roots_complete: "i \<in> set (roots_loop n 0) \<Longrightarrow> complete i n"
  by (simp add: roots_iff)

lemma spec_roots_take:
  "n \<le> length bs \<Longrightarrow> spec_roots H (take n bs) = map (spec_node H bs) (roots_loop n 0)"
  by (simp add: spec_roots_def spec_node_take roots_complete)

lemma prefix_roots_ok:
  assumes "tree_ok H bs t"
  shows "prefix_roots t n = (if n \<le> length bs then Some (spec_roots H (take n bs)) else None)"
proof (cases "n \<le> length bs")
  case True
  have "bt_get (nodes t) i = Some (spec_node H bs i)" if "i \<in> set (roots_loop n 0)" for i
    using assms complete_mono [OF roots_complete [OF that] True] by (simp add: tree_ok_def)
  then show ?thesis
    using True assms by (simp add: prefix_roots_def tree_ok_def spec_roots_take those_map_Some)
next
  case False
  then show ?thesis using assms by (simp add: prefix_roots_def tree_ok_def)
qed

lemma roots_ok:
  assumes "tree_ok H bs t"
  shows "roots t = Some (spec_roots H bs)" "try_roots t = Some (spec_roots H bs)"
    "root_hash H t = Some (tree_hash H (spec_roots H bs))"
    "try_root_hash H t = Some (tree_hash H (spec_roots H bs))"
proof -
  have "bt_get (nodes t) i = Some (spec_node H bs i)" if "i \<in> set (roots_loop (length bs) 0)" for i
    using assms roots_complete [OF that] by (simp add: tree_ok_def)
  then have "those (map (bt_get (nodes t)) (roots_loop (length bs) 0)) = Some (spec_roots H bs)"
    by (simp add: spec_roots_def those_map_Some)
  moreover have "roots_loop 0 0 = []" by simp
  ultimately show "roots t = Some (spec_roots H bs)" "try_roots t = Some (spec_roots H bs)"
    using assms by (auto simp: roots_def try_roots_def tree_ok_def spec_roots_def)
  then show "root_hash H t = Some (tree_hash H (spec_roots H bs))"
    "try_root_hash H t = Some (tree_hash H (spec_roots H bs))"
    by (simp_all add: root_hash_def try_root_hash_def)
qed

lemma prefix_root_hash_ok:
  "tree_ok H bs t \<Longrightarrow> prefix_root_hash H t n =
   (if n \<le> length bs then Some (tree_hash H (spec_roots H (take n bs))) else None)"
  by (simp add: prefix_root_hash_def prefix_roots_ok)

section \<open>What the hashes commit to\<close>

text \<open>
  \<open>H\<close> is collision free on the listed inputs. The theorems assume it of the finitely many inputs
  that the trees and verifiers at hand feed to the hash, never of all byte strings.
\<close>

definition collision_free :: "hashfun \<Rightarrow> bytes list \<Rightarrow> bool" where
  "collision_free H xs \<longleftrightarrow> (\<forall>x \<in> set xs. \<forall>y \<in> set xs. H x = H y \<longrightarrow> x = y)"

definition hash32 :: "hashfun \<Rightarrow> bool" where
  "hash32 H \<longleftrightarrow> (\<forall>x. length (H x) = 32)"

definition wf_node :: "node \<Rightarrow> bool" where
  "wf_node n \<longleftrightarrow> length (node_hash n) = 32 \<and> node_size n < 2 ^ 64 \<and> node_index n < 2 ^ 64"

lemma leaf_input_inj [simp]: "leaf_input a = leaf_input b \<longleftrightarrow> a = b"
  by (auto simp: leaf_input_def append_eq_same_length)

lemma input_tags [simp]:
  "leaf_input a \<noteq> parent_input l r" "leaf_input a \<noteq> tree_input rs" "parent_input l r \<noteq> tree_input rs"
  "parent_input l r \<noteq> leaf_input a" "tree_input rs \<noteq> leaf_input a" "tree_input rs \<noteq> parent_input l r"
  by (simp_all add: leaf_input_def parent_input_def tree_input_def)

lemma parent_input_inj:
  assumes "length (node_hash l) = 32" "length (node_hash l') = 32"
    "length (node_hash r) = 32" "length (node_hash r') = 32"
    "node_size l < 2 ^ 64" "node_size l' < 2 ^ 64" "node_size r < 2 ^ 64" "node_size r' < 2 ^ 64"
    "parent_input l r = parent_input l' r'"
  shows "node_hash l = node_hash l' \<and> node_size l = node_size l' \<and>
         node_hash r = node_hash r' \<and> node_size r = node_size r'"
  using assms le64_inj by (simp add: parent_input_def append_eq_same_length)

lemma length_root_input: "length (node_hash r) = 32 \<Longrightarrow> length (root_input r) = 48"
  by (simp add: root_input_def)

lemma root_input_inj: "wf_node a \<Longrightarrow> wf_node b \<Longrightarrow> root_input a = root_input b \<Longrightarrow> a = b"
  using le64_inj by (cases a; cases b) (simp add: wf_node_def root_input_def append_eq_same_length)

lemma concat_chunks_inj:
  assumes "\<And>x. x \<in> set xs \<Longrightarrow> length x = n" "\<And>y. y \<in> set ys \<Longrightarrow> length y = n" "0 < n"
    "concat xs = concat ys"
  shows "xs = ys"
  using assms
proof (induction xs arbitrary: ys)
  case Nil
  then show ?case by (cases ys) auto
next
  case (Cons x xs)
  then obtain y ys' where ys: "ys = y # ys'" by (cases ys) auto
  have "x = y \<and> concat xs = concat ys'"
    using Cons.prems by (simp add: ys append_eq_same_length)
  then show ?case using Cons by (simp add: ys)
qed

lemma tree_input_inj:
  assumes "list_all wf_node rs" "list_all wf_node rs'" "tree_input rs = tree_input rs'"
  shows "rs = rs'"
proof -
  have "map root_input rs = map root_input rs'"
    using assms by (intro concat_chunks_inj [of _ 48])
      (auto simp: tree_input_def length_root_input wf_node_def list_all_iff)
  moreover have "inj_on root_input (set rs \<union> set rs')"
    using assms(1,2) by (auto simp: inj_on_def list_all_iff intro: root_input_inj)
  ultimately show ?thesis by (rule map_inj_on)
qed

text \<open>The inputs hashed for the tree over \<open>bs\<close> and for the heads of all its prefixes.\<close>

definition node_input :: "hashfun \<Rightarrow> bytes list \<Rightarrow> nat \<Rightarrow> bytes" where
  "node_input H bs i =
     (case children i of
        None \<Rightarrow> leaf_input (bs ! offset i)
      | Some (l, r) \<Rightarrow> parent_input (spec_node H bs l) (spec_node H bs r))"

definition tree_inputs :: "hashfun \<Rightarrow> bytes list \<Rightarrow> bytes list" where
  "tree_inputs H bs =
     map (node_input H bs) (filter (\<lambda>i. complete i (length bs)) [0 ..< 2 * length bs]) @
     map (\<lambda>k. tree_input (spec_roots H (take k bs))) [0 ..< Suc (length bs)]"

lemma node_input_hash: "node_hash (spec_node H bs i) = H (node_input H bs i)"
proof -
  obtain d off where i: "i = index d off" by (rule node_cases)
  show ?thesis unfolding i
    by (cases d) (simp_all add: node_input_def leaf_node_def leaf_hash_def parent_node_def parent_hash_def)
qed

lemma complete_lt: "complete i n \<Longrightarrow> i < 2 * n"
proof -
  assume c: "complete i n"
  obtain d off where i: "i = index d off" by (rule node_cases)
  show ?thesis using c unfolding i complete_index_mult by (rule index_lt_double)
qed

lemma node_input_in: "complete i (length bs) \<Longrightarrow> node_input H bs i \<in> set (tree_inputs H bs)"
  by (auto simp: tree_inputs_def dest: complete_lt)

lemma tree_input_in: "k \<le> length bs \<Longrightarrow> tree_input (spec_roots H (take k bs)) \<in> set (tree_inputs H bs)"
  by (auto simp: tree_inputs_def simp del: upt_Suc)

lemma collision_freeD:
  "collision_free H xs \<Longrightarrow> x \<in> set xs \<Longrightarrow> y \<in> set xs \<Longrightarrow> H x = H y \<Longrightarrow> x = y"
  by (simp add: collision_free_def)

lemma collision_free_mono: "collision_free H xs \<Longrightarrow> set ys \<subseteq> set xs \<Longrightarrow> collision_free H ys"
  unfolding collision_free_def by blast

definition sized :: "bytes list \<Rightarrow> bool" where
  "sized bs \<longleftrightarrow> list_all (\<lambda>b. length b < 2 ^ 64) bs \<and> 2 * length bs < 2 ^ 64"

lemma sized_take [simp]: "sized bs \<Longrightarrow> sized (take n bs)"
  by (auto simp: sized_def list_all_iff dest: in_set_takeD)

lemma wf_spec_node:
  assumes "hash32 H" "sized bs" "complete i (length bs)"
  shows "wf_node (spec_node H bs i)"
proof -
  obtain d off where i: "i = index d off" by (rule node_cases)
  have "node_size (spec_node H bs i) < 2 ^ 64"
  proof (cases d)
    case 0
    then have "off < length bs" using assms(3) by (simp add: i complete_index)
    then show ?thesis using assms(2) 0 by (simp add: i leaf_node_def sized_def list_all_length)
  next
    case (Suc e)
    then show ?thesis unfolding i using add64_less by (simp add: parent_node_def)
  qed
  moreover have "i < 2 ^ 64" using complete_lt [OF assms(3)] assms(2) by (simp add: sized_def)
  ultimately show ?thesis using assms(1) by (simp add: wf_node_def node_input_hash hash32_def)
qed

lemma wf_spec_roots: "hash32 H \<Longrightarrow> sized bs \<Longrightarrow> list_all wf_node (spec_roots H bs)"
  by (auto simp: spec_roots_def list_all_iff intro: wf_spec_node roots_complete)

text \<open>
  Two trees with the same hash at the same node have the same blocks below it.
\<close>

lemma children_complete:
  "complete (index (Suc d) off) n \<Longrightarrow>
   complete (index d (2 * off)) n \<and> complete (index d (2 * off + 1)) n"
  by (simp add: complete_index_mult)

lemma subtree_commit:
  assumes cf: "collision_free H (tree_inputs H bs @ tree_inputs H cs)" and "hash32 H"
    and "sized bs" "sized cs"
    and "complete (index d off) (length bs)" "complete (index d off) (length cs)"
    and "node_hash (subtree H bs d off) = node_hash (subtree H cs d off)"
    and "off * 2 ^ d \<le> k" "k < Suc off * 2 ^ d"
  shows "bs ! k = cs ! k"
  using assms(5-)
proof (induction d arbitrary: off)
  case 0
  have "node_input H bs (index 0 off) = node_input H cs (index 0 off)"
    by (rule collision_freeD [OF cf]) (use 0 in \<open>simp_all add: node_input_in node_input_hash [symmetric]\<close>)
  moreover have "k = off" using 0 by simp
  ultimately show ?case by (simp add: node_input_def)
next
  case (Suc d)
  have c: "complete (index d (2 * off)) (length bs)" "complete (index d (2 * off + 1)) (length bs)"
      "complete (index d (2 * off)) (length cs)" "complete (index d (2 * off + 1)) (length cs)"
    using Suc.prems(1,2) children_complete by blast+
  have "node_input H bs (index (Suc d) off) = node_input H cs (index (Suc d) off)"
    by (rule collision_freeD [OF cf])
      (use Suc.prems(1-3) in \<open>simp_all add: node_input_in node_input_hash [symmetric] del: subtree.simps\<close>)
  then have "parent_input (subtree H bs d (2 * off)) (subtree H bs d (2 * off + 1)) =
             parent_input (subtree H cs d (2 * off)) (subtree H cs d (2 * off + 1))"
    by (simp add: node_input_def)
  moreover have "wf_node (subtree H bs d (2 * off))" "wf_node (subtree H bs d (2 * off + 1))"
      "wf_node (subtree H cs d (2 * off))" "wf_node (subtree H cs d (2 * off + 1))"
    using wf_spec_node [OF assms(2,3) c(1)] wf_spec_node [OF assms(2,3) c(2)]
      wf_spec_node [OF assms(2,4) c(3)] wf_spec_node [OF assms(2,4) c(4)] by simp_all
  ultimately have h: "node_hash (subtree H bs d (2 * off)) = node_hash (subtree H cs d (2 * off))"
      "node_hash (subtree H bs d (2 * off + 1)) = node_hash (subtree H cs d (2 * off + 1))"
    using parent_input_inj unfolding wf_node_def by blast+
  consider "2 * off * 2 ^ d \<le> k" "k < Suc (2 * off) * 2 ^ d"
    | "(2 * off + 1) * 2 ^ d \<le> k" "k < Suc (2 * off + 1) * 2 ^ d"
    using Suc.prems(4,5) by (cases "k < Suc (2 * off) * 2 ^ d") (simp_all add: algebra_simps)
  then show ?case using Suc.IH c h by cases blast+
qed

text \<open>Every block below \<open>n\<close> lies below one of the roots.\<close>

lemma consecutive_covers:
  "consecutive a is b \<Longrightarrow> a \<le> k \<Longrightarrow> k < b \<Longrightarrow>
   \<exists>i \<in> set is. fst (block_range i) \<le> k \<and> k < snd (block_range i)"
  by (induction a "is" b rule: consecutive.induct) (auto simp: not_le [symmetric])

lemma root_above:
  assumes "k < n"
  obtains d off where "index d off \<in> set (roots_loop n 0)" "off * 2 ^ d \<le> k" "k < Suc off * 2 ^ d"
proof -
  obtain i where i: "i \<in> set (roots_loop n 0)" "fst (block_range i) \<le> k" "k < snd (block_range i)"
    using consecutive_covers [OF roots_consecutive, of k n] assms by auto
  obtain d off where "i = index d off" by (rule node_cases)
  with i that show ?thesis by simp
qed

lemma head_commit:
  assumes "collision_free H (tree_inputs H bs @ tree_inputs H cs)" "hash32 H" "sized bs" "sized cs"
    and n: "n \<le> length bs" "n \<le> length cs"
    and eq: "tree_hash H (spec_roots H (take n bs)) = tree_hash H (spec_roots H (take n cs))"
  shows "take n bs = take n cs"
proof (rule nth_equalityI)
  show "length (take n bs) = length (take n cs)" using n by simp
next
  fix k
  assume "k < length (take n bs)"
  then have k: "k < n" by simp
  have "tree_input (spec_roots H (take n bs)) = tree_input (spec_roots H (take n cs))"
    by (rule collision_freeD [OF assms(1)]) (use eq n in \<open>simp_all add: tree_input_in tree_hash_def\<close>)
  then have r: "spec_roots H (take n bs) = spec_roots H (take n cs)"
    using assms(2-4) by (intro tree_input_inj wf_spec_roots) simp_all
  obtain d off where d: "index d off \<in> set (roots_loop n 0)" "off * 2 ^ d \<le> k" "k < Suc off * 2 ^ d"
    using k by (rule root_above)
  have "subtree H bs d off = subtree H cs d off"
    using r d(1) n by (simp add: spec_roots_take) (metis spec_node_index)
  then have "bs ! k = cs ! k"
    using complete_mono [OF roots_complete [OF d(1)]] n d(2,3)
    by (intro subtree_commit [OF assms(1-4), of d off k]) auto
  then show "take n bs ! k = take n cs ! k" using k by simp
qed

section \<open>Common ancestor and reorganisation\<close>

lemma lca_loop_greatest:
  assumes mono: "\<And>a b. a \<le> b \<Longrightarrow> b \<le> hi \<Longrightarrow> ag b \<Longrightarrow> ag a" and "ag lo" "lo \<le> hi"
  shows "lo \<le> lca_loop ag lo hi \<and> lca_loop ag lo hi \<le> hi \<and>
         (\<forall>a \<le> hi. ag a \<longleftrightarrow> a \<le> lca_loop ag lo hi)"
  using assms
proof (induction ag lo hi rule: lca_loop.induct)
  case (1 ag lo hi)
  show ?case
  proof (cases "lo < hi")
    case False
    then have "lca_loop ag lo hi = lo" "lo = hi" using 1(5) by (simp_all add: lca_loop.simps)
    then show ?thesis using 1(3,4) by auto
  next
    case True
    define mid where "mid = (lo + hi + 1) div 2"
    have mid: "lo < mid" "mid \<le> hi" using True by (auto simp: mid_def)
    show ?thesis
    proof (cases "ag mid")
      case True
      have "lca_loop ag lo hi = lca_loop ag mid hi"
        using \<open>lo < hi\<close> True by (subst lca_loop.simps) (simp add: mid_def Let_def)
      then show ?thesis
        using 1(1) [OF \<open>lo < hi\<close> mid_def True] 1(3) True mid by auto
    next
      case False
      have step: "lca_loop ag lo hi = lca_loop ag lo (mid - 1)"
        using \<open>lo < hi\<close> False by (subst lca_loop.simps) (simp add: mid_def Let_def)
      have ih: "lo \<le> lca_loop ag lo (mid - 1) \<and> lca_loop ag lo (mid - 1) \<le> mid - 1 \<and>
            (\<forall>a \<le> mid - 1. ag a \<longleftrightarrow> a \<le> lca_loop ag lo (mid - 1))"
        using 1(3,4) mid by (intro 1(2) [OF \<open>lo < hi\<close> mid_def False]) auto
      have "\<not> ag a" if "mid \<le> a" "a \<le> hi" for a using 1(3) [OF that] False by blast
      moreover have "a \<le> mid - 1 \<or> mid \<le> a" for a by linarith
      ultimately show ?thesis unfolding step using ih mid
        by (meson le_trans less_imp_diff_less less_or_eq_imp_le not_le diff_le_self)
    qed
  qed
qed

lemma longest_common_prefix_iff:
  assumes "n \<le> length bs" "n \<le> length cs"
  shows "take n bs = take n cs \<longleftrightarrow> n \<le> length (longest_common_prefix bs cs)"
proof
  assume eq: "take n bs = take n cs"
  have "prefix (take n bs) (longest_common_prefix bs cs)"
    using take_is_prefix eq by (metis longest_common_prefix_max_prefix)
  then show "n \<le> length (longest_common_prefix bs cs)" using assms by (auto dest: prefix_length_le)
next
  assume n: "n \<le> length (longest_common_prefix bs cs)"
  obtain xs ys where "bs = longest_common_prefix bs cs @ xs" "cs = longest_common_prefix bs cs @ ys"
    using longest_common_prefix_prefix1 longest_common_prefix_prefix2 by (metis prefix_def)
  then show "take n bs = take n cs" using n by (metis append_take_drop_id take_append take_all
    append.right_neutral diff_is_0_eq take_0)
qed

lemma lowest_common_ancestor_ok:
  assumes "collision_free H (tree_inputs H bs @ tree_inputs H cs)" "hash32 H" "sized bs" "sized cs"
    and t: "tree_ok H bs t" "tree_ok H cs u"
  shows "lowest_common_ancestor H t u = length (longest_common_prefix bs cs)"
proof -
  let ?m = "min (length bs) (length cs)"
  have ag: "agree H t u a \<longleftrightarrow> take a bs = take a cs" if "a \<le> ?m" for a
    using head_commit [OF assms(1-4), of a] that
    by (auto simp: agree_def prefix_root_hash_ok [OF t(1)] prefix_root_hash_ok [OF t(2)])
  have mono: "agree H t u a" if "a \<le> b" "b \<le> ?m" "agree H t u b" for a b
    using that ag [of a] ag [of b] longest_common_prefix_iff [of a bs cs] longest_common_prefix_iff [of b bs cs]
    by auto
  let ?l = "lca_loop (agree H t u) 0 ?m"
  have l: "?l \<le> ?m" "\<And>a. a \<le> ?m \<Longrightarrow> agree H t u a \<longleftrightarrow> a \<le> ?l"
    using lca_loop_greatest [of ?m "agree H t u" 0, OF mono] by (auto simp: agree_def)
  have "a \<le> ?l \<longleftrightarrow> a \<le> length (longest_common_prefix bs cs)" if "a \<le> ?m" for a
    using l(2) [OF that] ag [OF that] longest_common_prefix_iff [of a bs cs] that by simp
  moreover have "length (longest_common_prefix bs cs) \<le> ?m"
    using prefix_length_le [OF longest_common_prefix_prefix1, of bs cs]
      prefix_length_le [OF longest_common_prefix_prefix2, of bs cs] by simp
  ultimately have "?l = length (longest_common_prefix bs cs)" using l(1) by (metis le_antisym order_refl)
  then show ?thesis using t by (simp add: lowest_common_ancestor_def tree_ok_def)
qed

lemma lca_le: "lowest_common_ancestor H t u \<le> min (tree_len t) (tree_len u)"
proof -
  have "lo \<le> hi \<Longrightarrow> lca_loop ag lo hi \<le> hi" for ag lo hi
    by (induction ag lo hi rule: lca_loop.induct) (subst lca_loop.simps, fastforce simp: Let_def)
  then show ?thesis unfolding lowest_common_ancestor_def by blast
qed

lemma reorg_ok:
  assumes t: "tree_ok H bs t" and u: "tree_ok H cs u"
  shows "snd (reorg H t u) = u"
proof -
  let ?a = "lowest_common_ancestor H t u"
  have a: "?a \<le> length cs" "?a \<le> length bs" using lca_le [of H t u] t u by (simp_all add: tree_ok_def)
  have tr: "tree_ok H (take ?a bs) (snd (truncate t ?a))" using truncate_ok [OF t] by simp
  have "bt_inv (nodes u)" using u by (simp add: tree_ok_def)
  then have rev: "bt_get (rev (nodes u)) = bt_get (nodes u)"
    by (simp add: map_of_rev_distinct bt_inv_distinct)
  have "bt_get (nodes (snd (truncate t ?a))) i = None \<or> bt_get (nodes u) i \<noteq> None" for i
    using tr u a complete_mono [of i ?a "length cs"] by (auto simp: tree_ok_def)
  then have "bt_get (nodes (snd (truncate t ?a))) ++ bt_get (nodes u) = bt_get (nodes u)"
    by (auto simp: map_add_def fun_eq_iff split: option.splits) (metis not_Some_eq)
  then have "fold (\<lambda>(i, n). bt_insert i n) (nodes u) (nodes (snd (truncate t ?a))) = nodes u"
    using tr u by (intro bt_ext) (auto simp: tree_ok_def bt_get_fold_insert rev bt_inv_fold_insert)
  then show ?thesis by (simp add: reorg_def Let_def)
qed

section \<open>Serialization\<close>

definition wf_tree :: "merkle_tree \<Rightarrow> bool" where
  "wf_tree t \<longleftrightarrow>
     bt_inv (nodes t) \<and> tree_len t < 2 ^ 64 \<and> length (nodes t) < 2 ^ 64 \<and>
     list_all (\<lambda>(i, n). node_index n = i \<and> wf_node n) (nodes t)"

lemma length_serialize_node [simp]: "wf_node n \<Longrightarrow> length (serialize_node n) = 48"
  by (simp add: serialize_node_def wf_node_def)

lemma parse_node:
  assumes "wf_node n"
  shows "of_le (take 8 (serialize_node n @ rest)) = node_index n"
    "of_le (take 8 (drop 8 (serialize_node n @ rest))) = node_size n"
    "take 32 (drop 16 (serialize_node n @ rest)) = node_hash n"
  using assms by (simp_all add: serialize_node_def wf_node_def)

lemma deserialize_nodes_ok:
  assumes "list_all (\<lambda>(i, n). node_index n = i \<and> wf_node n) ns"
  shows "deserialize_nodes (length ns) (concat (map (serialize_node \<circ> snd) ns) @ rest) acc =
         Some (fold (\<lambda>(i, n). bt_insert i n) ns acc, rest)"
  using assms
proof (induction ns arbitrary: acc)
  case Nil
  show ?case by simp
next
  case (Cons p ns)
  obtain i n where p: "p = (i, n)" by (cases p)
  have n: "node_index n = i" "wf_node n" using Cons.prems by (simp_all add: p)
  define tl where "tl = concat (map (serialize_node \<circ> snd) ns) @ rest"
  define buf where "buf = serialize_node n @ tl"
  have "48 \<le> length buf" "drop 48 buf = tl" using n by (simp_all add: buf_def)
  then have "deserialize_nodes (Suc (length ns)) buf acc =
        deserialize_nodes (length ns) tl (bt_insert i n acc)"
    using parse_node [OF n(2), of tl, folded buf_def] n(1) by (cases n) (simp add: Let_def)
  moreover have "concat (map (serialize_node \<circ> snd) (p # ns)) @ rest = buf"
    by (simp add: p buf_def tl_def)
  moreover have "deserialize_nodes (length ns) tl (bt_insert i n acc) =
      Some (fold (\<lambda>(i, n). bt_insert i n) ns (bt_insert i n acc), rest)"
    unfolding tl_def using Cons.prems by (intro Cons.IH) (simp add: p)
  moreover have "length (p # ns) = Suc (length ns)" by simp
  ultimately show ?case by (simp only: p fold_simps case_prod_conv)
qed

lemma deserialize_serialize: "wf_tree t \<Longrightarrow> deserialize (serialize t) = Some t"
proof -
  assume wf: "wf_tree t"
  let ?c = "concat (map (serialize_node \<circ> snd) (nodes t))"
  have "deserialize_nodes (length (nodes t)) ?c [] = Some (bt_collect (nodes t), [])"
    using wf deserialize_nodes_ok [of "nodes t" "[]" "[]"] by (simp add: wf_tree_def bt_collect_def)
  then have "deserialize_nodes (length (nodes t)) ?c [] = Some (nodes t, [])"
    using wf by (simp add: wf_tree_def)
  then show ?thesis using wf by (simp add: deserialize_def serialize_def wf_tree_def Let_def)
qed

lemma tree_ok_wf:
  assumes "tree_ok H bs t" "hash32 H" "sized bs"
  shows "wf_tree t"
proof -
  have inv: "bt_inv (nodes t)" using assms(1) by (simp add: tree_ok_def)
  have el: "complete i (length bs) \<and> n = spec_node H bs i" if "(i, n) \<in> set (nodes t)" for i n
  proof -
    have "bt_get (nodes t) i = Some n" using that bt_get_iff [OF inv] by simp
    then show ?thesis using assms(1) by (auto simp: tree_ok_def split: if_splits)
  qed
  have "length (nodes t) \<le> 2 * length bs"
    using inv el complete_lt by (intro length_le_of_keys) blast+
  moreover have "list_all (\<lambda>(i, n). node_index n = i \<and> wf_node n) (nodes t)"
    using el wf_spec_node [OF assms(2,3)] by (fastforce simp: list_all_iff)
  ultimately show ?thesis using assms(1,3) inv by (simp add: wf_tree_def sized_def tree_ok_def)
qed

section \<open>Seek\<close>

definition byte_sum :: "bytes list \<Rightarrow> nat" where
  "byte_sum bs = sum_list (map length bs)"

fun seek_linear :: "bytes list \<Rightarrow> nat \<Rightarrow> nat \<Rightarrow> nat \<times> nat" where
  "seek_linear [] k r = (k, r)"
| "seek_linear (b # bs) k r =
     (if r < length b then (k, r) else seek_linear bs (Suc k) (r - length b))"

text \<open>The blocks \<open>a ..< b\<close>.\<close>

definition seg :: "bytes list \<Rightarrow> nat \<Rightarrow> nat \<Rightarrow> bytes list" where
  "seg bs a b = take (b - a) (drop a bs)"

lemma byte_sum_append [simp]: "byte_sum (xs @ ys) = byte_sum xs + byte_sum ys"
  by (simp add: byte_sum_def)

lemma seg_append: "a \<le> b \<Longrightarrow> b \<le> c \<Longrightarrow> seg bs a b @ seg bs b c = seg bs a c"
  using take_add [of "b - a" "c - b" "drop a bs"] by (simp add: seg_def)

lemma seg_sum_le: "byte_sum (seg bs a b) \<le> byte_sum bs"
proof -
  have "bs = take a bs @ seg bs a b @ drop (b - a) (drop a bs)"
    unfolding seg_def append_take_drop_id ..
  then show ?thesis by (metis byte_sum_append le_add1 le_add2 le_trans)
qed

lemma length_seg: "b \<le> length bs \<Longrightarrow> length (seg bs a b) = b - a"
  by (simp add: seg_def)

lemma seek_linear_append:
  "seek_linear (xs @ ys) k r =
   (if r < byte_sum xs then seek_linear xs k r
    else seek_linear ys (k + length xs) (r - byte_sum xs))"
  by (induction xs arbitrary: k r) (auto simp: byte_sum_def)

lemma subtree_size:
  assumes "byte_sum bs < 2 ^ 64" "Suc off * 2 ^ d \<le> length bs"
  shows "node_size (subtree H bs d off) = byte_sum (seg bs (off * 2 ^ d) (Suc off * 2 ^ d))"
  using assms(2)
proof (induction d arbitrary: off)
  case 0
  then have "seg bs off (Suc off) = [bs ! off]"
    by (simp add: seg_def take_Suc_conv_app_nth [of 0] hd_drop_conv_nth take_Suc)
  then show ?case by (simp add: leaf_node_def byte_sum_def)
next
  case (Suc d)
  let ?a = "off * 2 ^ Suc d" and ?b = "Suc (2 * off) * 2 ^ d" and ?c = "Suc off * 2 ^ Suc d"
  have eqs: "2 * off * 2 ^ d = ?a" "Suc (2 * off + 1) * 2 ^ d = ?c" by simp_all
  have le: "?a \<le> ?b" "?b \<le> ?c" "?c \<le> length bs" using Suc.prems by simp_all
  have l: "node_size (subtree H bs d (2 * off)) = byte_sum (seg bs ?a ?b)"
    using Suc.IH [of "2 * off"] le unfolding eqs by simp
  have r: "node_size (subtree H bs d (2 * off + 1)) = byte_sum (seg bs ?b ?c)"
    using Suc.IH [of "2 * off + 1"] le unfolding eqs by simp
  have sum: "byte_sum (seg bs ?a ?b) + byte_sum (seg bs ?b ?c) = byte_sum (seg bs ?a ?c)"
    unfolding seg_append [OF le(1,2), symmetric] by simp
  have "byte_sum (seg bs ?a ?c) < 2 ^ 64" using seg_sum_le assms(1) by (rule le_less_trans)
  then show ?case
    by (simp only: subtree.simps parent_node_def node.simps l r sum add64_exact)
qed

lemma seek_descend_ok:
  assumes t: "tree_ok H bs t" and sum: "byte_sum bs < 2 ^ 64"
    and c: "Suc off * 2 ^ d \<le> length bs" and r: "r < byte_sum (seg bs (off * 2 ^ d) (Suc off * 2 ^ d))"
  shows "seek_descend (nodes t) (index d off) r =
         Some (seek_linear (seg bs (off * 2 ^ d) (Suc off * 2 ^ d)) (off * 2 ^ d) r)"
  using c r
proof (induction d arbitrary: off r)
  case 0
  then have "seg bs off (Suc off) = [bs ! off]"
    by (simp add: seg_def hd_drop_conv_nth take_Suc)
  then show ?case using 0 by (subst seek_descend.simps) (simp add: byte_sum_def, simp add: index_leaf)
next
  case (Suc d)
  let ?a = "off * 2 ^ Suc d" and ?b = "Suc (2 * off) * 2 ^ d" and ?c = "Suc off * 2 ^ Suc d"
  have eqs: "2 * off * 2 ^ d = ?a" "Suc (2 * off + 1) * 2 ^ d = ?c" "(2 * off + 1) * 2 ^ d = ?b"
    by simp_all
  have le: "?a \<le> ?b" "?b \<le> ?c" "?c \<le> length bs" using Suc.prems by simp_all
  have left: "bt_get (nodes t) (index d (2 * off)) = Some (subtree H bs d (2 * off))"
    using t le by (simp add: tree_ok_def complete_index_mult)
  have size: "node_size (subtree H bs d (2 * off)) = byte_sum (seg bs ?a ?b)"
    using subtree_size [OF sum, of "2 * off" d H] le unfolding eqs by simp
  have len: "?a + length (seg bs ?a ?b) = ?b" using le length_seg [of ?b bs ?a] by simp
  have segs: "seg bs ?a ?c = seg bs ?a ?b @ seg bs ?b ?c" using seg_append [OF le(1,2)] by simp
  show ?case
  proof (cases "r < byte_sum (seg bs ?a ?b)")
    case True
    then have "seek_descend (nodes t) (index (Suc d) off) r =
        seek_descend (nodes t) (index d (2 * off)) r"
      by (subst seek_descend.simps) (simp add: left size del: subtree.simps power_Suc)
    also have "\<dots> = Some (seek_linear (seg bs ?a ?b) ?a r)"
      using Suc.IH [of "2 * off" r] le True unfolding eqs by simp
    finally show ?thesis unfolding segs seek_linear_append using True by simp
  next
    case False
    let ?r = "r - byte_sum (seg bs ?a ?b)"
    have r': "?r < byte_sum (seg bs ?b ?c)" 
      using Suc.prems(2) False unfolding segs byte_sum_append by linarith
    have "seek_descend (nodes t) (index (Suc d) off) r =
        seek_descend (nodes t) (index d (2 * off + 1)) ?r"
      using False by (subst seek_descend.simps) (simp add: left size del: subtree.simps power_Suc)
    also have "\<dots> = Some (seek_linear (seg bs ?b ?c) ?b ?r)"
      using Suc.IH [of "2 * off + 1" ?r] le(3) r' unfolding eqs by blast
    finally show ?thesis unfolding segs seek_linear_append len using False by simp
  qed
qed

lemma seek_roots_ok:
  assumes t: "tree_ok H bs t" and sum: "byte_sum bs < 2 ^ 64"
    and "consecutive a is (length bs)" "\<And>i. i \<in> set is \<Longrightarrow> complete i (length bs)" "a \<le> length bs"
  shows "seek_roots (nodes t) (length bs) (map (spec_node H bs) is) r =
         Some (seek_linear (seg bs a (length bs)) a r)"
  using assms(3-)
proof (induction "is" arbitrary: a r)
  case Nil
  then show ?case by (simp add: seg_def)
next
  case (Cons i "is")
  obtain d off where i: "i = index d off" by (rule node_cases)
  let ?b = "Suc off * 2 ^ d"
  have a: "a = off * 2 ^ d" and rest: "consecutive ?b is (length bs)" using Cons.prems(1) by (auto simp: i)
  have b: "?b \<le> length bs" using Cons.prems(2) [of i] by (simp add: i complete_index_mult)
  have ab: "a \<le> ?b" by (simp add: a)
  have segs: "seg bs a (length bs) = seg bs a ?b @ seg bs ?b (length bs)" using seg_append [OF ab b] by simp
  have size: "node_size (subtree H bs d off) = byte_sum (seg bs a ?b)"
    using subtree_size [OF sum b] by (simp add: a)
  have len: "a + length (seg bs a ?b) = ?b" using ab length_seg [OF b] by simp
  show ?case
  proof (cases "r < byte_sum (seg bs a ?b)")
    case True
    then show ?thesis using seek_descend_ok [OF t sum b, of r]
      by (simp add: i size a [symmetric] segs seek_linear_append)
  next
    case False
    then show ?thesis using Cons.IH [OF rest _ b, of "r - byte_sum (seg bs a ?b)"] Cons.prems(2) len
      by (simp add: i size segs seek_linear_append)
  qed
qed

lemma seek_ok:
  assumes "tree_ok H bs t" "byte_sum bs < 2 ^ 64"
  shows "seek t r = Some (seek_linear bs 0 r)"
proof -
  have "seek_roots (nodes t) (length bs) (spec_roots H bs) r = Some (seek_linear (seg bs 0 (length bs)) 0 r)"
    unfolding spec_roots_def using assms roots_consecutive roots_complete by (intro seek_roots_ok) auto
  then show ?thesis
    using assms(1) roots_ok(1) [OF assms(1)] by (simp add: seek_def seg_def tree_ok_def)
qed

lemma foldl_add64: "foldl add64 (a mod 2 ^ 64) xs = (a + sum_list xs) mod 2 ^ 64"
  by (induction xs arbitrary: a) (simp_all add: add64_def mod_simps add.assoc)

section \<open>Repair mode\<close>

lemma is_intact_iff: "is_intact t \<longleftrightarrow> (\<forall>i. complete i (tree_len t) \<longrightarrow> has_node t i)"
proof -
  have "\<not> complete i 0" for i using complete_lt [of i 0] by auto
  then show ?thesis
    using complete_lt [of _ "tree_len t"]
    by (auto simp: is_intact_def missing_nodes_def has_node_def filter_empty_conv simp flip: complete_def)
qed

lemma tree_ok_intact: "tree_ok H bs t \<Longrightarrow> is_intact t"
  by (simp add: is_intact_iff has_node_def bt_contains_def tree_ok_def)

section \<open>Properties\<close>

text \<open>
  A concrete 32-byte function that stands for the hash where a theorem is applied to an example:
  it keeps the first 32 non-zero bytes.
\<close>

definition squeeze32 :: hashfun where
  "squeeze32 x = take 32 (filter (\<lambda>b. b \<noteq> 0) x @ replicate 32 0)"

lemma hash32_squeeze32 [simp]: "hash32 squeeze32"
  by (auto simp: hash32_def squeeze32_def min_def)

lemma collision_free_code [code]:
  "collision_free H xs \<longleftrightarrow>
   (let ps = map (\<lambda>x. (H x, x)) xs in \<forall>p \<in> set ps. \<forall>q \<in> set ps. fst p = fst q \<longrightarrow> snd p = snd q)"
  by (auto simp: collision_free_def Let_def)

text \<open>
  \<open>append\<close> returns the number of the new block and turns the tree of \<open>bs\<close> into the
  tree of \<open>bs @ [b]\<close>: afterwards exactly the complete nodes are stored, each with the index, the
  hash and the size the block list determines.
\<close>

theorem append_builds_tree:
  assumes "tree_ok H bs t"
  shows "fst (append H t b) = length bs \<and> tree_ok H (bs @ [b]) (snd (append H t b))"
  using assms by (rule append_ok)

theorem append_builds_tree_witness:
  "fst (append squeeze32 empty_tree [1]) = 0 \<and>
   tree_ok squeeze32 [[1]] (snd (append squeeze32 empty_tree [1]))"
  using append_builds_tree [OF tree_ok_empty [of squeeze32], of "[1]"] by simp

text \<open>
  \<open>truncate\<close> yields, node for node, the tree freshly built from the surviving prefix,
  and reports whether it changed anything.
\<close>

theorem truncate_is_prefix_tree:
  "truncate (tree_of H bs) n = (n < length bs, tree_of H (take n bs))"
  using truncate_ok [OF tree_of_ok, of H bs n] by (simp add: tree_ok_iff prod_eq_iff)

lemma consecutive_end: "consecutive a is b \<Longrightarrow> consecutive a is c \<Longrightarrow> b = c"
  by (induction a "is" b rule: consecutive.induct) auto

text \<open>
  Property C22. The head hash commits to the whole log: two trees with the same root hash were built
  from the same blocks, unless one of the inputs hashed for them collides with another.
\<close>

theorem root_hash_commits:
  assumes "hash32 H" "sized bs" "sized cs"
    and "collision_free H (tree_inputs H bs @ tree_inputs H cs)"
    and "root_hash H (tree_of H bs) = root_hash H (tree_of H cs)"
  shows "bs = cs"
proof -
  have eq: "tree_hash H (spec_roots H bs) = tree_hash H (spec_roots H cs)"
    using assms(5) by (simp add: roots_ok [OF tree_of_ok])
  have "tree_input (spec_roots H bs) = tree_input (spec_roots H cs)"
    by (rule collision_freeD [OF assms(4)])
      (use eq tree_input_in [of "length bs" bs H] tree_input_in [of "length cs" cs H]
        in \<open>simp_all add: tree_hash_def\<close>)
  then have "spec_roots H bs = spec_roots H cs"
    using assms(1-3) by (intro tree_input_inj wf_spec_roots)
  then have "map node_index (spec_roots H bs) = map node_index (spec_roots H cs)" by simp
  then have "roots_loop (length bs) 0 = roots_loop (length cs) 0"
    by (simp add: spec_roots_def o_def)
  then have len: "length bs = length cs"
    using consecutive_end roots_consecutive by metis
  then show ?thesis using head_commit [OF assms(4,1,2,3), of "length bs"] eq by simp
qed

theorem root_hash_commits_witness:
  "root_hash squeeze32 (tree_of squeeze32 [[1], [2]]) = root_hash squeeze32 (tree_of squeeze32 [[1], [2]]) \<and>
   collision_free squeeze32 (tree_inputs squeeze32 [[1], [2]] @ tree_inputs squeeze32 [[1], [2]]) \<and>
   [[1], [2]] = [[1], [2 :: byte]]"
proof -
  have cf: "collision_free squeeze32 (tree_inputs squeeze32 [[1], [2]] @ tree_inputs squeeze32 [[1], [2]])"
    by code_simp
  have sz: "sized [[1], [2]]" by (simp add: sized_def)
  show ?thesis using root_hash_commits [OF hash32_squeeze32 sz sz cf] cf by simp
qed

text \<open>
  The binary search over prefix hashes finds the length of the longest common prefix of
  the two logs, and \<open>reorg\<close> keeps it and ends in the other tree, node for node.
\<close>

theorem reorg_follows:
  assumes "hash32 H" "sized bs" "sized cs"
    and "collision_free H (tree_inputs H bs @ tree_inputs H cs)"
  shows "lowest_common_ancestor H (tree_of H bs) (tree_of H cs) = length (longest_common_prefix bs cs) \<and>
         reorg H (tree_of H bs) (tree_of H cs) = (length (longest_common_prefix bs cs), tree_of H cs)"
proof -
  have l: "lowest_common_ancestor H (tree_of H bs) (tree_of H cs) = length (longest_common_prefix bs cs)"
    using assms tree_of_ok by (intro lowest_common_ancestor_ok)
  moreover have "fst (reorg H (tree_of H bs) (tree_of H cs)) = length (longest_common_prefix bs cs)"
    using l by (simp add: reorg_def Let_def)
  ultimately show ?thesis using reorg_ok [OF tree_of_ok tree_of_ok] by (simp add: prod_eq_iff)
qed

theorem reorg_follows_witness:
  "reorg squeeze32 (tree_of squeeze32 [[1], [2]]) (tree_of squeeze32 [[1], [3]]) =
   (1, tree_of squeeze32 [[1], [3]])"
proof -
  have cf: "collision_free squeeze32 (tree_inputs squeeze32 [[1], [2]] @ tree_inputs squeeze32 [[1], [3]])"
    by code_simp
  have sz: "sized [[1], [2]]" "sized [[1], [3]]" by (simp_all add: sized_def)
  show ?thesis using reorg_follows [OF hash32_squeeze32 sz cf] by simp
qed

text \<open>
  A serialized tree is restored exactly by \<open>deserialize\<close>.
\<close>

theorem merkle_serialize_roundtrip:
  assumes "hash32 H" "sized bs"
  shows "deserialize (serialize (tree_of H bs)) = Some (tree_of H bs)"
  using tree_ok_wf [OF tree_of_ok assms] by (rule deserialize_serialize)

theorem merkle_serialize_roundtrip_witness:
  "deserialize (serialize (tree_of squeeze32 [[1], [], [2, 3]])) = Some (tree_of squeeze32 [[1], [], [2, 3]])"
  using merkle_serialize_roundtrip [of squeeze32 "[[1], [], [2, 3]]"] by (simp add: sized_def)

text \<open>
  Descending by subtree sizes finds the same block and the same offset within it as
  scanning the blocks one by one, for every byte offset, in and past the log; empty blocks are
  skipped.
\<close>

theorem seek_is_linear_scan:
  assumes "byte_sum bs < 2 ^ 64"
  shows "seek (tree_of H bs) r = Some (seek_linear bs 0 r) \<and> byte_length (tree_of H bs) = Some (byte_sum bs)"
proof
  show "seek (tree_of H bs) r = Some (seek_linear bs 0 r)" using tree_of_ok assms by (rule seek_ok)
  have "sum_list (map (node_size \<circ> spec_node H bs) is) = byte_sum (seg bs a (length bs))"
    if "consecutive a is (length bs)" "\<And>i. i \<in> set is \<Longrightarrow> complete i (length bs)" "a \<le> length bs" for a "is"
    using that
  proof (induction "is" arbitrary: a)
    case Nil
    then show ?case by (simp add: seg_def byte_sum_def)
  next
    case (Cons i "is")
    obtain d off where i: "i = index d off" by (rule node_cases)
    let ?b = "Suc off * 2 ^ d"
    have a: "a = off * 2 ^ d" and rest: "consecutive ?b is (length bs)"
      using Cons.prems(1) by (auto simp: i)
    have b: "?b \<le> length bs" using Cons.prems(2) [of i] by (simp add: i complete_index_mult)
    have "a \<le> ?b" by (simp add: a)
    from seg_append [OF this b, symmetric] show ?case
      using Cons.IH [OF rest _ b] Cons.prems(2) subtree_size [OF assms b] by (simp add: i a)
  qed
  from this [of 0 "roots_loop (length bs) 0"]
  have "sum_list (map node_size (spec_roots H bs)) = byte_sum bs"
    using roots_consecutive roots_complete by (simp add: spec_roots_def seg_def)
  then show "byte_length (tree_of H bs) = Some (byte_sum bs)"
    using assms foldl_add64 [of 0 "map node_size (spec_roots H bs)"]
    by (simp add: byte_length_def roots_ok [OF tree_of_ok])
qed

theorem seek_is_linear_scan_witness:
  "seek (tree_of squeeze32 [[1], [], [2, 3]]) 2 = Some (2, 1) \<and>
   byte_length (tree_of squeeze32 [[1], [], [2, 3]]) = Some 3"
  using seek_is_linear_scan [of "[[1], [], [2, 3]]" squeeze32 2] by (simp add: byte_sum_def)

text \<open>
  Repair mode: a tree that holds all nodes its length implies accepts an append; once
  any of them is removed the tree is not intact, the removed node is reported missing, and
  \<open>try_append\<close> refuses.
\<close>

theorem repair_mode_refuses_append:
  assumes "complete i (length bs)"
  shows "try_append H (tree_of H bs) b = Inr (length bs, tree_of H (bs @ [b])) \<and>
         (let (was, t) = remove_node (tree_of H bs) i
          in was \<and> i \<in> set (missing_nodes t) \<and> \<not> is_intact t \<and> try_append H t b = Inl InRepairMode)"
proof -
  have ok: "tree_ok H bs (tree_of H bs)" by (rule tree_of_ok)
  have "append H (tree_of H bs) b = (length bs, tree_of H (bs @ [b]))"
    using append_ok [OF ok, of b] by (simp add: tree_ok_iff prod_eq_iff)
  moreover have "bt_contains (nodes (tree_of H bs)) i"
    using ok assms by (simp add: tree_ok_def bt_contains_def)
  moreover define t where "t = snd (remove_node (tree_of H bs) i)"
  have len: "tree_len t = length bs" using ok by (simp add: t_def remove_node_def tree_ok_def)
  have "i < 2 * length bs" using assms by (rule complete_lt)
  then have miss: "i \<in> set (missing_nodes t)"
    using assms len by (auto simp: missing_nodes_def complete_def t_def remove_node_def bt_contains_def)
  then have "\<not> is_intact t" by (auto simp: is_intact_def)
  moreover have "t = (tree_of H bs)\<lparr> nodes := bt_remove i (nodes (tree_of H bs)) \<rparr>"
    by (simp add: t_def remove_node_def)
  ultimately show ?thesis
    using miss tree_ok_intact [OF ok] by (simp add: try_append_def remove_node_def)
qed

theorem repair_mode_refuses_append_witness:
  "complete 1 2 \<and>
   try_append squeeze32 (snd (remove_node (tree_of squeeze32 [[1], [2]]) 1)) [3] = Inl InRepairMode"
proof -
  have c: "complete 1 2" by code_simp
  show ?thesis
    using repair_mode_refuses_append [of 1 "[[1], [2]]" squeeze32 "[3]"] c by (simp add: remove_node_def numeral_2_eq_2)
qed

end
