(* ===== verification/Identity.thy ===== *)
theory Identity
  imports Merkle
begin

text \<open>
  The crate \<open>identity\<close>: signatures and multi-signer manifests (\<open>crates/identity/src/lib.rs\<close>,
  \<open>manifest.rs\<close>). The ed25519 implementation is a third-party crate; its three functions are the
  fields of a record that every operation takes. What the code relies on is named below:
  \<open>sig_correct\<close> (an honest signature verifies) and \<open>unforged\<close> (a verifying message was signed).
\<close>

section \<open>Keys and signatures\<close>

text \<open>
  Secret keys are their 32-byte seeds, public keys and signatures their wire forms.
\<close>

record crypto =
  public_of :: "bytes \<Rightarrow> bytes"
  sign_with :: "bytes \<Rightarrow> bytes \<Rightarrow> bytes"
  sig_verify :: "bytes \<Rightarrow> bytes \<Rightarrow> bytes \<Rightarrow> bool"

definition sig_correct :: "crypto \<Rightarrow> bool" where
  "sig_correct E \<longleftrightarrow> (\<forall>sk m. sig_verify E (public_of E sk) m (sign_with E sk m) \<and>
     length (public_of E sk) = 32 \<and> length (sign_with E sk m) = 64)"

text \<open>
  Of the presented pairs of a message and a signature, those that verify under \<open>pk\<close> carry a message
  that the holder of the key signed. The theorems assume it of the finitely many signatures that a
  verifier was shown.
\<close>

definition unforged :: "crypto \<Rightarrow> bytes \<Rightarrow> bytes set \<Rightarrow> (bytes \<times> bytes) list \<Rightarrow> bool" where
  "unforged E pk msgs shown \<longleftrightarrow> (\<forall>(m, s) \<in> set shown. sig_verify E pk m s \<longrightarrow> m \<in> msgs)"

section \<open>Manifests\<close>

abbreviation MANIFEST_DOMAIN :: byte where "MANIFEST_DOMAIN \<equiv> 0xA0"

abbreviation SIGNABLE_DOMAIN :: byte where "SIGNABLE_DOMAIN \<equiv> 0xA1"

definition DEFAULT_NAMESPACE :: bytes where
  "DEFAULT_NAMESPACE = replicate 32 0"

record signer =
  signer_key :: bytes
  namespace :: bytes

record prologue =
  pr_length :: nat
  pr_hash :: bytes

record partial_sig =
  ps_signer :: nat
  ps_sig :: bytes

record manifest =
  quorum :: nat
  signers :: "signer list"
  m_prologue :: "prologue option"

definition new_signer :: "bytes \<Rightarrow> signer" where
  "new_signer pk = \<lparr> signer_key = pk, namespace = DEFAULT_NAMESPACE \<rparr>"

definition with_namespace :: "bytes \<Rightarrow> bytes \<Rightarrow> signer" where
  "with_namespace pk ns = \<lparr> signer_key = pk, namespace = ns \<rparr>"

definition default_quorum :: "nat \<Rightarrow> nat" where
  "default_quorum n = drop_bit 1 n + 1"

definition new_manifest :: "nat \<Rightarrow> signer list \<Rightarrow> manifest option" where
  "new_manifest q ss =
     (if ss = [] \<or> q = 0 \<or> length ss < q then None
      else Some \<lparr> quorum = q, signers = ss, m_prologue = None \<rparr>)"

definition single :: "bytes \<Rightarrow> manifest" where
  "single pk = \<lparr> quorum = 1, signers = [new_signer pk], m_prologue = None \<rparr>"

definition static_signer :: "prologue \<Rightarrow> manifest" where
  "static_signer p = \<lparr> quorum = 0, signers = [], m_prologue = Some p \<rparr>"

definition with_prologue :: "manifest \<Rightarrow> prologue \<Rightarrow> manifest" where
  "with_prologue m p = m\<lparr> m_prologue := Some p \<rparr>"

definition signer_input :: "signer \<Rightarrow> bytes" where
  "signer_input s = signer_key s @ namespace s"

definition prologue_input :: "prologue option \<Rightarrow> bytes" where
  "prologue_input p = (case p of Some p \<Rightarrow> [1] @ le64 (pr_length p) @ pr_hash p | None \<Rightarrow> [0])"

text \<open>The bytes fed to blake3 by \<open>hash\<close>.\<close>

definition manifest_input :: "manifest \<Rightarrow> bytes" where
  "manifest_input m =
     [MANIFEST_DOMAIN] @ le64 (quorum m) @ le64 (length (signers m)) @
     concat (map signer_input (signers m)) @ prologue_input (m_prologue m)"

definition manifest_hash :: "hashfun \<Rightarrow> manifest \<Rightarrow> bytes" where
  "manifest_hash H m = H (manifest_input m)"

definition signable :: "hashfun \<Rightarrow> manifest \<Rightarrow> nat \<Rightarrow> bytes \<Rightarrow> bytes" where
  "signable H m len th = [SIGNABLE_DOMAIN] @ manifest_hash H m @ le64 len @ th"

text \<open>\<open>iter().position\<close>.\<close>

fun position :: "('a \<Rightarrow> bool) \<Rightarrow> 'a list \<Rightarrow> nat option" where
  "position P [] = None"
| "position P (x # xs) = (if P x then Some 0 else map_option Suc (position P xs))"

definition manifest_sign :: "crypto \<Rightarrow> hashfun \<Rightarrow> manifest \<Rightarrow> bytes \<Rightarrow> nat \<Rightarrow> bytes \<Rightarrow> partial_sig option" where
  "manifest_sign E H m secret len th =
     (case position (\<lambda>s. signer_key s = public_of E secret) (signers m) of
        None \<Rightarrow> None
      | Some i \<Rightarrow> Some \<lparr> ps_signer = i, ps_sig = sign_with E secret (signable H m len th) \<rparr>)"

text \<open>The loop over the signatures; the result is the number of valid ones, \<open>None\<close> the early \<open>false\<close>.\<close>

fun verify_sigs :: "crypto \<Rightarrow> manifest \<Rightarrow> bytes \<Rightarrow> partial_sig list \<Rightarrow> bool list \<Rightarrow> nat \<Rightarrow> nat option" where
  "verify_sigs E m msg [] seen valid = Some valid"
| "verify_sigs E m msg (ps # sigs) seen valid =
     (if length (signers m) \<le> ps_signer ps \<or> seen ! ps_signer ps then None
      else let seen = seen[ps_signer ps := True]
           in if \<not> sig_verify E (signer_key (signers m ! ps_signer ps)) msg (ps_sig ps) then None
              else verify_sigs E m msg sigs seen (valid + 1))"

definition quorum_verify :: "crypto \<Rightarrow> hashfun \<Rightarrow> manifest \<Rightarrow> nat \<Rightarrow> bytes \<Rightarrow> partial_sig list \<Rightarrow> bool" where
  "quorum_verify E H m len th sigs =
     (if quorum m = 0 \<or> length sigs < quorum m then False
      else case verify_sigs E m (signable H m len th) sigs (replicate (length (signers m)) False) 0 of
             None \<Rightarrow> False
           | Some valid \<Rightarrow> quorum m \<le> valid)"

definition manifest_verify :: "crypto \<Rightarrow> hashfun \<Rightarrow> manifest \<Rightarrow> nat \<Rightarrow> bytes \<Rightarrow> partial_sig list \<Rightarrow> bool" where
  "manifest_verify E H m len th sigs =
     (case m_prologue m of
        Some p \<Rightarrow> if len \<le> pr_length p then len = pr_length p \<and> th = pr_hash p
                  else quorum_verify E H m len th sigs
      | None \<Rightarrow> quorum_verify E H m len th sigs)"

section \<open>The signature loop\<close>

definition sig_valid :: "crypto \<Rightarrow> manifest \<Rightarrow> bytes \<Rightarrow> partial_sig \<Rightarrow> bool" where
  "sig_valid E m msg ps \<longleftrightarrow> ps_signer ps < length (signers m) \<and>
     sig_verify E (signer_key (signers m ! ps_signer ps)) msg (ps_sig ps)"

lemma verify_sigs_eq:
  assumes "length seen = length (signers m)"
  shows "verify_sigs E m msg sigs seen valid =
     (if distinct (map ps_signer sigs) \<and> (\<forall>ps \<in> set sigs. sig_valid E m msg ps \<and> \<not> seen ! ps_signer ps)
      then Some (valid + length sigs) else None)"
  using assms
proof (induction sigs arbitrary: seen valid)
  case (Cons ps sigs)
  let ?seen = "seen[ps_signer ps := True]"
  show ?case
  proof (cases "sig_valid E m msg ps \<and> \<not> seen ! ps_signer ps")
    case True
    then have r: "ps_signer ps < length seen" using Cons(2) by (simp add: sig_valid_def)
    have seen: "?seen ! i \<longleftrightarrow> i = ps_signer ps \<or> seen ! i" for i
      using r by (cases "i = ps_signer ps") auto
    have "(\<forall>qs \<in> set sigs. sig_valid E m msg qs \<and> \<not> ?seen ! ps_signer qs) \<longleftrightarrow>
      ps_signer ps \<notin> ps_signer ` set sigs \<and> (\<forall>qs \<in> set sigs. sig_valid E m msg qs \<and> \<not> seen ! ps_signer qs)"
      unfolding seen by (auto simp: image_iff)
    moreover have "verify_sigs E m msg (ps # sigs) seen valid = verify_sigs E m msg sigs ?seen (valid + 1)"
      using True by (simp add: sig_valid_def Let_def)
    ultimately show ?thesis
      using Cons(1) [of ?seen "valid + 1"] Cons(2) True by simp
  next
    case False
    then have "verify_sigs E m msg (ps # sigs) seen valid = None"
      by (auto simp: sig_valid_def Let_def)
    then show ?thesis using False by simp
  qed
qed simp

lemma position_Some: "position P xs = Some i \<longleftrightarrow> i < length xs \<and> P (xs ! i) \<and> (\<forall>j < i. \<not> P (xs ! j))"
proof (induction xs arbitrary: i)
  case (Cons x xs)
  then show ?case by (cases i) (auto simp: less_Suc_eq_0_disj)
qed simp

lemma position_None: "position P xs = None \<longleftrightarrow> (\<forall>x \<in> set xs. \<not> P x)"
  by (induction xs) auto

definition wf_manifest :: "manifest \<Rightarrow> bool" where
  "wf_manifest m \<longleftrightarrow> quorum m < 2 ^ 64 \<and> length (signers m) < 2 ^ 64 \<and>
     (\<forall>s \<in> set (signers m). length (signer_key s) = 32 \<and> length (namespace s) = 32) \<and>
     (\<forall>p. m_prologue m = Some p \<longrightarrow> pr_length p < 2 ^ 64 \<and> length (pr_hash p) = 32)"

lemma signer_inputs_inj:
  assumes "length xs = length ys" "concat (map signer_input xs) @ u = concat (map signer_input ys) @ v"
    "\<forall>s \<in> set xs. length (signer_key s) = 32 \<and> length (namespace s) = 32"
    "\<forall>s \<in> set ys. length (signer_key s) = 32 \<and> length (namespace s) = 32"
  shows "xs = ys \<and> u = v"
  using assms
proof (induction xs ys rule: list_induct2)
  case (Cons x xs y ys)
  then show ?case by (cases x; cases y) (simp add: signer_input_def append_eq_same_length)
qed simp

lemma manifest_input_inj:
  assumes "wf_manifest m" "wf_manifest n" "manifest_input m = manifest_input n"
  shows "m = n"
proof -
  have q: "quorum m = quorum n" "length (signers m) = length (signers n)"
    "concat (map signer_input (signers m)) @ prologue_input (m_prologue m) =
     concat (map signer_input (signers n)) @ prologue_input (m_prologue n)"
    using assms le64_inj by (auto simp: manifest_input_def append_eq_same_length wf_manifest_def)
  have s: "signers m = signers n" "prologue_input (m_prologue m) = prologue_input (m_prologue n)"
    using signer_inputs_inj [OF q(2,3)] assms(1,2) by (auto simp: wf_manifest_def)
  have "m_prologue m = m_prologue n"
  proof (cases "m_prologue m"; cases "m_prologue n")
    fix p p'
    assume "m_prologue m = Some p" "m_prologue n = Some p'"
    then show ?thesis
      using s(2) assms(1,2) le64_inj by (cases p; cases p') (auto simp: prologue_input_def wf_manifest_def append_eq_same_length)
  qed (use s(2) in \<open>auto simp: prologue_input_def\<close>)
  with q(1) s(1) show ?thesis by simp
qed

lemma quorum_verify_iff:
  "quorum_verify E H m len th sigs \<longleftrightarrow>
     0 < quorum m \<and> quorum m \<le> card (ps_signer ` set sigs) \<and> distinct (map ps_signer sigs) \<and>
     (\<forall>ps \<in> set sigs. sig_valid E m (signable H m len th) ps)"
proof -
  have "(\<forall>ps \<in> set sigs. sig_valid E m msg ps \<and> \<not> replicate (length (signers m)) False ! ps_signer ps) \<longleftrightarrow>
    (\<forall>ps \<in> set sigs. sig_valid E m msg ps)" for msg
    by (auto simp: sig_valid_def)
  moreover have "card (ps_signer ` set sigs) = length sigs" if "distinct (map ps_signer sigs)"
    using distinct_card [OF that] by simp
  ultimately show ?thesis by (auto simp: quorum_verify_def verify_sigs_eq)
qed

section \<open>Properties\<close>

text \<open>
  A concrete signature scheme for the examples: the public key is the seed, a signature is the seed
  followed by a 32-byte digest of the message. It has the documented shape and accepts what it signs.
\<close>

definition toy_crypto :: crypto where
  "toy_crypto = \<lparr>
     public_of = (\<lambda>sk. take 32 (sk @ replicate 32 0)),
     sign_with = (\<lambda>sk m. take 32 (sk @ replicate 32 0) @ squeeze32 m),
     sig_verify = (\<lambda>pk m s. s = pk @ squeeze32 m) \<rparr>"

lemma sig_correct_toy [simp]: "sig_correct toy_crypto"
  using hash32_squeeze32 by (auto simp: sig_correct_def toy_crypto_def hash32_def min_def)

text \<open>
  Property C25. \<open>Manifest::verify\<close> accepts a head exactly in two cases: at or below the prologue when the head is
  the committed one, and otherwise when a positive quorum is met by signatures of pairwise different
  declared signers, all of them valid over the manifest's own message for that head. In the second
  case at least \<open>quorum\<close> different signers signed.
\<close>

theorem manifest_verify_iff:
  "manifest_verify E H m len th sigs \<longleftrightarrow>
     (let quorum_met = 0 < quorum m \<and> quorum m \<le> card (ps_signer ` set sigs) \<and>
            distinct (map ps_signer sigs) \<and>
            list_all (\<lambda>ps. ps_signer ps < length (signers m) \<and>
              sig_verify E (signer_key (signers m ! ps_signer ps)) (signable H m len th) (ps_sig ps)) sigs
      in case m_prologue m of
           Some p \<Rightarrow> if len \<le> pr_length p then len = pr_length p \<and> th = pr_hash p else quorum_met
         | None \<Rightarrow> quorum_met)"
  by (cases "m_prologue m") (simp_all add: manifest_verify_def quorum_verify_iff list_all_iff sig_valid_def Let_def)

text \<open>
  The key of a log commits to its policy and a signature to the key: two well-formed manifests whose
  messages for two heads coincide are the same manifest and the heads have the same length and
  tree hash, unless blake3 collides on the two manifests.
\<close>

theorem signable_commits:
  assumes "hash32 H" "collision_free H [manifest_input m, manifest_input n]" "wf_manifest m" "wf_manifest n"
    and "len < 2 ^ 64" "len' < 2 ^ 64"
    and "signable H m len th = signable H n len' th'"
  shows "m = n \<and> len = len' \<and> th = th'"
proof -
  have h: "manifest_hash H m = manifest_hash H n" "le64 len = le64 len'" "th = th'"
    using assms(7) assms(1) by (simp_all add: signable_def manifest_hash_def hash32_def)
  then have "manifest_input m = manifest_input n"
    using collision_freeD [OF assms(2), of "manifest_input m" "manifest_input n"] by (simp add: manifest_hash_def)
  then have "m = n" by (rule manifest_input_inj [OF assms(3,4)])
  with le64_inj [OF assms(5,6) h(2)] h(3) show ?thesis by simp
qed

theorem signable_commits_witness:
  "signable squeeze32 (single (replicate 32 1)) 3 [7] \<noteq> signable squeeze32 (single (replicate 32 2)) 3 [7]"
proof -
  let ?m = "single (replicate 32 1)" and ?n = "single (replicate 32 2)"
  have wf: "wf_manifest ?m" "wf_manifest ?n"
    by (simp_all add: wf_manifest_def single_def new_signer_def DEFAULT_NAMESPACE_def)
  have "collision_free squeeze32 [manifest_input ?m, manifest_input ?n]" by code_simp
  moreover have "?m \<noteq> ?n" by (simp add: single_def new_signer_def)
  ultimately show ?thesis
    using signable_commits [OF hash32_squeeze32 _ wf, of 3 3 "[7]" "[7]"] by auto
qed

text \<open>
  A quorum can always be met: for a manifest accepted by \<open>Manifest::new\<close>, whose signers have different
  keys, the partial signatures that any \<open>quorum\<close> or more of the declared secrets produce with
  \<open>Manifest::sign\<close> verify together.
\<close>

theorem manifest_sign_verify:
  assumes "sig_correct E" "new_manifest q ss = Some m" "distinct (map signer_key ss)"
    and "set (map (public_of E) secrets) \<subseteq> set (map signer_key ss)" "distinct (map (public_of E) secrets)"
    and "q \<le> length secrets"
  shows "\<exists>sigs. those (map (\<lambda>sk. manifest_sign E H m sk len th) secrets) = Some sigs \<and>
           manifest_verify E H m len th sigs"
proof -
  define pos where "pos sk = the (position (\<lambda>s. signer_key s = public_of E sk) ss)" for sk
  let ?sig = "\<lambda>sk. \<lparr> ps_signer = pos sk, ps_sig = sign_with E sk (signable H m len th) \<rparr>"
  have m: "signers m = ss" "quorum m = q" "0 < q" "m_prologue m = None"
    using assms(2) by (auto simp: new_manifest_def split: if_splits)
  have idx: "position (\<lambda>s. signer_key s = public_of E sk) ss = Some (pos sk) \<and> pos sk < length ss \<and>
      signer_key (ss ! pos sk) = public_of E sk" if "sk \<in> set secrets" for sk
  proof -
    have "public_of E sk \<in> signer_key ` set ss" using that assms(4) by auto
    then obtain i where i: "position (\<lambda>s. signer_key s = public_of E sk) ss = Some i"
      using position_None [of "\<lambda>s. signer_key s = public_of E sk" ss] by (cases "position (\<lambda>s. signer_key s = public_of E sk) ss") auto
    with position_Some [THEN iffD1, OF i] show ?thesis by (simp add: pos_def)
  qed
  have "those (map (\<lambda>sk. manifest_sign E H m sk len th) secrets) = Some (map ?sig secrets)"
  proof (rule those_map_Some)
    fix sk assume "sk \<in> set secrets"
    from idx [OF this] show "manifest_sign E H m sk len th = Some (?sig sk)"
      unfolding manifest_sign_def m by (auto split: option.split)
  qed
  moreover have "inj_on (\<lambda>sk. ps_signer (?sig sk)) (set secrets)"
  proof (rule inj_onI)
    fix a b
    assume ab: "a \<in> set secrets" "b \<in> set secrets" "ps_signer (?sig a) = ps_signer (?sig b)"
    then have "public_of E a = public_of E b" using idx [OF ab(1)] idx [OF ab(2)] by simp
    then show "a = b" using assms(5) ab(1,2) by (auto simp: distinct_map dest: inj_onD)
  qed
  then have "distinct (map ps_signer (map ?sig secrets))"
    using assms(5) by (simp add: distinct_map comp_def)
  then have "manifest_verify E H m len th (map ?sig secrets)"
    using assms(1,6) m idx distinct_card [of "map ps_signer (map ?sig secrets)"]
    by (auto simp: manifest_verify_def quorum_verify_iff sig_correct_def sig_valid_def image_image)
  ultimately show ?thesis by blast
qed

theorem manifest_sign_verify_witness:
  "\<exists>m sigs. new_manifest 2 (map (\<lambda>b. new_signer (replicate 32 b)) [1, 2, 3]) = Some m \<and>
     those (map (\<lambda>sk. manifest_sign toy_crypto squeeze32 m sk 5 [9]) [replicate 32 3, replicate 32 1]) = Some sigs \<and>
     manifest_verify toy_crypto squeeze32 m 5 [9] sigs"
proof -
  let ?ss = "map (\<lambda>b. new_signer (replicate 32 b)) [1, 2, 3 :: byte]"
  let ?secrets = "[replicate 32 3, replicate 32 1] :: bytes list"
  obtain m where m: "new_manifest 2 ?ss = Some m" by (simp add: new_manifest_def)
  have "distinct (map signer_key ?ss)" "distinct (map (public_of toy_crypto) ?secrets)"
    "set (map (public_of toy_crypto) ?secrets) \<subseteq> set (map signer_key ?ss)"
    by (simp_all add: new_signer_def toy_crypto_def replicate_eq_replicate)
  with manifest_sign_verify [OF sig_correct_toy m, of ?secrets squeeze32 5 "[9]"] m show ?thesis by auto
qed

end
