(* ===== verification/Merkle_Proof.thy ===== *)
theory Merkle_Proof
  imports Merkle
begin

text \<open>
  Proofs over the Merkle tree: \<open>crates/merkle/src/proof.rs\<close> and the generators in \<open>tree.rs\<close>.
  A generator that panics on an absent node is \<open>None\<close>; where the code itself returns an
  \<open>Option\<close>, its value is the inner one. A verifier is total.

  Completeness: what an intact tree generates is accepted against its own head. Soundness: what is
  accepted against the head of an honest tree is that tree's content, unless the hash collides on
  one of the inputs that the honest tree and the verifier hashed. The latter are listed by the
  \<open>_inputs\<close> functions next to each verifier.
\<close>

section \<open>Climbing a path\<close>

text \<open>
  The loop shared by the verifiers: the path node is combined with each supplied sibling, whose
  index must be the path node's sibling.
\<close>

definition combine :: "hashfun \<Rightarrow> node \<Rightarrow> node \<Rightarrow> node" where
  "combine H n sib =
     (let p = parent (node_index n);
          (left, right) = (if node_index sib < node_index n then (sib, n) else (n, sib))
      in parent_node H p left right)"

fun climb :: "hashfun \<Rightarrow> node \<Rightarrow> node list \<Rightarrow> node option" where
  "climb H n [] = Some n"
| "climb H n (sib # sibs) =
     (if node_index sib \<noteq> sibling (node_index n) then None else climb H (combine H n sib) sibs)"

text \<open>\<open>roots.iter_mut().find(|r| r.index == node.index)\<close> and the assignment to the slot found.\<close>

fun substitute :: "node \<Rightarrow> node list \<Rightarrow> node list option" where
  "substitute n [] = None"
| "substitute n (r # rs) =
     (if node_index r = node_index n then Some (n # rs) else map_option ((#) r) (substitute n rs))"

section \<open>Inclusion proofs\<close>

record inclusion_proof =
  block :: nat
  leaf_size :: nat
  siblings :: "node list"
  proof_roots :: "node list"

definition verify_proof :: "hashfun \<Rightarrow> inclusion_proof \<Rightarrow> bytes \<Rightarrow> bytes \<Rightarrow> bool" where
  "verify_proof H p data expected_root =
     (if length data \<noteq> leaf_size p then False
      else case climb H (leaf_node H (block p * 2 mod 2 ^ 64) data) (siblings p) of
             None \<Rightarrow> False
           | Some n \<Rightarrow>
               (case substitute n (proof_roots p) of
                  None \<Rightarrow> False
                | Some rts \<Rightarrow> tree_hash H rts = expected_root))"

text \<open>
  The sibling loop of the generators, \<open>while !root_set.contains(&cur)\<close>. Fuel bounds it: the depth
  grows by one per turn and no root of a tree of length \<open>n\<close> is deeper than \<open>n\<close>.
\<close>

fun path_loop :: "nat \<Rightarrow> (nat, node) btmap \<Rightarrow> nat list \<Rightarrow> nat \<Rightarrow> node list option" where
  "path_loop 0 ns root_set cur = None"
| "path_loop (Suc fuel) ns root_set cur =
     (if cur \<in> set root_set then Some []
      else case bt_get ns (sibling cur) of
             None \<Rightarrow> None
           | Some s \<Rightarrow> map_option ((#) s) (path_loop fuel ns root_set (parent cur)))"

definition proof_of :: "merkle_tree \<Rightarrow> nat \<Rightarrow> inclusion_proof option option" where
  "proof_of t blk =
     (if tree_len t \<le> blk then Some None
      else case roots t of
             None \<Rightarrow> None
           | Some rs \<Rightarrow>
               (case (path_loop (Suc (tree_len t)) (nodes t) (bs_collect (map node_index rs)) (blk * 2),
                      bt_get (nodes t) (blk * 2)) of
                  (Some sibs, Some leaf) \<Rightarrow>
                    Some (Some \<lparr> block = blk, leaf_size = node_size leaf, siblings = sibs, proof_roots = rs \<rparr>)
                | _ \<Rightarrow> None))"

section \<open>Node proofs and recovery\<close>

record node_proof =
  np_node :: node
  np_siblings :: "node list"
  np_roots :: "node list"

definition verify_node_proof :: "hashfun \<Rightarrow> node_proof \<Rightarrow> bytes \<Rightarrow> node option" where
  "verify_node_proof H p expected_root =
     (case climb H (np_node p) (np_siblings p) of
        None \<Rightarrow> None
      | Some n \<Rightarrow>
          (case substitute n (np_roots p) of
             None \<Rightarrow> None
           | Some rts \<Rightarrow> if tree_hash H rts \<noteq> expected_root then None else Some (np_node p)))"

text \<open>Here an absent node is a \<open>None\<close> of the code, not a panic.\<close>

definition node_proof_of :: "merkle_tree \<Rightarrow> nat \<Rightarrow> node_proof option" where
  "node_proof_of t i =
     (if tree_len t = 0 \<or> tree_len t < snd (block_range i) then None
      else case bt_get (nodes t) i of
             None \<Rightarrow> None
           | Some n \<Rightarrow>
               (case try_roots t of
                  None \<Rightarrow> None
                | Some rs \<Rightarrow>
                    (case path_loop (Suc (tree_len t)) (nodes t) (bs_collect (map node_index rs)) i of
                       None \<Rightarrow> None
                     | Some sibs \<Rightarrow> Some \<lparr> np_node = n, np_siblings = sibs, np_roots = rs \<rparr>)))"

definition recover_node :: "hashfun \<Rightarrow> merkle_tree \<Rightarrow> node_proof \<Rightarrow> bytes \<Rightarrow> bool \<times> merkle_tree" where
  "recover_node H t p expected_root =
     (case verify_node_proof H p expected_root of
        Some n \<Rightarrow> (True, t\<lparr> nodes := bt_insert (node_index n) n (nodes t) \<rparr>)
      | None \<Rightarrow> (False, t))"

section \<open>Seek proofs\<close>

record seek_proof =
  sp_bytes :: nat
  sp_leaf :: node
  sp_siblings :: "node list"
  sp_roots :: "node list"

text \<open>The climb of the seek verifier, which also adds up the sizes of the left siblings.\<close>

fun seek_climb :: "hashfun \<Rightarrow> node \<Rightarrow> nat \<Rightarrow> node list \<Rightarrow> (node \<times> nat) option" where
  "seek_climb H n left_sum [] = Some (n, left_sum)"
| "seek_climb H n left_sum (sib # sibs) =
     (if node_index sib \<noteq> sibling (node_index n) then None
      else let left_sum = (if node_index sib < node_index n then add64 left_sum (node_size sib) else left_sum)
           in seek_climb H (combine H n sib) left_sum sibs)"

fun left_roots :: "nat \<Rightarrow> node list \<Rightarrow> nat \<Rightarrow> bool \<Rightarrow> nat \<times> bool" where
  "left_roots i [] acc found = (acc, found)"
| "left_roots i (r # rs) acc found =
     (if node_index r = i then left_roots i rs acc True
      else if node_index r < i then left_roots i rs (add64 acc (node_size r)) found
      else left_roots i rs acc found)"

definition verify_seek_proof :: "hashfun \<Rightarrow> seek_proof \<Rightarrow> bytes \<Rightarrow> (nat \<times> nat) option" where
  "verify_seek_proof H p expected_root =
     (if node_index (sp_leaf p) AND 1 \<noteq> 0 then None
      else case seek_climb H (sp_leaf p) 0 (sp_siblings p) of
             None \<Rightarrow> None
           | Some (n, left_sum) \<Rightarrow>
               let (root_left_sum, found) = left_roots (node_index n) (sp_roots p) 0 False
               in if \<not> found then None
                  else let cumulative = add64 root_left_sum left_sum
                       in case substitute n (sp_roots p) of
                            None \<Rightarrow> None
                          | Some rts \<Rightarrow>
                              if tree_hash H rts \<noteq> expected_root then None
                              else if sp_bytes p < cumulative then None
                              else let off = sp_bytes p - cumulative
                                   in if node_size (sp_leaf p) \<le> off then None
                                      else Some (node_index (sp_leaf p) div 2, off))"

definition seek_proof_of :: "merkle_tree \<Rightarrow> nat \<Rightarrow> seek_proof option option" where
  "seek_proof_of t bytes =
     (case seek t bytes of
        None \<Rightarrow> None
      | Some (blk, _) \<Rightarrow>
          if tree_len t \<le> blk then Some None
          else case roots t of
                 None \<Rightarrow> None
               | Some rs \<Rightarrow>
                   (case (path_loop (Suc (tree_len t)) (nodes t) (bs_collect (map node_index rs)) (blk * 2),
                          bt_get (nodes t) (blk * 2)) of
                      (Some sibs, Some leaf) \<Rightarrow>
                        Some (Some \<lparr> sp_bytes = bytes, sp_leaf = leaf, sp_siblings = sibs, sp_roots = rs \<rparr>)
                    | _ \<Rightarrow> None))"

section \<open>Upgrade proofs\<close>

record upgrade_proof =
  old_len :: nat
  new_len :: nat
  up_nodes :: "node list"

text \<open>
  \<open>collect_upgrade\<close>: the walk down from a new root; \<open>None\<close> is a panic (an absent node, or a
  straddling leaf).
\<close>

function collect_upgrade ::
    "(nat, node) btmap \<Rightarrow> nat \<Rightarrow> nat list \<Rightarrow> nat \<Rightarrow> (nat, node) btmap \<Rightarrow> (nat, node) btmap option" where
  "collect_upgrade ns old old_roots i out =
     (let (first, end) = block_range i
      in if end \<le> old then
           (if i \<notin> set old_roots then
              (case children i of
                 None \<Rightarrow> Some out
               | Some (l, r) \<Rightarrow>
                   (case collect_upgrade ns old old_roots l out of
                      None \<Rightarrow> None
                    | Some out \<Rightarrow> collect_upgrade ns old old_roots r out))
            else Some out)
         else if old \<le> first then map_option (\<lambda>n. bt_insert i n out) (bt_get ns i)
         else (case children i of
                 None \<Rightarrow> None
               | Some (l, r) \<Rightarrow>
                   (case collect_upgrade ns old old_roots l out of
                      None \<Rightarrow> None
                    | Some out \<Rightarrow> collect_upgrade ns old old_roots r out)))"
  by pat_completeness auto
termination
  by (relation "measure (\<lambda>(ns, old, old_roots, i, out). depth i)") (auto dest: children_depth)

declare collect_upgrade.simps [simp del]

fun collect_roots ::
    "(nat, node) btmap \<Rightarrow> nat \<Rightarrow> nat list \<Rightarrow> nat list \<Rightarrow> (nat, node) btmap \<Rightarrow> (nat, node) btmap option" where
  "collect_roots ns old old_roots [] out = Some out"
| "collect_roots ns old old_roots (r # rs) out =
     (case collect_upgrade ns old old_roots r out of
        None \<Rightarrow> None | Some out \<Rightarrow> collect_roots ns old old_roots rs out)"

definition upgrade_proof_of :: "merkle_tree \<Rightarrow> nat \<Rightarrow> nat \<Rightarrow> upgrade_proof option option" where
  "upgrade_proof_of t old new =
     (if old = 0 \<or> new \<le> old \<or> tree_len t < new then Some None
      else case (full_roots (old * 2), full_roots (new * 2)) of
             (Some os, Some is) \<Rightarrow>
               map_option (\<lambda>out. Some \<lparr> old_len = old, new_len = new, up_nodes = map snd out \<rparr>)
                 (collect_roots (nodes t) old (bs_collect os) is [])
           | _ \<Rightarrow> None)"

fun fold_nodes :: "nat \<Rightarrow> nat \<Rightarrow> node list \<Rightarrow> (nat, node) btmap \<Rightarrow> (nat, node) btmap option" where
  "fold_nodes old new [] known = Some known"
| "fold_nodes old new (n # ns) known =
     (let (first, end) = block_range (node_index n)
      in if first < old \<or> new < end then None
         else if bt_contains known (node_index n) then None
         else fold_nodes old new ns (bt_insert (node_index n) n known))"

text \<open>One pass over the keys known at its start; the flag is \<open>changed\<close>.\<close>

fun climb_pass :: "hashfun \<Rightarrow> nat list \<Rightarrow> (nat, node) btmap \<times> bool \<Rightarrow> (nat, node) btmap \<times> bool" where
  "climb_pass H [] st = st"
| "climb_pass H (c # cs) (known, changed) =
     (case (bt_get known (sibling c), bt_get known (parent c), bt_get known c) of
        (Some sn, None, Some cn) \<Rightarrow>
          let (left, right) = (if sibling c < c then (sn, cn) else (cn, sn))
          in climb_pass H cs (bt_insert (parent c) (parent_node H (parent c) left right) known, True)
      | _ \<Rightarrow> climb_pass H cs (known, changed))"

text \<open>The passes until nothing changes; \<open>None\<close> after 4096 passes, as the guard has it.\<close>

fun climb_passes :: "hashfun \<Rightarrow> nat \<Rightarrow> (nat, node) btmap \<Rightarrow> (nat, node) btmap option" where
  "climb_passes H 0 known = None"
| "climb_passes H (Suc guard) known =
     (let (known, changed) = climb_pass H (map fst known) (known, False)
      in if changed then climb_passes H guard known else Some known)"

definition verify_upgrade_proof :: "hashfun \<Rightarrow> upgrade_proof \<Rightarrow> node list \<Rightarrow> bytes \<Rightarrow> bool" where
  "verify_upgrade_proof H p old_roots new_root_hash =
     (if old_len p = 0 \<or> new_len p \<le> old_len p then False
      else case (full_roots (old_len p * 2), full_roots (new_len p * 2)) of
             (Some expected_old, Some expected_new) \<Rightarrow>
               if map node_index old_roots \<noteq> expected_old then False
               else (case fold_nodes (old_len p) (new_len p) (up_nodes p)
                            (bt_collect (map (\<lambda>n. (node_index n, n)) old_roots)) of
                       None \<Rightarrow> False
                     | Some known \<Rightarrow>
                         (case climb_passes H 4096 known of
                            None \<Rightarrow> False
                          | Some known \<Rightarrow>
                              (case those (map (bt_get known) expected_new) of
                                 None \<Rightarrow> False
                               | Some new_roots \<Rightarrow> tree_hash H new_roots = new_root_hash)))
           | _ \<Rightarrow> False)"

section \<open>Completeness of paths\<close>

lemma sibling_less [simp]: "sibling (index d off) < index d off \<longleftrightarrow> odd off"
  by (auto simp: index_mono_offset elim!: oddE)

lemma combine_spec:
  assumes "node_index n = index d off" "node_index s = sibling (index d off)"
  shows "combine H n s = parent_node H (index (Suc d) (off div 2))
           (if even off then n else s) (if even off then s else n)"
  using assms by (simp add: combine_def Let_def del: sibling_index)

lemma combine_subtree:
  "combine H (subtree H bs d off) (spec_node H bs (sibling (index d off))) = subtree H bs (Suc d) (off div 2)"
proof (cases "even off")
  case True
  then obtain k where "off = 2 * k" by blast
  then show ?thesis by (simp add: combine_spec [of _ d off])
next
  case False
  then obtain k where "off = 2 * k + 1" by (rule oddE)
  then show ?thesis by (simp add: combine_spec [of _ d off])
qed

lemma complete_depth: "complete (index d off) n \<Longrightarrow> d < n"
proof -
  assume "complete (index d off) n"
  then have "2 ^ d \<le> n" by (simp add: complete_index_mult)
  then show "d < n" using less_exp [of d] by linarith
qed

lemma sibling_complete:
  assumes "complete (parent i) n"
  shows "complete (sibling i) n" "complete i n"
proof -
  obtain d off where i: "i = index d off" by (rule node_cases)
  show "complete (sibling i) n" "complete i n"
    using assms children_complete [of d "off div 2" n] unfolding i
    by (cases "even off"; auto elim!: evenE oddE)+
qed

lemma path_loop_ok:
  assumes t: "tree_ok H bs t" and rs: "set root_set = set (roots_loop (length bs) 0)"
    and "complete (index d off) (length bs)" "length bs < fuel + d"
  shows "\<exists>sibs m. path_loop fuel (nodes t) root_set (index d off) = Some sibs \<and>
           climb H (subtree H bs d off) sibs = Some (spec_node H bs m) \<and> m \<in> set (roots_loop (length bs) 0)"
  using assms(3-)
proof (induction fuel arbitrary: d off)
  case 0
  then show ?case using complete_depth by fastforce
next
  case (Suc fuel)
  show ?case
  proof (cases "index d off \<in> set (roots_loop (length bs) 0)")
    case True
    then show ?thesis using rs by (intro exI [of _ "[]"] exI [of _ "index d off"]) simp
  next
    case False
    then have pc: "complete (parent (index d off)) (length bs)" using Suc.prems(1) by (simp add: roots_iff)
    then have "complete (sibling (index d off)) (length bs)" by (rule sibling_complete)
    then have sib: "bt_get (nodes t) (sibling (index d off)) = Some (spec_node H bs (sibling (index d off)))"
      using t by (simp add: tree_ok_def)
    obtain sibs m where ih: "path_loop fuel (nodes t) root_set (index (Suc d) (off div 2)) = Some sibs"
        "climb H (subtree H bs (Suc d) (off div 2)) sibs = Some (spec_node H bs m)"
        "m \<in> set (roots_loop (length bs) 0)"
      using Suc.IH [of "Suc d" "off div 2"] pc Suc.prems(2) by auto
    show ?thesis
      using False rs sib ih combine_subtree [of H bs d off]
      by (intro exI [of _ "spec_node H bs (sibling (index d off)) # sibs"] exI [of _ m])
        (simp del: sibling_index subtree.simps)
  qed
qed

lemma path_loop_spec:
  "tree_ok H bs t \<Longrightarrow> path_loop fuel (nodes t) root_set i = Some sibs \<Longrightarrow>
   list_all (\<lambda>s. s = spec_node H bs (node_index s)) sibs"
proof (induction fuel arbitrary: i sibs)
  case (Suc fuel)
  have "s = spec_node H bs (node_index s)" if "bt_get (nodes t) j = Some s" for j s
    using that Suc.prems(1) by (auto simp: tree_ok_def split: if_splits)
  with Suc show ?case by (auto split: if_splits option.splits)
qed simp

lemma substitute_self:
  "n \<in> set rs \<Longrightarrow> (\<And>r. r \<in> set rs \<Longrightarrow> node_index r = node_index n \<Longrightarrow> r = n) \<Longrightarrow> substitute n rs = Some rs"
  by (induction rs) auto

lemma substitute_root:
  "m \<in> set (roots_loop (length bs) 0) \<Longrightarrow>
   substitute (spec_node H bs m) (spec_roots H bs) = Some (spec_roots H bs)"
  by (rule substitute_self) (auto simp: spec_roots_def)

lemma roots_index_set: "set (bs_collect (map node_index (spec_roots H bs))) = set (roots_loop (length bs) 0)"
  by (simp add: spec_roots_def o_def)

text \<open>A path of an intact tree climbs to its head.\<close>

lemma path_accepted:
  assumes "tree_ok H bs t" "complete i (length bs)"
  obtains sibs m where
    "path_loop (Suc (length bs)) (nodes t) (bs_collect (map node_index (spec_roots H bs))) i = Some sibs"
    "climb H (spec_node H bs i) sibs = Some (spec_node H bs m)"
    "substitute (spec_node H bs m) (spec_roots H bs) = Some (spec_roots H bs)"
proof -
  obtain d off where i: "i = index d off" by (rule node_cases)
  show ?thesis
    using path_loop_ok [OF assms(1) roots_index_set [of H bs], of d off "Suc (length bs)"]
      assms(2) substitute_root that unfolding i spec_node_index by (simp del: path_loop.simps) blast
qed

section \<open>Soundness of paths\<close>

text \<open>The inputs a verifier hashes while climbing, and for the head it compares.\<close>

fun climb_inputs :: "hashfun \<Rightarrow> node \<Rightarrow> node list \<Rightarrow> bytes list" where
  "climb_inputs H n [] = []"
| "climb_inputs H n (s # sibs) =
     (if node_index s < node_index n then parent_input s n else parent_input n s) #
     climb_inputs H (combine H n s) sibs"

definition verify_inputs :: "hashfun \<Rightarrow> node \<Rightarrow> node list \<Rightarrow> node list \<Rightarrow> bytes list" where
  "verify_inputs H n sibs rts =
     climb_inputs H n sibs @
     (case climb H n sibs of
        None \<Rightarrow> []
      | Some m \<Rightarrow> (case substitute m rts of None \<Rightarrow> [] | Some rs \<Rightarrow> [tree_input rs]))"

lemma climb_sound:
  assumes cf: "collision_free H (tree_inputs H bs @ climb_inputs H n sibs)"
    and "hash32 H" "sized bs" "list_all wf_node sibs"
    and "length (node_hash n) = 32" "node_size n < 2 ^ 64"
    and "climb H n sibs = Some m" "m = spec_node H bs (node_index m)" "complete (node_index m) (length bs)"
  shows "n = spec_node H bs (node_index n) \<and> complete (node_index n) (length bs) \<and>
         list_all (\<lambda>s. s = spec_node H bs (node_index s)) sibs"
  using assms
proof (induction sibs arbitrary: n)
  case Nil
  then show ?case by simp
next
  case (Cons s sibs)
  obtain d off where n: "node_index n = index d off" by (rule node_cases)
  let ?c = "combine H n s" and ?o = "2 * (off div 2)"
  have s: "node_index s = sibling (index d off)" and cl: "climb H ?c sibs = Some m"
    using Cons.prems(7) by (auto simp: n split: if_splits)
  have c: "?c = parent_node H (index (Suc d) (off div 2)) (if even off then n else s) (if even off then s else n)"
    using n s by (rule combine_spec)
  have cwf: "length (node_hash ?c) = 32" "node_size ?c < 2 ^ 64"
    using Cons.prems(2) add64_less unfolding c by (simp_all add: parent_node_def parent_hash_def hash32_def)
  have "collision_free H (tree_inputs H bs @ climb_inputs H ?c sibs)"
    using Cons.prems(1) by (rule collision_free_mono) auto
  then have IH: "?c = spec_node H bs (index (Suc d) (off div 2))"
      "complete (index (Suc d) (off div 2)) (length bs)"
      "list_all (\<lambda>s. s = spec_node H bs (node_index s)) sibs"
    using Cons.IH [of ?c] Cons.prems cl cwf by (auto simp: c parent_node_def)
  have cc: "complete (index d ?o) (length bs)" "complete (index d (?o + 1)) (length bs)"
    using children_complete [OF IH(2)] by auto
  let ?l = "if even off then n else s" and ?r = "if even off then s else n"
  have in1: "parent_input ?l ?r \<in> set (tree_inputs H bs @ climb_inputs H n (s # sibs))"
    using n s by (simp del: sibling_index)
  have in2: "node_input H bs (index (Suc d) (off div 2)) \<in> set (tree_inputs H bs @ climb_inputs H n (s # sibs))"
    using node_input_in [OF IH(2), of H] by simp
  have "H (parent_input ?l ?r) = H (node_input H bs (index (Suc d) (off div 2)))"
    using IH(1) unfolding node_input_hash [symmetric] by (metis c node.select_convs(2) parent_hash_def parent_node_def)
  then have "parent_input ?l ?r = node_input H bs (index (Suc d) (off div 2))"
    by (rule collision_freeD [OF Cons.prems(1) in1 in2])
  then have "parent_input ?l ?r = parent_input (spec_node H bs (index d ?o)) (spec_node H bs (index d (?o + 1)))"
    by (simp add: node_input_def)
  then have eq: "node_hash ?l = node_hash (spec_node H bs (index d ?o)) \<and>
      node_size ?l = node_size (spec_node H bs (index d ?o)) \<and>
      node_hash ?r = node_hash (spec_node H bs (index d (?o + 1))) \<and>
      node_size ?r = node_size (spec_node H bs (index d (?o + 1)))"
    using Cons.prems(4-6) wf_spec_node [OF Cons.prems(2,3) cc(1)] wf_spec_node [OF Cons.prems(2,3) cc(2)]
    by (intro parent_input_inj) (auto simp: wf_node_def)
  have "node_index ?l = index d ?o" "node_index ?r = index d (?o + 1)" using n s by auto
  with eq have lr: "?l = spec_node H bs (index d ?o)" "?r = spec_node H bs (index d (?o + 1))"
    by (simp_all del: spec_node_index)
  show ?case
    using lr cc IH(3) n s by (cases "even off") (auto simp del: spec_node_index elim!: evenE oddE)
qed

lemma substitute_in: "substitute n rs = Some rs' \<Longrightarrow> n \<in> set rs' \<and> set rs' \<subseteq> insert n (set rs)"
  by (induction rs arbitrary: rs') (auto split: if_splits)

lemma substitute_index: "substitute n rs = Some rs' \<Longrightarrow> node_index n \<in> node_index ` set rs"
  by (induction rs arbitrary: rs') (auto split: if_splits)

lemma climb_wf:
  "climb H n sibs = Some m \<Longrightarrow> hash32 H \<Longrightarrow> length (node_hash n) = 32 \<Longrightarrow> node_size n < 2 ^ 64 \<Longrightarrow>
   length (node_hash m) = 32 \<and> node_size m < 2 ^ 64"
proof (induction sibs arbitrary: n)
  case Nil
  then show ?case by simp
next
  case (Cons s sibs)
  have "length (node_hash (combine H n s)) = 32" "node_size (combine H n s) < 2 ^ 64"
    using Cons.prems(2) add64_less
    by (simp_all add: combine_def parent_node_def parent_hash_def hash32_def Let_def split: prod.splits)
  then show ?case using Cons by (auto split: if_splits)
qed

text \<open>
  A node that climbs, through the supplied siblings, to the head of the honest tree over \<open>bs\<close> is
  the honest node at its index; so are the siblings and the roots.
\<close>

lemma climb_to_head:
  assumes cf: "collision_free H (tree_inputs H bs @ verify_inputs H n sibs rts)"
    and h: "hash32 H" "sized bs" and wf: "list_all wf_node sibs" "list_all wf_node rts"
    and n: "length (node_hash n) = 32" "node_size n < 2 ^ 64"
    and cl: "climb H n sibs = Some m" "substitute m rts = Some rs"
    and head: "tree_hash H rs = tree_hash H (spec_roots H bs)"
  shows "n = spec_node H bs (node_index n)" "complete (node_index n) (length bs)"
    "list_all (\<lambda>s. s = spec_node H bs (node_index s)) sibs" "rs = spec_roots H bs"
    "m = spec_node H bs (node_index m)" "node_index m \<in> set (roots_loop (length bs) 0)"
proof -
  have "wf_node m"
    using climb_wf [OF cl(1) h(1) n] substitute_index [OF cl(2)] wf(2) by (auto simp: wf_node_def list_all_iff)
  then have wfrs: "list_all wf_node rs" using substitute_in [OF cl(2)] wf(2) by (auto simp: list_all_iff)
  have in1: "tree_input rs \<in> set (tree_inputs H bs @ verify_inputs H n sibs rts)"
    using cl by (simp add: verify_inputs_def)
  have in2: "tree_input (spec_roots H bs) \<in> set (tree_inputs H bs @ verify_inputs H n sibs rts)"
    using tree_input_in [of "length bs" bs H] by simp
  have "tree_input rs = tree_input (spec_roots H bs)"
    using head unfolding tree_hash_def by (rule collision_freeD [OF cf in1 in2])
  then show rs: "rs = spec_roots H bs" using wfrs wf_spec_roots [OF h] by (intro tree_input_inj)
  then have "m \<in> set (spec_roots H bs)" using substitute_in [OF cl(2)] by simp
  then show m: "m = spec_node H bs (node_index m)" "node_index m \<in> set (roots_loop (length bs) 0)"
    by (auto simp: spec_roots_def)
  have "collision_free H (tree_inputs H bs @ climb_inputs H n sibs)"
    using cf by (rule collision_free_mono) (auto simp: verify_inputs_def)
  from climb_sound [OF this h wf(1) n cl(1) m(1) roots_complete [OF m(2)]]
  show "n = spec_node H bs (node_index n)" "complete (node_index n) (length bs)"
    "list_all (\<lambda>s. s = spec_node H bs (node_index s)) sibs" by simp_all
qed

section \<open>Inclusion proofs: completeness and soundness\<close>

definition wf_proof :: "inclusion_proof \<Rightarrow> bool" where
  "wf_proof p \<longleftrightarrow> block p < 2 ^ 63 \<and> list_all wf_node (siblings p) \<and> list_all wf_node (proof_roots p)"

definition proof_inputs :: "hashfun \<Rightarrow> inclusion_proof \<Rightarrow> bytes \<Rightarrow> bytes list" where
  "proof_inputs H p data =
     leaf_input data # verify_inputs H (leaf_node H (block p * 2) data) (siblings p) (proof_roots p)"

lemma leaf_spec: "leaf_node H (b * 2) (bs ! b) = spec_node H bs (index 0 b)"
  using spec_node_index [of H bs 0 b] by (simp add: index_leaf mult.commute)

lemma proof_of_ok:
  assumes "tree_ok H bs t" "b < length bs" "2 * length bs < 2 ^ 64"
  shows "\<exists>p. proof_of t b = Some (Some p) \<and> block p = b \<and>
             verify_proof H p (bs ! b) (tree_hash H (spec_roots H bs))"
proof -
  have c: "complete (index 0 b) (length bs)" using assms(2) by (simp add: complete_index)
  have len: "tree_len t = length bs" and leaf: "bt_get (nodes t) (b * 2) = Some (spec_node H bs (index 0 b))"
    using assms(1) c by (simp_all add: tree_ok_def index_leaf mult.commute del: spec_node_index)
  have b2: "index 0 b = b * 2" by (simp add: index_leaf)
  obtain sibs m where "path_loop (Suc (length bs)) (nodes t)
        (bs_collect (map node_index (spec_roots H bs))) (b * 2) = Some sibs"
      "climb H (spec_node H bs (index 0 b)) sibs = Some (spec_node H bs m)"
      "substitute (spec_node H bs m) (spec_roots H bs) = Some (spec_roots H bs)"
    using path_accepted [OF assms(1) c] unfolding b2 by blast
  then show ?thesis
    using assms len leaf roots_ok(1) [OF assms(1)] leaf_spec [of H b bs]
    by (simp add: proof_of_def verify_proof_def leaf_node_def del: path_loop.simps)
qed

lemma verify_proof_sound:
  assumes cf: "collision_free H (tree_inputs H bs @ proof_inputs H p data)"
    and "hash32 H" "sized bs" "wf_proof p" "length data < 2 ^ 64"
    and v: "verify_proof H p data (tree_hash H (spec_roots H bs))"
  shows "block p < length bs \<and> data = bs ! block p"
proof -
  let ?n = "leaf_node H (block p * 2) data"
  have b: "block p * 2 mod 2 ^ 64 = block p * 2" using assms(4) by (simp add: wf_proof_def)
  obtain m rs where cl: "climb H ?n (siblings p) = Some m" "substitute m (proof_roots p) = Some rs"
      "tree_hash H rs = tree_hash H (spec_roots H bs)"
    using v unfolding verify_proof_def b by (auto split: if_splits option.splits)
  have cf': "collision_free H (tree_inputs H bs @ verify_inputs H ?n (siblings p) (proof_roots p))"
    using cf by (rule collision_free_mono) (auto simp: proof_inputs_def)
  have n: "length (node_hash ?n) = 32" "node_size ?n < 2 ^ 64"
    using assms(2,5) by (simp_all add: leaf_node_def leaf_hash_def hash32_def)
  have idx: "node_index ?n = index 0 (block p)" by (simp add: leaf_node_def index_leaf)
  have spec: "?n = spec_node H bs (index 0 (block p))" "complete (index 0 (block p)) (length bs)"
    using climb_to_head(1,2) [OF cf' assms(2,3) _ _ n cl] assms(4) unfolding wf_proof_def idx by blast+
  then have lt: "block p < length bs" by (simp add: complete_index)
  have in1: "leaf_input data \<in> set (tree_inputs H bs @ proof_inputs H p data)" by (simp add: proof_inputs_def)
  have in2: "leaf_input (bs ! block p) \<in> set (tree_inputs H bs @ proof_inputs H p data)"
    using node_input_in [OF spec(2), of H] by (simp add: node_input_def)
  have "node_hash ?n = node_hash (spec_node H bs (index 0 (block p)))" using spec(1) by (rule arg_cong)
  then have "H (leaf_input data) = H (leaf_input (bs ! block p))"
    by (simp add: leaf_node_def leaf_hash_def)
  then have "leaf_input data = leaf_input (bs ! block p)" by (rule collision_freeD [OF cf in1 in2])
  with lt show ?thesis by simp
qed

section \<open>Node proofs: completeness, soundness, recovery\<close>

definition wf_node_proof :: "node_proof \<Rightarrow> bool" where
  "wf_node_proof p \<longleftrightarrow> wf_node (np_node p) \<and> list_all wf_node (np_siblings p) \<and> list_all wf_node (np_roots p)"

abbreviation node_proof_inputs :: "hashfun \<Rightarrow> node_proof \<Rightarrow> bytes list" where
  "node_proof_inputs H p \<equiv> verify_inputs H (np_node p) (np_siblings p) (np_roots p)"

lemma node_proof_of_ok:
  assumes "tree_ok H bs t" "complete i (length bs)"
  shows "\<exists>p. node_proof_of t i = Some p \<and> np_node p = spec_node H bs i \<and>
             verify_node_proof H p (tree_hash H (spec_roots H bs)) = Some (spec_node H bs i)"
proof -
  have "i < 2 * length bs" using assms(2) by (rule complete_lt)
  then have len: "tree_len t = length bs" "length bs \<noteq> 0" and n: "bt_get (nodes t) i = Some (spec_node H bs i)"
    using assms by (auto simp: tree_ok_def)
  obtain sibs m where "path_loop (Suc (length bs)) (nodes t)
        (bs_collect (map node_index (spec_roots H bs))) i = Some sibs"
      "climb H (spec_node H bs i) sibs = Some (spec_node H bs m)"
      "substitute (spec_node H bs m) (spec_roots H bs) = Some (spec_roots H bs)"
    using path_accepted [OF assms] by blast
  then show ?thesis
    using assms(2) len n roots_ok(2) [OF assms(1)]
    by (simp add: node_proof_of_def verify_node_proof_def complete_def del: path_loop.simps)
qed

lemma verify_node_proof_sound:
  assumes cf: "collision_free H (tree_inputs H bs @ node_proof_inputs H p)"
    and "hash32 H" "sized bs" "wf_node_proof p"
    and v: "verify_node_proof H p (tree_hash H (spec_roots H bs)) = Some n"
  shows "n = np_node p" "n = spec_node H bs (node_index n)" "complete (node_index n) (length bs)"
proof -
  obtain m rs where cl: "climb H (np_node p) (np_siblings p) = Some m" "substitute m (np_roots p) = Some rs"
      "tree_hash H rs = tree_hash H (spec_roots H bs)" and n: "n = np_node p"
    using v by (auto simp: verify_node_proof_def split: if_splits option.splits)
  have wf: "list_all wf_node (np_siblings p)" "list_all wf_node (np_roots p)"
      "length (node_hash (np_node p)) = 32" "node_size (np_node p) < 2 ^ 64"
    using assms(4) by (simp_all add: wf_node_proof_def wf_node_def)
  from climb_to_head(1,2) [OF cf assms(2,3) wf cl]
  show "n = np_node p" "n = spec_node H bs (node_index n)" "complete (node_index n) (length bs)"
    by (simp_all add: n)
qed

section \<open>Seek proofs: completeness and soundness\<close>

text \<open>The number of bytes before a node.\<close>

definition pos :: "bytes list \<Rightarrow> nat \<Rightarrow> nat" where
  "pos bs i = byte_sum (take (fst (block_range i)) bs)"

lemma pos_leaf: "pos bs (index 0 b) = byte_sum (take b bs)"
  by (simp add: pos_def)

lemma byte_sum_take_le: "byte_sum (take k bs) \<le> byte_sum bs"
  using seg_sum_le [of bs 0 k] by (simp add: seg_def)

lemma byte_sum_take_seg: "a \<le> b \<Longrightarrow> byte_sum (take b bs) = byte_sum (take a bs) + byte_sum (seg bs a b)"
  using arg_cong [OF seg_append [of 0 a b bs], of byte_sum] by (simp add: seg_def)

lemma pos_sibling:
  assumes "byte_sum bs < 2 ^ 64" "complete (index d off) (length bs)"
  shows "pos bs (index d off) =
         pos bs (index (Suc d) (off div 2)) +
         (if even off then 0 else node_size (spec_node H bs (sibling (index d off))))"
proof (cases "even off")
  case True
  then show ?thesis by (auto simp: pos_def algebra_simps elim!: evenE)
next
  case False
  then obtain k where k: "off = 2 * k + 1" by (rule oddE)
  have "Suc (2 * k) * 2 ^ d \<le> length bs" using assms(2) by (simp add: k complete_index_mult)
  from subtree_size [OF assms(1) this, of H] show ?thesis
    using byte_sum_take_seg [of "2 * k * 2 ^ d" "Suc (2 * k) * 2 ^ d" bs] by (simp add: pos_def k algebra_simps)
qed

lemma combine_index: "node_index (combine H n s) = parent (node_index n)"
  by (simp add: combine_def Let_def parent_node_def split: prod.splits)

lemma climb_complete:
  "climb H n sibs = Some m \<Longrightarrow> complete (node_index m) k \<Longrightarrow> complete (node_index n) k"
proof (induction sibs arbitrary: n)
  case (Cons s sibs)
  then have "complete (parent (node_index n)) k"
    using Cons.IH [of "combine H n s"] by (auto simp: combine_index split: if_splits)
  then show ?case by (rule sibling_complete)
qed simp

lemma seek_climb_climb: "map_option fst (seek_climb H n l sibs) = climb H n sibs"
  by (induction sibs arbitrary: n l) (auto simp: Let_def)

lemma seek_climb_sum:
  assumes "byte_sum bs < 2 ^ 64" "list_all (\<lambda>s. s = spec_node H bs (node_index s)) sibs"
    and "seek_climb H n l sibs = Some (m, l')" "n = spec_node H bs (node_index n)"
    and "complete (node_index n) (length bs)" "complete (node_index m) (length bs)"
    and "l + pos bs (node_index n) < 2 ^ 64"
  shows "l' + pos bs (node_index m) = l + pos bs (node_index n)"
  using assms(2-)
proof (induction sibs arbitrary: n l)
  case Nil
  then show ?case by simp
next
  case (Cons s sibs)
  obtain d off where n: "node_index n = index d off" by (rule node_cases)
  let ?p = "index (Suc d) (off div 2)"
  have s: "node_index s = sibling (index d off)" "s = spec_node H bs (sibling (index d off))"
    using Cons.prems(1,2) by (auto simp: n split: if_splits)
  have c: "combine H n s = spec_node H bs ?p"
    using combine_subtree [of H bs d off] Cons.prems(3) s(2) by (simp add: n)
  have pos: "pos bs (index d off) = pos bs ?p + (if even off then 0 else node_size s)"
    using pos_sibling [OF assms(1), of d off H] Cons.prems(4) s(2) by (simp add: n)
  let ?l = "if even off then l else l + node_size s"
  have "add64 l (node_size s) = l + node_size s" if "odd off"
    using pos that Cons.prems(6) by (intro add64_exact) (simp add: n)
  then have step: "seek_climb H (spec_node H bs ?p) ?l sibs = Some (m, l')"
    using Cons.prems(2) s(1) c by (auto simp: n Let_def simp del: sibling_index split: if_splits)
  show ?case
  proof (cases "complete ?p (length bs)")
    case True
    have "?l + pos bs ?p < 2 ^ 64" using Cons.prems(6) pos by (simp add: n split: if_splits)
    then have "l' + pos bs (node_index m) = ?l + pos bs ?p"
      using Cons.IH [OF _ step _ _ Cons.prems(5)] Cons.prems(1) True by (simp del: spec_node_index)
    then show ?thesis using pos by (simp add: n)
  next
    case False
    have "climb H (spec_node H bs ?p) sibs = Some m"
      using seek_climb_climb [of H "spec_node H bs ?p" ?l sibs] step by simp
    from climb_complete [OF this Cons.prems(5)] False show ?thesis by (simp del: spec_node_index)
  qed
qed

text \<open>The roots left of one of them.\<close>

lemma index_in_range:
  "2 * fst (block_range i) \<le> i" "i < 2 * snd (block_range i)"
proof -
  obtain d off where i: "i = index d off" by (rule node_cases)
  have "Suc (index d off) = 2 ^ d + 2 * (off * 2 ^ d)" unfolding index_Suc by simp
  moreover have "0 < (2 :: nat) ^ d" by simp
  ultimately have "2 * (off * 2 ^ d) \<le> index d off" by linarith
  then show "2 * fst (block_range i) \<le> i" by (simp add: i)
  show "i < 2 * snd (block_range i)" unfolding i block_range_index snd_conv
    by (rule index_lt_double) simp
qed

lemma consecutive_above: "consecutive a is b \<Longrightarrow> j \<in> set is \<Longrightarrow> a \<le> fst (block_range j)"
proof (induction a "is" b rule: consecutive.induct)
  case (2 a i "is" b)
  have "fst (block_range i) \<le> snd (block_range i)" by (simp add: block_range_def Let_def)
  then show ?case using 2 by fastforce
qed simp

lemma left_roots_substitute:
  "substitute m rts = Some rs \<Longrightarrow> left_roots (node_index m) rts a f = left_roots (node_index m) rs a f"
  by (induction rts arbitrary: rs a f) (auto split: if_splits)

lemma left_roots_above:
  "(\<And>j. j \<in> set is \<Longrightarrow> i < j) \<Longrightarrow> left_roots i (map (spec_node H bs) is) a f = (a, f)"
proof (induction "is" arbitrary: a f)
  case (Cons j "is")
  then have "i < j" by simp
  then have "j \<noteq> i" "\<not> j < i" by auto
  moreover have "left_roots i (map (spec_node H bs) is) a f = (a, f)" using Cons by simp
  ultimately show ?case by simp
qed simp

lemma left_roots_sum:
  assumes "byte_sum bs < 2 ^ 64" "consecutive a is (length bs)"
    and "\<And>j. j \<in> set is \<Longrightarrow> complete j (length bs)" "i \<in> set is"
  shows "left_roots i (map (spec_node H bs) is) (byte_sum (take a bs)) f = (pos bs i, True)"
  using assms(2-)
proof (induction "is" arbitrary: a f)
  case (Cons j "is")
  obtain d off where j: "j = index d off" by (rule node_cases)
  let ?b = "Suc off * 2 ^ d"
  have a: "a = off * 2 ^ d" and rest: "consecutive ?b is (length bs)" using Cons.prems(1) by (auto simp: j)
  have after: "j < k" if "k \<in> set is" for k
    using consecutive_above [OF rest that] index_in_range [of j] index_in_range [of k] by (simp add: j)
  show ?case
  proof (cases "j = i")
    case True
    moreover have "pos bs j = byte_sum (take a bs)" by (simp add: j pos_def a)
    ultimately show ?thesis using left_roots_above [of "is" i] after by simp
  next
    case False
    then have i: "i \<in> set is" using Cons.prems(3) by simp
    have b: "?b \<le> length bs" using Cons.prems(2) [of j] by (simp add: j complete_index_mult)
    have sum: "byte_sum (take ?b bs) = byte_sum (take a bs) + node_size (subtree H bs d off)"
      using byte_sum_take_seg [of a ?b bs] subtree_size [OF assms(1) b] by (simp add: a)
    then have "add64 (byte_sum (take a bs)) (node_size (subtree H bs d off)) = byte_sum (take ?b bs)"
      using byte_sum_take_le [of ?b bs] assms(1) by (simp add: add64_exact)
    then show ?thesis using Cons.IH [OF rest _ i] Cons.prems(2) after [OF i] False by (simp add: j)
  qed
qed simp

definition wf_seek_proof :: "seek_proof \<Rightarrow> bool" where
  "wf_seek_proof p \<longleftrightarrow> wf_node (sp_leaf p) \<and> list_all wf_node (sp_siblings p) \<and> list_all wf_node (sp_roots p)"

abbreviation seek_proof_inputs :: "hashfun \<Rightarrow> seek_proof \<Rightarrow> bytes list" where
  "seek_proof_inputs H p \<equiv> verify_inputs H (sp_leaf p) (sp_siblings p) (sp_roots p)"

lemma seek_linear_at:
  assumes "b < length bs" "byte_sum (take b bs) \<le> r" "r - byte_sum (take b bs) < length (bs ! b)"
  shows "seek_linear bs 0 r = (b, r - byte_sum (take b bs))"
proof -
  have bs: "bs = take b bs @ bs ! b # drop (Suc b) bs" using assms(1) by (rule id_take_nth_drop)
  have "seek_linear bs 0 r = seek_linear (take b bs @ bs ! b # drop (Suc b) bs) 0 r" using bs by simp
  also have "\<dots> = (b, r - byte_sum (take b bs))"
    using assms by (simp add: seek_linear_append)
  finally show ?thesis .
qed

lemma seek_linear_inside:
  "seek_linear bs k r = (b, off) \<Longrightarrow> r < byte_sum bs \<Longrightarrow>
   k \<le> b \<and> b - k < length bs \<and> r = byte_sum (take (b - k) bs) + off \<and> off < length (bs ! (b - k))"
proof (induction bs arbitrary: k r)
  case Nil
  then show ?case by (simp add: byte_sum_def)
next
  case (Cons x bs)
  show ?case
  proof (cases "r < length x")
    case True
    then show ?thesis using Cons.prems(1) by (auto simp: byte_sum_def)
  next
    case False
    then have "Suc k \<le> b \<and> b - Suc k < length bs \<and> r - length x = byte_sum (take (b - Suc k) bs) + off \<and>
        off < length (bs ! (b - Suc k))"
      using Cons.prems by (intro Cons.IH) (auto simp: byte_sum_def)
    moreover from this have "b - k = Suc (b - Suc k)" by linarith
    ultimately show ?thesis using False by (auto simp: byte_sum_def)
  qed
qed

lemma seek_linear_past: "byte_sum bs \<le> r \<Longrightarrow> seek_linear bs k r = (k + length bs, r - byte_sum bs)"
  by (induction bs arbitrary: k r) (auto simp: byte_sum_def)

lemma honest_cumulative:
  assumes sum: "byte_sum bs < 2 ^ 64"
    and n: "n = spec_node H bs (node_index n)" "complete (node_index n) (length bs)"
    and sibs: "list_all (\<lambda>s. s = spec_node H bs (node_index s)) sibs"
    and cl: "seek_climb H n 0 sibs = Some (m, l)" "substitute m rts = Some (spec_roots H bs)"
    and m: "node_index m \<in> set (roots_loop (length bs) 0)"
  shows "left_roots (node_index m) rts 0 False = (pos bs (node_index m), True)"
    "add64 (pos bs (node_index m)) l = pos bs (node_index n)"
proof -
  have lt: "pos bs (node_index n) < 2 ^ 64"
    unfolding pos_def using byte_sum_take_le sum by (rule le_less_trans)
  then have "l + pos bs (node_index m) = pos bs (node_index n)"
    using seek_climb_sum [OF sum sibs cl(1) n roots_complete [OF m]] by simp
  then show "add64 (pos bs (node_index m)) l = pos bs (node_index n)"
    using lt by (simp add: add64_def add.commute)
  show "left_roots (node_index m) rts 0 False = (pos bs (node_index m), True)"
    using left_roots_substitute [OF cl(2), of 0 False]
      left_roots_sum [OF sum roots_consecutive, of "node_index m" H False] m roots_complete
    by (simp add: spec_roots_def byte_sum_def)
qed

lemma verify_seek_proof_sound:
  assumes cf: "collision_free H (tree_inputs H bs @ seek_proof_inputs H p)"
    and h: "hash32 H" "sized bs" "wf_seek_proof p" "byte_sum bs < 2 ^ 64"
    and v: "verify_seek_proof H p (tree_hash H (spec_roots H bs)) = Some (b, off)"
  shows "b < length bs \<and> seek_linear bs 0 (sp_bytes p) = (b, off)"
proof -
  obtain m l rl rs where leaf: "even (node_index (sp_leaf p))"
    and sc: "seek_climb H (sp_leaf p) 0 (sp_siblings p) = Some (m, l)"
    and lr: "left_roots (node_index m) (sp_roots p) 0 False = (rl, True)"
    and su: "substitute m (sp_roots p) = Some rs" "tree_hash H rs = tree_hash H (spec_roots H bs)"
    and br: "add64 rl l \<le> sp_bytes p" "sp_bytes p - add64 rl l < node_size (sp_leaf p)"
    and res: "b = node_index (sp_leaf p) div 2" "off = sp_bytes p - add64 rl l"
    using v unfolding verify_seek_proof_def
    by (auto simp: Let_def and_1_nat split: if_splits option.splits prod.splits)
  have wf: "list_all wf_node (sp_siblings p)" "list_all wf_node (sp_roots p)"
      "length (node_hash (sp_leaf p)) = 32" "node_size (sp_leaf p) < 2 ^ 64"
    using h(3) by (simp_all add: wf_seek_proof_def wf_node_def)
  have cl: "climb H (sp_leaf p) (sp_siblings p) = Some m"
    using seek_climb_climb [of H "sp_leaf p" 0 "sp_siblings p"] sc by simp
  note head = climb_to_head [OF cf h(1,2) wf cl su]
  have su': "substitute m (sp_roots p) = Some (spec_roots H bs)" using su(1) head(4) by simp
  note cum = honest_cumulative [OF h(4) head(1,2,3) sc su' head(6)]
  have b: "node_index (sp_leaf p) = index 0 b" using leaf res(1) by (simp add: index_leaf)
  have "add64 rl l = pos bs (index 0 b)" using cum lr by (simp add: b)
  moreover have "pos bs (index 0 b) = byte_sum (take b bs)" by (simp add: pos_def)
  moreover have "b < length bs" using head(2) by (simp add: b complete_index)
  moreover have "node_size (sp_leaf p) = length (bs ! b)"
    using arg_cong [OF head(1), of node_size] by (simp add: b leaf_node_def)
  ultimately show ?thesis using br res(2) seek_linear_at [of b bs "sp_bytes p"] by simp
qed

lemma seek_proof_of_ok:
  assumes t: "tree_ok H bs t" and sum: "byte_sum bs < 2 ^ 64" and r: "r < byte_sum bs"
  shows "\<exists>p. seek_proof_of t r = Some (Some p) \<and> sp_bytes p = r \<and>
             verify_seek_proof H p (tree_hash H (spec_roots H bs)) = Some (seek_linear bs 0 r)"
proof -
  obtain b off where sl: "seek_linear bs 0 r = (b, off)" by (cases "seek_linear bs 0 r")
  have b: "b < length bs" "r = byte_sum (take b bs) + off" "off < length (bs ! b)"
    using seek_linear_inside [OF sl r] by simp_all
  have c: "complete (index 0 b) (length bs)" using b(1) by (simp add: complete_index)
  let ?n = "spec_node H bs (index 0 b)"
  have len: "tree_len t = length bs" and leaf: "bt_get (nodes t) (b * 2) = Some ?n"
    using t c by (simp_all add: tree_ok_def index_leaf mult.commute del: spec_node_index)
  have b2: "index 0 b = b * 2" by (simp add: index_leaf)
  obtain sibs m where p: "path_loop (Suc (length bs)) (nodes t)
        (bs_collect (map node_index (spec_roots H bs))) (b * 2) = Some sibs"
      "climb H ?n sibs = Some (spec_node H bs m)"
      "substitute (spec_node H bs m) (spec_roots H bs) = Some (spec_roots H bs)"
    using path_accepted [OF t c] unfolding b2 by blast
  obtain l where sc: "seek_climb H ?n 0 sibs = Some (spec_node H bs m, l)"
    using seek_climb_climb [of H ?n 0 sibs] p(2) by auto
  have m: "m \<in> set (roots_loop (length bs) 0)"
    using substitute_in [OF p(3)] by (auto simp: spec_roots_def) (metis spec_node_node_index)
  have sibs: "list_all (\<lambda>s. s = spec_node H bs (node_index s)) sibs"
    using path_loop_spec [OF t p(1)] .
  have cum: "left_roots m (spec_roots H bs) 0 False = (pos bs m, True)" "add64 (pos bs m) l = byte_sum (take b bs)"
    using honest_cumulative [OF sum _ _ sibs sc p(3)] m c pos_leaf [of bs b]
    by (simp_all del: spec_node_index)
  have sz: "node_size ?n = length (bs ! b)" by (simp add: leaf_node_def)
  moreover have "node_index ?n = b * 2" by (simp add: leaf_node_def index_leaf)
  note sz = sz this
  let ?p = "\<lparr> sp_bytes = r, sp_leaf = ?n, sp_siblings = sibs, sp_roots = spec_roots H bs \<rparr>"
  have "seek_proof_of t r = Some (Some ?p)"
    using seek_ok [OF t sum, of r] sl b(1) p(1) leaf len roots_ok(1) [OF t]
    by (simp add: seek_proof_of_def del: path_loop.simps spec_node_index)
  moreover have "verify_seek_proof H ?p (tree_hash H (spec_roots H bs)) = Some (b, off)"
    using sc p(3) cum b(2,3) sz by (simp add: verify_seek_proof_def and_1_nat del: spec_node_index)
  ultimately show ?thesis using sl by (intro exI [of _ ?p]) simp
qed

section \<open>Upgrade proofs: soundness\<close>

text \<open>The nodes the verifier starts from: its own old roots and the accepted, fully new nodes.\<close>

definition seeded :: "nat \<Rightarrow> nat list \<Rightarrow> (nat, node) btmap \<Rightarrow> bool" where
  "seeded old os known \<longleftrightarrow>
     (\<forall>i n. bt_get known i = Some n \<longrightarrow> node_index n = i \<and> (i \<in> set os \<or> old \<le> fst (block_range i)))"

lemma fold_nodes_seeded:
  "fold_nodes old new ns known = Some known' \<Longrightarrow> seeded old os known \<Longrightarrow>
   seeded old os known' \<and> (\<forall>i n. bt_get known i = Some n \<longrightarrow> bt_get known' i = Some n) \<and>
   (\<forall>i n. bt_get known' i = Some n \<longrightarrow> bt_get known i = Some n \<or> n \<in> set ns)"
proof (induction ns arbitrary: known)
  case Nil
  then show ?case by simp
next
  case (Cons n ns)
  let ?k = "bt_insert (node_index n) n known"
  have f: "fold_nodes old new ns ?k = Some known'" and new: "old \<le> fst (block_range (node_index n))"
      "bt_get known (node_index n) = None"
    using Cons.prems(1) by (auto simp: bt_contains_def split: prod.splits if_splits)
  have "seeded old os ?k" using Cons.prems(2) new(1) by (auto simp: seeded_def)
  note ih = Cons.IH [OF f this]
  have "bt_get ?k i = Some m" if "bt_get known i = Some m" for i m using that new(2) by auto
  moreover have "bt_get known i = Some m \<or> m = n" if "bt_get ?k i = Some m" for i m
    using that by (auto split: if_splits)
  ultimately show ?case using ih by (metis list.set_intros)
qed

text \<open>Every node known later is one of those or was combined from two known children.\<close>

definition derived :: "hashfun \<Rightarrow> (nat, node) btmap \<Rightarrow> (nat, node) btmap \<Rightarrow> bool" where
  "derived H seed known \<longleftrightarrow>
     (\<forall>i n. bt_get seed i = Some n \<longrightarrow> bt_get known i = Some n) \<and>
     (\<forall>i n. bt_get known i = Some n \<longrightarrow> bt_get seed i = Some n \<or>
        (\<exists>l r a b. children i = Some (l, r) \<and> bt_get known l = Some a \<and> bt_get known r = Some b \<and>
                   n = parent_node H i a b))"

lemma derived_insert:
  assumes "derived H seed known" "bt_get known (parent c) = None"
    "bt_get known c = Some cn" "bt_get known (sibling c) = Some sn"
  shows "derived H seed (bt_insert (parent c)
           (parent_node H (parent c) (if sibling c < c then sn else cn) (if sibling c < c then cn else sn)) known)"
proof -
  let ?k = "bt_insert (parent c)
      (parent_node H (parent c) (if sibling c < c then sn else cn) (if sibling c < c then cn else sn)) known"
  have ext: "bt_get ?k i = Some n" if "bt_get known i = Some n" for i n using that assms(2) by auto
  obtain d off where c: "c = index d off" by (rule node_cases)
  have ch: "children (parent c) = Some (if sibling c < c then sibling c else c, if sibling c < c then c else sibling c)"
    using sibling_less [of d off] unfolding c by (cases "even off") (auto simp del: sibling_less elim!: evenE oddE)
  show ?thesis unfolding derived_def
  proof (intro conjI allI impI)
    fix i n
    assume "bt_get seed i = Some n"
    then show "bt_get ?k i = Some n" using assms(1) ext unfolding derived_def by blast
  next
    fix i n
    assume i: "bt_get ?k i = Some n"
    show "bt_get seed i = Some n \<or>
        (\<exists>l r a b. children i = Some (l, r) \<and> bt_get ?k l = Some a \<and> bt_get ?k r = Some b \<and> n = parent_node H i a b)"
    proof (cases "i = parent c")
      case True
      then show ?thesis using i ch ext [OF assms(3)] ext [OF assms(4)] by (cases "sibling c < c") auto
    next
      case False
      then have "bt_get known i = Some n" using i by simp
      then show ?thesis using assms(1) ext unfolding derived_def by blast
    qed
  qed
qed

lemma climb_pass_derived:
  "derived H seed known \<Longrightarrow> derived H seed (fst (climb_pass H cs (known, changed)))"
proof (induction cs arbitrary: known changed)
  case (Cons c cs)
  show ?case
  proof (cases "bt_get known (parent c) = None \<and> bt_get known c \<noteq> None \<and> bt_get known (sibling c) \<noteq> None")
    case True
    then obtain cn sn where k: "bt_get known (parent c) = None" "bt_get known c = Some cn"
        "bt_get known (sibling c) = Some sn" by auto
    from derived_insert [OF Cons.prems k] show ?thesis
      using Cons.IH k by (cases "sibling c < c") simp_all
  next
    case False
    then have "climb_pass H (c # cs) (known, changed) = climb_pass H cs (known, changed)"
      by (auto split: option.splits)
    then show ?thesis using Cons by simp
  qed
qed simp

lemma climb_passes_derived:
  "climb_passes H guard known = Some known' \<Longrightarrow> derived H seed known \<Longrightarrow> derived H seed known'"
proof (induction guard arbitrary: known)
  case (Suc guard)
  obtain k ch where p: "climb_pass H (map fst known) (known, False) = (k, ch)" by fastforce
  have "derived H seed k" 
    using climb_pass_derived [OF Suc.prems(2), of "map fst known" False] p by simp
  then show ?case using Suc p by (auto split: if_splits)
qed simp

text \<open>The inputs hashed for the combinations, given the nodes known at the end.\<close>

definition known_inputs :: "(nat, node) btmap \<Rightarrow> bytes list" where
  "known_inputs known =
     concat (map (\<lambda>(i, n). case children i of
         None \<Rightarrow> []
       | Some (l, r) \<Rightarrow> (case (bt_get known l, bt_get known r) of
                             (Some a, Some b) \<Rightarrow> [parent_input a b] | _ \<Rightarrow> [])) known)"

definition upgrade_known :: "hashfun \<Rightarrow> upgrade_proof \<Rightarrow> node list \<Rightarrow> (nat, node) btmap option" where
  "upgrade_known H p old_roots =
     Option.bind (fold_nodes (old_len p) (new_len p) (up_nodes p)
                    (bt_collect (map (\<lambda>n. (node_index n, n)) old_roots)))
       (climb_passes H 4096)"

definition upgrade_inputs :: "hashfun \<Rightarrow> upgrade_proof \<Rightarrow> node list \<Rightarrow> bytes list" where
  "upgrade_inputs H p old_roots =
     (case upgrade_known H p old_roots of
        None \<Rightarrow> []
      | Some known \<Rightarrow>
          known_inputs known @
          (case those (map (bt_get known) (roots_loop (new_len p) 0)) of
             None \<Rightarrow> [] | Some rs \<Rightarrow> [tree_input rs]))"

lemma known_inputs_in:
  "bt_get known i = Some n \<Longrightarrow> children i = Some (l, r) \<Longrightarrow> bt_get known l = Some a \<Longrightarrow> bt_get known r = Some b \<Longrightarrow>
   parent_input a b \<in> set (known_inputs known)"
  unfolding known_inputs_def set_concat set_map
  by (rule UN_I, rule imageI, erule map_of_SomeD) simp

lemma derived_wf:
  assumes "derived H seed known" "hash32 H" "\<And>i n. bt_get seed i = Some n \<Longrightarrow> wf_node n"
    "bt_get known i = Some n"
  shows "length (node_hash n) = 32 \<and> node_size n < 2 ^ 64"
proof (cases "bt_get seed i = Some n")
  case True
  then show ?thesis using assms(3) by (simp add: wf_node_def)
next
  case False
  then obtain a b where "n = parent_node H i a b" using assms(1,4) unfolding derived_def by blast
  then show ?thesis using assms(2) add64_less by (simp add: parent_node_def parent_hash_def hash32_def)
qed

lemma old_root_above:
  assumes "index d off \<in> set (roots_loop old 0)" "0 < k"
  shows "index (d + k) (off div 2 ^ k) \<notin> set (roots_loop old 0)"
    "fst (block_range (index (d + k) (off div 2 ^ k))) < old"
proof -
  have root: "complete (index d off) old" "\<not> complete (index (Suc d) (off div 2)) old"
    using assms(1) by (simp_all add: roots_iff)
  have "\<not> complete (index (d + k) (off div 2 ^ k)) old"
    using assms(2)
  proof (induction k)
    case (Suc k)
    show ?case
    proof (cases "k = 0")
      case True
      then show ?thesis using root(2) by simp
    next
      case False
      have "parent (index (d + k) (off div 2 ^ k)) = index (d + Suc k) (off div 2 ^ Suc k)"
        unfolding power_Suc2 div_mult2_eq by simp
      then show ?thesis using Suc.IH False sibling_complete(2) by (metis gr0I)
    qed
  qed simp
  then show "index (d + k) (off div 2 ^ k) \<notin> set (roots_loop old 0)" by (simp add: roots_iff)
  have "off div 2 ^ k * 2 ^ (d + k) = (off div 2 ^ k * 2 ^ k) * 2 ^ d" by (simp add: power_add)
  also have "\<dots> \<le> off * 2 ^ d" by (intro mult_le_mono1) simp
  also have "\<dots> < Suc off * 2 ^ d" by simp
  also have "\<dots> \<le> old" using root(1) by (simp add: complete_index_mult)
  finally show "fst (block_range (index (d + k) (off div 2 ^ k))) < old" by simp
qed

lemma descend_to_old_root:
  assumes cf: "collision_free H (tree_inputs H cs @ known_inputs known)" and h: "hash32 H" "sized cs"
    and der: "derived H seed known" "seeded old (roots_loop old 0) seed"
    and wf: "\<And>i n. bt_get seed i = Some n \<Longrightarrow> wf_node n"
    and root: "index d off \<in> set (roots_loop old 0)"
    and "bt_get known (index (d + k) (off div 2 ^ k)) = Some n"
    and "node_hash n = node_hash (subtree H cs (d + k) (off div 2 ^ k))"
    and "complete (index (d + k) (off div 2 ^ k)) (length cs)"
  shows "\<exists>m. bt_get known (index d off) = Some m \<and> node_hash m = node_hash (subtree H cs d off) \<and>
             complete (index d off) (length cs)"
  using assms(8-)
proof (induction k arbitrary: n)
  case 0
  then show ?case by simp
next
  case (Suc k)
  let ?o = "off div 2 ^ k" and ?e = "d + k"
  have o: "off div 2 ^ Suc k = ?o div 2" unfolding power_Suc2 div_mult2_eq ..
  let ?i = "index (Suc ?e) (?o div 2)"
  have "bt_get seed ?i \<noteq> Some n"
    using der(2) old_root_above [OF root, of "Suc k"] unfolding seeded_def o by fastforce
  then obtain a b where ab: "bt_get known (index ?e (2 * (?o div 2))) = Some a"
      "bt_get known (index ?e (2 * (?o div 2) + 1)) = Some b" "n = parent_node H ?i a b"
    using der(1) Suc.prems(1) unfolding derived_def o by fastforce
  have ci: "complete ?i (length cs)" using Suc.prems(3) o by simp
  have in1: "parent_input a b \<in> set (tree_inputs H cs @ known_inputs known)"
    using known_inputs_in [OF Suc.prems(1) _ ab(1,2)] o by simp
  have in2: "node_input H cs ?i \<in> set (tree_inputs H cs @ known_inputs known)"
    using node_input_in [OF ci, of H] by simp
  have "H (parent_input a b) = H (node_input H cs ?i)"
    using Suc.prems(2) unfolding node_input_hash [symmetric] ab(3) o
    by (simp add: parent_node_def parent_hash_def)
  then have "parent_input a b = node_input H cs ?i" by (rule collision_freeD [OF cf in1 in2])
  then have eq: "parent_input a b = parent_input (subtree H cs ?e (2 * (?o div 2))) (subtree H cs ?e (2 * (?o div 2) + 1))"
    by (simp add: node_input_def)
  have cc: "complete (index ?e (2 * (?o div 2))) (length cs)" "complete (index ?e (2 * (?o div 2) + 1)) (length cs)"
    using children_complete [OF ci] by auto
  have "node_hash a = node_hash (subtree H cs ?e (2 * (?o div 2))) \<and> node_size a = node_size (subtree H cs ?e (2 * (?o div 2))) \<and>
    node_hash b = node_hash (subtree H cs ?e (2 * (?o div 2) + 1)) \<and> node_size b = node_size (subtree H cs ?e (2 * (?o div 2) + 1))"
    using derived_wf [OF der(1) h(1) wf ab(1)] derived_wf [OF der(1) h(1) wf ab(2)]
      wf_spec_node [OF h cc(1)] wf_spec_node [OF h cc(2)] eq
    by (intro parent_input_inj) (simp_all add: wf_node_def)
  then show ?case using Suc.IH ab(1,2) cc by (cases "even ?o") (simp_all add: odd_two_times_div_two_succ)
qed

lemma root_above_node:
  assumes "complete (index d off) n"
  shows "\<exists>k. index (d + k) (off div 2 ^ k) \<in> set (roots_loop n 0)"
  using assms
proof (induction "n - d" arbitrary: d off rule: less_induct)
  case less
  show ?case
  proof (cases "index d off \<in> set (roots_loop n 0)")
    case True
    then show ?thesis by (intro exI [of _ 0]) simp
  next
    case False
    then have c: "complete (index (Suc d) (off div 2)) n" using less.prems by (simp add: roots_iff)
    moreover have "n - Suc d < n - d" using complete_depth [OF less.prems] by simp
    ultimately obtain k where "index (Suc d + k) (off div 2 div 2 ^ k) \<in> set (roots_loop n 0)"
      using less.hyps by blast
    then show ?thesis by (intro exI [of _ "Suc k"]) (simp add: div_mult2_eq)
  qed
qed

lemma those_mapD: "those (map f xs) = Some ys \<Longrightarrow> map f xs = map Some ys"
  by (induction xs arbitrary: ys) (auto split: option.splits)

lemma roots_loop_inj: "roots_loop m 0 = roots_loop n 0 \<longleftrightarrow> m = n"
  using consecutive_end roots_consecutive by metis

lemma derived_index:
  "derived H seed known \<Longrightarrow> seeded old os seed \<Longrightarrow> bt_get known i = Some n \<Longrightarrow> node_index n = i"
  unfolding derived_def seeded_def by (fastforce simp: parent_node_def)

definition wf_upgrade_proof :: "upgrade_proof \<Rightarrow> bool" where
  "wf_upgrade_proof p \<longleftrightarrow> new_len p < 2 ^ 63 \<and> list_all wf_node (up_nodes p)"

lemma verify_upgrade_unfold:
  assumes "verify_upgrade_proof H p old_roots root"
  obtains seed known new_roots where
    "0 < old_len p" "old_len p < new_len p" "map node_index old_roots = roots_loop (old_len p) 0"
    "fold_nodes (old_len p) (new_len p) (up_nodes p) (bt_collect (map (\<lambda>n. (node_index n, n)) old_roots)) = Some seed"
    "climb_passes H 4096 seed = Some known"
    "those (map (bt_get known) (roots_loop (new_len p) 0)) = Some new_roots" "tree_hash H new_roots = root"
  using assms unfolding verify_upgrade_proof_def
  by (auto simp del: climb_passes.simps split: if_splits option.splits)

lemma old_seed:
  assumes "n = length bs"
  shows "bt_get (bt_collect (map (\<lambda>n. (node_index n, n)) (spec_roots H bs))) i =
         (if i \<in> set (roots_loop n 0) then Some (spec_node H bs i) else None)"
proof -
  let ?xs = "map (\<lambda>i. (i, spec_node H bs i)) (roots_loop n 0)"
  have xs: "map (\<lambda>n. (node_index n, n)) (spec_roots H bs) = ?xs" by (simp add: spec_roots_def assms)
  have "map_of (rev ?xs) i = (if i \<in> set (roots_loop n 0) then Some (spec_node H bs i) else None)"
    unfolding rev_map map_of_map_keys by (simp add: map_of_map_restrict restrict_map_def)
  then show ?thesis unfolding xs bt_get_collect .
qed

text \<open>The seed: the verifier's own roots, extended by well-formed new nodes.\<close>

lemma upgrade_seed:
  assumes h: "hash32 H" "sized bs" and wfp: "list_all wf_node ns"
    and f: "fold_nodes (length bs) new ns (bt_collect (map (\<lambda>n. (node_index n, n)) (spec_roots H bs))) = Some seed"
  shows "seeded (length bs) (roots_loop (length bs) 0) seed"
    "\<And>i. i \<in> set (roots_loop (length bs) 0) \<Longrightarrow> bt_get seed i = Some (spec_node H bs i)"
    "\<And>i n. bt_get seed i = Some n \<Longrightarrow> wf_node n"
proof -
  let ?os = "roots_loop (length bs) 0"
  have seed0: "bt_get (bt_collect (map (\<lambda>n. (node_index n, n)) (spec_roots H bs))) i =
      (if i \<in> set ?os then Some (spec_node H bs i) else None)" for i by (rule old_seed) simp
  then have "seeded (length bs) ?os (bt_collect (map (\<lambda>n. (node_index n, n)) (spec_roots H bs)))"
    by (simp add: seeded_def)
  note fn = fold_nodes_seeded [OF f this]
  show "seeded (length bs) ?os seed" "\<And>i. i \<in> set ?os \<Longrightarrow> bt_get seed i = Some (spec_node H bs i)"
    using fn seed0 by auto
  fix i n
  assume "bt_get seed i = Some n"
  then have "n \<in> set ns \<or> i \<in> set ?os \<and> n = spec_node H bs i"
    using fn seed0 by (fastforce split: if_splits)
  then show "wf_node n" using wfp wf_spec_node [OF h] roots_complete by (auto simp: list_all_iff)
qed

text \<open>The new roots the verifier derives are well-formed nodes at the expected indices.\<close>

lemma upgrade_new_roots:
  assumes der: "derived H seed known" "seeded old os seed" and h: "hash32 H"
    and wf: "\<And>i n. bt_get seed i = Some n \<Longrightarrow> wf_node n"
    and new: "new < 2 ^ 63" and rs: "those (map (bt_get known) (roots_loop new 0)) = Some rs"
  shows "map node_index rs = roots_loop new 0" "list_all wf_node rs"
proof -
  have ri: "map (bt_get known) (roots_loop new 0) = map Some rs" using rs by (rule those_mapD)
  show "map node_index rs = roots_loop new 0"
  proof (rule nth_equalityI)
    show len: "length (map node_index rs) = length (roots_loop new 0)" using arg_cong [OF ri, of length] by simp
    fix k assume k: "k < length (map node_index rs)"
    then have "bt_get known (roots_loop new 0 ! k) = Some (rs ! k)"
      using arg_cong [OF ri, of "\<lambda>l. l ! k"] len by simp
    then show "map node_index rs ! k = roots_loop new 0 ! k" using derived_index [OF der] k by simp
  qed
  have "wf_node r" if "r \<in> set rs" for r
  proof -
    have "Some r \<in> set (map (bt_get known) (roots_loop new 0))" using that ri by simp
    then obtain i where i: "i \<in> set (roots_loop new 0)" "bt_get known i = Some r" by auto
    have "i < 2 ^ 64" using complete_lt [OF roots_complete [OF i(1)]] new by simp
    then show ?thesis
      using derived_wf [OF der(1) h wf i(2)] derived_index [OF der i(2)] by (simp add: wf_node_def)
  qed
  then show "list_all wf_node rs" by (simp add: list_all_iff)
qed

text \<open>If the derived nodes agree with \<open>cs\<close> at its roots, the old blocks are those of \<open>cs\<close>.\<close>

lemma upgrade_prefix:
  assumes cf: "collision_free H (tree_inputs H bs @ tree_inputs H cs @ known_inputs known)"
    and h: "hash32 H" "sized bs" "sized cs" and len: "length bs \<le> length cs"
    and der: "derived H seed known" "seeded (length bs) (roots_loop (length bs) 0) seed"
    and old: "\<And>i. i \<in> set (roots_loop (length bs) 0) \<Longrightarrow> bt_get seed i = Some (spec_node H bs i)"
    and wf: "\<And>i n. bt_get seed i = Some n \<Longrightarrow> wf_node n"
    and new: "\<And>i. i \<in> set (roots_loop (length cs) 0) \<Longrightarrow> bt_get known i = Some (spec_node H cs i)"
  shows "take (length bs) cs = bs"
proof (rule nth_equalityI)
  show "length (take (length bs) cs) = length bs" using len by simp
next
  have cf1: "collision_free H (tree_inputs H cs @ known_inputs known)"
    using cf by (rule collision_free_mono) auto
  have cf2: "collision_free H (tree_inputs H bs @ tree_inputs H cs)"
    using cf by (rule collision_free_mono) auto
  fix k
  assume "k < length (take (length bs) cs)"
  then have k: "k < length bs" by simp
  then obtain d off where r: "index d off \<in> set (roots_loop (length bs) 0)" "off * 2 ^ d \<le> k" "k < Suc off * 2 ^ d"
    by (rule root_above)
  have cb: "complete (index d off) (length bs)" using r(1) by (rule roots_complete)
  then have cn: "complete (index d off) (length cs)" using len by (rule complete_mono)
  obtain j where j: "index (d + j) (off div 2 ^ j) \<in> set (roots_loop (length cs) 0)"
    using root_above_node [OF cn] by blast
  have "\<exists>m. bt_get known (index d off) = Some m \<and> node_hash m = node_hash (subtree H cs d off) \<and>
            complete (index d off) (length cs)"
    using cf1 h(1,3) der wf r(1) new [OF j]
    by (rule descend_to_old_root) (simp_all add: roots_complete [OF j])
  then obtain m where m: "bt_get known (index d off) = Some m" "node_hash m = node_hash (subtree H cs d off)"
    by blast
  have "bt_get known (index d off) = Some (subtree H bs d off)"
    using old [OF r(1)] der(1) unfolding derived_def by simp
  then have "node_hash (subtree H bs d off) = node_hash (subtree H cs d off)" using m by simp
  then show "take (length bs) cs ! k = bs ! k" using subtree_commit [OF cf2 h cb cn _ r(2,3)] k by simp
qed

lemma verify_upgrade_sound:
  assumes cf: "collision_free H (tree_inputs H bs @ tree_inputs H cs @ upgrade_inputs H p (spec_roots H bs))"
    and h: "hash32 H" "sized bs" "sized cs" and wfp: "wf_upgrade_proof p"
    and v: "verify_upgrade_proof H p (spec_roots H bs) (tree_hash H (spec_roots H cs))"
  shows "old_len p = length bs \<and> new_len p = length cs \<and> strict_prefix bs cs"
proof -
  obtain seed known rs where u: "0 < old_len p" "old_len p < new_len p"
      "map node_index (spec_roots H bs) = roots_loop (old_len p) 0"
      "fold_nodes (old_len p) (new_len p) (up_nodes p)
         (bt_collect (map (\<lambda>n. (node_index n, n)) (spec_roots H bs))) = Some seed"
      "climb_passes H 4096 seed = Some known"
      "those (map (bt_get known) (roots_loop (new_len p) 0)) = Some rs"
      "tree_hash H rs = tree_hash H (spec_roots H cs)"
    using v by (rule verify_upgrade_unfold)
  have old: "old_len p = length bs" using u(3) by (simp add: spec_roots_def o_def roots_loop_inj)
  have wfn: "list_all wf_node (up_nodes p)" "new_len p < 2 ^ 63" using wfp by (simp_all add: wf_upgrade_proof_def)
  note seed = upgrade_seed [OF h(1,2) wfn(1) u(4) [unfolded old]]
  have der: "derived H seed known" using u(5) by (rule climb_passes_derived) (simp add: derived_def)
  have known: "upgrade_known H p (spec_roots H bs) = Some known"
    using u(4,5) by (simp add: upgrade_known_def)
  note roots = upgrade_new_roots [OF der seed(1) h(1) seed(3) wfn(2) u(6)]
  have in1: "tree_input rs \<in> set (tree_inputs H bs @ tree_inputs H cs @ upgrade_inputs H p (spec_roots H bs))"
    using known u(6) by (simp add: upgrade_inputs_def)
  have in2: "tree_input (spec_roots H cs) \<in> set (tree_inputs H bs @ tree_inputs H cs @ upgrade_inputs H p (spec_roots H bs))"
    using tree_input_in [of "length cs" cs H] by simp
  have "tree_input rs = tree_input (spec_roots H cs)"
    using u(7) unfolding tree_hash_def by (rule collision_freeD [OF cf in1 in2])
  then have rs: "rs = spec_roots H cs" using roots(2) wf_spec_roots [OF h(1,3)] by (intro tree_input_inj)
  then have new: "new_len p = length cs" using roots(1) by (simp add: spec_roots_def o_def roots_loop_inj)
  have kn: "bt_get known i = Some (spec_node H cs i)" if "i \<in> set (roots_loop (length cs) 0)" for i
    using those_mapD [OF u(6)] that unfolding rs new spec_roots_def by simp
  have "collision_free H (tree_inputs H bs @ tree_inputs H cs @ known_inputs known)"
    using cf by (rule collision_free_mono) (auto simp: upgrade_inputs_def known)
  then have "take (length bs) cs = bs"
    using h _ der seed kn by (rule upgrade_prefix) (use u(2) old new in simp_all)
  then have "prefix bs cs" by (metis take_is_prefix)
  moreover have "bs \<noteq> cs" using u(2) old new by auto
  ultimately show ?thesis using old new by (simp add: strict_prefix_def)
qed

section \<open>Properties\<close>

text \<open>
  Completeness of inclusion proofs: for every block of an intact tree a proof is
  generated, without a panic, and it verifies for that block's data against the tree's own root
  hash; out of range there is none.
\<close>

theorem inclusion_proof_complete:
  assumes "2 * length bs < 2 ^ 64"
  shows "if b < length bs
         then \<exists>p root. proof_of (tree_of H bs) b = Some (Some p) \<and> block p = b \<and>
                root_hash H (tree_of H bs) = Some root \<and> verify_proof H p (bs ! b) root
         else proof_of (tree_of H bs) b = Some None"
  using proof_of_ok [OF tree_of_ok _ assms, of b H] tree_of_ok [of H bs]
  by (auto simp: roots_ok [OF tree_of_ok] proof_of_def tree_ok_def)

theorem inclusion_proof_complete_witness:
  "\<exists>p root. proof_of (tree_of squeeze32 [[1], [2], [3]]) 1 = Some (Some p) \<and> block p = 1 \<and>
     root_hash squeeze32 (tree_of squeeze32 [[1], [2], [3]]) = Some root \<and> verify_proof squeeze32 p [2] root"
  using inclusion_proof_complete [of "[[1], [2], [3]]" 1 squeeze32] by simp



text \<open>
  Recovery from repair mode: a peer's intact tree proves every complete node, and
  applying that proof to the same tree without the node restores the tree exactly.
\<close>

theorem recover_node_restores:
  assumes "complete i (length bs)"
  shows "\<exists>p root. node_proof_of (tree_of H bs) i = Some p \<and> root_hash H (tree_of H bs) = Some root \<and>
           recover_node H (snd (remove_node (tree_of H bs) i)) p root = (True, tree_of H bs)"
proof -
  have ok: "tree_ok H bs (tree_of H bs)" by (rule tree_of_ok)
  obtain p where p: "node_proof_of (tree_of H bs) i = Some p"
      "verify_node_proof H p (tree_hash H (spec_roots H bs)) = Some (spec_node H bs i)"
    using node_proof_of_ok [OF ok assms] by blast
  have inv: "bt_inv (nodes (tree_of H bs))" and get: "bt_get (nodes (tree_of H bs)) i = Some (spec_node H bs i)"
    using ok assms by (simp_all add: tree_ok_def)
  have "bt_insert i (spec_node H bs i) (bt_remove i (nodes (tree_of H bs))) = nodes (tree_of H bs)"
    using inv get by (intro bt_ext) auto
  then show ?thesis
    using p by (intro exI [of _ p]) (simp add: recover_node_def remove_node_def roots_ok [OF ok])
qed

theorem recover_node_restores_witness:
  "complete 1 (length [[1], [2 :: byte]]) \<and>
   (\<exists>p root. node_proof_of (tree_of squeeze32 [[1], [2]]) 1 = Some p \<and>
     recover_node squeeze32 (snd (remove_node (tree_of squeeze32 [[1], [2]]) 1)) p root =
       (True, tree_of squeeze32 [[1], [2]]))"
proof -
  have c: "complete 1 (length [[1], [2 :: byte]])" by code_simp
  show ?thesis using recover_node_restores [OF c, of squeeze32] c by blast
qed

text \<open>
  Recovery cannot be abused: whatever a peer sends, \<open>recover_node\<close> against the root
  hash of the tree over \<open>bs\<close> either changes nothing and returns false, or stores the node that
  belongs at that index.
\<close>

theorem recover_node_sound:
  assumes "hash32 H" "sized bs" "wf_node_proof p"
    and "collision_free H (tree_inputs H bs @ node_proof_inputs H p)"
    and "root_hash H (tree_of H bs) = Some root"
  shows "recover_node H t p root = (False, t) \<or>
         (\<exists>i. complete i (length bs) \<and>
              recover_node H t p root = (True, t\<lparr> nodes := bt_insert i (spec_node H bs i) (nodes t) \<rparr>))"
proof (cases "verify_node_proof H p root")
  case None
  then show ?thesis by (simp add: recover_node_def)
next
  case (Some n)
  have "root = tree_hash H (spec_roots H bs)" using assms(5) by (simp add: roots_ok [OF tree_of_ok])
  then have "n = spec_node H bs (node_index n)" "complete (node_index n) (length bs)"
    using verify_node_proof_sound(2,3) [OF assms(4,1,2,3)] Some by simp_all
  then show ?thesis using Some by (intro disjI2 exI [of _ "node_index n"]) (simp add: recover_node_def)
qed

theorem recover_node_sound_witness:
  "let p = the (node_proof_of (tree_of squeeze32 [[1], [2]]) 1);
       root = the (root_hash squeeze32 (tree_of squeeze32 [[1], [2]]))
   in recover_node squeeze32 empty_tree p root = (False, empty_tree) \<or>
      (\<exists>i. complete i 2 \<and> recover_node squeeze32 empty_tree p root =
         (True, empty_tree\<lparr> nodes := bt_insert i (spec_node squeeze32 [[1], [2]] i) (nodes empty_tree) \<rparr>))"
proof -
  define p where "p = the (node_proof_of (tree_of squeeze32 [[1], [2]]) 1)"
  have wf: "wf_node_proof p" unfolding p_def by code_simp
  have cf: "collision_free squeeze32 (tree_inputs squeeze32 [[1], [2]] @ node_proof_inputs squeeze32 p)"
    unfolding p_def by code_simp
  have root: "root_hash squeeze32 (tree_of squeeze32 [[1], [2]]) =
      Some (the (root_hash squeeze32 (tree_of squeeze32 [[1], [2]])))"
    by (simp add: roots_ok [OF tree_of_ok])
  have "sized [[1], [2]]" by (simp add: sized_def)
  from recover_node_sound [OF hash32_squeeze32 this wf cf root, of empty_tree] show ?thesis
    unfolding Let_def p_def [symmetric] by (simp add: numeral_2_eq_2)
qed

text \<open>
  Seek proofs: for every byte inside the log a proof is generated and verifies to the
  block and offset of the linear scan, and whatever verifies against the root hash names that block
  and that offset.
\<close>

theorem seek_proof_correct:
  assumes "hash32 H" "sized bs" "byte_sum bs < 2 ^ 64"
    and "root_hash H (tree_of H bs) = Some root"
    and "wf_seek_proof q" "collision_free H (tree_inputs H bs @ seek_proof_inputs H q)"
  shows "(if r < byte_sum bs
          then \<exists>p. seek_proof_of (tree_of H bs) r = Some (Some p) \<and> sp_bytes p = r \<and>
                   verify_seek_proof H p root = Some (seek_linear bs 0 r)
          else seek_proof_of (tree_of H bs) r = Some None) \<and>
         (\<forall>b off. verify_seek_proof H q root = Some (b, off) \<longrightarrow>
            b < length bs \<and> seek_linear bs 0 (sp_bytes q) = (b, off))"
proof -
  have root: "root = tree_hash H (spec_roots H bs)" using assms(4) by (simp add: roots_ok [OF tree_of_ok])
  have "seek_proof_of (tree_of H bs) r = Some None" if "\<not> r < byte_sum bs"
    using seek_ok [OF tree_of_ok assms(3), of H r] that tree_of_ok [of H bs]
    by (simp add: seek_proof_of_def seek_linear_past tree_ok_def)
  then show ?thesis
    using seek_proof_of_ok [OF tree_of_ok assms(3)] verify_seek_proof_sound [OF assms(6,1,2,5,3)]
    unfolding root by auto
qed

theorem seek_proof_correct_witness:
  "let p = the (the (seek_proof_of (tree_of squeeze32 [[1], [2, 3]]) 2))
   in verify_seek_proof squeeze32 p (the (root_hash squeeze32 (tree_of squeeze32 [[1], [2, 3]]))) = Some (1, 1) \<and>
      seek_linear [[1], [2, 3]] 0 (sp_bytes p) = (1, 1)"
proof -
  define p where "p = the (the (seek_proof_of (tree_of squeeze32 [[1], [2, 3]]) 2))"
  have wf: "wf_seek_proof p" unfolding p_def by code_simp
  have cf: "collision_free squeeze32 (tree_inputs squeeze32 [[1], [2, 3]] @ seek_proof_inputs squeeze32 p)"
    unfolding p_def by code_simp
  have v: "verify_seek_proof squeeze32 p (the (root_hash squeeze32 (tree_of squeeze32 [[1], [2, 3]]))) = Some (1, 1)"
    unfolding p_def by code_simp
  have root: "root_hash squeeze32 (tree_of squeeze32 [[1], [2, 3]]) =
      Some (the (root_hash squeeze32 (tree_of squeeze32 [[1], [2, 3]])))"
    by (simp add: roots_ok [OF tree_of_ok])
  have "sized [[1], [2, 3]]" "byte_sum [[1], [2, 3 :: byte]] < 2 ^ 64"
    by (simp_all add: sized_def byte_sum_def)
  from seek_proof_correct [OF hash32_squeeze32 this root wf cf] show ?thesis
    using v unfolding Let_def p_def [symmetric] by auto
qed

text \<open>
  Property C21. Anti-fork: an upgrade proof that takes the verifier's own roots over \<open>bs\<close> to the
  root hash of a tree over \<open>cs\<close> shows that \<open>bs\<close> is a strict prefix of \<open>cs\<close>, with exactly the two
  lengths the proof claims: no old block was rewritten.
\<close>

theorem upgrade_proof_sound:
  assumes "hash32 H" "sized bs" "sized cs" "wf_upgrade_proof p"
    and "roots (tree_of H bs) = Some old_roots" "root_hash H (tree_of H cs) = Some root"
    and "collision_free H (tree_inputs H bs @ tree_inputs H cs @ upgrade_inputs H p old_roots)"
    and "verify_upgrade_proof H p old_roots root"
  shows "old_len p = length bs \<and> new_len p = length cs \<and> strict_prefix bs cs"
proof -
  have eq: "old_roots = spec_roots H bs" "root = tree_hash H (spec_roots H cs)"
    using assms(5,6) by (simp_all add: roots_ok [OF tree_of_ok])
  show ?thesis
    using verify_upgrade_sound [OF assms(7) [unfolded eq] assms(1-4)] assms(8) unfolding eq by simp
qed

theorem upgrade_proof_sound_witness:
  "let p = the (the (upgrade_proof_of (tree_of squeeze32 [[1], [2]]) 1 2));
       old = the (roots (tree_of squeeze32 [[1]]))
   in verify_upgrade_proof squeeze32 p old (the (root_hash squeeze32 (tree_of squeeze32 [[1], [2]]))) \<and>
      old_len p = 1 \<and> new_len p = 2 \<and> strict_prefix [[1]] [[1], [2 :: byte]]"
proof -
  define p where "p = the (the (upgrade_proof_of (tree_of squeeze32 [[1], [2]]) 1 2))"
  define old where "old = the (roots (tree_of squeeze32 [[1]]))"
  have wf: "wf_upgrade_proof p" unfolding p_def by code_simp
  have cf: "collision_free squeeze32 (tree_inputs squeeze32 [[1]] @ tree_inputs squeeze32 [[1], [2]] @
      upgrade_inputs squeeze32 p old)"
    unfolding p_def old_def by code_simp
  have v: "verify_upgrade_proof squeeze32 p old (the (root_hash squeeze32 (tree_of squeeze32 [[1], [2]])))"
    unfolding p_def old_def by code_simp
  have roots: "roots (tree_of squeeze32 [[1]]) = Some old"
      "root_hash squeeze32 (tree_of squeeze32 [[1], [2]]) =
       Some (the (root_hash squeeze32 (tree_of squeeze32 [[1], [2]])))"
    by (simp_all add: old_def roots_ok [OF tree_of_ok])
  have "sized [[1]]" "sized [[1], [2]]" by (simp_all add: sized_def)
  from upgrade_proof_sound [OF hash32_squeeze32 this wf roots cf v]
  have "old_len p = 1 \<and> new_len p = 2 \<and> strict_prefix [[1]] [[1], [2 :: byte]]" by simp
  then show ?thesis unfolding Let_def p_def [symmetric] old_def [symmetric] using v by blast
qed

end
