(* ===== verification/Bitfield.thy ===== *)
theory Bitfield
  imports Ordered
begin

text \<open>
  The sparse, paged bitfield of \<open>crates/storage/src/bitfield.rs\<close>, the presence map of a log: pages
  of 512 64-bit words in an ordered map, word-wise range updates, counting and searching, and the
  serialized form. Bit indices are natural numbers: the code's \<open>u64\<close> arithmetic is exact for every
  index below \<open>2 ^ 64 - 2 ^ 15\<close>, that is outside the very last page.
\<close>

section \<open>Words and pages\<close>

abbreviation BITS_PER_PAGE :: nat where "BITS_PER_PAGE \<equiv> 32768"

abbreviation WORDS_PER_PAGE :: nat where "WORDS_PER_PAGE \<equiv> 512"

type_synonym page = "u64 list"

type_synonym bitfield = "(nat, page) btmap"

text \<open>The bit counts of the standard library.\<close>

definition count_ones :: "u64 \<Rightarrow> nat" where
  "count_ones w = length (filter (bit w) [0..<64])"

definition trailing_zeros :: "u64 \<Rightarrow> nat" where
  "trailing_zeros w = length (takeWhile (\<lambda>n. \<not> bit w n) [0..<64])"

definition leading_zeros :: "u64 \<Rightarrow> nat" where
  "leading_zeros w = length (takeWhile (\<lambda>n. \<not> bit w n) (rev [0..<64]))"

definition locate :: "nat \<Rightarrow> nat \<times> nat \<times> nat" where
  "locate i = (let bit_in_page = i mod BITS_PER_PAGE
               in (i div BITS_PER_PAGE, bit_in_page div 64, bit_in_page mod 64))"

definition word_mask :: "nat \<Rightarrow> nat \<Rightarrow> u64" where
  "word_mask lo hi =
     (let n = hi - lo
      in if n = 0 then 0 else if n = 64 then - 1 else push_bit lo (push_bit n 1 - 1))"

lemma chunk_gt: "0 < K \<Longrightarrow> b < (b div K + 1) * K" for b K :: nat
  using dividend_less_div_times [of K b] by (simp add: algebra_simps)

function page_set_range :: "page \<Rightarrow> nat \<Rightarrow> nat \<Rightarrow> bool \<Rightarrow> page" where
  "page_set_range pg b hi v =
     (if b < hi
      then let word = b div 64;
               word_top = (word + 1) * 64;
               top = min hi word_top;
               mask = word_mask (b mod 64) (top - word * 64)
           in page_set_range (if v then pg[word := pg ! word OR mask] else pg[word := pg ! word AND NOT mask]) top hi v
      else pg)"
  by pat_completeness auto
termination
  by (relation "measure (\<lambda>(pg, b, hi, v). hi - b)") (use chunk_gt [of 64] in \<open>auto simp: less_diff_conv2\<close>)

function page_count_set :: "page \<Rightarrow> nat \<Rightarrow> nat \<Rightarrow> nat \<Rightarrow> nat" where
  "page_count_set pg b hi c =
     (if b < hi
      then let word = b div 64;
               word_top = (word + 1) * 64;
               top = min hi word_top;
               mask = word_mask (b mod 64) (top - word * 64)
           in page_count_set pg top hi (c + count_ones (pg ! word AND mask))
      else c)"
  by pat_completeness auto
termination
  by (relation "measure (\<lambda>(pg, b, hi, c). hi - b)") (use chunk_gt [of 64] in \<open>auto simp: less_diff_conv2\<close>)

function page_find_first :: "page \<Rightarrow> bool \<Rightarrow> nat \<Rightarrow> nat option" where
  "page_find_first pg v b =
     (if b < BITS_PER_PAGE
      then let word = b div 64;
               w = (if v then pg ! word else NOT (pg ! word));
               masked = w AND push_bit (b mod 64) (- 1)
           in if masked \<noteq> 0 then Some (word * 64 + trailing_zeros masked)
              else page_find_first pg v ((word + 1) * 64)
      else None)"
  by pat_completeness auto
termination
  by (relation "measure (\<lambda>(pg, v, b). BITS_PER_PAGE - b)") (use chunk_gt [of 64] in \<open>auto simp: less_diff_conv2\<close>)

text \<open>
  \<open>word\<close> is an \<open>i64\<close> that counts down to -1; here the number of words still to be searched. Only the
  word of \<open>hi\<close> itself can be masked.
\<close>

fun page_last_loop :: "page \<Rightarrow> bool \<Rightarrow> nat \<Rightarrow> nat \<Rightarrow> nat option" where
  "page_last_loop pg v hi 0 = None"
| "page_last_loop pg v hi (Suc word) =
     (let w = (if v then pg ! word else NOT (pg ! word));
          masked = (if word * 64 + 63 \<le> hi then w else w AND word_mask 0 (hi mod 64 + 1))
      in if masked \<noteq> 0 then Some (word * 64 + (63 - leading_zeros masked))
         else page_last_loop pg v hi word)"

definition page_find_last :: "page \<Rightarrow> bool \<Rightarrow> nat \<Rightarrow> nat option" where
  "page_find_last pg v hi = page_last_loop pg v hi (hi div 64 + 1)"

declare page_set_range.simps [simp del] page_count_set.simps [simp del] page_find_first.simps [simp del]

section \<open>The field\<close>

definition bf_new :: bitfield where
  "bf_new = []"

definition bf_get :: "bitfield \<Rightarrow> nat \<Rightarrow> bool" where
  "bf_get b i = (let (pg, word, n) = locate i
                 in case bt_get b pg of None \<Rightarrow> False | Some p \<Rightarrow> drop_bit n (p ! word) AND 1 = 1)"

text \<open>\<open>entry(page).or_insert_with(zero page)\<close>.\<close>

definition page_or_zero :: "bitfield \<Rightarrow> nat \<Rightarrow> page" where
  "page_or_zero b pg = (case bt_get b pg of None \<Rightarrow> replicate WORDS_PER_PAGE 0 | Some p \<Rightarrow> p)"

definition bf_set :: "bitfield \<Rightarrow> nat \<Rightarrow> bool \<Rightarrow> bitfield" where
  "bf_set b i v =
     (let (pg, word, n) = locate i
      in if v then let p = page_or_zero b pg in bt_insert pg (p[word := p ! word OR push_bit n 1]) b
         else case bt_get b pg of
                None \<Rightarrow> b
              | Some p \<Rightarrow> bt_insert pg (p[word := p ! word AND NOT (push_bit n 1)]) b)"

function bf_set_range :: "bitfield \<Rightarrow> nat \<Rightarrow> nat \<Rightarrow> bool \<Rightarrow> bitfield" where
  "bf_set_range b i end v =
     (if i < end
      then let pg = i div BITS_PER_PAGE;
               page_base = pg * BITS_PER_PAGE;
               chunk_end = min end (page_base + BITS_PER_PAGE)
           in bf_set_range
                (if v then bt_insert pg (page_set_range (page_or_zero b pg) (i - page_base) (chunk_end - page_base) True) b
                 else case bt_get b pg of
                        None \<Rightarrow> b
                      | Some p \<Rightarrow> bt_insert pg (page_set_range p (i - page_base) (chunk_end - page_base) False) b)
                chunk_end end v
      else b)"
  by pat_completeness auto
termination
  by (relation "measure (\<lambda>(b, i, end, v). end - i)") (use chunk_gt [of BITS_PER_PAGE] in \<open>auto simp: less_diff_conv2 algebra_simps\<close>)

function bf_count_loop :: "bitfield \<Rightarrow> nat \<Rightarrow> nat \<Rightarrow> bool \<Rightarrow> nat \<Rightarrow> nat" where
  "bf_count_loop b i end v c =
     (if i < end
      then let pg = i div BITS_PER_PAGE;
               page_base = pg * BITS_PER_PAGE;
               chunk_end = min end (page_base + BITS_PER_PAGE);
               rng = chunk_end - i;
               ones = (case bt_get b pg of
                         None \<Rightarrow> 0
                       | Some p \<Rightarrow> page_count_set p (i - page_base) (chunk_end - page_base) 0)
           in bf_count_loop b chunk_end end v (c + (if v then ones else rng - ones))
      else c)"
  by pat_completeness auto
termination
  by (relation "measure (\<lambda>(b, i, end, v, c). end - i)") (use chunk_gt [of BITS_PER_PAGE] in \<open>auto simp: less_diff_conv2 algebra_simps\<close>)

declare bf_set_range.simps [simp del] bf_count_loop.simps [simp del]

text \<open>\<open>count\<close>: the second argument is a length.\<close>

definition bf_count :: "bitfield \<Rightarrow> nat \<Rightarrow> nat \<Rightarrow> bool \<Rightarrow> nat" where
  "bf_count b start len v = bf_count_loop b start (start + len) v 0"

text \<open>The search for a set bit visits the stored pages only.\<close>

fun first_set_loop :: "nat \<Rightarrow> bitfield \<Rightarrow> nat option" where
  "first_set_loop position [] = None"
| "first_set_loop position ((pg, p) # rest) =
     (let lo = (if pg = position div BITS_PER_PAGE then position mod BITS_PER_PAGE else 0)
      in case page_find_first p True lo of
           Some off \<Rightarrow> Some (pg * BITS_PER_PAGE + off)
         | None \<Rightarrow> first_set_loop position rest)"

text \<open>The search for an unset bit ends at the first page that is absent or not full.\<close>

lemma pages_left:
  assumes "bt_get b pg = Some p"
  shows "card {q. Suc pg \<le> q \<and> bt_contains b q} < card {q. pg \<le> q \<and> bt_contains b q}"
proof (rule psubset_card_mono)
  show "finite {q. pg \<le> q \<and> bt_contains b q}" by (rule finite_subset [of _ "fst ` set b"]) (auto simp: bt_contains_iff)
  show "{q. Suc pg \<le> q \<and> bt_contains b q} \<subset> {q. pg \<le> q \<and> bt_contains b q}"
    using assms by (auto simp: bt_contains_def dest!: equalityD2 [THEN subsetD, of _ _ pg])
qed

function first_unset_loop :: "bitfield \<Rightarrow> nat \<Rightarrow> nat \<Rightarrow> nat option" where
  "first_unset_loop b position pg =
     (let lo = (if pg = position div BITS_PER_PAGE then position mod BITS_PER_PAGE else 0)
      in case bt_get b pg of
           None \<Rightarrow> Some (pg * BITS_PER_PAGE + lo)
         | Some p \<Rightarrow>
             (case page_find_first p False lo of
                Some off \<Rightarrow> Some (pg * BITS_PER_PAGE + off)
              | None \<Rightarrow> first_unset_loop b position (pg + 1)))"
  by pat_completeness auto
termination
  by (relation "measure (\<lambda>(b, position, pg). card {q. pg \<le> q \<and> bt_contains b q})") (auto simp: pages_left)

declare first_unset_loop.simps [simp del]

definition bf_find_first :: "bitfield \<Rightarrow> bool \<Rightarrow> nat \<Rightarrow> nat option" where
  "bf_find_first b v position =
     (let start_page = position div BITS_PER_PAGE
      in if v then first_set_loop position (filter (\<lambda>(pg, _). start_page \<le> pg) b)
         else first_unset_loop b position start_page)"

fun last_set_loop :: "nat \<Rightarrow> bitfield \<Rightarrow> nat option" where
  "last_set_loop position [] = None"
| "last_set_loop position ((pg, p) # rest) =
     (let hi = (if pg = position div BITS_PER_PAGE then position mod BITS_PER_PAGE else BITS_PER_PAGE - 1)
      in case page_find_last p True hi of
           Some off \<Rightarrow> Some (pg * BITS_PER_PAGE + off)
         | None \<Rightarrow> last_set_loop position rest)"

text \<open>\<open>page\<close> is an \<open>i64\<close> that counts down to -1; here the number of pages still to be searched.\<close>

fun last_unset_loop :: "bitfield \<Rightarrow> nat \<Rightarrow> nat \<Rightarrow> nat option" where
  "last_unset_loop b position 0 = None"
| "last_unset_loop b position (Suc pg) =
     (let hi = (if pg = position div BITS_PER_PAGE then position mod BITS_PER_PAGE else BITS_PER_PAGE - 1)
      in case bt_get b pg of
           None \<Rightarrow> Some (pg * BITS_PER_PAGE + hi)
         | Some p \<Rightarrow>
             (case page_find_last p False hi of
                Some off \<Rightarrow> Some (pg * BITS_PER_PAGE + off)
              | None \<Rightarrow> last_unset_loop b position pg))"

definition bf_find_last :: "bitfield \<Rightarrow> bool \<Rightarrow> nat \<Rightarrow> nat option" where
  "bf_find_last b v position =
     (let start_page = position div BITS_PER_PAGE
      in if v then last_set_loop position (rev (filter (\<lambda>(pg, _). pg \<le> start_page) b))
         else last_unset_loop b position (start_page + 1))"

definition first_set :: "bitfield \<Rightarrow> nat \<Rightarrow> nat option" where
  "first_set b position = bf_find_first b True position"

definition first_unset :: "bitfield \<Rightarrow> nat \<Rightarrow> nat option" where
  "first_unset b position = bf_find_first b False position"

definition last_set :: "bitfield \<Rightarrow> nat \<Rightarrow> nat option" where
  "last_set b position = bf_find_last b True position"

definition last_unset :: "bitfield \<Rightarrow> nat \<Rightarrow> nat option" where
  "last_unset b position = bf_find_last b False position"

section \<open>The serialized form\<close>

definition word_bytes :: "u64 \<Rightarrow> bytes" where
  "word_bytes w = le64 (unat w)"

definition bf_serialize :: "bitfield \<Rightarrow> bytes" where
  "bf_serialize b =
     (let live = filter (\<lambda>(_, p). list_ex (\<lambda>w. w \<noteq> 0) p) b
      in le64 (length live) @ concat (map (\<lambda>(idx, p). le64 idx @ concat (map word_bytes p)) live))"

fun read_words :: "nat \<Rightarrow> bytes \<Rightarrow> page" where
  "read_words 0 bs = []"
| "read_words (Suc n) bs = word_of_nat (of_le (take 8 bs)) # read_words n (drop 8 bs)"

fun deserialize_pages :: "nat \<Rightarrow> bytes \<Rightarrow> bitfield \<Rightarrow> (bitfield \<times> bytes) option" where
  "deserialize_pages 0 bs pages = Some (pages, bs)"
| "deserialize_pages (Suc n) bs pages =
     (if length bs < 8 + WORDS_PER_PAGE * 8 then None
      else deserialize_pages n (drop (8 + WORDS_PER_PAGE * 8) bs)
             (bt_insert (of_le (take 8 bs)) (read_words WORDS_PER_PAGE (drop 8 bs)) pages))"

definition bf_deserialize :: "bytes \<Rightarrow> bitfield option" where
  "bf_deserialize bs =
     (if length bs < 8 then None
      else case deserialize_pages (of_le (take 8 bs)) (drop 8 bs) [] of
             None \<Rightarrow> None
           | Some (pages, rest) \<Rightarrow> if rest \<noteq> [] then None else Some pages)"

section \<open>Words\<close>

lemma bit_word_mask: "hi \<le> 64 \<Longrightarrow> bit (word_mask lo hi) n \<longleftrightarrow> lo \<le> n \<and> n < hi"
proof (cases "n < 64")
  case True
  assume "hi \<le> 64"
  then show ?thesis using True
    by (auto simp: word_mask_def Let_def bit_push_bit_iff bit_mask_iff simp flip: mask_eq_exp_minus_1)
next
  case False
  then show "hi \<le> 64 \<Longrightarrow> ?thesis" by (auto dest: bit_imp_le_length)
qed

lemma word_zero_iff: "w = 0 \<longleftrightarrow> (\<forall>n < 64. \<not> bit w n)" for w :: u64
  by (auto simp: bit_eq_iff dest: bit_imp_le_length)

lemma takeWhile_stop:
  assumes "x \<in> set xs" "\<not> P x"
  shows "length (takeWhile P xs) < length xs \<and> \<not> P (xs ! length (takeWhile P xs)) \<and>
         (\<forall>i < length (takeWhile P xs). P (xs ! i))"
  using assms by (induction xs) (auto simp: less_Suc_eq_0_disj)

lemma takeWhile_upt_stop:
  assumes "n < m" "\<not> P n"
  shows "length (takeWhile P [0..<m]) < m \<and> \<not> P (length (takeWhile P [0..<m])) \<and>
         (\<forall>i < length (takeWhile P [0..<m]). P i)"
  using takeWhile_stop [of n "[0..<m]" P] assms by (auto dest: order.strict_trans)

lemma trailing_zeros_least:
  assumes "w \<noteq> 0"
  shows "trailing_zeros w < 64 \<and> bit w (trailing_zeros w) \<and> (\<forall>n < trailing_zeros w. \<not> bit w n)"
proof -
  obtain n where "n < 64" "bit w n" using assms by (auto simp: word_zero_iff)
  then show ?thesis
    using takeWhile_upt_stop [of n 64 "\<lambda>n. \<not> bit w n"] unfolding trailing_zeros_def by blast
qed

lemma leading_zeros_greatest:
  assumes "w \<noteq> 0"
  shows "63 - leading_zeros w < 64 \<and> bit w (63 - leading_zeros w) \<and> (\<forall>n. 63 - leading_zeros w < n \<longrightarrow> \<not> bit w n)"
proof -
  let ?k = "leading_zeros w"
  obtain n where "n < 64" "bit w n" using assms by (auto simp: word_zero_iff)
  then have *: "?k < 64 \<and> bit w (rev [0..<64] ! ?k) \<and> (\<forall>i < ?k. \<not> bit w (rev [0..<64] ! i))"
    using takeWhile_stop [of n "rev [0..<64]" "\<lambda>n. \<not> bit w n"] unfolding leading_zeros_def by simp
  have r: "rev [0..<64] ! i = 63 - i" if "i < 64" for i using that by (simp add: rev_nth)
  have "\<not> bit w n" if "63 - ?k < n" for n
  proof (cases "n < 64")
    case True
    then have "63 - n < ?k" "63 - (63 - n) = n" using that * by auto
    then show ?thesis using * r [of "63 - n"] by (metis diff_less_Suc numeral_eq_Suc pred_numeral_simps(2) order.strict_trans)
  qed (auto dest: bit_imp_le_length)
  then show ?thesis using * r [of ?k] by auto
qed

lemma count_ones_card: "count_ones w = card {n. n < 64 \<and> bit w n}"
proof -
  have "{n. n < 64 \<and> bit w n} = set (filter (bit w) [0..<64])" by auto
  then show ?thesis using distinct_card [of "filter (bit w) [0..<64]"] unfolding count_ones_def by simp
qed

section \<open>Chunks\<close>

lemma offset_cmp: "\<lbrakk>i = p + r; j = p + s; p \<le> top\<rbrakk> \<Longrightarrow> i \<le> j \<and> j < top \<longleftrightarrow> r \<le> s \<and> s < top - p"
  for i j p r s top :: nat
  by auto

lemma chunk_mem:
  fixes i e K top j :: nat
  assumes "0 < K" "top = min e ((i div K + 1) * K)" "i < e"
  shows "i < top" "top \<le> e" "top - i div K * K \<le> K" "i div K * K \<le> top"
    "i \<le> j \<and> j < top \<longleftrightarrow> j div K = i div K \<and> i mod K \<le> j mod K \<and> j mod K < top - i div K * K"
proof -
  let ?q = "i div K"
  have i: "i = ?q * K + i mod K" by simp
  show top: "i < top" "top \<le> e" "top - ?q * K \<le> K" using chunk_gt [OF assms(1), of i] assms by auto
  show le: "?q * K \<le> top" using top(1) by (metis div_times_less_eq_dividend le_trans less_imp_le)
  have j: "j = j div K * K + j mod K" by simp
  have "j div K = ?q" if "i \<le> j" "j < top"
    using that assms(2) by (intro div_nat_eqI) (auto simp: mult.commute intro: le_trans [OF times_div_less_eq_dividend])
  moreover have "i \<le> j \<and> j < top \<longleftrightarrow> i mod K \<le> j mod K \<and> j mod K < top - ?q * K" if "j div K = ?q"
    using j that by (intro offset_cmp [OF i _ le]) simp
  ultimately show "i \<le> j \<and> j < top \<longleftrightarrow> j div K = ?q \<and> i mod K \<le> j mod K \<and> j mod K < top - ?q * K" by blast
qed

section \<open>Pages\<close>

definition page_bit :: "page \<Rightarrow> nat \<Rightarrow> bool" where
  "page_bit pg j = bit (pg ! (j div 64)) (j mod 64)"

lemma page_bit_update:
  "w < length pg \<Longrightarrow> page_bit (pg[w := x]) j = (if j div 64 = w then bit x (j mod 64) else page_bit pg j)"
  by (simp add: page_bit_def nth_list_update)

lemma set_word_range:
  fixes b hi top :: nat
  assumes "b < hi" "b div 64 < length pg" and top: "top = min hi ((b div 64 + 1) * 64)"
    and m: "m = word_mask (b mod 64) (top - b div 64 * 64)"
  shows "page_bit (if v then pg[b div 64 := pg ! (b div 64) OR m] else pg[b div 64 := pg ! (b div 64) AND NOT m]) j =
         (if b \<le> j \<and> j < top then v else page_bit pg j)"
proof -
  note ch = chunk_mem [of 64 top hi b, OF _ top assms(1)]
  have "bit m (j mod 64) \<longleftrightarrow> b mod 64 \<le> j mod 64 \<and> j mod 64 < top - b div 64 * 64"
    unfolding m using ch(3) by (intro bit_word_mask) simp
  then have "j div 64 = b div 64 \<Longrightarrow> bit m (j mod 64) \<longleftrightarrow> b \<le> j \<and> j < top" using ch(5) [of j] by simp
  moreover have "b \<le> j \<and> j < top \<Longrightarrow> j div 64 = b div 64" using ch(5) [of j] by simp
  ultimately show ?thesis
    using assms(2)
    by (cases "j div 64 = b div 64") (auto simp: page_bit_def nth_list_update bit_or_iff bit_and_iff bit_not_iff)
qed

lemma page_set_range_ok:
  assumes "length pg = WORDS_PER_PAGE" "hi \<le> BITS_PER_PAGE"
  shows "length (page_set_range pg b hi v) = WORDS_PER_PAGE \<and>
         page_bit (page_set_range pg b hi v) j = (if b \<le> j \<and> j < hi then v else page_bit pg j)"
  using assms
proof (induction pg b hi v rule: page_set_range.induct)
  case (1 pg b hi v)
  show ?case
  proof (cases "b < hi")
    case True
    define t where "t = min hi ((b div 64 + 1) * 64)"
    define m where "m = word_mask (b mod 64) (t - b div 64 * 64)"
    define pg' where "pg' = (if v then pg[b div 64 := pg ! (b div 64) OR m] else pg[b div 64 := pg ! (b div 64) AND NOT m])"
    have step: "page_set_range pg b hi v = page_set_range pg' t hi v"
      using True by (subst page_set_range.simps) (simp add: Let_def pg'_def m_def t_def)
    have w: "b div 64 < length pg" using True 1(2,3) by (simp add: less_mult_imp_div_less)
    have "length (page_set_range pg' t hi v) = WORDS_PER_PAGE \<and>
        page_bit (page_set_range pg' t hi v) j = (if t \<le> j \<and> j < hi then v else page_bit pg' j)"
      using 1(1) [OF True refl refl t_def m_def, folded pg'_def] 1(2,3) by (simp add: pg'_def)
    then show ?thesis
      using step set_word_range [OF True w t_def m_def, of v j, folded pg'_def]
        chunk_mem(1,2) [of 64 t hi b, OF _ t_def True] by auto
  next
    case False
    then have "page_set_range pg b hi v = pg" by (subst page_set_range.simps) simp
    then show ?thesis using 1(2) False by auto
  qed
qed

lemma count_word_range:
  fixes b hi top :: nat
  assumes "b < hi" and top: "top = min hi ((b div 64 + 1) * 64)"
  shows "count_ones (pg ! (b div 64) AND word_mask (b mod 64) (top - b div 64 * 64)) =
         card {j. b \<le> j \<and> j < top \<and> page_bit pg j}"
proof -
  let ?w = "b div 64" and ?x = "pg ! (b div 64) AND word_mask (b mod 64) (top - b div 64 * 64)"
  have x: "bit ?x n \<longleftrightarrow> bit (pg ! ?w) n \<and> b mod 64 \<le> n \<and> n < top - ?w * 64" for n
    using chunk_mem(3) [of 64 top hi b, OF _ top assms(1)] by (simp add: bit_and_iff bit_word_mask)
  note ch = chunk_mem(5) [of 64 top hi b, OF _ top assms(1)]
  have "bij_betw (\<lambda>n. ?w * 64 + n) {n. n < 64 \<and> bit ?x n} {j. b \<le> j \<and> j < top \<and> page_bit pg j}"
  proof (rule bij_betw_byWitness [where f' = "\<lambda>j. j mod 64"])
    show "(\<lambda>n. ?w * 64 + n) ` {n. n < 64 \<and> bit ?x n} \<subseteq> {j. b \<le> j \<and> j < top \<and> page_bit pg j}"
    proof clarify
      fix n
      assume "n < 64" "bit ?x n"
      then show "b \<le> ?w * 64 + n \<and> ?w * 64 + n < top \<and> page_bit pg (?w * 64 + n)"
        using ch [of "?w * 64 + n"] x [of n] by (simp add: page_bit_def)
    qed
    show "(\<lambda>j. j mod 64) ` {j. b \<le> j \<and> j < top \<and> page_bit pg j} \<subseteq> {n. n < 64 \<and> bit ?x n}"
    proof clarify
      fix j
      assume "b \<le> j" "j < top" "page_bit pg j"
      then show "j mod 64 < 64 \<and> bit ?x (j mod 64)"
        using ch [of j] x [of "j mod 64"] by (simp add: page_bit_def)
    qed
    show "\<forall>j \<in> {j. b \<le> j \<and> j < top \<and> page_bit pg j}. ?w * 64 + j mod 64 = j"
    proof
      fix j
      assume "j \<in> {j. b \<le> j \<and> j < top \<and> page_bit pg j}"
      then have "j div 64 = ?w" using ch [of j] by simp
      then show "?w * 64 + j mod 64 = j" using div_mult_mod_eq [of j 64] by simp
    qed
  qed simp
  then show ?thesis unfolding count_ones_card by (rule bij_betw_same_card)
qed

lemma card_split_range:
  fixes b top hi :: nat
  assumes "b \<le> top" "top \<le> hi"
  shows "card {j. b \<le> j \<and> j < hi \<and> P j} = card {j. b \<le> j \<and> j < top \<and> P j} + card {j. top \<le> j \<and> j < hi \<and> P j}"
proof -
  have "{j. b \<le> j \<and> j < hi \<and> P j} = {j. b \<le> j \<and> j < top \<and> P j} \<union> {j. top \<le> j \<and> j < hi \<and> P j}"
    using assms by auto
  then show ?thesis by (simp add: card_Un_disjoint disjoint_iff)
qed

lemma page_count_set_ok: "page_count_set pg b hi c = c + card {j. b \<le> j \<and> j < hi \<and> page_bit pg j}"
proof (induction pg b hi c rule: page_count_set.induct)
  case (1 pg b hi c)
  show ?case
  proof (cases "b < hi")
    case True
    define t where "t = min hi ((b div 64 + 1) * 64)"
    define m where "m = word_mask (b mod 64) (t - b div 64 * 64)"
    note ch = chunk_mem(1,2) [of 64 t hi b, OF _ t_def True]
    have "page_count_set pg b hi c = page_count_set pg t hi (c + count_ones (pg ! (b div 64) AND m))"
      using True by (subst page_count_set.simps) (simp add: Let_def m_def t_def)
    then show ?thesis
      using 1 [OF True refl refl t_def m_def] count_word_range [OF True t_def, of pg, folded m_def]
        card_split_range [of b t hi "page_bit pg"] ch by simp
  next
    case False
    then have "{j. b \<le> j \<and> j < hi \<and> page_bit pg j} = {}" by auto
    then show ?thesis using False by (subst page_count_set.simps) simp
  qed
qed

section \<open>Searching a page\<close>

text \<open>The first index from \<open>lo\<close> on and the last index up to \<open>hi\<close> with a property, if there is one.\<close>

definition is_first :: "(nat \<Rightarrow> bool) \<Rightarrow> nat \<Rightarrow> nat option \<Rightarrow> bool" where
  "is_first P lo r \<longleftrightarrow>
     (case r of None \<Rightarrow> \<forall>i \<ge> lo. \<not> P i | Some k \<Rightarrow> lo \<le> k \<and> P k \<and> (\<forall>i. lo \<le> i \<and> i < k \<longrightarrow> \<not> P i))"

definition is_last :: "(nat \<Rightarrow> bool) \<Rightarrow> nat \<Rightarrow> nat option \<Rightarrow> bool" where
  "is_last P hi r \<longleftrightarrow>
     (case r of None \<Rightarrow> \<forall>i \<le> hi. \<not> P i | Some k \<Rightarrow> k \<le> hi \<and> P k \<and> (\<forall>i. k < i \<and> i \<le> hi \<longrightarrow> \<not> P i))"

lemma is_first_skip:
  assumes "is_first P m r" "lo \<le> m" "\<And>i. lo \<le> i \<Longrightarrow> i < m \<Longrightarrow> \<not> P i"
  shows "is_first P lo r"
  using assms unfolding is_first_def by (cases r) (force simp: not_less)+

lemma is_first_cong: "(\<And>i. lo \<le> i \<Longrightarrow> P i = Q i) \<Longrightarrow> is_first P lo r = is_first Q lo r"
  unfolding is_first_def by (cases r) auto

lemma is_last_cong: "(\<And>i. i \<le> hi \<Longrightarrow> P i = Q i) \<Longrightarrow> is_last P hi r = is_last Q hi r"
  unfolding is_last_def by (cases r) auto

definition want_word :: "page \<Rightarrow> bool \<Rightarrow> nat \<Rightarrow> u64" where
  "want_word pg v w = (if v then pg ! w else NOT (pg ! w))"

lemma want_word_bit: "n < 64 \<Longrightarrow> bit (want_word pg v w) n \<longleftrightarrow> page_bit pg (w * 64 + n) = v"
  by (auto simp: want_word_def page_bit_def bit_not_iff)

lemma bit_from: "n < 64 \<Longrightarrow> bit (w AND NOT (mask k)) n \<longleftrightarrow> bit w n \<and> k \<le> n" for w :: u64
  by (auto simp: bit_and_iff bit_not_iff bit_mask_iff)

lemma page_find_first_ok: "is_first (\<lambda>j. j < BITS_PER_PAGE \<and> page_bit pg j = v) b (page_find_first pg v b)"
proof (induction pg v b rule: page_find_first.induct)
  case (1 pg v b)
  let ?P = "\<lambda>j. j < BITS_PER_PAGE \<and> page_bit pg j = v"
  show ?case
  proof (cases "b < BITS_PER_PAGE")
    case True
    define w k where "w = b div 64" and "k = b mod 64"
    define x where "x = want_word pg v w AND push_bit k (- 1)"
    have bwk: "b = w * 64 + k" "k < 64" by (simp_all add: w_def k_def)
    have w: "w < 512" using True by (simp add: w_def less_mult_imp_div_less)
    have x: "bit x n \<longleftrightarrow> page_bit pg (w * 64 + n) = v \<and> k \<le> n" if "n < 64" for n
      using that by (simp add: x_def bit_from want_word_bit)
    have step: "page_find_first pg v b = (if x \<noteq> 0 then Some (w * 64 + trailing_zeros x) else page_find_first pg v ((w + 1) * 64))"
      using True by (subst page_find_first.simps) (simp add: Let_def x_def want_word_def w_def k_def)
    show ?thesis
    proof (cases "x = 0")
      case False
      define t where "t = trailing_zeros x"
      have t: "t < 64" "bit x t" "\<And>n. n < t \<Longrightarrow> \<not> bit x n" using trailing_zeros_least [OF False] by (auto simp: t_def)
      have "page_bit pg (w * 64 + t) = v" "k \<le> t" using t x by auto
      moreover have "page_bit pg i \<noteq> v" if i: "b \<le> i" "i < w * 64 + t" for i
      proof -
        have "i = w * 64 + (i - w * 64)" "k \<le> i - w * 64" "i - w * 64 < t" using i bwk by auto
        then show ?thesis using t(1,3) x [of "i - w * 64"] by (metis order.strict_trans)
      qed
      moreover have "w * 64 + t < BITS_PER_PAGE" using w t(1) by simp
      ultimately show ?thesis using step False bwk by (auto simp: is_first_def t_def)
    next
      case z: True
      have "\<not> ?P i" if i: "b \<le> i" "i < (w + 1) * 64" for i
      proof -
        have "i = w * 64 + (i - w * 64)" "k \<le> i - w * 64" "i - w * 64 < 64" using i bwk by auto
        moreover have "\<not> bit x (i - w * 64)" using z by simp
        ultimately show ?thesis using x [of "i - w * 64"] by metis
      qed
      moreover have "is_first ?P ((w + 1) * 64) (page_find_first pg v ((w + 1) * 64))"
        using 1 [OF True w_def refl refl] z by (simp add: x_def want_word_def k_def)
      ultimately show ?thesis using step z bwk is_first_skip [of ?P "(w + 1) * 64"] by simp
    qed
  next
    case False
    then show ?thesis by (subst page_find_first.simps) (simp add: is_first_def)
  qed
qed

lemma page_last_loop_ok:
  "n \<le> hi div 64 + 1 \<Longrightarrow> is_last (\<lambda>j. j < n * 64 \<and> page_bit pg j = v) hi (page_last_loop pg v hi n)"
proof (induction n)
  case 0
  show ?case by (simp add: is_last_def)
next
  case (Suc w)
  let ?P = "\<lambda>n j. j < n * 64 \<and> page_bit pg j = v"
  define x where "x = (if w * 64 + 63 \<le> hi then want_word pg v w else want_word pg v w AND word_mask 0 (hi mod 64 + 1))"
  have step: "page_last_loop pg v hi (Suc w) = (if x \<noteq> 0 then Some (w * 64 + (63 - leading_zeros x)) else page_last_loop pg v hi w)"
    by (simp add: Let_def x_def want_word_def)
  have hi: "w * 64 \<le> hi" using Suc(2) div_times_less_eq_dividend [of hi 64] by simp
  have x: "bit x n \<longleftrightarrow> page_bit pg (w * 64 + n) = v \<and> w * 64 + n \<le> hi" if "n < 64" for n
  proof (cases "w * 64 + 63 \<le> hi")
    case True
    then show ?thesis using that by (simp add: x_def want_word_bit)
  next
    case False
    then have "hi div 64 = w" using hi by (intro div_nat_eqI) auto
    then have h: "hi = w * 64 + hi mod 64" using div_mult_mod_eq [of hi 64] by simp
    have "bit (word_mask 0 (hi mod 64 + 1)) n \<longleftrightarrow> n \<le> hi mod 64"
      using bit_word_mask [of "hi mod 64 + 1" 0 n] by (simp add: less_Suc_eq_le Suc_le_eq)
    also have "\<dots> \<longleftrightarrow> w * 64 + n \<le> hi" using h by linarith
    finally show ?thesis using False that by (simp add: x_def bit_and_iff want_word_bit)
  qed
  have idx: "i = w * 64 + (i - w * 64)" "i - w * 64 < 64" if "w * 64 \<le> i" "i < Suc w * 64" for i using that by auto
  show ?case
  proof (cases "x = 0")
    case True
    then have "\<not> ?P (Suc w) i" if "w * 64 \<le> i" "i \<le> hi" for i
      using that x [of "i - w * 64"] idx [of i] by (metis bit_0_eq bot_apply bot_bool_def)
    then have "is_last (?P (Suc w)) hi r = is_last (?P w) hi r" for r
      by (intro is_last_cong) (metis add.commute mult_Suc not_less trans_less_add2)
    then show ?thesis using step True Suc by simp
  next
    case False
    define t where "t = 63 - leading_zeros x"
    have t: "t < 64" "bit x t" "\<And>n. t < n \<Longrightarrow> \<not> bit x n" using leading_zeros_greatest [OF False] by (auto simp: t_def)
    have "page_bit pg (w * 64 + t) = v" "w * 64 + t \<le> hi" using t x by auto
    moreover have "\<not> ?P (Suc w) i" if i: "w * 64 + t < i" "i \<le> hi" for i
    proof
      assume P: "?P (Suc w) i"
      have "i - w * 64 < 64" "i = w * 64 + (i - w * 64)" using idx [of i] P i by auto
      then have "bit x (i - w * 64)" using x [of "i - w * 64"] P i(2) by metis
      moreover have "t < i - w * 64" using i by linarith
      ultimately show False using t(3) by blast
    qed
    ultimately show ?thesis using step False t(1) by (auto simp: is_last_def t_def)
  qed
qed

lemma page_find_last_ok:
  assumes "hi < BITS_PER_PAGE"
  shows "is_last (\<lambda>j. page_bit pg j = v) hi (page_find_last pg v hi)"
proof -
  have "is_last (\<lambda>j. j < (hi div 64 + 1) * 64 \<and> page_bit pg j = v) hi r = is_last (\<lambda>j. page_bit pg j = v) hi r" for r
    using chunk_gt [of 64 hi] by (intro is_last_cong) auto
  then show ?thesis using page_last_loop_ok [of "hi div 64 + 1" hi pg v] by (simp add: page_find_last_def)
qed

section \<open>The field as a set of indices\<close>

definition bf_ok :: "bitfield \<Rightarrow> bool" where
  "bf_ok b \<longleftrightarrow> bt_inv b \<and> (\<forall>pg p. bt_get b pg = Some p \<longrightarrow> length p = WORDS_PER_PAGE)"

lemma bf_get_page: "bf_get b i = (case bt_get b (i div BITS_PER_PAGE) of
    None \<Rightarrow> False | Some p \<Rightarrow> page_bit p (i mod BITS_PER_PAGE))"
proof -
  have "drop_bit n w AND 1 = 1 \<longleftrightarrow> bit w n" for n and w :: u64
    by (simp add: bit_iff_odd_drop_bit and_one_eq odd_iff_mod_2_eq_one)
  then show ?thesis by (simp add: bf_get_def locate_def Let_def page_bit_def split: option.split)
qed

lemma bf_ok_new: "bf_ok bf_new" "\<not> bf_get bf_new i"
  by (simp_all add: bf_ok_def bf_new_def bf_get_page)

lemma page_bit_zero [simp]: "j < BITS_PER_PAGE \<Longrightarrow> \<not> page_bit (replicate WORDS_PER_PAGE 0) j"
  by (simp add: page_bit_def less_mult_imp_div_less)

lemma page_or_zero_ok:
  assumes "bf_ok b"
  shows "length (page_or_zero b pg) = WORDS_PER_PAGE"
    "j < BITS_PER_PAGE \<Longrightarrow> page_bit (page_or_zero b pg) j = bf_get b (pg * BITS_PER_PAGE + j)"
  using assms by (auto simp: page_or_zero_def bf_ok_def bf_get_page split: option.split)

text \<open>Replacing one page.\<close>

lemma bf_insert_page:
  assumes "bf_ok b" "length p = WORDS_PER_PAGE"
  shows "bf_ok (bt_insert pg p b)"
    "bf_get (bt_insert pg p b) i =
       (if i div BITS_PER_PAGE = pg then page_bit p (i mod BITS_PER_PAGE) else bf_get b i)"
  using assms by (auto simp: bf_ok_def bf_get_page)

lemma bf_page:
  assumes "bf_ok b" "bt_get b pg = Some p"
  shows "length p = WORDS_PER_PAGE" "k < BITS_PER_PAGE \<Longrightarrow> page_bit p k = bf_get b (pg * BITS_PER_PAGE + k)"
  using assms by (auto simp: bf_ok_def bf_get_page)

lemma locate_eq:
  "j div BITS_PER_PAGE = i div BITS_PER_PAGE \<Longrightarrow>
   (j mod BITS_PER_PAGE div 64 = i mod BITS_PER_PAGE div 64 \<and> j mod BITS_PER_PAGE mod 64 = i mod BITS_PER_PAGE mod 64) = (j = i)"
  by (metis div_mult_mod_eq)

lemma bf_update_word:
  assumes "bf_ok b" "locate i = (pg, w, n)" "length p = WORDS_PER_PAGE"
    and p: "\<And>k. k < BITS_PER_PAGE \<Longrightarrow> page_bit p k = bf_get b (pg * BITS_PER_PAGE + k)"
    and x: "\<And>k. k < 64 \<Longrightarrow> bit x k = (if k = n then v else bit (p ! w) k)"
  shows "bf_ok (bt_insert pg (p[w := x]) b)"
    "bf_get (bt_insert pg (p[w := x]) b) j = (if j = i then v else bf_get b j)"
proof -
  have loc: "pg = i div BITS_PER_PAGE" "w = i mod BITS_PER_PAGE div 64" "n = i mod BITS_PER_PAGE mod 64"
    using assms(2) by (simp_all add: locate_def Let_def)
  have w: "w < length p" using assms(3) by (simp add: loc less_mult_imp_div_less)
  note ins = bf_insert_page [OF assms(1), of "p[w := x]" pg]
  show "bf_ok (bt_insert pg (p[w := x]) b)" using ins(1) assms(3) by simp
  show "bf_get (bt_insert pg (p[w := x]) b) j = (if j = i then v else bf_get b j)"
  proof (cases "j div BITS_PER_PAGE = pg")
    case True
    define k where "k = j mod BITS_PER_PAGE"
    have old: "bf_get b j = page_bit p k"
      using p [of k] True div_mult_mod_eq [of j BITS_PER_PAGE] by (simp add: k_def)
    have new: "bf_get (bt_insert pg (p[w := x]) b) j = page_bit (p[w := x]) k"
      using ins(2) [of j] assms(3) True by (simp add: k_def)
    have at: "(k div 64 = w \<and> k mod 64 = n) = (j = i)"
      using locate_eq [OF True [unfolded loc(1)]] by (simp only: k_def loc(2,3))
    show ?thesis
    proof (cases "k div 64 = w")
      case kw: True
      then show ?thesis
        using at old x [of "k mod 64"] unfolding new page_bit_update [OF w] by (simp add: page_bit_def)
    next
      case False
      then show ?thesis using at old unfolding new page_bit_update [OF w] by auto
    qed
  next
    case False
    then have "j \<noteq> i" by (auto simp: loc(1))
    then show ?thesis using False ins(2) [of j] assms(3) by simp
  qed
qed

lemma bf_set_ok:
  assumes "bf_ok b"
  shows "bf_ok (bf_set b i v)" "bf_get (bf_set b i v) j = (if j = i then v else bf_get b j)"
proof -
  obtain pg w n where loc: "locate i = (pg, w, n)" by (metis prod.exhaust)
  then have pg: "pg = i div BITS_PER_PAGE" by (simp add: locate_def Let_def)
  have "bf_ok (bf_set b i v) \<and> bf_get (bf_set b i v) j = (if j = i then v else bf_get b j)"
  proof (cases v)
    case True
    let ?p = "page_or_zero b pg"
    have x: "bit (?p ! w OR push_bit n 1) k = (if k = n then True else bit (?p ! w) k)" if "k < 64" for k
      using that by (auto simp: bit_or_iff bit_exp_iff)
    show ?thesis
      using bf_update_word [OF assms loc page_or_zero_ok [OF assms] x] True by (simp add: bf_set_def loc Let_def)
  next
    case False
    show ?thesis
    proof (cases "bt_get b pg")
      case None
      then have "\<not> bf_get b i" by (simp add: bf_get_page pg)
      then show ?thesis using False None assms by (simp add: bf_set_def loc)
    next
      case (Some p)
      have x: "bit (p ! w AND NOT (push_bit n 1)) k = (if k = n then False else bit (p ! w) k)" if "k < 64" for k
        using that by (auto simp: bit_and_iff bit_not_iff bit_exp_iff)
      show ?thesis
        using bf_update_word [OF assms loc bf_page [OF assms Some] x] False Some by (simp add: bf_set_def loc)
    qed
  qed
  then show "bf_ok (bf_set b i v)" "bf_get (bf_set b i v) j = (if j = i then v else bf_get b j)" by simp_all
qed

text \<open>One page of a range update.\<close>

lemma set_page_range:
  fixes i e t :: nat
  assumes "bf_ok b" "i < e" and t: "t = min e ((i div BITS_PER_PAGE + 1) * BITS_PER_PAGE)"
    and p: "length p = WORDS_PER_PAGE"
      "\<And>k. k < BITS_PER_PAGE \<Longrightarrow> page_bit p k = bf_get b (i div BITS_PER_PAGE * BITS_PER_PAGE + k)"
  defines "base \<equiv> i div BITS_PER_PAGE * BITS_PER_PAGE"
  shows "bf_ok (bt_insert (i div BITS_PER_PAGE) (page_set_range p (i - base) (t - base) v) b)"
    "bf_get (bt_insert (i div BITS_PER_PAGE) (page_set_range p (i - base) (t - base) v) b) j =
       (if i \<le> j \<and> j < t then v else bf_get b j)"
proof -
  let ?p = "page_set_range p (i - base) (t - base) v"
  note ch = chunk_mem [of BITS_PER_PAGE t e i, OF _ t assms(2)]
  have r: "length ?p = WORDS_PER_PAGE"
    "page_bit ?p k = (if i - base \<le> k \<and> k < t - base then v else page_bit p k)" for k
    using page_set_range_ok [OF p(1), of "t - base"] ch(3) by (simp_all add: base_def)
  have im: "i - base = i mod BITS_PER_PAGE" unfolding base_def by (simp add: minus_div_mult_eq_mod)
  note ins = bf_insert_page [OF assms(1) r(1), of "i div BITS_PER_PAGE"]
  show "bf_ok (bt_insert (i div BITS_PER_PAGE) ?p b)" by (rule ins)
  show "bf_get (bt_insert (i div BITS_PER_PAGE) ?p b) j = (if i \<le> j \<and> j < t then v else bf_get b j)"
  proof (cases "j div BITS_PER_PAGE = i div BITS_PER_PAGE")
    case True
    have "bf_get b j = page_bit p (j mod BITS_PER_PAGE)"
      using p(2) [of "j mod BITS_PER_PAGE"] True div_mult_mod_eq [of j BITS_PER_PAGE] by simp
    then show ?thesis using ins(2) [of j] True r(2) [of "j mod BITS_PER_PAGE"] ch(5) [of j] im by (simp add: base_def)
  next
    case False
    then show ?thesis using ins(2) [of j] ch(5) [of j] by auto
  qed
qed

text \<open>One turn of the loop of \<open>set_range\<close>.\<close>

definition set_chunk :: "bitfield \<Rightarrow> nat \<Rightarrow> nat \<Rightarrow> bool \<Rightarrow> bitfield" where
  "set_chunk b i t v =
     (let pg = i div BITS_PER_PAGE; page_base = pg * BITS_PER_PAGE
      in if v then bt_insert pg (page_set_range (page_or_zero b pg) (i - page_base) (t - page_base) True) b
         else case bt_get b pg of
                None \<Rightarrow> b
              | Some p \<Rightarrow> bt_insert pg (page_set_range p (i - page_base) (t - page_base) False) b)"

lemma set_chunk_ok:
  fixes i e t :: nat
  assumes "bf_ok b" "i < e" and t: "t = min e ((i div BITS_PER_PAGE + 1) * BITS_PER_PAGE)"
  shows "bf_ok (set_chunk b i t v) \<and> bf_get (set_chunk b i t v) j = (if i \<le> j \<and> j < t then v else bf_get b j)"
proof (cases v)
  case True
  then show ?thesis
    using set_page_range [OF assms(1-3) page_or_zero_ok(1) [OF assms(1)] page_or_zero_ok(2) [OF assms(1)], of True]
    by (simp add: set_chunk_def Let_def)
next
  case False
  show ?thesis
  proof (cases "bt_get b (i div BITS_PER_PAGE)")
    case None
    then have "\<not> bf_get b j" if "i \<le> j" "j < t"
      using that chunk_mem(5) [of BITS_PER_PAGE t e i j, OF _ t assms(2)] by (simp add: bf_get_page)
    then show ?thesis using False None assms(1) by (auto simp: set_chunk_def)
  next
    case (Some p)
    show ?thesis
      using set_page_range [OF assms(1-3) bf_page [OF assms(1) Some], of False] False Some
      by (simp add: set_chunk_def Let_def)
  qed
qed

lemma bf_set_range_ok:
  assumes "bf_ok b"
  shows "bf_ok (bf_set_range b i e v) \<and> bf_get (bf_set_range b i e v) j = (if i \<le> j \<and> j < e then v else bf_get b j)"
  using assms
proof (induction "e - i" arbitrary: b i rule: less_induct)
  case less
  show ?case
  proof (cases "i < e")
    case True
    define t where "t = min e ((i div BITS_PER_PAGE + 1) * BITS_PER_PAGE)"
    then have t2: "t = min e (i div BITS_PER_PAGE * BITS_PER_PAGE + BITS_PER_PAGE)" by simp
    have step: "bf_set_range b i e v = bf_set_range (set_chunk b i t v) t e v"
      by (subst bf_set_range.simps) (simp only: True if_True Let_def set_chunk_def t2 [symmetric])
    note ch = chunk_mem(1,2) [of BITS_PER_PAGE t e i, OF _ t_def True]
    note sc = set_chunk_ok [OF less(2) True t_def, of v]
    show ?thesis using less(1) [of t "set_chunk b i t v"] sc step ch by auto
  next
    case False
    then have "bf_set_range b i e v = b" by (subst bf_set_range.simps) simp
    then show ?thesis using less(2) False by auto
  qed
qed

lemma count_page_range:
  fixes i e t :: nat
  assumes "bf_ok b" "i < e" and t: "t = min e ((i div BITS_PER_PAGE + 1) * BITS_PER_PAGE)"
  defines "base \<equiv> i div BITS_PER_PAGE * BITS_PER_PAGE"
  shows "(case bt_get b (i div BITS_PER_PAGE) of None \<Rightarrow> 0 | Some p \<Rightarrow> page_count_set p (i - base) (t - base) 0) =
         card {j. i \<le> j \<and> j < t \<and> bf_get b j}"
proof -
  note ch = chunk_mem [of BITS_PER_PAGE t e i, OF _ t assms(2)]
  have im: "i = base + (i - base)" unfolding base_def by simp
  show ?thesis
  proof (cases "bt_get b (i div BITS_PER_PAGE)")
    case None
    then have "\<not> bf_get b j" if "i \<le> j" "j < t" for j using that ch(5) [of j] by (simp add: bf_get_page)
    then have "{j. i \<le> j \<and> j < t \<and> bf_get b j} = {}" by auto
    then show ?thesis using None by simp
  next
    case (Some p)
    have bits: "page_bit p k = bf_get b (base + k)" if "k < t - base" for k
      using bf_page(2) [OF assms(1) Some, of k] that ch(3) by (simp add: base_def)
    have "bij_betw (\<lambda>k. base + k) {k. i - base \<le> k \<and> k < t - base \<and> page_bit p k} {j. i \<le> j \<and> j < t \<and> bf_get b j}"
    proof (rule bij_betw_byWitness [where f' = "\<lambda>j. j - base"])
      show "(\<lambda>k. base + k) ` {k. i - base \<le> k \<and> k < t - base \<and> page_bit p k} \<subseteq> {j. i \<le> j \<and> j < t \<and> bf_get b j}"
        using bits by auto
      show "(\<lambda>j. j - base) ` {j. i \<le> j \<and> j < t \<and> bf_get b j} \<subseteq> {k. i - base \<le> k \<and> k < t - base \<and> page_bit p k}"
      proof clarify
        fix j
        assume j: "i \<le> j" "j < t" "bf_get b j"
        then have "base + (j - base) = j" "j - base < t - base" using im by auto
        then show "i - base \<le> j - base \<and> j - base < t - base \<and> page_bit p (j - base)" using j bits [of "j - base"] by simp
      qed
    qed (use im in auto)
    from bij_betw_same_card [OF this] show ?thesis
      using Some page_count_set_ok [of p "i - base" "t - base" 0] by simp
  qed
qed

lemma count_complement:
  fixes i t :: nat
  shows "t - i - card {j. i \<le> j \<and> j < t \<and> P j} = card {j. i \<le> j \<and> j < t \<and> \<not> P j}"
proof -
  have "{j. i \<le> j \<and> j < t \<and> \<not> P j} = {i..<t} - {j. i \<le> j \<and> j < t \<and> P j}" by auto
  moreover have "card ({i..<t} - {j. i \<le> j \<and> j < t \<and> P j}) = card {i..<t} - card {j. i \<le> j \<and> j < t \<and> P j}"
    by (rule card_Diff_subset) auto
  ultimately show ?thesis by simp
qed

lemma bf_count_loop_ok:
  assumes "bf_ok b"
  shows "bf_count_loop b i e v c = c + card {j. i \<le> j \<and> j < e \<and> bf_get b j = v}"
proof (induction "e - i" arbitrary: i c rule: less_induct)
  case less
  show ?case
  proof (cases "i < e")
    case True
    define t where "t = min e ((i div BITS_PER_PAGE + 1) * BITS_PER_PAGE)"
    then have t2: "t = min e (i div BITS_PER_PAGE * BITS_PER_PAGE + BITS_PER_PAGE)" by simp
    define ones where "ones = card {j. i \<le> j \<and> j < t \<and> bf_get b j}"
    note ch = chunk_mem(1,2) [of BITS_PER_PAGE t e i, OF _ t_def True]
    have "bf_count_loop b i e v c = bf_count_loop b t e v (c + (if v then ones else t - i - ones))"
      by (subst bf_count_loop.simps)
        (simp only: True if_True Let_def t2 [symmetric] count_page_range [OF assms True t_def, folded ones_def])
    moreover have "(if v then ones else t - i - ones) = card {j. i \<le> j \<and> j < t \<and> bf_get b j = v}"
      using count_complement [of t i "bf_get b"] by (simp add: ones_def)
    ultimately show ?thesis
      using less [of t] ch card_split_range [of i t e "\<lambda>j. bf_get b j = v"] by simp
  next
    case False
    then have "{j. i \<le> j \<and> j < e \<and> bf_get b j = v} = {}" by auto
    then show ?thesis using False by (subst bf_count_loop.simps) simp
  qed
qed

section \<open>Searching the field\<close>

lemma page_first_in_field:
  assumes "is_first (\<lambda>k. k < BITS_PER_PAGE \<and> page_bit p k = v) lo r"
    "\<forall>k < BITS_PER_PAGE. G (pg * BITS_PER_PAGE + k) \<longleftrightarrow> page_bit p k = v"
  shows "r = Some off \<Longrightarrow> is_first G (pg * BITS_PER_PAGE + lo) (Some (pg * BITS_PER_PAGE + off))"
    "r = None \<Longrightarrow> pg * BITS_PER_PAGE + lo \<le> i \<Longrightarrow> i < (pg + 1) * BITS_PER_PAGE \<Longrightarrow> \<not> G i"
proof -
  have idx: "i = pg * BITS_PER_PAGE + (i - pg * BITS_PER_PAGE)" "lo \<le> i - pg * BITS_PER_PAGE"
    if "pg * BITS_PER_PAGE + lo \<le> i" for i using that by auto
  show "is_first G (pg * BITS_PER_PAGE + lo) (Some (pg * BITS_PER_PAGE + off))" if r: "r = Some off"
  proof -
    have off: "lo \<le> off" "off < BITS_PER_PAGE" "page_bit p off = v" "\<And>k. lo \<le> k \<Longrightarrow> k < off \<Longrightarrow> page_bit p k \<noteq> v"
      using assms(1) r by (auto simp: is_first_def)
    have "\<not> G i" if i: "pg * BITS_PER_PAGE + lo \<le> i" "i < pg * BITS_PER_PAGE + off" for i
    proof -
      have "i - pg * BITS_PER_PAGE < off" using i by linarith
      then show ?thesis using idx [OF i(1)] off(2,4) assms(2) by (metis order.strict_trans)
    qed
    then show ?thesis using off(1-3) assms(2) by (simp add: is_first_def)
  qed
  show "\<not> G i" if i: "r = None" "pg * BITS_PER_PAGE + lo \<le> i" "i < (pg + 1) * BITS_PER_PAGE"
  proof -
    obtain k where k: "i = pg * BITS_PER_PAGE + k" "lo \<le> k" using idx [OF i(2)] by blast
    then have "k < BITS_PER_PAGE" using i(3) by simp
    then show ?thesis using assms i(1) k by (auto simp: is_first_def)
  qed
qed

text \<open>Where the search of a page starts, for a page at or behind the starting one.\<close>

definition page_lo :: "nat \<Rightarrow> nat \<Rightarrow> nat" where
  "page_lo position pg = (if pg = position div BITS_PER_PAGE then position mod BITS_PER_PAGE else 0)"

lemma page_lo_index:
  assumes "position div BITS_PER_PAGE \<le> pg"
  shows "position \<le> pg * BITS_PER_PAGE + page_lo position pg"
    "position \<le> i \<Longrightarrow> i div BITS_PER_PAGE = pg \<Longrightarrow> pg * BITS_PER_PAGE + page_lo position pg \<le> i"
    "position \<le> i \<Longrightarrow> i < pg * BITS_PER_PAGE + page_lo position pg \<Longrightarrow> i div BITS_PER_PAGE < pg"
proof -
  have d: "x = x div BITS_PER_PAGE * BITS_PER_PAGE + x mod BITS_PER_PAGE" "x mod BITS_PER_PAGE < BITS_PER_PAGE" for x :: nat
    by simp_all
  show "position \<le> pg * BITS_PER_PAGE + page_lo position pg"
    using assms d [of position] by (cases "pg = position div BITS_PER_PAGE") (auto simp: page_lo_def)
  show *: "pg * BITS_PER_PAGE + page_lo position pg \<le> i" if "position \<le> i" "i div BITS_PER_PAGE = pg" for i
    using that d [of position] d [of i] by (cases "pg = position div BITS_PER_PAGE") (auto simp: page_lo_def)
  show "i div BITS_PER_PAGE < pg" if i: "position \<le> i" "i < pg * BITS_PER_PAGE + page_lo position pg"
  proof (rule ccontr)
    assume "\<not> i div BITS_PER_PAGE < pg"
    then have "pg * BITS_PER_PAGE \<le> i" by (metis div_times_less_eq_dividend le_trans mult_le_mono1 not_less)
    moreover have "i < (pg + 1) * BITS_PER_PAGE" using i(2) d(2) [of position] by (auto simp: page_lo_def split: if_splits)
    ultimately have "i div BITS_PER_PAGE = pg" by (intro div_nat_eqI) auto
    then show False using * [OF i(1)] i(2) by simp
  qed
qed

lemma first_set_loop_ok:
  assumes "sorted_wrt (<) (map fst xs)" "\<forall>(pg, p) \<in> set xs. position div BITS_PER_PAGE \<le> pg"
    "\<forall>(pg, p) \<in> set xs. \<forall>k < BITS_PER_PAGE. G (pg * BITS_PER_PAGE + k) = page_bit p k"
    "\<And>i. position \<le> i \<Longrightarrow> G i \<Longrightarrow> i div BITS_PER_PAGE \<in> fst ` set xs"
  shows "is_first G position (first_set_loop position xs)"
  using assms
proof (induction xs)
  case Nil
  then show ?case by (auto simp: is_first_def)
next
  case (Cons x xs)
  obtain pg p where x: "x = (pg, p)" by (cases x)
  have pg: "position div BITS_PER_PAGE \<le> pg" using Cons(3) by (simp add: x)
  have G: "\<forall>k < BITS_PER_PAGE. G (pg * BITS_PER_PAGE + k) \<longleftrightarrow> page_bit p k = True"
    using Cons(4) by (simp add: x)
  note pf = page_first_in_field [OF page_find_first_ok [of p True "page_lo position pg"], where G = G, OF G]
  have before: "\<not> G i" if "position \<le> i" "i < pg * BITS_PER_PAGE + page_lo position pg" for i
  proof
    assume "G i"
    then have "i div BITS_PER_PAGE \<in> insert pg (fst ` set xs)" using Cons(5) that by (simp add: x)
    moreover have "i div BITS_PER_PAGE < pg" using page_lo_index(3) [OF pg that] .
    ultimately show False using Cons(2) by (auto simp: x)
  qed
  show ?case
  proof (cases "page_find_first p True (page_lo position pg)")
    case (Some off)
    then show ?thesis
      using is_first_skip [OF pf(1) [OF Some] page_lo_index(1) [OF pg] before] by (simp add: x page_lo_def)
  next
    case None
    have "i div BITS_PER_PAGE \<in> fst ` set xs" if i: "position \<le> i" "G i" for i
    proof -
      have "i div BITS_PER_PAGE \<noteq> pg"
      proof
        assume eq: "i div BITS_PER_PAGE = pg"
        then have "i < (pg + 1) * BITS_PER_PAGE" using chunk_gt [of BITS_PER_PAGE i] by simp
        then show False using pf(2) [OF None page_lo_index(2) [OF pg i(1) eq]] i(2) by simp
      qed
      then show ?thesis using Cons(5) [OF i] by (simp add: x)
    qed
    then show ?thesis using Cons None by (simp add: x page_lo_def)
  qed
qed

lemma first_unset_loop_ok:
  assumes "bf_ok b" "position div BITS_PER_PAGE \<le> pg" "\<And>i. position \<le> i \<Longrightarrow> i div BITS_PER_PAGE < pg \<Longrightarrow> bf_get b i"
  shows "is_first (\<lambda>i. \<not> bf_get b i) position (first_unset_loop b position pg)"
  using assms
proof (induction b position pg rule: first_unset_loop.induct)
  case (1 b position pg)
  let ?G = "\<lambda>i. \<not> bf_get b i" and ?lo = "page_lo position pg"
  have before: "\<not> ?G i" if "position \<le> i" "i < pg * BITS_PER_PAGE + ?lo" for i
    using 1(4) that(1) page_lo_index(3) [OF 1(3) that] by simp
  show ?case
  proof (cases "bt_get b pg")
    case None
    have "?lo < BITS_PER_PAGE" by (simp add: page_lo_def)
    then have "?G (pg * BITS_PER_PAGE + ?lo)" using None by (simp add: bf_get_page)
    then have "is_first ?G (pg * BITS_PER_PAGE + ?lo) (Some (pg * BITS_PER_PAGE + ?lo))" by (auto simp: is_first_def)
    from is_first_skip [OF this page_lo_index(1) [OF 1(3)] before] show ?thesis
      using None by (subst first_unset_loop.simps) (simp add: page_lo_def Let_def)
  next
    case (Some p)
    have G: "\<forall>k < BITS_PER_PAGE. ?G (pg * BITS_PER_PAGE + k) \<longleftrightarrow> page_bit p k = False"
      using bf_page(2) [OF 1(2) Some] by simp
    note pf = page_first_in_field [OF page_find_first_ok [of p False ?lo], where G = ?G, OF G]
    show ?thesis
    proof (cases "page_find_first p False ?lo")
      case off: (Some off)
      from is_first_skip [OF pf(1) [OF off] page_lo_index(1) [OF 1(3)] before] show ?thesis
        using Some off by (subst first_unset_loop.simps) (simp add: page_lo_def Let_def)
    next
      case none: None
      have full: "bf_get b i" if i: "position \<le> i" "i div BITS_PER_PAGE < pg + 1" for i
      proof (cases "i div BITS_PER_PAGE = pg")
        case True
        then have "i < (pg + 1) * BITS_PER_PAGE" using chunk_gt [of BITS_PER_PAGE i] by simp
        then show ?thesis using pf(2) [OF none page_lo_index(2) [OF 1(3) i(1) True]] by simp
      next
        case False
        then show ?thesis using 1(4) i by simp
      qed
      have "is_first ?G position (first_unset_loop b position (pg + 1))"
        using none 1(3) by (intro 1(1) [OF refl Some] full 1(2)) (auto simp: page_lo_def)
      then show ?thesis using Some none by (subst first_unset_loop.simps) (simp add: page_lo_def Let_def)
    qed
  qed
qed

lemma bf_find_first_ok:
  assumes "bf_ok b"
  shows "is_first (\<lambda>i. bf_get b i = v) position (bf_find_first b v position)"
proof (cases v)
  case True
  let ?xs = "filter (\<lambda>(pg, _). position div BITS_PER_PAGE \<le> pg) b"
  have inv: "bt_inv b" using assms by (simp add: bf_ok_def)
  have "is_first (bf_get b) position (first_set_loop position ?xs)"
  proof (rule first_set_loop_ok)
    show "sorted_wrt (<) (map fst ?xs)" using bt_inv_filter [OF inv] by (simp add: bt_inv_def)
    show "\<forall>(pg, p) \<in> set ?xs. \<forall>k < BITS_PER_PAGE. bf_get b (pg * BITS_PER_PAGE + k) = page_bit p k"
      using bf_page(2) [OF assms] bt_get_iff [OF inv] by auto
    show "i div BITS_PER_PAGE \<in> fst ` set ?xs" if i: "position \<le> i" "bf_get b i" for i
    proof -
      obtain p where "bt_get b (i div BITS_PER_PAGE) = Some p" using i(2) by (auto simp: bf_get_page split: option.splits)
      then have "(i div BITS_PER_PAGE, p) \<in> set ?xs" using i(1) bt_get_iff [OF inv] by (auto simp: div_le_mono)
      then show ?thesis by force
    qed
  qed auto
  then show ?thesis using True by (simp add: bf_find_first_def)
next
  case False
  then show ?thesis
    using first_unset_loop_ok [OF assms, of position "position div BITS_PER_PAGE"] div_le_mono [of position _ BITS_PER_PAGE]
    by (auto simp: bf_find_first_def not_less)
qed

lemma is_last_skip:
  assumes "is_last P m r" "m \<le> hi" "\<And>i. m < i \<Longrightarrow> i \<le> hi \<Longrightarrow> \<not> P i"
  shows "is_last P hi r"
  using assms unfolding is_last_def by (cases r) (force simp: not_less)+

lemma page_last_in_field:
  assumes "is_last (\<lambda>k. page_bit p k = v) h r" "h < BITS_PER_PAGE"
    "\<forall>k < BITS_PER_PAGE. G (pg * BITS_PER_PAGE + k) \<longleftrightarrow> page_bit p k = v"
  shows "r = Some off \<Longrightarrow> is_last G (pg * BITS_PER_PAGE + h) (Some (pg * BITS_PER_PAGE + off))"
    "r = None \<Longrightarrow> pg * BITS_PER_PAGE \<le> i \<Longrightarrow> i \<le> pg * BITS_PER_PAGE + h \<Longrightarrow> \<not> G i"
proof -
  have idx: "\<exists>k. i = pg * BITS_PER_PAGE + k \<and> k \<le> h" if "pg * BITS_PER_PAGE \<le> i" "i \<le> pg * BITS_PER_PAGE + h" for i
    using that by (intro exI [of _ "i - pg * BITS_PER_PAGE"]) auto
  show "is_last G (pg * BITS_PER_PAGE + h) (Some (pg * BITS_PER_PAGE + off))" if r: "r = Some off"
  proof -
    have off: "off \<le> h" "page_bit p off = v" "\<And>k. off < k \<Longrightarrow> k \<le> h \<Longrightarrow> page_bit p k \<noteq> v"
      using assms(1) r by (auto simp: is_last_def)
    have "\<not> G i" if i: "pg * BITS_PER_PAGE + off < i" "i \<le> pg * BITS_PER_PAGE + h" for i
    proof -
      obtain k where "i = pg * BITS_PER_PAGE + k" "k \<le> h" using idx [of i] i by auto
      then show ?thesis using i off(3) [of k] assms(2,3) by simp
    qed
    then show ?thesis using off assms(2,3) by (simp add: is_last_def)
  qed
  show "\<not> G i" if i: "r = None" "pg * BITS_PER_PAGE \<le> i" "i \<le> pg * BITS_PER_PAGE + h"
  proof -
    obtain k where "i = pg * BITS_PER_PAGE + k" "k \<le> h" using idx [OF i(2,3)] by blast
    then show ?thesis using assms i(1) by (auto simp: is_last_def)
  qed
qed

definition page_hi :: "nat \<Rightarrow> nat \<Rightarrow> nat" where
  "page_hi position pg = (if pg = position div BITS_PER_PAGE then position mod BITS_PER_PAGE else BITS_PER_PAGE - 1)"

lemma page_hi_less: "page_hi position pg < BITS_PER_PAGE"
  by (simp add: page_hi_def)

lemma page_hi_index:
  assumes "pg \<le> position div BITS_PER_PAGE"
  shows "pg * BITS_PER_PAGE + page_hi position pg \<le> position"
    "i \<le> position \<Longrightarrow> i div BITS_PER_PAGE = pg \<Longrightarrow> pg * BITS_PER_PAGE \<le> i \<and> i \<le> pg * BITS_PER_PAGE + page_hi position pg"
    "i \<le> position \<Longrightarrow> pg * BITS_PER_PAGE + page_hi position pg < i \<Longrightarrow> pg < i div BITS_PER_PAGE"
proof -
  have d: "x = x div BITS_PER_PAGE * BITS_PER_PAGE + x mod BITS_PER_PAGE" "x mod BITS_PER_PAGE < BITS_PER_PAGE" for x :: nat
    by simp_all
  show "pg * BITS_PER_PAGE + page_hi position pg \<le> position"
  proof (cases "pg = position div BITS_PER_PAGE")
    case False
    then have "(pg + 1) * BITS_PER_PAGE \<le> position div BITS_PER_PAGE * BITS_PER_PAGE" using assms by (intro mult_le_mono1) simp
    then show ?thesis using False d [of position] by (simp add: page_hi_def)
  qed (simp add: page_hi_def)
  show *: "pg * BITS_PER_PAGE \<le> i \<and> i \<le> pg * BITS_PER_PAGE + page_hi position pg"
    if "i \<le> position" "i div BITS_PER_PAGE = pg" for i
    using that d [of position] d [of i] by (cases "pg = position div BITS_PER_PAGE") (auto simp: page_hi_def)
  show "pg < i div BITS_PER_PAGE" if i: "i \<le> position" "pg * BITS_PER_PAGE + page_hi position pg < i"
  proof (rule ccontr)
    assume "\<not> pg < i div BITS_PER_PAGE"
    moreover have "pg * BITS_PER_PAGE < i" using i(2) by simp
    then have "pg \<le> i div BITS_PER_PAGE" by (simp add: less_eq_div_iff_mult_less_eq)
    ultimately show False using * [OF i(1)] i(2) by simp
  qed
qed

lemma last_set_loop_ok:
  assumes "sorted_wrt (>) (map fst xs)" "\<forall>(pg, p) \<in> set xs. pg \<le> position div BITS_PER_PAGE"
    "\<forall>(pg, p) \<in> set xs. \<forall>k < BITS_PER_PAGE. G (pg * BITS_PER_PAGE + k) = page_bit p k"
    "\<And>i. i \<le> position \<Longrightarrow> G i \<Longrightarrow> i div BITS_PER_PAGE \<in> fst ` set xs"
  shows "is_last G position (last_set_loop position xs)"
  using assms
proof (induction xs)
  case Nil
  then show ?case by (auto simp: is_last_def)
next
  case (Cons x xs)
  obtain pg p where x: "x = (pg, p)" by (cases x)
  have pg: "pg \<le> position div BITS_PER_PAGE" using Cons(3) by (simp add: x)
  have G: "\<forall>k < BITS_PER_PAGE. G (pg * BITS_PER_PAGE + k) \<longleftrightarrow> page_bit p k = True"
    using Cons(4) by (simp add: x)
  note pl = page_last_in_field [OF page_find_last_ok [OF page_hi_less] page_hi_less, where G = G, OF G]
  have behind: "\<not> G i" if "pg * BITS_PER_PAGE + page_hi position pg < i" "i \<le> position" for i
  proof
    assume "G i"
    then have "i div BITS_PER_PAGE \<in> insert pg (fst ` set xs)" using Cons(5) that by (simp add: x)
    moreover have "pg < i div BITS_PER_PAGE" using page_hi_index(3) [OF pg that(2,1)] .
    ultimately show False using Cons(2) by (auto simp: x)
  qed
  show ?case
  proof (cases "page_find_last p True (page_hi position pg)")
    case (Some off)
    then show ?thesis
      using is_last_skip [OF pl(1) [OF Some] page_hi_index(1) [OF pg] behind] by (simp add: x page_hi_def)
  next
    case None
    have "i div BITS_PER_PAGE \<in> fst ` set xs" if i: "i \<le> position" "G i" for i
      using Cons(5) [OF i] pl(2) [OF None] page_hi_index(2) [OF pg i(1)] i(2) by (auto simp: x)
    then show ?thesis using Cons None by (simp add: x page_hi_def)
  qed
qed

lemma last_unset_loop_ok:
  assumes "bf_ok b" "n \<le> position div BITS_PER_PAGE + 1" "\<And>i. i \<le> position \<Longrightarrow> n \<le> i div BITS_PER_PAGE \<Longrightarrow> bf_get b i"
  shows "is_last (\<lambda>i. \<not> bf_get b i) position (last_unset_loop b position n)"
  using assms(2,3)
proof (induction n)
  case 0
  then show ?case by (simp add: is_last_def)
next
  case (Suc pg)
  let ?G = "\<lambda>i. \<not> bf_get b i" and ?hi = "page_hi position pg"
  have pg: "pg \<le> position div BITS_PER_PAGE" using Suc(2) by simp
  have behind: "\<not> ?G i" if "pg * BITS_PER_PAGE + ?hi < i" "i \<le> position" for i
    using Suc(3) [OF that(2)] page_hi_index(3) [OF pg that(2,1)] by simp
  show ?case
  proof (cases "bt_get b pg")
    case None
    have "?G (pg * BITS_PER_PAGE + ?hi)" using None page_hi_less [of position pg] by (simp add: bf_get_page)
    then have "is_last ?G (pg * BITS_PER_PAGE + ?hi) (Some (pg * BITS_PER_PAGE + ?hi))" by (auto simp: is_last_def)
    from is_last_skip [OF this page_hi_index(1) [OF pg] behind] show ?thesis
      using None by (simp add: page_hi_def Let_def)
  next
    case (Some p)
    have G: "\<forall>k < BITS_PER_PAGE. ?G (pg * BITS_PER_PAGE + k) \<longleftrightarrow> page_bit p k = False"
      using bf_page(2) [OF assms(1) Some] by simp
    note pl = page_last_in_field [OF page_find_last_ok [OF page_hi_less] page_hi_less, where G = ?G, OF G]
    show ?thesis
    proof (cases "page_find_last p False ?hi")
      case off: (Some off)
      from is_last_skip [OF pl(1) [OF off] page_hi_index(1) [OF pg] behind] show ?thesis
        using Some off by (simp add: page_hi_def Let_def)
    next
      case none: None
      have full: "bf_get b i" if i: "i \<le> position" "pg \<le> i div BITS_PER_PAGE" for i
        using Suc(3) [OF i(1)] i pl(2) [OF none] page_hi_index(2) [OF pg i(1)]
        by (cases "i div BITS_PER_PAGE = pg") auto
      show ?thesis using Suc(1) [OF _ full] pg Some none by (simp add: page_hi_def Let_def)
    qed
  qed
qed

lemma bf_find_last_ok:
  assumes "bf_ok b"
  shows "is_last (\<lambda>i. bf_get b i = v) position (bf_find_last b v position)"
proof (cases v)
  case True
  let ?xs = "filter (\<lambda>(pg, _). pg \<le> position div BITS_PER_PAGE) b"
  have inv: "bt_inv b" using assms by (simp add: bf_ok_def)
  have "is_last (bf_get b) position (last_set_loop position (rev ?xs))"
  proof (rule last_set_loop_ok)
    show "sorted_wrt (>) (map fst (rev ?xs))"
      unfolding rev_map [symmetric] sorted_wrt_rev using bt_inv_filter [OF inv] by (simp add: bt_inv_def)
    show "\<forall>(pg, p) \<in> set (rev ?xs). \<forall>k < BITS_PER_PAGE. bf_get b (pg * BITS_PER_PAGE + k) = page_bit p k"
      using bf_page(2) [OF assms] bt_get_iff [OF inv] by auto
    show "i div BITS_PER_PAGE \<in> fst ` set (rev ?xs)" if i: "i \<le> position" "bf_get b i" for i
    proof -
      obtain p where "bt_get b (i div BITS_PER_PAGE) = Some p" using i(2) by (auto simp: bf_get_page split: option.splits)
      then have "(i div BITS_PER_PAGE, p) \<in> set (rev ?xs)" using i(1) bt_get_iff [OF inv] by (auto simp: div_le_mono)
      then show ?thesis by force
    qed
  qed auto
  then show ?thesis using True by (simp add: bf_find_last_def)
next
  case False
  have "\<not> Suc (position div BITS_PER_PAGE) \<le> i div BITS_PER_PAGE" if "i \<le> position" for i
    using div_le_mono [OF that, of BITS_PER_PAGE] by simp
  then show ?thesis
    using last_unset_loop_ok [OF assms, of "Suc (position div BITS_PER_PAGE)" position] False
    by (simp add: bf_find_last_def Let_def)
qed

section \<open>Serialization\<close>

lemma length_word_bytes [simp]: "length (word_bytes w) = 8"
  by (simp add: word_bytes_def)

lemma word_of_word_bytes: "word_of_nat (of_le (word_bytes w)) = w"
proof -
  have "unat w < 2 ^ 64" using unsigned_less [of w] by simp
  then show ?thesis by (simp add: word_bytes_def)
qed

lemma length_page_bytes: "length (concat (map word_bytes p)) = 8 * length p"
  by (induction p) auto

lemma read_words_page: "read_words (length p) (concat (map word_bytes p) @ rest) = p"
  by (induction p) (simp_all add: word_of_word_bytes del: of_le.simps)

definition page_record :: "nat \<times> page \<Rightarrow> bytes" where
  "page_record = (\<lambda>(idx, p). le64 idx @ concat (map word_bytes p))"

lemma deserialize_pages_ok:
  assumes "\<forall>(idx, p) \<in> set xs. idx < 2 ^ 64 \<and> length p = WORDS_PER_PAGE"
  shows "deserialize_pages (length xs) (concat (map page_record xs) @ rest) acc =
         Some (fold (\<lambda>(k, v). bt_insert k v) xs acc, rest)"
  using assms
proof (induction xs arbitrary: acc)
  case (Cons x xs)
  obtain idx p where x: "x = (idx, p)" by (cases x)
  have p: "idx < 2 ^ 64" "length p = WORDS_PER_PAGE" using Cons(2) by (auto simp: x)
  let ?rest = "concat (map page_record xs) @ rest"
  have "drop (8 + WORDS_PER_PAGE * 8) (page_record x @ ?rest) = ?rest"
    "take 8 (page_record x @ ?rest) = le64 idx" "drop 8 (page_record x @ ?rest) = concat (map word_bytes p) @ ?rest"
    "\<not> length (page_record x @ ?rest) < 8 + WORDS_PER_PAGE * 8"
    using length_page_bytes [of p] p(2) by (simp_all add: page_record_def x)
  then show ?case
    using Cons p read_words_page [of p ?rest] by (simp add: x del: take_append drop_append)
qed simp

lemma bf_deserialize_serialize:
  assumes "bf_ok b" "length b < 2 ^ 64" "\<forall>pg \<in> fst ` set b. pg < 2 ^ 64"
  shows "bf_deserialize (bf_serialize b) = Some (filter (\<lambda>(_, p). list_ex (\<lambda>w. w \<noteq> 0) p) b)"
proof -
  let ?live = "filter (\<lambda>(_, p). list_ex (\<lambda>w. w \<noteq> 0) p) b"
  have inv: "bt_inv b" "bt_inv ?live" using assms(1) bt_inv_filter by (auto simp: bf_ok_def)
  have "length ?live < 2 ^ 64" using length_filter_le [of _ b] assms(2) by (rule le_less_trans)
  then have len: "of_le (le64 (length ?live)) = length ?live" by (rule of_le_le64)
  have "\<forall>(idx, p) \<in> set ?live. idx < 2 ^ 64 \<and> length p = WORDS_PER_PAGE"
    using assms(1,3) bt_get_iff [OF inv(1)] by (fastforce simp: bf_ok_def)
  from deserialize_pages_ok [OF this, of "[]" "[]"]
  have "deserialize_pages (length ?live) (concat (map page_record ?live)) [] = Some (?live, [])"
    using bt_collect_id [OF inv(2)] by (simp add: bt_collect_def)
  then show ?thesis
    using len by (simp add: bf_deserialize_def bf_serialize_def Let_def page_record_def [symmetric] del: of_le_le_bytes)
qed

lemma bf_get_live:
  assumes "bf_ok b"
  shows "bf_get (filter (\<lambda>(_, p). list_ex (\<lambda>w. w \<noteq> 0) p) b) i = bf_get b i"
proof -
  let ?live = "filter (\<lambda>(_, p). list_ex (\<lambda>w. w \<noteq> 0) p) b"
  have inv: "bt_inv b" "bt_inv ?live" using assms bt_inv_filter by (auto simp: bf_ok_def)
  have "bt_get ?live pg = (case bt_get b pg of None \<Rightarrow> None | Some p \<Rightarrow> if list_ex (\<lambda>w. w \<noteq> 0) p then Some p else None)" for pg
  proof (cases "bt_get ?live pg")
    case (Some p)
    then have "(pg, p) \<in> set b" "list_ex (\<lambda>w. w \<noteq> 0) p" using bt_get_iff [OF inv(2)] by auto
    then have "bt_get b pg = Some p" using bt_get_iff [OF inv(1)] by blast
    then show ?thesis using Some \<open>list_ex _ p\<close> by simp
  next
    case None
    then have "(pg, p) \<notin> set ?live" for p using bt_get_iff [OF inv(2)] by (metis option.distinct(1))
    then show ?thesis using None bt_get_iff [OF inv(1), of pg] by (auto split: option.split)
  qed
  moreover have "\<not> page_bit p j" if "\<not> list_ex (\<lambda>w. w \<noteq> 0) p" "length p = WORDS_PER_PAGE" "j < BITS_PER_PAGE" for p j
  proof -
    have "j div 64 < length p" using that(2,3) by (simp add: less_mult_imp_div_less)
    then have "p ! (j div 64) = 0" using that(1) nth_mem by (fastforce simp: list_ex_iff)
    then show ?thesis by (simp add: page_bit_def)
  qed
  ultimately show ?thesis using assms by (auto simp: bf_get_page bf_ok_def split: option.split)
qed

text \<open>The bounds hold by themselves when no bit above the \<open>u64\<close> range is set.\<close>

lemma live_page_bit:
  assumes "bf_ok b" "(pg, p) \<in> set b" "list_ex (\<lambda>w. w \<noteq> 0) p"
  shows "\<exists>i. bf_get b i \<and> pg \<le> i"
proof -
  have p: "bt_get b pg = Some p" "length p = WORDS_PER_PAGE"
    using assms(1,2) bt_get_iff [of b] by (auto simp: bf_ok_def)
  obtain k where k: "k < length p" "p ! k \<noteq> 0" using assms(3) by (auto simp: list_ex_length)
  then obtain n where n: "bit (p ! k) n" by (auto simp: bit_eq_iff)
  then have "n < 64" using bit_imp_le_length [OF n] by simp
  then have j: "(k * 64 + n) div 64 = k" "(k * 64 + n) mod 64 = n" "k * 64 + n < BITS_PER_PAGE"
    using k(1) p(2) by auto
  have "bf_get b (pg * BITS_PER_PAGE + (k * 64 + n))"
    using j p(1) n by (simp add: bf_get_page page_bit_def)
  then show ?thesis by (intro exI [of _ "pg * BITS_PER_PAGE + (k * 64 + n)"]) simp
qed

lemma bf_deserialize_bounded:
  assumes "bf_ok b" "\<forall>i. bf_get b i \<longrightarrow> i < 2 ^ 63"
  shows "\<exists>b'. bf_deserialize (bf_serialize b) = Some b' \<and> bf_ok b' \<and> (\<forall>i. bf_get b' i = bf_get b i)"
proof -
  let ?live = "filter (\<lambda>(_, p). list_ex (\<lambda>w. w \<noteq> 0) p) b"
  have inv: "bt_inv b" "bt_inv ?live" using assms(1) bt_inv_filter by (auto simp: bf_ok_def)
  have ok: "bf_ok ?live"
    using assms(1) inv(2) bt_get_iff [OF inv(1)] bt_get_iff [OF inv(2)] by (fastforce simp: bf_ok_def)
  have key: "k < 2 ^ 63" if "(k, v) \<in> set ?live" for k v
    using that live_page_bit [OF assms(1), of k v] assms(2) by force
  have "length ?live \<le> 2 ^ 63" using inv(2) key by (rule length_le_of_keys)
  then have "length ?live < 2 ^ 64" by (rule le_less_trans) simp
  moreover have "\<forall>pg \<in> fst ` set ?live. pg < 2 ^ 64" using key by fastforce
  ultimately have "bf_deserialize (bf_serialize ?live) = Some ?live"
    using bf_deserialize_serialize [OF ok] by simp
  moreover have "bf_serialize ?live = bf_serialize b" by (simp add: bf_serialize_def Let_def)
  ultimately show ?thesis using ok bf_get_live [OF assms(1)] by auto
qed

section \<open>Properties\<close>

text \<open>
  The bitfield refines a set of indices: point and range updates change exactly the
  named bits, word by word and page by page, whatever the page boundaries, and keep the
  representation valid; clearing never stores a page.
\<close>

theorem bitfield_updates:
  assumes "bf_ok b"
  shows "bf_ok (bf_set b i v) \<and> bf_get (bf_set b i v) j = (if j = i then v else bf_get b j) \<and>
         bf_ok (bf_set_range b i e v) \<and> bf_get (bf_set_range b i e v) j = (if i \<le> j \<and> j < e then v else bf_get b j) \<and>
         map fst (bf_set b i False) = map fst b"
proof -
  have "map fst (bt_insert k x m) = map fst m" if "bt_get m k = Some y" "bt_inv m" for k x y and m :: bitfield
    using that by (induction k x m rule: bt_insert.induct) (auto simp: bt_inv_Cons dest!: map_of_SomeD split: if_splits)
  then have "map fst (bf_set b i False) = map fst b"
    using assms by (auto simp: bf_set_def bf_ok_def split: option.split prod.split)
  then show ?thesis using bf_set_ok [OF assms] bf_set_range_ok [OF assms] by simp
qed

theorem bitfield_updates_witness:
  "bf_get (bf_set_range (bf_set bf_new 5 True) 32700 70000 True) 5 \<and>
   bf_get (bf_set_range (bf_set bf_new 5 True) 32700 70000 True) 69999 \<and>
   \<not> bf_get (bf_set_range (bf_set bf_new 5 True) 32700 70000 True) 70000"
proof -
  note new = bitfield_updates [OF bf_ok_new(1), of 5 True]
  note upd = bitfield_updates [of "bf_set bf_new 5 True" 32700 True _ 70000]
  show ?thesis using upd [of 5] upd [of 69999] upd [of 70000] new [of 5] new [of 70000] bf_ok_new(2) by auto
qed

text \<open>
  Counting and searching agree with the bits: \<open>count\<close> is the number of bits with the
  given value in the range, \<open>find_first\<close> and \<open>find_last\<close> return the nearest one at or behind, at or
  before the position, and \<open>None\<close> exactly when there is none; an unset bit is always found upwards.
\<close>

theorem bitfield_queries:
  assumes "bf_ok b"
  shows "bf_count b start len v = card {j. start \<le> j \<and> j < start + len \<and> bf_get b j = v} \<and>
         is_first (\<lambda>i. bf_get b i = v) position (bf_find_first b v position) \<and>
         is_last (\<lambda>i. bf_get b i = v) position (bf_find_last b v position) \<and>
         bf_find_first b False position \<noteq> None"
proof -
  have "\<exists>i \<ge> position. \<not> bf_get b i"
  proof -
    have "finite (fst ` set b)" by simp
    then obtain m where m: "\<forall>pg \<in> fst ` set b. pg < m" using finite_nat_set_iff_bounded by blast
    let ?i = "(position + m) * BITS_PER_PAGE"
    have "position + m \<notin> fst ` set b" using m by fastforce
    then have "\<not> bf_get b ?i" by (simp add: bf_get_page map_of_eq_None_iff [THEN iffD2])
    then show ?thesis by (intro exI [of _ ?i]) auto
  qed
  then have "bf_find_first b False position \<noteq> None"
    using bf_find_first_ok [OF assms, of False position] by (auto simp: is_first_def split: option.splits)
  then show ?thesis
    using bf_count_loop_ok [OF assms] bf_find_first_ok [OF assms] bf_find_last_ok [OF assms] by (simp add: bf_count_def)
qed

theorem bitfield_queries_witness:
  "bf_find_first (bf_set bf_new 40000 True) True 7 = Some 40000 \<and>
   bf_find_last (bf_set bf_new 40000 True) True 99999 = Some 40000"
proof -
  let ?b = "bf_set bf_new 40000 True"
  have ok: "bf_ok ?b" and get: "bf_get ?b j \<longleftrightarrow> j = 40000" for j
    using bf_set_ok [OF bf_ok_new(1), of 40000 True] bf_ok_new(2) by auto
  have first: "r = Some 40000" if "is_first (\<lambda>i. bf_get ?b i = True) 7 r" for r
    using that by (cases r) (auto simp: is_first_def get dest: spec [of _ 40000])
  have last: "r = Some 40000" if "is_last (\<lambda>i. bf_get ?b i = True) 99999 r" for r
    using that by (cases r) (auto simp: is_last_def get dest: spec [of _ 40000])
  show ?thesis
    using first last bitfield_queries [OF ok, of 0 0 True 7] bitfield_queries [OF ok, of 0 0 True 99999] by blast
qed

text \<open>
  Serialization: deserializing a serialized field succeeds and every bit reads the same;
  the pages that are stored but all zero are left out. Trailing bytes are refused.
\<close>

theorem bitfield_serialize_roundtrip:
  assumes "bf_ok b" "length b < 2 ^ 64" "\<forall>pg \<in> fst ` set b. pg < 2 ^ 64" "junk \<noteq> []"
  shows "\<exists>b'. bf_deserialize (bf_serialize b) = Some b' \<and> bf_ok b' \<and> (\<forall>i. bf_get b' i = bf_get b i) \<and>
              (\<forall>p \<in> snd ` set b'. list_ex (\<lambda>w. w \<noteq> 0) p) \<and>
              bf_deserialize (bf_serialize b @ junk) = None"
proof -
  let ?live = "filter (\<lambda>(_, p). list_ex (\<lambda>w. w \<noteq> 0) p) b"
  have inv: "bt_inv b" "bt_inv ?live" using assms(1) bt_inv_filter by (auto simp: bf_ok_def)
  have lens: "\<forall>(idx, p) \<in> set ?live. idx < 2 ^ 64 \<and> length p = WORDS_PER_PAGE"
    using assms(1,3) bt_get_iff [OF inv(1)] by (fastforce simp: bf_ok_def)
  then have ok: "bf_ok ?live" using inv bt_get_iff [OF inv(2)] by (auto simp: bf_ok_def)
  have "length ?live < 2 ^ 64" using length_filter_le [of _ b] assms(2) by (rule le_less_trans)
  then have "of_le (le64 (length ?live)) = length ?live" by (rule of_le_le64)
  then have "bf_deserialize (bf_serialize b @ junk) = None"
    using deserialize_pages_ok [OF lens, of junk "[]"] assms(4)
    by (simp add: bf_deserialize_def bf_serialize_def Let_def page_record_def [symmetric] del: of_le_le_bytes)
  then show ?thesis
    using bf_deserialize_serialize [OF assms(1-3)] bf_get_live [OF assms(1)] ok by auto
qed

theorem bitfield_serialize_roundtrip_witness:
  "\<exists>b'. bf_deserialize (bf_serialize (bf_set bf_new 40000 True)) = Some b' \<and> bf_get b' 40000 \<and> \<not> bf_get b' 7"
proof -
  let ?b = "bf_set bf_new 40000 True"
  have ok: "bf_ok ?b" and get: "bf_get ?b j \<longleftrightarrow> j = 40000" for j
    using bf_set_ok [OF bf_ok_new(1), of 40000 True] bf_ok_new(2) by auto
  have "length ?b < 2 ^ 64" "\<forall>pg \<in> fst ` set ?b. pg < 2 ^ 64"
    by (simp_all add: bf_set_def bf_new_def locate_def Let_def)
  then show ?thesis using bitfield_serialize_roundtrip [OF ok, of "[0]"] get by auto
qed

end
