(* ===== verification/Hypercore.thy ===== *)
theory Hypercore
  imports Codec Identity Merkle_Proof Store Bitfield "HOL-Library.List_Lexorder"
begin

text \<open>
  The typed, signed, append-only log of one writer (\<open>crates/hypercore/src/lib.rs\<close>, \<open>core.rs\<close>,
  \<open>stream.rs\<close>, \<open>snapshot.rs\<close>): the data and every operation. The theorems are in \<open>Hypercore_Log\<close>.
  Parameters of the operations: \<open>E\<close> the signature scheme, \<open>H\<close> the hash, \<open>S\<close> the storage backend.
  A method on \<open>&mut self\<close> returns its result and the log; \<open>Panic\<close> stands for the panic of
  \<open>MerkleTree::root_hash\<close> on an absent root.
\<close>

section \<open>Heads\<close>

abbreviation HEAD_DOMAIN :: byte where "HEAD_DOMAIN \<equiv> 0xC0"

definition KEY_META :: nat where "KEY_META = 2 ^ 64 - 1"
definition KEY_TREE :: nat where "KEY_TREE = 2 ^ 64 - 2"
definition KEY_PRESENCE :: nat where "KEY_PRESENCE = 2 ^ 64 - 3"
definition KEY_USERDATA :: nat where "KEY_USERDATA = 2 ^ 64 - 4"

definition head_message :: "nat \<Rightarrow> nat \<Rightarrow> bytes \<Rightarrow> bytes" where
  "head_message fk len root = [HEAD_DOMAIN] @ le64 fk @ le64 len @ root"

record signed_head =
  sh_fork :: nat
  sh_length :: nat
  sh_root :: bytes
  sh_sig :: bytes

record truncation =
  tr_from :: nat
  tr_to :: nat

record core_prologue =
  cp_length :: nat
  cp_hash :: bytes

datatype 'e core_error =
    Storage 'e
  | CodecFailed codec_error
  | Corrupt
  | NotPersisted
  | NoPrologue
  | PrologueMismatch
  | Panic

definition verify_signed_head :: "crypto \<Rightarrow> bytes \<Rightarrow> signed_head \<Rightarrow> bool" where
  "verify_signed_head E pk h = sig_verify E pk (head_message (sh_fork h) (sh_length h) (sh_root h)) (sh_sig h)"

definition verify_block :: "crypto \<Rightarrow> hashfun \<Rightarrow> bytes \<Rightarrow> signed_head \<Rightarrow> nat \<Rightarrow> bytes \<Rightarrow> inclusion_proof \<Rightarrow> bool" where
  "verify_block E H pk h i data p \<longleftrightarrow>
     verify_signed_head E pk h \<and> block p = i \<and> verify_proof H p data (sh_root h)"

text \<open>The tree of \<open>verify_archived_feed\<close> is built here, so its root hash never panics.\<close>

definition verify_archived_feed :: "crypto \<Rightarrow> hashfun \<Rightarrow> bytes \<Rightarrow> signed_head \<Rightarrow> bytes list \<Rightarrow> bool" where
  "verify_archived_feed E H pk h blocks =
     (let tree = foldl (\<lambda>t b. snd (append H t b)) empty_tree blocks
      in sh_length h = tree_len tree \<and> Some (sh_root h) = root_hash H tree \<and>
         sig_verify E pk (head_message (sh_fork h) (sh_length h) (sh_root h)) (sh_sig h))"

definition conflicting_heads :: "crypto \<Rightarrow> bytes \<Rightarrow> signed_head \<Rightarrow> signed_head \<Rightarrow> bool" where
  "conflicting_heads E pk a b \<longleftrightarrow>
     sh_fork a = sh_fork b \<and> sh_length a = sh_length b \<and> sh_root a \<noteq> sh_root b \<and>
     sig_verify E pk (head_message (sh_fork a) (sh_length a) (sh_root a)) (sh_sig a) \<and>
     sig_verify E pk (head_message (sh_fork b) (sh_length b) (sh_root b)) (sh_sig b)"

record fork_proof =
  fp_index :: nat
  head_a :: signed_head
  data_a :: bytes
  proof_a :: inclusion_proof
  head_b :: signed_head
  data_b :: bytes
  proof_b :: inclusion_proof

definition fork_proof_verify :: "crypto \<Rightarrow> hashfun \<Rightarrow> bytes \<Rightarrow> fork_proof \<Rightarrow> bool" where
  "fork_proof_verify E H pk f \<longleftrightarrow>
     sh_fork (head_a f) = sh_fork (head_b f) \<and>
     verify_block E H pk (head_a f) (fp_index f) (data_a f) (proof_a f) \<and>
     verify_block E H pk (head_b f) (fp_index f) (data_b f) (proof_b f) \<and>
     data_a f \<noteq> data_b f"

section \<open>The log\<close>

record ('a, 's) hypercore =
  author :: bytes
  public :: bytes
  hc_codec :: "'a codec"
  hc_store :: 's
  hc_tree :: merkle_tree
  presence :: bitfield
  head :: "signed_head option"
  fork :: nat
  last_truncation :: "truncation option"
  hc_prologue :: "core_prologue option"

definition hc_new :: "crypto \<Rightarrow> bytes \<Rightarrow> 'a codec \<Rightarrow> 's \<Rightarrow> ('a, 's) hypercore" where
  "hc_new E sk cd s = \<lparr> author = sk, public = public_of E sk, hc_codec = cd, hc_store = s,
     hc_tree = empty_tree, presence = bf_new, head = None, fork = 0, last_truncation = None,
     hc_prologue = None \<rparr>"

definition hc_with_prologue :: "crypto \<Rightarrow> bytes \<Rightarrow> 'a codec \<Rightarrow> 's \<Rightarrow> core_prologue \<Rightarrow> ('a, 's) hypercore" where
  "hc_with_prologue E sk cd s p = (hc_new E sk cd s)\<lparr> hc_prologue := Some p \<rparr>"

definition prologue_at :: "hashfun \<Rightarrow> ('a, 's) hypercore \<Rightarrow> nat \<Rightarrow> core_prologue option" where
  "prologue_at H c len =
     map_option (\<lambda>h. \<lparr> cp_length = len, cp_hash = h \<rparr>) (prefix_root_hash H (hc_tree c) len)"

definition verify_prologue :: "hashfun \<Rightarrow> ('a, 's) hypercore \<Rightarrow> bool" where
  "verify_prologue H c =
     (case hc_prologue c of
        None \<Rightarrow> True
      | Some pr \<Rightarrow> prefix_root_hash H (hc_tree c) (cp_length pr) = Some (cp_hash pr))"

definition hc_len :: "('a, 's) hypercore \<Rightarrow> nat" where
  "hc_len c = tree_len (hc_tree c)"

definition hc_is_empty :: "('a, 's) hypercore \<Rightarrow> bool" where
  "hc_is_empty c \<longleftrightarrow> tree_len (hc_tree c) = 0"

text \<open>\<open>self.store.put(..).map_err(Error::Storage)\<close> and the same for \<open>delete\<close> and \<open>get\<close>.\<close>

definition core_put :: "('e, 's) store \<Rightarrow> ('a, 's) hypercore \<Rightarrow> nat \<Rightarrow> bytes \<Rightarrow>
    ('e core_error, unit, ('a, 's) hypercore) outcome" where
  "core_put S c k v = (let (r, s) = st_put S (hc_store c) k v in (map_err Storage r, c\<lparr> hc_store := s \<rparr>))"

definition core_delete :: "('e, 's) store \<Rightarrow> ('a, 's) hypercore \<Rightarrow> nat \<Rightarrow>
    ('e core_error, unit, ('a, 's) hypercore) outcome" where
  "core_delete S c k = (let (r, s) = st_delete S (hc_store c) k in (map_err Storage r, c\<lparr> hc_store := s \<rparr>))"

abbreviation core_get :: "('e, 's) store \<Rightarrow> 's \<Rightarrow> nat \<Rightarrow> ('e core_error, bytes option) result" where
  "core_get S s k \<equiv> map_err Storage (st_get S s k)"

text \<open>\<open>resign\<close>; \<open>None\<close> is the panic of \<open>root_hash\<close>.\<close>

definition resign :: "crypto \<Rightarrow> hashfun \<Rightarrow> ('a, 's) hypercore \<Rightarrow> ('a, 's) hypercore option" where
  "resign E H c =
     (let len = tree_len (hc_tree c)
      in case root_hash H (hc_tree c) of
           None \<Rightarrow> None
         | Some root \<Rightarrow>
             let sig = sign_with E (author c) (head_message (fork c) len root)
             in Some (c\<lparr> head := Some \<lparr> sh_fork = fork c, sh_length = len, sh_root = root, sh_sig = sig \<rparr> \<rparr>))"

definition resign_and :: "crypto \<Rightarrow> hashfun \<Rightarrow> ('a, 's) hypercore \<Rightarrow> 'b \<Rightarrow>
    ('e core_error, 'b, ('a, 's) hypercore) outcome" where
  "resign_and E H c x = (case resign E H c of None \<Rightarrow> (Inl Panic, c) | Some c' \<Rightarrow> (Inr x, c'))"

definition hc_append :: "crypto \<Rightarrow> hashfun \<Rightarrow> ('e, 's) store \<Rightarrow> ('a, 's) hypercore \<Rightarrow> 'a \<Rightarrow>
    ('e core_error, nat, ('a, 's) hypercore) outcome" where
  "hc_append E H S c v =
     (let bytes = encode (hc_codec c) v; i = tree_len (hc_tree c)
      in and_then (core_put S c i bytes) (\<lambda>_ c.
           resign_and E H (c\<lparr> hc_tree := snd (append H (hc_tree c) bytes),
                              presence := bf_set (presence c) i True,
                              last_truncation := None \<rparr>) i) id)"

definition hc_truncate :: "crypto \<Rightarrow> hashfun \<Rightarrow> ('a, 's) hypercore \<Rightarrow> nat \<Rightarrow>
    ('e core_error, truncation option, ('a, 's) hypercore) outcome" where
  "hc_truncate E H c keep_len =
     (let from = tree_len (hc_tree c)
      in if (case hc_prologue c of Some pr \<Rightarrow> keep_len < cp_length pr | None \<Rightarrow> False) then (Inr None, c)
         else let (done, tree) = Merkle.truncate (hc_tree c) keep_len
              in if \<not> done then (Inr None, c\<lparr> hc_tree := tree \<rparr>)
                 else let t = \<lparr> tr_from = from, tr_to = keep_len \<rparr>
                      in resign_and E H (c\<lparr> hc_tree := tree,
                                            presence := bf_set_range (presence c) keep_len from False,
                                            fork := add64 (fork c) 1,
                                            last_truncation := Some t \<rparr>) (Some t))"

subsection \<open>Reading\<close>

definition hc_has :: "('a, 's) hypercore \<Rightarrow> nat \<Rightarrow> bool" where
  "hc_has c i \<longleftrightarrow> i < tree_len (hc_tree c) \<and> bf_get (presence c) i"

definition hc_get :: "('e, 's) store \<Rightarrow> ('a, 's) hypercore \<Rightarrow> nat \<Rightarrow> ('e core_error, 'a option) result" where
  "hc_get S c i =
     (if \<not> hc_has c i then Inr None
      else bind_res (core_get S (hc_store c) i) (\<lambda>r.
             case r of
               None \<Rightarrow> Inl Corrupt
             | Some bytes \<Rightarrow> bind_res (map_err CodecFailed (decode (hc_codec c) bytes)) (\<lambda>v. Inr (Some v))))"

definition hc_block :: "('e, 's) store \<Rightarrow> ('a, 's) hypercore \<Rightarrow> nat \<Rightarrow> ('e core_error, bytes option) result" where
  "hc_block S c i =
     (if \<not> hc_has c i then Inr None
      else bind_res (core_get S (hc_store c) i) (\<lambda>r.
             case r of None \<Rightarrow> Inl Corrupt | Some bytes \<Rightarrow> Inr (Some bytes)))"

definition contiguous_length :: "('a, 's) hypercore \<Rightarrow> nat" where
  "contiguous_length c =
     min (case bf_find_first (presence c) False 0 of Some i \<Rightarrow> i | None \<Rightarrow> 0) (tree_len (hc_tree c))"

definition hc_proof :: "('a, 's) hypercore \<Rightarrow> nat \<Rightarrow> inclusion_proof option option" where
  "hc_proof c i = proof_of (hc_tree c) i"

definition hc_upgrade_proof :: "('a, 's) hypercore \<Rightarrow> nat \<Rightarrow> nat \<Rightarrow> upgrade_proof option option" where
  "hc_upgrade_proof c old new = upgrade_proof_of (hc_tree c) old new"

text \<open>\<open>verify_head\<close>; \<open>None\<close> is the panic of \<open>root_hash\<close>.\<close>

definition verify_head :: "crypto \<Rightarrow> hashfun \<Rightarrow> ('a, 's) hypercore \<Rightarrow> bool option" where
  "verify_head E H c =
     (case head c of
        None \<Rightarrow> Some (tree_len (hc_tree c) = 0)
      | Some h \<Rightarrow>
          if sh_fork h = fork c \<and> sh_length h = tree_len (hc_tree c)
          then map_option (\<lambda>root. sh_root h = root \<and>
                 sig_verify E (public c) (head_message (sh_fork h) (sh_length h) (sh_root h)) (sh_sig h))
                 (root_hash H (hc_tree c))
          else Some False)"

subsection \<open>Dropping blocks\<close>

fun clear_loop :: "('e, 's) store \<Rightarrow> nat list \<Rightarrow> ('a, 's) hypercore \<Rightarrow> nat \<Rightarrow>
    ('e core_error, nat, ('a, 's) hypercore) outcome" where
  "clear_loop S [] c cleared = (Inr cleared, c)"
| "clear_loop S (i # is) c cleared =
     (if bf_get (presence c) i
      then and_then (core_delete S (c\<lparr> presence := bf_set (presence c) i False \<rparr>) i)
             (\<lambda>_ c. clear_loop S is c (cleared + 1)) id
      else clear_loop S is c cleared)"

definition hc_clear :: "('e, 's) store \<Rightarrow> ('a, 's) hypercore \<Rightarrow> nat \<Rightarrow> nat \<Rightarrow>
    ('e core_error, nat, ('a, 's) hypercore) outcome" where
  "hc_clear S c start end = clear_loop S [start..<min end (tree_len (hc_tree c))] c 0"

fun sweep_loop :: "('e, 's) store \<Rightarrow> (nat \<Rightarrow> bool) \<Rightarrow> nat list \<Rightarrow> ('a, 's) hypercore \<Rightarrow> nat \<Rightarrow>
    ('e core_error, nat, ('a, 's) hypercore) outcome" where
  "sweep_loop S keep [] c swept = (Inr swept, c)"
| "sweep_loop S keep (i # is) c swept =
     (if bf_get (presence c) i \<and> \<not> keep i
      then and_then (core_delete S c i)
             (\<lambda>_ c. sweep_loop S keep is (c\<lparr> presence := bf_set (presence c) i False \<rparr>) (swept + 1)) id
      else sweep_loop S keep is c swept)"

definition hc_sweep :: "('e, 's) store \<Rightarrow> ('a, 's) hypercore \<Rightarrow> (nat \<Rightarrow> bool) \<Rightarrow>
    ('e core_error, nat, ('a, 's) hypercore) outcome" where
  "hc_sweep S c keep = sweep_loop S keep [0..<tree_len (hc_tree c)] c 0"

fun delete_all :: "('e, 's) store \<Rightarrow> nat list \<Rightarrow> ('a, 's) hypercore \<Rightarrow>
    ('e core_error, unit, ('a, 's) hypercore) outcome" where
  "delete_all S [] c = (Inr (), c)"
| "delete_all S (k # ks) c = and_then (core_delete S c k) (\<lambda>_ c. delete_all S ks c) id"

definition hc_purge :: "('e, 's) store \<Rightarrow> ('a, 's) hypercore \<Rightarrow>
    ('e core_error, unit, ('a, 's) hypercore) outcome" where
  "hc_purge S c =
     and_then (delete_all S [0..<tree_len (hc_tree c)] c) (\<lambda>_ c.
     and_then (delete_all S [KEY_META, KEY_TREE, KEY_PRESENCE, KEY_USERDATA] c) (\<lambda>_ c.
       (Inr (), c\<lparr> hc_tree := empty_tree, presence := bf_new, head := None, fork := 0,
                   hc_prologue := None, last_truncation := None \<rparr>)) id) id"

section \<open>Batches\<close>

record batch =
  base :: nat
  encoded :: "bytes list"

definition batch_length :: "batch \<Rightarrow> nat" where
  "batch_length b = base b + length (encoded b)"

definition hc_batch :: "('a, 's) hypercore \<Rightarrow> batch" where
  "hc_batch c = \<lparr> base = tree_len (hc_tree c), encoded = [] \<rparr>"

definition stage :: "('a, 's) hypercore \<Rightarrow> batch \<Rightarrow> 'a \<Rightarrow> batch" where
  "stage c b v = b\<lparr> encoded := encoded b @ [encode (hc_codec c) v] \<rparr>"

definition batch_get :: "('e, 's) store \<Rightarrow> ('a, 's) hypercore \<Rightarrow> batch \<Rightarrow> nat \<Rightarrow> ('e core_error, 'a option) result" where
  "batch_get S c b i =
     (if i < base b then hc_get S c i
      else if i - base b < length (encoded b)
           then bind_res (map_err CodecFailed (decode (hc_codec c) (encoded b ! (i - base b)))) (\<lambda>v. Inr (Some v))
           else Inr None)"

text \<open>
  The write loop of \<open>commit\<close>: on a failed \<open>put\<close> the blocks in \<open>written\<close> are deleted again, and
  errors of those deletions are ignored.
\<close>

fun write_blocks :: "('e, 's) store \<Rightarrow> 's \<Rightarrow> nat \<Rightarrow> bytes list \<Rightarrow> nat list \<Rightarrow> ('e, unit, 's) outcome" where
  "write_blocks S s idx [] written = (Inr (), s)"
| "write_blocks S s idx (enc # encs) written =
     (case st_put S s idx enc of
        (Inl e, s) \<Rightarrow> (Inl e, foldl (\<lambda>s w. snd (st_delete S s w)) s written)
      | (Inr _, s) \<Rightarrow> write_blocks S s (idx + 1) encs (written @ [idx]))"

fun fold_blocks :: "hashfun \<Rightarrow> nat \<Rightarrow> bytes list \<Rightarrow> merkle_tree \<Rightarrow> bitfield \<Rightarrow> merkle_tree \<times> bitfield" where
  "fold_blocks H idx [] t p = (t, p)"
| "fold_blocks H idx (enc # encs) t p =
     fold_blocks H (idx + 1) encs (snd (append H t enc)) (bf_set p idx True)"

definition commit :: "crypto \<Rightarrow> hashfun \<Rightarrow> ('e, 's) store \<Rightarrow> ('a, 's) hypercore \<Rightarrow> batch \<Rightarrow>
    ('e core_error, nat option, ('a, 's) hypercore) outcome" where
  "commit E H S c b =
     (if base b \<noteq> tree_len (hc_tree c) then (Inr None, c)
      else if encoded b = [] then (Inr (Some (tree_len (hc_tree c))), c)
      else let start = tree_len (hc_tree c)
           in case write_blocks S (hc_store c) start (encoded b) [] of
                (Inl e, s) \<Rightarrow> (Inl (Storage e), c\<lparr> hc_store := s \<rparr>)
              | (Inr _, s) \<Rightarrow>
                  let (t, p) = fold_blocks H start (encoded b) (hc_tree c) (presence c)
                  in resign_and E H (c\<lparr> hc_store := s, hc_tree := t, presence := p, last_truncation := None \<rparr>)
                       (Some (tree_len t)))"

definition append_all :: "crypto \<Rightarrow> hashfun \<Rightarrow> ('e, 's) store \<Rightarrow> ('a, 's) hypercore \<Rightarrow> 'a list \<Rightarrow>
    ('e core_error, nat, ('a, 's) hypercore) outcome" where
  "append_all E H S c vs =
     (if vs = [] then (Inr (hc_len c), c)
      else and_then (commit E H S c (foldl (stage c) (hc_batch c) vs)) (\<lambda>_ c. (Inr (hc_len c), c)) id)"

section \<open>Adopting a prologue\<close>

fun copy_loop :: "hashfun \<Rightarrow> ('e, 's) store \<Rightarrow> ('a, 's) hypercore \<Rightarrow> nat list \<Rightarrow> ('a, 's) hypercore \<Rightarrow>
    ('e core_error, unit, ('a, 's) hypercore) outcome" where
  "copy_loop H S source [] c = (Inr (), c)"
| "copy_loop H S source (i # is) c =
     (case hc_block S source i of
        Inl e \<Rightarrow> (Inl e, c)
      | Inr None \<Rightarrow> (Inl PrologueMismatch, c)
      | Inr (Some enc) \<Rightarrow>
          and_then (core_put S c i enc) (\<lambda>_ c.
            copy_loop H S source is (c\<lparr> hc_tree := snd (append H (hc_tree c) enc),
                                        presence := bf_set (presence c) i True \<rparr>)) id)"

definition copy_prologue :: "crypto \<Rightarrow> hashfun \<Rightarrow> ('e, 's) store \<Rightarrow> ('a, 's) hypercore \<Rightarrow> ('a, 's) hypercore \<Rightarrow>
    ('e core_error, nat, ('a, 's) hypercore) outcome" where
  "copy_prologue E H S c source =
     (case hc_prologue c of
        None \<Rightarrow> (Inl NoPrologue, c)
      | Some pr \<Rightarrow>
          if \<not> hc_is_empty c then (Inl PrologueMismatch, c)
          else if prefix_root_hash H (hc_tree source) (cp_length pr) \<noteq> Some (cp_hash pr)
          then (Inl PrologueMismatch, c)
          else and_then (copy_loop H S source [0..<cp_length pr] c) (\<lambda>_ c.
                 resign_and E H (c\<lparr> last_truncation := None \<rparr>) (cp_length pr)) id)"

section \<open>Persistence\<close>

definition encode_meta_parts :: "nat \<Rightarrow> signed_head option \<Rightarrow> core_prologue option \<Rightarrow> bytes" where
  "encode_meta_parts fk hh pr =
     le64 fk @
     (case hh of
        Some h \<Rightarrow> [1] @ le64 (sh_fork h) @ le64 (sh_length h) @ sh_root h @ sh_sig h
      | None \<Rightarrow> [0]) @
     (case pr of Some p \<Rightarrow> [1] @ le64 (cp_length p) @ cp_hash p | None \<Rightarrow> [0])"

definition encode_meta :: "('a, 's) hypercore \<Rightarrow> bytes" where
  "encode_meta c = encode_meta_parts (fork c) (head c) (hc_prologue c)"

text \<open>The closures \<open>take\<close> and \<open>u64_at\<close>, on the bytes from \<open>off\<close> on.\<close>

definition take_at :: "nat \<Rightarrow> bytes \<Rightarrow> (bytes \<times> bytes) option" where
  "take_at n bs = (if length bs < n then None else Some (take n bs, drop n bs))"

definition u64_at :: "bytes \<Rightarrow> (nat \<times> bytes) option" where
  "u64_at bs = Option.bind (take_at 8 bs) (\<lambda>(b, bs). Some (of_le b, bs))"

definition decode_head :: "bytes \<Rightarrow> (signed_head option \<times> bytes) option" where
  "decode_head bs =
     Option.bind (take_at 1 bs) (\<lambda>(tag, bs).
       if tag ! 0 = 0 then Some (None, bs)
       else if tag ! 0 = 1 then
         Option.bind (u64_at bs) (\<lambda>(fk, bs).
         Option.bind (u64_at bs) (\<lambda>(len, bs).
         Option.bind (take_at 32 bs) (\<lambda>(root, bs).
         Option.bind (take_at 64 bs) (\<lambda>(sig, bs).
           Some (Some \<lparr> sh_fork = fk, sh_length = len, sh_root = root, sh_sig = sig \<rparr>, bs)))))
       else None)"

definition decode_prologue :: "bytes \<Rightarrow> (core_prologue option \<times> bytes) option" where
  "decode_prologue bs =
     Option.bind (take_at 1 bs) (\<lambda>(tag, bs).
       if tag ! 0 = 0 then Some (None, bs)
       else if tag ! 0 = 1 then
         Option.bind (u64_at bs) (\<lambda>(len, bs).
         Option.bind (take_at 32 bs) (\<lambda>(hash, bs).
           Some (Some \<lparr> cp_length = len, cp_hash = hash \<rparr>, bs)))
       else None)"

definition decode_meta :: "bytes \<Rightarrow> (nat \<times> signed_head option \<times> core_prologue option) option" where
  "decode_meta bs =
     Option.bind (u64_at bs) (\<lambda>(fk, bs).
     Option.bind (decode_head bs) (\<lambda>(hh, bs).
     Option.bind (decode_prologue bs) (\<lambda>(pr, bs).
       if bs \<noteq> [] then None else Some (fk, hh, pr))))"

definition hc_persist :: "('e, 's) store \<Rightarrow> ('a, 's) hypercore \<Rightarrow>
    ('e core_error, unit, ('a, 's) hypercore) outcome" where
  "hc_persist S c =
     (let tree = serialize (hc_tree c); pres = bf_serialize (presence c); meta = encode_meta c
      in and_then (core_put S c KEY_TREE tree) (\<lambda>_ c.
         and_then (core_put S c KEY_PRESENCE pres) (\<lambda>_ c.
           core_put S c KEY_META meta) id) id)"

definition hc_open :: "crypto \<Rightarrow> hashfun \<Rightarrow> ('e, 's) store \<Rightarrow> bytes \<Rightarrow> 'a codec \<Rightarrow> 's \<Rightarrow>
    ('e core_error, ('a, 's) hypercore) result" where
  "hc_open E H S sk cd s =
     bind_res (core_get S s KEY_META) (\<lambda>m.
     bind_res (core_get S s KEY_TREE) (\<lambda>t.
     bind_res (core_get S s KEY_PRESENCE) (\<lambda>p.
       case (m, t, p) of
         (Some meta_bytes, Some tree_bytes, Some presence_bytes) \<Rightarrow>
           (case deserialize tree_bytes of None \<Rightarrow> Inl Corrupt | Some tree \<Rightarrow>
           (case bf_deserialize presence_bytes of None \<Rightarrow> Inl Corrupt | Some pres \<Rightarrow>
           (case decode_meta meta_bytes of None \<Rightarrow> Inl Corrupt | Some (fk, hh, pr) \<Rightarrow>
              let c = \<lparr> author = sk, public = public_of E sk, hc_codec = cd, hc_store = s,
                        hc_tree = tree, presence = pres, head = hh, fork = fk,
                        last_truncation = None, hc_prologue = pr \<rparr>
              in case verify_head E H c of
                   None \<Rightarrow> Inl Panic
                 | Some ok \<Rightarrow> if ok then Inr c else Inl Corrupt)))
       | _ \<Rightarrow> Inl NotPersisted)))"

subsection \<open>Recovering a signed suffix\<close>

fun read_blocks :: "('e, 's) store \<Rightarrow> ('a, 's) hypercore \<Rightarrow> nat list \<Rightarrow> ('e core_error, bytes list) result" where
  "read_blocks S c [] = Inr []"
| "read_blocks S c (i # is) =
     bind_res (hc_block S c i) (\<lambda>r.
       case r of
         None \<Rightarrow> Inl Corrupt
       | Some b \<Rightarrow> bind_res (read_blocks S c is) (\<lambda>bs. Inr (b # bs)))"

fun put_blocks :: "('e, 's) store \<Rightarrow> nat \<Rightarrow> bytes list \<Rightarrow> ('a, 's) hypercore \<Rightarrow>
    ('e core_error, unit, ('a, 's) hypercore) outcome" where
  "put_blocks S i [] c = (Inr (), c)"
| "put_blocks S i (b # bs) c = and_then (core_put S c i b) (\<lambda>_ c. put_blocks S (i + 1) bs c) id"

definition recover_signed_suffix :: "crypto \<Rightarrow> hashfun \<Rightarrow> ('e, 's) store \<Rightarrow> ('a, 's) hypercore \<Rightarrow>
    signed_head \<Rightarrow> bytes list \<Rightarrow> ('e core_error, unit, ('a, 's) hypercore) outcome" where
  "recover_signed_suffix E H S c h suf =
     (let start = hc_len c
      in if sh_fork h \<noteq> fork c \<or> \<not> (start + length suf < 2 ^ 64 \<and> start + length suf = sh_length h)
         then (Inl Corrupt, c)
         else case read_blocks S c [0..<start] of
                Inl e \<Rightarrow> (Inl e, c)
              | Inr pre \<Rightarrow>
                  let blocks = pre @ suf
                  in if \<not> verify_archived_feed E H (public c) h blocks then (Inl Corrupt, c)
                     else let (tree, pres) = fold_blocks H 0 blocks empty_tree bf_new
                          in and_then (put_blocks S start suf c) (\<lambda>_ c.
                             and_then (core_put S c KEY_TREE (serialize tree)) (\<lambda>_ c.
                             and_then (core_put S c KEY_PRESENCE (bf_serialize pres)) (\<lambda>_ c.
                             and_then (core_put S c KEY_META (encode_meta_parts (fork c) (Some h) (hc_prologue c))) (\<lambda>_ c.
                               (Inr (), c\<lparr> hc_tree := tree, presence := pres, head := Some h,
                                           last_truncation := None \<rparr>)) id) id) id) id)"

subsection \<open>User data\<close>

definition encode_user_data :: "(bytes, bytes) btmap \<Rightarrow> bytes" where
  "encode_user_data m =
     le64 (length m) @ concat (map (\<lambda>(k, v). le64 (length k) @ k @ le64 (length v) @ v) m)"

fun decode_entries :: "nat \<Rightarrow> bytes \<Rightarrow> (bytes, bytes) btmap \<Rightarrow> ((bytes, bytes) btmap \<times> bytes) option" where
  "decode_entries 0 bs m = Some (m, bs)"
| "decode_entries (Suc n) bs m =
     Option.bind (u64_at bs) (\<lambda>(kl, bs).
     Option.bind (take_at kl bs) (\<lambda>(k, bs).
     Option.bind (u64_at bs) (\<lambda>(vl, bs).
     Option.bind (take_at vl bs) (\<lambda>(v, bs).
       decode_entries n bs (bt_insert k v m)))))"

definition decode_user_data :: "bytes \<Rightarrow> (bytes, bytes) btmap option" where
  "decode_user_data bs =
     Option.bind (u64_at bs) (\<lambda>(count, bs).
     Option.bind (decode_entries count bs []) (\<lambda>(m, bs).
       if bs \<noteq> [] then None else Some m))"

definition load_user_data :: "('e, 's) store \<Rightarrow> ('a, 's) hypercore \<Rightarrow> ('e core_error, (bytes, bytes) btmap) result" where
  "load_user_data S c =
     bind_res (core_get S (hc_store c) KEY_USERDATA) (\<lambda>r.
       case r of
         Some bs \<Rightarrow> (case decode_user_data bs of None \<Rightarrow> Inl Corrupt | Some m \<Rightarrow> Inr m)
       | None \<Rightarrow> Inr [])"

definition set_user_data :: "('e, 's) store \<Rightarrow> ('a, 's) hypercore \<Rightarrow> bytes \<Rightarrow> bytes \<Rightarrow>
    ('e core_error, unit, ('a, 's) hypercore) outcome" where
  "set_user_data S c k v =
     (case load_user_data S c of
        Inl e \<Rightarrow> (Inl e, c)
      | Inr m \<Rightarrow> core_put S c KEY_USERDATA (encode_user_data (bt_insert k v m)))"

definition get_user_data :: "('e, 's) store \<Rightarrow> ('a, 's) hypercore \<Rightarrow> bytes \<Rightarrow> ('e core_error, bytes option) result" where
  "get_user_data S c k = bind_res (load_user_data S c) (\<lambda>m. Inr (bt_get m k))"

section \<open>Streams\<close>

record read_options =
  ro_start :: nat
  ro_end :: "nat option"
  ro_reverse :: bool

record read_stream =
  rs_lo :: nat
  rs_hi :: nat
  rs_reverse :: bool

definition hc_read_stream :: "('a, 's) hypercore \<Rightarrow> read_options \<Rightarrow> read_stream" where
  "hc_read_stream c opts =
     (let end = min (case ro_end opts of Some e \<Rightarrow> e | None \<Rightarrow> tree_len (hc_tree c)) (tree_len (hc_tree c));
          lo = min (ro_start opts) end
      in \<lparr> rs_lo = lo, rs_hi = end, rs_reverse = ro_reverse opts \<rparr>)"

definition rs_step :: "read_stream \<Rightarrow> nat \<times> read_stream" where
  "rs_step r =
     (if rs_reverse r then (rs_hi r - 1, r\<lparr> rs_hi := rs_hi r - 1 \<rparr>)
      else (rs_lo r, r\<lparr> rs_lo := rs_lo r + 1 \<rparr>))"

function rs_next :: "('e, 's) store \<Rightarrow> ('a, 's) hypercore \<Rightarrow> read_stream \<Rightarrow>
    ('e core_error, 'a) result option \<times> read_stream" where
  "rs_next S c r =
     (if rs_lo r < rs_hi r
      then case hc_get S c (fst (rs_step r)) of
             Inr (Some v) \<Rightarrow> (Some (Inr v), snd (rs_step r))
           | Inr None \<Rightarrow> rs_next S c (snd (rs_step r))
           | Inl e \<Rightarrow> (Some (Inl e), snd (rs_step r))
      else (None, r))"
  by pat_completeness auto

termination
  by (relation "measure (\<lambda>(S, c, r). rs_hi r - rs_lo r)") (auto simp: rs_step_def)

declare rs_next.simps [simp del]

record byte_stream =
  by_next :: nat
  by_budget :: nat

text \<open>\<open>byte_stream\<close>; \<open>None\<close> is the panic on an absent root or node.\<close>

definition hc_byte_stream :: "('a, 's) hypercore \<Rightarrow> nat \<Rightarrow> nat option \<Rightarrow> byte_stream option" where
  "hc_byte_stream c byte_offset byte_len =
     Option.bind (byte_length (hc_tree c)) (\<lambda>total.
       let budget = (case byte_len of Some n \<Rightarrow> n | None \<Rightarrow> total - byte_offset)
       in Option.bind (seek (hc_tree c) byte_offset) (\<lambda>(start_block, _).
            Some \<lparr> by_next = start_block, by_budget = budget \<rparr>))"

function by_next_block :: "('e, 's) store \<Rightarrow> ('a, 's) hypercore \<Rightarrow> byte_stream \<Rightarrow>
    ('e core_error, bytes) result option \<times> byte_stream" where
  "by_next_block S c r =
     (if 0 < by_budget r \<and> by_next r < hc_len c
      then let i = by_next r; r = r\<lparr> by_next := by_next r + 1 \<rparr>
           in case hc_block S c i of
                Inr (Some bytes) \<Rightarrow> (Some (Inr bytes), r\<lparr> by_budget := by_budget r - length bytes \<rparr>)
              | Inr None \<Rightarrow> by_next_block S c r
              | Inl e \<Rightarrow> (Some (Inl e), r)
      else (None, r))"
  by pat_completeness auto

termination
  by (relation "measure (\<lambda>(S, c, r). hc_len c - by_next r)") auto

declare by_next_block.simps [simp del]

section \<open>Snapshots\<close>

record 'a snapshot =
  sn_length :: nat
  sn_fork :: nat
  sn_head :: "signed_head option"
  sn_tree :: merkle_tree
  sn_blocks :: "(nat, bytes) btmap"
  sn_codec :: "'a codec"

fun capture :: "('e, 's) store \<Rightarrow> ('a, 's) hypercore \<Rightarrow> nat list \<Rightarrow> (nat, bytes) btmap \<Rightarrow>
    ('e core_error, (nat, bytes) btmap) result" where
  "capture S c [] blocks = Inr blocks"
| "capture S c (i # is) blocks =
     (if bf_get (presence c) i
      then bind_res (core_get S (hc_store c) i) (\<lambda>r.
             case r of
               Some bytes \<Rightarrow> capture S c is (bt_insert i bytes blocks)
             | None \<Rightarrow> capture S c is blocks)
      else capture S c is blocks)"

definition hc_snapshot :: "('e, 's) store \<Rightarrow> ('a, 's) hypercore \<Rightarrow> ('e core_error, 'a snapshot) result" where
  "hc_snapshot S c =
     (let len = tree_len (hc_tree c)
      in bind_res (capture S c [0..<len] []) (\<lambda>blocks.
           Inr \<lparr> sn_length = len, sn_fork = fork c, sn_head = head c, sn_tree = hc_tree c,
                 sn_blocks = blocks, sn_codec = hc_codec c \<rparr>))"

definition sn_block :: "'a snapshot \<Rightarrow> nat \<Rightarrow> bytes option" where
  "sn_block n i = (if sn_length n \<le> i then None else bt_get (sn_blocks n) i)"

definition sn_get :: "'a snapshot \<Rightarrow> nat \<Rightarrow> (codec_error, 'a option) result" where
  "sn_get n i =
     (case sn_block n i of
        Some bytes \<Rightarrow> bind_res (decode (sn_codec n) bytes) (\<lambda>v. Inr (Some v))
      | None \<Rightarrow> Inr None)"

definition sn_proof :: "'a snapshot \<Rightarrow> nat \<Rightarrow> inclusion_proof option option" where
  "sn_proof n i = proof_of (sn_tree n) i"

definition signed_length :: "hashfun \<Rightarrow> 'a snapshot \<Rightarrow> ('a, 's) hypercore \<Rightarrow> nat" where
  "signed_length H n c = lowest_common_ancestor H (sn_tree n) (hc_tree c)"

end
