(* ===== verification/Hypercore_Log.thy ===== *)
theory Hypercore_Log
  imports Hypercore
begin

text \<open>
  The log of \<open>Hypercore\<close> behaves as a signed list of blocks over any backend that meets the storage
  contract: the invariant, what each operation does to the list, persistence, and what an honest
  writer's signatures can and cannot be used for.
\<close>

section \<open>The invariant\<close>

text \<open>
  \<open>c\<close> is the log of the blocks \<open>bs\<close>: the Merkle tree is that of \<open>bs\<close>, every block marked present is
  stored, and the head is signed for exactly this state.
\<close>

definition core_inv :: "crypto \<Rightarrow> hashfun \<Rightarrow> ('s \<Rightarrow> bool) \<Rightarrow> ('s \<Rightarrow> nat \<Rightarrow> bytes option) \<Rightarrow>
    ('a, 's) hypercore \<Rightarrow> bytes list \<Rightarrow> bool" where
  "core_inv E H ok content c bs \<longleftrightarrow>
     tree_ok H bs (hc_tree c) \<and> bf_ok (presence c) \<and> ok (hc_store c) \<and>
     public c = public_of E (author c) \<and> fork c < 2 ^ 64 \<and>
     (\<forall>i. bf_get (presence c) i \<longrightarrow> i < length bs \<and> content (hc_store c) i = Some (bs ! i)) \<and>
     verify_head E H c = Some True"

abbreviation root_of :: "hashfun \<Rightarrow> bytes list \<Rightarrow> bytes" where
  "root_of H bs \<equiv> tree_hash H (spec_roots H bs)"

definition own_head :: "crypto \<Rightarrow> hashfun \<Rightarrow> ('a, 's) hypercore \<Rightarrow> bytes list \<Rightarrow> signed_head" where
  "own_head E H c bs = \<lparr> sh_fork = fork c, sh_length = length bs, sh_root = root_of H bs,
     sh_sig = sign_with E (author c) (head_message (fork c) (length bs) (root_of H bs)) \<rparr>"

text \<open>What no operation on the blocks changes.\<close>

definition same_writer :: "('a, 's) hypercore \<Rightarrow> ('a, 's) hypercore \<Rightarrow> bool" where
  "same_writer c c' \<longleftrightarrow> author c' = author c \<and> public c' = public c \<and> hc_codec c' = hc_codec c \<and>
     fork c' = fork c \<and> hc_prologue c' = hc_prologue c"

lemma tree_ok_len [simp]: "tree_ok H bs t \<Longrightarrow> tree_len t = length bs"
  by (simp add: tree_ok_def)

lemma core_inv_len: "core_inv E H ok content c bs \<Longrightarrow> tree_len (hc_tree c) = length bs"
  by (auto simp: core_inv_def)

lemma verify_head_irrelevant [simp]:
  "verify_head E H (c\<lparr> presence := p \<rparr>) = verify_head E H c"
  "verify_head E H (c\<lparr> hc_store := s \<rparr>) = verify_head E H c"
  "verify_head E H (c\<lparr> last_truncation := t \<rparr>) = verify_head E H c"
  by (simp_all add: verify_head_def split: option.split)

lemma resign_ok:
  "tree_ok H bs (hc_tree c) \<Longrightarrow> resign E H c = Some (c\<lparr> head := Some (own_head E H c bs) \<rparr>)"
  by (simp add: resign_def own_head_def roots_ok(3) Let_def)

lemma resign_and_Inr: "resign_and E H c x = (Inr y, c') \<longleftrightarrow> y = x \<and> resign E H c = Some c'"
  by (auto simp: resign_and_def split: option.splits)

lemma verify_own_head:
  assumes "tree_ok H bs (hc_tree c)" "sig_correct E" "public c = public_of E (author c)"
  shows "verify_head E H (c\<lparr> head := Some (own_head E H c bs) \<rparr>) = Some True"
  using assms by (simp add: verify_head_def own_head_def roots_ok(3) sig_correct_def)

lemma core_put_Inr: "core_put S c k v = (Inr x, c') \<longleftrightarrow>
    (\<exists>s. st_put S (hc_store c) k v = (Inr (), s) \<and> c' = c\<lparr> hc_store := s \<rparr>)"
  by (auto simp: core_put_def split: prod.splits)

lemma core_delete_Inr: "core_delete S c k = (Inr x, c') \<longleftrightarrow>
    (\<exists>s. st_delete S (hc_store c) k = (Inr (), s) \<and> c' = c\<lparr> hc_store := s \<rparr>)"
  by (auto simp: core_delete_def split: prod.splits)

lemma core_put_Inl: "core_put S c k v = (Inl e, c') \<Longrightarrow>
    \<exists>se s. e = Storage se \<and> c' = c\<lparr> hc_store := s \<rparr>"
  by (auto simp: core_put_def split: prod.splits) (metis map_err.simps old.sum.exhaust sum.distinct(1) sum.sel(1))

lemma map_err_Inl_iff: "map_err f r = Inl e \<longleftrightarrow> (\<exists>x. r = Inl x \<and> e = f x)"
  by (cases r) auto

lemma and_then_Inl: "and_then m f fail = (Inl e, t) \<longleftrightarrow>
    (\<exists>s. m = (Inl e, s) \<and> t = fail s) \<or> (\<exists>x s. m = (Inr x, s) \<and> f x s = (Inl e, t))"
  by (cases "(m, f, fail)" rule: and_then.cases) auto

lemma core_inv_new:
  "ok s \<Longrightarrow> core_inv E H ok content (hc_new E sk cd s) []"
  using bf_ok_new tree_ok_len [OF tree_ok_empty]
  by (simp add: core_inv_def hc_new_def tree_ok_empty verify_head_def)

lemma foldl_append_ok:
  "tree_ok H bs t \<Longrightarrow> tree_ok H (bs @ encs) (foldl (\<lambda>t enc. snd (append H t enc)) t encs)"
proof (induction encs arbitrary: bs t)
  case (Cons enc encs)
  from Cons(1) [OF conjunct2 [OF append_ok [OF Cons(2), of enc]]] show ?case by simp
qed simp

lemma fold_blocks_ok:
  assumes "tree_ok H bs t" "bf_ok p" "fold_blocks H (length bs) encs t p = (t', p')"
  shows "tree_ok H (bs @ encs) t' \<and> bf_ok p' \<and>
         (\<forall>i. bf_get p' i \<longleftrightarrow> bf_get p i \<or> length bs \<le> i \<and> i < length bs + length encs)"
  using assms
proof (induction encs arbitrary: bs t p)
  case (Cons enc encs)
  have "tree_ok H (bs @ [enc]) (snd (append H t enc))" using append_ok [OF Cons(2)] by simp
  moreover have "bf_ok (bf_set p (length bs) True)" using bf_set_ok(1) [OF Cons(3)] .
  ultimately have "tree_ok H ((bs @ [enc]) @ encs) t' \<and> bf_ok p' \<and>
    (\<forall>i. bf_get p' i \<longleftrightarrow> bf_get (bf_set p (length bs) True) i \<or>
      length (bs @ [enc]) \<le> i \<and> i < length (bs @ [enc]) + length encs)"
    using Cons(4) by (intro Cons(1)) simp_all
  then show ?case using bf_set_ok(2) [OF Cons(3)] by (auto simp: Suc_le_eq)
qed auto

section \<open>Metadata\<close>

text \<open>The sizes of the fixed-length fields, which the types of the code give.\<close>

definition wf_head :: "signed_head \<Rightarrow> bool" where
  "wf_head h \<longleftrightarrow> sh_fork h < 2 ^ 64 \<and> sh_length h < 2 ^ 64 \<and> length (sh_root h) = 32 \<and> length (sh_sig h) = 64"

definition wf_prologue :: "core_prologue \<Rightarrow> bool" where
  "wf_prologue p \<longleftrightarrow> cp_length p < 2 ^ 64 \<and> length (cp_hash p) = 32"

lemma take_at_append [simp]: "length a = n \<Longrightarrow> take_at n (a @ b) = Some (a, b)"
  by (simp add: take_at_def)

lemma take_at_tag [simp]: "take_at (Suc 0) (x # b) = Some ([x], b)"
  by (simp add: take_at_def)

lemma u64_at_append [simp]: "n < 2 ^ 64 \<Longrightarrow> u64_at (le64 n @ b) = Some (n, b)"
  by (simp add: u64_at_def del: of_le_le_bytes) (simp add: of_le_le64 del: of_le_le_bytes)

lemma decode_meta_encode:
  assumes "fk < 2 ^ 64" "\<forall>h. hh = Some h \<longrightarrow> wf_head h" "\<forall>p. pr = Some p \<longrightarrow> wf_prologue p"
  shows "decode_meta (encode_meta_parts fk hh pr) = Some (fk, hh, pr)"
proof -
  define tl where "tl = (case pr of Some p \<Rightarrow> [1] @ le64 (cp_length p) @ cp_hash p | None \<Rightarrow> [0])"
  have "decode_prologue tl = Some (pr, [])"
    using assms(3) take_at_append [of _ 32 "[]"]
    by (cases pr) (simp_all add: tl_def decode_prologue_def wf_prologue_def)
  moreover have "decode_head ((case hh of
        Some h \<Rightarrow> [1] @ le64 (sh_fork h) @ le64 (sh_length h) @ sh_root h @ sh_sig h
      | None \<Rightarrow> [0]) @ tl) = Some (hh, tl)"
    using assms(2) by (cases hh) (simp_all add: decode_head_def wf_head_def)
  ultimately show ?thesis
    using assms(1) by (simp add: decode_meta_def encode_meta_parts_def tl_def [symmetric])
qed

section \<open>The operations over a storage backend\<close>

definition log_keys :: "nat \<Rightarrow> bool" where
  "log_keys n \<longleftrightarrow> n \<le> KEY_USERDATA"

lemma log_keysD: "log_keys n \<Longrightarrow> i < n \<Longrightarrow>
    i < 2 ^ 64 \<and> i \<noteq> KEY_META \<and> i \<noteq> KEY_TREE \<and> i \<noteq> KEY_PRESENCE \<and> i \<noteq> KEY_USERDATA"
  by (auto simp: log_keys_def KEY_USERDATA_def KEY_META_def KEY_TREE_def KEY_PRESENCE_def)

context byte_store
begin

lemma core_extend:
  assumes "core_inv E H ok content c bs" "sig_correct E"
    and "tree_ok H (bs @ encs) t" "bf_ok p" "ok s"
    and "\<And>i. bf_get p i \<longleftrightarrow> bf_get (presence c) i \<or> length bs \<le> i \<and> i < length bs + length encs"
    and "\<And>i. i < length bs \<Longrightarrow> content s i = content (hc_store c) i"
    and "\<And>i. i < length encs \<Longrightarrow> content s (length bs + i) = Some (encs ! i)"
    and "c' = c\<lparr> hc_store := s, hc_tree := t, presence := p, last_truncation := None \<rparr>"
  shows "core_inv E H ok content (c'\<lparr> head := Some (own_head E H c' (bs @ encs)) \<rparr>) (bs @ encs)"
proof -
  have p: "i < length (bs @ encs) \<and> content s i = Some ((bs @ encs) ! i)" if "bf_get p i" for i
  proof (cases "i < length bs")
    case True
    then show ?thesis using that assms(1,6,7) by (auto simp: core_inv_def nth_append)
  next
    case False
    then have "i - length bs < length encs" using that assms(1,6) by (auto simp: core_inv_def)
    then show ?thesis using assms(8) [of "i - length bs"] False by (simp add: nth_append)
  qed
  have v: "verify_head E H (c'\<lparr> head := Some (own_head E H c' (bs @ encs)) \<rparr>) = Some True"
    using assms(1-3,9) by (intro verify_own_head) (simp_all add: core_inv_def)
  show ?thesis
    unfolding core_inv_def using v assms(1,3-5,9) p by (simp add: core_inv_def)
qed

lemma hc_append_ok:
  assumes inv: "core_inv E H ok content c bs" and E: "sig_correct E"
    and key: "log_keys (Suc (length bs))" and fit: "fits (encode (hc_codec c) v)"
    and run: "hc_append E H S c v = (Inr i, c')"
  shows "i = length bs \<and> core_inv E H ok content c' (bs @ [encode (hc_codec c) v]) \<and>
    (\<forall>j. hc_has c' j \<longleftrightarrow> hc_has c j \<or> j = length bs) \<and> same_writer c c' \<and>
    head c' = Some (own_head E H c' (bs @ [encode (hc_codec c) v])) \<and> last_truncation c' = None"
proof -
  let ?b = "encode (hc_codec c) v"
  have t: "tree_ok H bs (hc_tree c)" "bf_ok (presence c)" "ok (hc_store c)" using inv by (auto simp: core_inv_def)
  have t': "tree_ok H (bs @ [?b]) (snd (append H (hc_tree c) ?b))" using append_ok [OF t(1)] by simp
  obtain s where s: "st_put S (hc_store c) (length bs) ?b = (Inr (), s)"
    and c': "resign E H (c\<lparr> hc_store := s, hc_tree := snd (append H (hc_tree c) ?b),
       presence := bf_set (presence c) (length bs) True, last_truncation := None \<rparr>) = Some c'"
    and i: "i = length bs"
    using run t(1) by (auto simp: hc_append_def Let_def core_put_Inr resign_and_Inr)
  let ?c = "c\<lparr> hc_store := s, hc_tree := snd (append H (hc_tree c) ?b),
       presence := bf_set (presence c) (length bs) True, last_truncation := None \<rparr>"
  have c': "c' = ?c\<lparr> head := Some (own_head E H ?c (bs @ [?b])) \<rparr>"
    using c' resign_ok [of H "bs @ [?b]" ?c E] t' by simp
  have put: "ok s" "content s = (content (hc_store c))(length bs \<mapsto> ?b)"
    using put_law [OF t(3) _ fit s] log_keysD [OF key] by auto
  have "core_inv E H ok content (?c\<lparr> head := Some (own_head E H ?c (bs @ [?b])) \<rparr>) (bs @ [?b])"
    by (rule core_extend [OF inv E t' bf_set_ok(1) [OF t(2)] put(1)])
      (auto simp: bf_set_ok(2) [OF t(2)] put(2))
  then show ?thesis
    using i c' t(1) t' inv
    by (auto simp: hc_has_def bf_set_ok(2) [OF t(2)] core_inv_def same_writer_def own_head_def)
qed

lemma write_blocks_ok:
  assumes "ok s" "log_keys (idx + length encs)" "list_all fits encs"
    and "write_blocks S s idx encs written = (Inr (), s')"
  shows "ok s' \<and> content s' = (\<lambda>i. if idx \<le> i \<and> i < idx + length encs then Some (encs ! (i - idx)) else content s i)"
  using assms
proof (induction encs arbitrary: s idx written)
  case (Cons enc encs)
  obtain s1 where s1: "st_put S s idx enc = (Inr (), s1)" "write_blocks S s1 (idx + 1) encs (written @ [idx]) = (Inr (), s')"
    using Cons(5) by (auto split: prod.splits sum.splits)
  have p: "ok s1" "content s1 = (content s)(idx \<mapsto> enc)"
    using put_law [OF Cons(2) _ _ s1(1)] log_keysD [OF Cons(3), of idx] Cons(4) by auto
  have "ok s' \<and> content s' = (\<lambda>i. if idx + 1 \<le> i \<and> i < idx + 1 + length encs then Some (encs ! (i - (idx + 1))) else content s1 i)"
    using Cons(3,4) s1(2) p(1) by (intro Cons(1)) auto
  then show ?case by (auto simp: p(2) nth_Cons' fun_eq_iff)
qed (auto simp: fun_eq_iff)

lemma commit_ok:
  assumes inv: "core_inv E H ok content c bs" and E: "sig_correct E"
    and key: "log_keys (length bs + length (encoded b))" and fit: "list_all fits (encoded b)"
    and base: "base b = length bs"
    and run: "commit E H S c b = (Inr r, c')"
  shows "r = Some (length bs + length (encoded b)) \<and> core_inv E H ok content c' (bs @ encoded b) \<and>
    (\<forall>j. hc_has c' j \<longleftrightarrow> hc_has c j \<or> length bs \<le> j \<and> j < length bs + length (encoded b)) \<and>
    same_writer c c'"
proof (cases "encoded b = []")
  case True
  have "tree_ok H bs (hc_tree c)" using inv by (simp add: core_inv_def)
  then show ?thesis using True run base inv by (auto simp: commit_def same_writer_def)
next
  case False
  have t: "tree_ok H bs (hc_tree c)" "bf_ok (presence c)" "ok (hc_store c)" using inv by (auto simp: core_inv_def)
  obtain s t' p where w: "write_blocks S (hc_store c) (length bs) (encoded b) [] = (Inr (), s)"
    and f: "fold_blocks H (length bs) (encoded b) (hc_tree c) (presence c) = (t', p)"
    and c': "resign E H (c\<lparr> hc_store := s, hc_tree := t', presence := p, last_truncation := None \<rparr>) = Some c'"
    and r: "r = Some (tree_len t')"
    using run base False t(1) by (auto simp: commit_def Let_def resign_and_Inr split: prod.splits sum.splits)
  note fb = fold_blocks_ok [OF t(1,2) f]
  let ?c = "c\<lparr> hc_store := s, hc_tree := t', presence := p, last_truncation := None \<rparr>"
  have c': "c' = ?c\<lparr> head := Some (own_head E H ?c (bs @ encoded b)) \<rparr>"
    using c' resign_ok [of H "bs @ encoded b" ?c E] fb by simp
  note wb = write_blocks_ok [OF t(3) key fit w]
  have "core_inv E H ok content (?c\<lparr> head := Some (own_head E H ?c (bs @ encoded b)) \<rparr>) (bs @ encoded b)"
    by (rule core_extend [OF inv E]) (use fb wb in auto)
  then show ?thesis
    using r c' fb t(1) inv by (auto simp: hc_has_def core_inv_def same_writer_def)
qed

lemma hc_block_Inr:
  "\<lbrakk>core_inv E H ok content c bs; hc_block S c i = Inr r\<rbrakk> \<Longrightarrow> r = (if hc_has c i then Some (bs ! i) else None)"
  using get_law by (fastforce simp: hc_block_def core_inv_def hc_has_def split: if_splits option.splits)

lemma hc_get_Inr:
  "\<lbrakk>core_inv E H ok content c bs; hc_get S c i = Inr r\<rbrakk> \<Longrightarrow>
   if hc_has c i then \<exists>v. decode (hc_codec c) (bs ! i) = Inr v \<and> r = Some v else r = None"
  using get_law by (fastforce simp: hc_get_def core_inv_def hc_has_def split: if_splits option.splits)

lemma not_corrupt:
  "core_inv E H ok content c bs \<Longrightarrow> hc_block S c i \<noteq> Inl Corrupt \<and> hc_get S c i \<noteq> Inl Corrupt"
  using get_law by (fastforce simp: hc_block_def hc_get_def bind_res_Inl_iff core_inv_def hc_has_def map_err_Inl_iff split: if_splits option.splits)

lemma clear_loop_ok:
  assumes "core_inv E H ok content c bs" "log_keys (length bs)" "set is \<subseteq> {..<length bs}" "distinct is"
    and "clear_loop S is c k = (Inr n, c')"
  shows "core_inv E H ok content c' bs \<and> (\<forall>j. hc_has c' j \<longleftrightarrow> hc_has c j \<and> j \<notin> set is) \<and>
    n = k + card {i \<in> set is. hc_has c i} \<and> same_writer c c' \<and> hc_tree c' = hc_tree c \<and> head c' = head c"
  using assms
proof (induction "is" arbitrary: c k)
  case (Cons i "is")
  have i: "i < length bs" "i < 2 ^ 64" "i \<notin> set is" using Cons(3-5) log_keysD [OF Cons(3)] by auto
  show ?case
  proof (cases "bf_get (presence c) i")
    case True
    obtain s where s: "st_delete S (hc_store c) i = (Inr (), s)"
      "clear_loop S is (c\<lparr> presence := bf_set (presence c) i False, hc_store := s \<rparr>) (k + 1) = (Inr n, c')"
      using Cons(6) True by (auto simp: core_delete_Inr)
    let ?c = "c\<lparr> presence := bf_set (presence c) i False, hc_store := s \<rparr>"
    note p = bf_set_ok [of "presence c" i False]
    have d: "ok s \<and> content s = (content (hc_store c))(i := None)"
      using delete_law [OF _ i(2) s(1)] Cons(2) by (simp add: core_inv_def)
    have has: "hc_has ?c j \<longleftrightarrow> hc_has c j \<and> j \<noteq> i" for j
      using p Cons(2) by (auto simp: hc_has_def core_inv_def)
    have "core_inv E H ok content ?c bs"
      using Cons(2) d p by (simp add: core_inv_def)
    then have *: "core_inv E H ok content c' bs \<and> (\<forall>j. hc_has c' j \<longleftrightarrow> hc_has ?c j \<and> j \<notin> set is) \<and>
      n = k + 1 + card {i \<in> set is. hc_has ?c i} \<and> same_writer ?c c' \<and> hc_tree c' = hc_tree ?c \<and> head c' = head ?c"
      using Cons(3-5) s(2) by (intro Cons(1)) auto
    have "hc_has c i" using True i(1) core_inv_len [OF Cons(2)] by (simp add: hc_has_def)
    then have "{j \<in> set (i # is). hc_has c j} = insert i {j \<in> set is. hc_has ?c j}" using has i(3) by auto
    then have "card {j \<in> set (i # is). hc_has c j} = Suc (card {j \<in> set is. hc_has ?c j})" using has by simp
    then show ?thesis using * has by (auto simp: same_writer_def)
  next
    case False
    then have *: "core_inv E H ok content c' bs \<and> (\<forall>j. hc_has c' j \<longleftrightarrow> hc_has c j \<and> j \<notin> set is) \<and>
      n = k + card {i \<in> set is. hc_has c i} \<and> same_writer c c' \<and> hc_tree c' = hc_tree c \<and> head c' = head c"
      using Cons(2-6) by (intro Cons(1)) auto
    have "\<not> hc_has c i" using False by (simp add: hc_has_def)
    moreover from this have "{j \<in> set (i # is). hc_has c j} = {j \<in> set is. hc_has c j}" by auto
    ultimately show ?thesis using * by auto
  qed
qed (auto simp: same_writer_def)

lemma hc_clear_ok:
  assumes "core_inv E H ok content c bs" "log_keys (length bs)" "hc_clear S c a b = (Inr n, c')"
  shows "core_inv E H ok content c' bs \<and> (\<forall>j. hc_has c' j \<longleftrightarrow> hc_has c j \<and> \<not> (a \<le> j \<and> j < b)) \<and>
    n = card {i. hc_has c i \<and> a \<le> i \<and> i < b} \<and> same_writer c c' \<and> hc_tree c' = hc_tree c \<and> head c' = head c"
proof -
  note t = core_inv_len [OF assms(1)]
  have lt: "hc_has c j \<Longrightarrow> j < length bs" for j using t by (simp add: hc_has_def)
  have "{i \<in> set [a..<min b (length bs)]. hc_has c i} = {i. hc_has c i \<and> a \<le> i \<and> i < b}"
    using lt by auto
  moreover have "hc_has c j \<and> j \<notin> set [a..<min b (length bs)] \<longleftrightarrow> hc_has c j \<and> \<not> (a \<le> j \<and> j < b)" for j
    using lt by auto
  moreover have "set [a..<min b (length bs)] \<subseteq> {..<length bs}" "distinct [a..<min b (length bs)]" by auto
  ultimately show ?thesis
    using clear_loop_ok [OF assms(1,2) _ _ assms(3) [unfolded hc_clear_def t]] by simp
qed

lemma sweep_loop_ok:
  assumes "core_inv E H ok content c bs" "log_keys (length bs)" "set is \<subseteq> {..<length bs}" "distinct is"
    and "sweep_loop S keep is c k = (Inr n, c')"
  shows "core_inv E H ok content c' bs \<and> (\<forall>j. hc_has c' j \<longleftrightarrow> hc_has c j \<and> (j \<in> set is \<longrightarrow> keep j)) \<and>
    n = k + card {i \<in> set is. hc_has c i \<and> \<not> keep i} \<and> same_writer c c' \<and> hc_tree c' = hc_tree c \<and> head c' = head c"
  using assms
proof (induction "is" arbitrary: c k)
  case (Cons i "is")
  have i: "i < length bs" "i < 2 ^ 64" "i \<notin> set is" using Cons(3-5) log_keysD [OF Cons(3)] by auto
  show ?case
  proof (cases "bf_get (presence c) i \<and> \<not> keep i")
    case True
    obtain s where s: "st_delete S (hc_store c) i = (Inr (), s)"
      "sweep_loop S keep is (c\<lparr> hc_store := s, presence := bf_set (presence c) i False \<rparr>) (k + 1) = (Inr n, c')"
      using Cons(6) True by (auto simp: core_delete_Inr)
    let ?c = "c\<lparr> hc_store := s, presence := bf_set (presence c) i False \<rparr>"
    note p = bf_set_ok [of "presence c" i False]
    have d: "ok s \<and> content s = (content (hc_store c))(i := None)"
      using delete_law [OF _ i(2) s(1)] Cons(2) by (simp add: core_inv_def)
    have has: "hc_has ?c j \<longleftrightarrow> hc_has c j \<and> j \<noteq> i" for j
      using p Cons(2) by (auto simp: hc_has_def core_inv_def)
    have "core_inv E H ok content ?c bs"
      using Cons(2) d p by (simp add: core_inv_def)
    then have *: "core_inv E H ok content c' bs \<and> (\<forall>j. hc_has c' j \<longleftrightarrow> hc_has ?c j \<and> (j \<in> set is \<longrightarrow> keep j)) \<and>
      n = k + 1 + card {i \<in> set is. hc_has ?c i \<and> \<not> keep i} \<and> same_writer ?c c' \<and> hc_tree c' = hc_tree ?c \<and> head c' = head ?c"
      using Cons(3-5) s(2) by (intro Cons(1)) auto
    have "hc_has c i" using True i(1) core_inv_len [OF Cons(2)] by (simp add: hc_has_def)
    then have "{j \<in> set (i # is). hc_has c j \<and> \<not> keep j} = insert i {j \<in> set is. hc_has ?c j \<and> \<not> keep j}"
      using has i(3) True by auto
    then have "card {j \<in> set (i # is). hc_has c j \<and> \<not> keep j} = Suc (card {j \<in> set is. hc_has ?c j \<and> \<not> keep j})"
      using has by simp
    then show ?thesis using * has True i(3) by (auto simp: same_writer_def)
  next
    case False
    then have *: "core_inv E H ok content c' bs \<and> (\<forall>j. hc_has c' j \<longleftrightarrow> hc_has c j \<and> (j \<in> set is \<longrightarrow> keep j)) \<and>
      n = k + card {i \<in> set is. hc_has c i \<and> \<not> keep i} \<and> same_writer c c' \<and> hc_tree c' = hc_tree c \<and> head c' = head c"
      using Cons(2-6) by (intro Cons(1)) auto
    have "hc_has c i \<Longrightarrow> keep i" using False by (simp add: hc_has_def)
    moreover from this have "{j \<in> set (i # is). hc_has c j \<and> \<not> keep j} = {j \<in> set is. hc_has c j \<and> \<not> keep j}" by auto
    ultimately show ?thesis using * by auto
  qed
qed (auto simp: same_writer_def)

lemma hc_sweep_ok:
  assumes "core_inv E H ok content c bs" "log_keys (length bs)" "hc_sweep S c keep = (Inr n, c')"
  shows "core_inv E H ok content c' bs \<and> (\<forall>j. hc_has c' j \<longleftrightarrow> hc_has c j \<and> keep j) \<and>
    n = card {i. hc_has c i \<and> \<not> keep i} \<and> same_writer c c' \<and> hc_tree c' = hc_tree c \<and> head c' = head c"
proof -
  note t = core_inv_len [OF assms(1)]
  have lt: "hc_has c j \<Longrightarrow> j < length bs" for j using t by (simp add: hc_has_def)
  then have "{i \<in> set [0..<length bs]. hc_has c i \<and> \<not> keep i} = {i. hc_has c i \<and> \<not> keep i}" by auto
  moreover have "set [0..<length bs] \<subseteq> {..<length bs}" "distinct [0..<length bs]" by auto
  ultimately show ?thesis
    using sweep_loop_ok [OF assms(1,2) _ _ assms(3) [unfolded hc_sweep_def t]] lt by auto
qed

lemma hc_truncate_cases:
  assumes inv: "core_inv E H ok content c bs" and E: "sig_correct E"
    and run: "hc_truncate E H c n = (r :: ('err core_error, truncation option) result, c')"
  shows "if n < length bs \<and> (case hc_prologue c of Some pr \<Rightarrow> cp_length pr \<le> n | None \<Rightarrow> True)
    then r = Inr (Some \<lparr> tr_from = length bs, tr_to = n \<rparr>) \<and> core_inv E H ok content c' (take n bs) \<and>
      (\<forall>j. hc_has c' j \<longleftrightarrow> hc_has c j \<and> j < n) \<and> fork c' = add64 (fork c) 1 \<and>
      author c' = author c \<and> public c' = public c \<and> hc_codec c' = hc_codec c \<and> hc_prologue c' = hc_prologue c \<and>
      head c' = Some (own_head E H c' (take n bs)) \<and> hc_store c' = hc_store c
    else r = Inr None \<and> c' = c"
proof (cases "n < length bs \<and> (case hc_prologue c of Some pr \<Rightarrow> cp_length pr \<le> n | None \<Rightarrow> True)")
  case True
  let ?t = "snd (Merkle.truncate (hc_tree c) n)" and ?p = "bf_set_range (presence c) n (length bs) False"
  have t: "tree_ok H bs (hc_tree c)" "bf_ok (presence c)" using inv by (auto simp: core_inv_def)
  have tr: "fst (Merkle.truncate (hc_tree c) n)" "tree_ok H (take n bs) ?t"
    using truncate_ok [OF t(1), of n] True by auto
  have p: "bf_ok ?p" "bf_get ?p j = (if n \<le> j \<and> j < length bs then False else bf_get (presence c) j)" for j
    using bf_set_range_ok [OF t(2)] by auto
  let ?c = "c\<lparr> hc_tree := ?t, presence := ?p, fork := add64 (fork c) 1,
     last_truncation := Some \<lparr> tr_from = length bs, tr_to = n \<rparr> \<rparr>"
  let ?c' = "?c\<lparr> head := Some (own_head E H ?c (take n bs)) \<rparr>"
  have "hc_truncate E H c n = (resign_and E H ?c (Some \<lparr> tr_from = length bs, tr_to = n \<rparr>)
      :: ('err core_error, truncation option) result \<times> _)"
    using True tr(1) t(1) by (simp add: hc_truncate_def Let_def split_beta not_less split: option.splits)
  also have "\<dots> = (Inr (Some \<lparr> tr_from = length bs, tr_to = n \<rparr>), ?c')"
    using resign_ok [of H "take n bs" ?c E] tr(2) by (simp add: resign_and_Inr)
  finally have rc: "r = Inr (Some \<lparr> tr_from = length bs, tr_to = n \<rparr>)" "c' = ?c'" using run by simp_all
  have v: "verify_head E H ?c' = Some True"
    using inv E tr(2) by (intro verify_own_head) (simp_all add: core_inv_def)
  have "core_inv E H ok content ?c' (take n bs)"
    unfolding core_inv_def using v inv tr(2) p add64_less [of "fork c" 1] by (auto simp: core_inv_def not_less)
  then show ?thesis using True rc tr(2) t(1) p by (auto simp: own_head_def hc_has_def)
next
  case False
  have t: "tree_ok H bs (hc_tree c)" using inv by (simp add: core_inv_def)
  have "Merkle.truncate (hc_tree c) n = (False, hc_tree c)" if "\<not> n < length bs"
    using that t by (simp add: Merkle.truncate_def)
  then have "hc_truncate E H c n = (Inr None :: ('err core_error, truncation option) result, c)"
    using False by (auto simp: hc_truncate_def Let_def split: option.splits)
  then show ?thesis using False run by simp
qed

lemma hc_persist_ok:
  assumes "core_inv E H ok content c bs" "log_keys (length bs)"
    and "fits (serialize (hc_tree c))" "fits (bf_serialize (presence c))" "fits (encode_meta c)"
    and "hc_persist S c = (Inr u, c')"
  shows "core_inv E H ok content c' bs \<and> c' = c\<lparr> hc_store := hc_store c' \<rparr> \<and>
    content (hc_store c') = (content (hc_store c))(KEY_TREE \<mapsto> serialize (hc_tree c),
      KEY_PRESENCE \<mapsto> bf_serialize (presence c), KEY_META \<mapsto> encode_meta c)"
proof -
  obtain s1 s2 s3 where s: "st_put S (hc_store c) KEY_TREE (serialize (hc_tree c)) = (Inr (), s1)"
      "st_put S s1 KEY_PRESENCE (bf_serialize (presence c)) = (Inr (), s2)"
      "st_put S s2 KEY_META (encode_meta c) = (Inr (), s3)" "c' = c\<lparr> hc_store := s3 \<rparr>"
    using assms(6) by (auto simp: hc_persist_def Let_def core_put_Inr)
  have k: "KEY_TREE < 2 ^ 64" "KEY_PRESENCE < 2 ^ 64" "KEY_META < 2 ^ 64"
    by (simp_all add: KEY_TREE_def KEY_PRESENCE_def KEY_META_def)
  have ok0: "ok (hc_store c)" using assms(1) by (simp add: core_inv_def)
  note p1 = put_law [OF ok0 k(1) assms(3) s(1)]
  note p2 = put_law [OF conjunct1 [OF p1] k(2) assms(4) s(2)]
  note p3 = put_law [OF conjunct1 [OF p2] k(3) assms(5) s(3)]
  have "content s3 i = content (hc_store c) i" if "i < length bs" for i
    using log_keysD [OF assms(2) that] p1 p2 p3 by simp
  then have "core_inv E H ok content c' bs" using assms(1) p3 s(4) by (auto simp: core_inv_def)
  then show ?thesis using p1 p2 p3 s(4) by simp
qed

lemma hc_open_ok:
  assumes inv: "core_inv E H ok content c bs" and h: "hash32 H" and sz: "sized bs"
    and wf: "\<forall>h. head c = Some h \<longrightarrow> length (sh_sig h) = 64" "\<forall>p. hc_prologue c = Some p \<longrightarrow> wf_prologue p"
    and s: "ok s" "content s KEY_META = Some (encode_meta c)" "content s KEY_TREE = Some (serialize (hc_tree c))"
      "content s KEY_PRESENCE = Some (bf_serialize (presence c))"
    and blocks: "\<And>i. i < length bs \<Longrightarrow> content s i = content (hc_store c) i"
  shows "(\<exists>e. hc_open E H S (author c) cd s = Inl (Storage e)) \<or>
    (\<exists>c'. hc_open E H S (author c) cd s = Inr c' \<and> core_inv E H ok content c' bs \<and>
       (\<forall>i. hc_has c' i = hc_has c i) \<and> head c' = head c \<and> fork c' = fork c \<and>
       hc_prologue c' = hc_prologue c \<and> hc_codec c' = cd \<and> hc_store c' = s)"
proof -
  have t: "tree_ok H bs (hc_tree c)" "bf_ok (presence c)" "fork c < 2 ^ 64" using inv by (auto simp: core_inv_def)
  have lt: "length bs < 2 ^ 63" using sz by (simp add: sized_def)
  have "bf_get (presence c) i \<longrightarrow> i < 2 ^ 63" for i using inv lt by (auto simp: core_inv_def dest: less_trans)
  then obtain p where p: "bf_deserialize (bf_serialize (presence c)) = Some p" "bf_ok p" "\<forall>i. bf_get p i = bf_get (presence c) i"
    using bf_deserialize_bounded [OF t(2)] by blast
  have hd: "wf_head hh" if "head c = Some hh" for hh
  proof -
    have "sh_fork hh = fork c" "sh_length hh = length bs" "sh_root hh = root_of H bs"
      using inv that t(1) by (auto simp: core_inv_def verify_head_def roots_ok(3) split: if_splits)
    then show ?thesis using t(3) lt h wf(1) that by (auto simp: wf_head_def tree_hash_def hash32_def)
  qed
  have m: "decode_meta (encode_meta c) = Some (fork c, head c, hc_prologue c)"
    unfolding encode_meta_def using t(3) hd wf(2) by (intro decode_meta_encode) auto
  have d: "deserialize (serialize (hc_tree c)) = Some (hc_tree c)"
    by (rule deserialize_serialize [OF tree_ok_wf [OF t(1) h sz]])
  let ?c = "\<lparr> author = author c, public = public_of E (author c), hc_codec = cd, hc_store = s,
     hc_tree = hc_tree c, presence = p, head = head c, fork = fork c, last_truncation = None, hc_prologue = hc_prologue c \<rparr>"
  have v: "verify_head E H ?c = Some True" using inv by (cases "head c") (auto simp: core_inv_def verify_head_def split: if_splits)
  have inv': "core_inv E H ok content ?c bs"
    unfolding core_inv_def using v inv s(1) p blocks by (auto simp: core_inv_def)
  have has: "hc_has ?c i = hc_has c i" for i using p(3) by (simp add: hc_has_def)
  show ?thesis
  proof (cases "\<exists>a b e. st_get S s KEY_META = Inr a \<and> st_get S s KEY_TREE = Inr b \<and> st_get S s KEY_PRESENCE = Inr e")
    case True
    then have "st_get S s KEY_META = Inr (Some (encode_meta c))" "st_get S s KEY_TREE = Inr (Some (serialize (hc_tree c)))"
      "st_get S s KEY_PRESENCE = Inr (Some (bf_serialize (presence c)))"
      using get_law [OF s(1)] s(2-4) by metis+
    then have "hc_open E H S (author c) cd s = Inr ?c" using d p(1) m v by (simp add: hc_open_def Let_def)
    then show ?thesis using inv' has by (intro disjI2 exI [of _ ?c]) simp
  next
    case False
    then obtain e where "hc_open E H S (author c) cd s = Inl (Storage e)"
      by (cases "st_get S s KEY_META"; cases "st_get S s KEY_TREE"; cases "st_get S s KEY_PRESENCE")
        (auto simp: hc_open_def)
    then show ?thesis by blast
  qed
qed

end

section \<open>Honest writers\<close>

text \<open>
  The runs of a writer that starts from an empty log and uses only the operations of the log. \<open>bs\<close>
  are the blocks of the log, \<open>hs\<close> all heads signed so far with the blocks each was signed for. A run
  stays within the reserved key range and the fork counter does not wrap.
\<close>

inductive writer_run :: "crypto \<Rightarrow> hashfun \<Rightarrow> ('e, 's) store \<Rightarrow> (bytes \<Rightarrow> bool) \<Rightarrow> ('s \<Rightarrow> bool) \<Rightarrow>
    ('a, 's) hypercore \<Rightarrow> bytes list \<Rightarrow> (signed_head \<times> bytes list) list \<Rightarrow> bool"
  for E H S fits ok
where
  start: "ok s \<Longrightarrow> writer_run E H S fits ok ((hc_new E sk cd s)\<lparr> hc_prologue := pr \<rparr>) [] []"
| append: "\<lbrakk>writer_run E H S fits ok c bs hs; log_keys (Suc (length bs)); fits (encode (hc_codec c) v);
     hc_append E H S c v = (Inr i, c')\<rbrakk> \<Longrightarrow>
     writer_run E H S fits ok c' (bs @ [encode (hc_codec c) v])
       ((the (head c'), bs @ [encode (hc_codec c) v]) # hs)"
| commit: "\<lbrakk>writer_run E H S fits ok c bs hs; log_keys (length bs + length (encoded b));
     list_all fits (encoded b); base b = length bs; encoded b \<noteq> []; commit E H S c b = (Inr r, c')\<rbrakk> \<Longrightarrow>
     writer_run E H S fits ok c' (bs @ encoded b) ((the (head c'), bs @ encoded b) # hs)"
| truncate: "\<lbrakk>writer_run E H S fits ok c bs hs; fork c + 1 < 2 ^ 64;
     hc_truncate E H c n = (Inr (Some t) :: ('e core_error, truncation option) result, c')\<rbrakk> \<Longrightarrow>
     writer_run E H S fits ok c' (take n bs) ((the (head c'), take n bs) # hs)"
| clear: "\<lbrakk>writer_run E H S fits ok c bs hs; hc_clear S c a e = (Inr n, c')\<rbrakk> \<Longrightarrow> writer_run E H S fits ok c' bs hs"
| sweep: "\<lbrakk>writer_run E H S fits ok c bs hs; hc_sweep S c keep = (Inr n, c')\<rbrakk> \<Longrightarrow> writer_run E H S fits ok c' bs hs"
| persist: "\<lbrakk>writer_run E H S fits ok c bs hs; fits (serialize (hc_tree c)); fits (bf_serialize (presence c));
     fits (encode_meta c); hc_persist S c = (Inr u, c')\<rbrakk> \<Longrightarrow> writer_run E H S fits ok c' bs hs"

definition head_for :: "crypto \<Rightarrow> hashfun \<Rightarrow> bytes \<Rightarrow> signed_head \<Rightarrow> bytes list \<Rightarrow> bool" where
  "head_for E H pk h ds \<longleftrightarrow> sh_fork h < 2 ^ 64 \<and> sh_length h = length ds \<and> sh_root h = root_of H ds \<and>
     verify_signed_head E pk h"

text \<open>Heads of one fork belong to one growing log.\<close>

definition one_log_per_fork :: "(signed_head \<times> bytes list) list \<Rightarrow> bool" where
  "one_log_per_fork hs \<longleftrightarrow> (\<forall>(a, as) \<in> set hs. \<forall>(b, bs) \<in> set hs.
     sh_fork a = sh_fork b \<longrightarrow> prefix as bs \<or> prefix bs as)"

definition history_ok :: "crypto \<Rightarrow> hashfun \<Rightarrow> bytes \<Rightarrow> nat \<Rightarrow> bytes list \<Rightarrow> (signed_head \<times> bytes list) list \<Rightarrow> bool" where
  "history_ok E H pk fk bs hs \<longleftrightarrow> one_log_per_fork hs \<and>
     (\<forall>(h, ds) \<in> set hs. head_for E H pk h ds \<and> sh_fork h \<le> fk \<and> (sh_fork h = fk \<longrightarrow> prefix ds bs))"

lemma one_log_per_fork_Cons:
  assumes "one_log_per_fork hs" "\<And>a as. (a, as) \<in> set hs \<Longrightarrow> sh_fork a = sh_fork h \<Longrightarrow> prefix as bs"
  shows "one_log_per_fork ((h, bs) # hs)"
  unfolding one_log_per_fork_def
proof (clarify)
  fix x xs y ys
  assume "(x, xs) \<in> set ((h, bs) # hs)" "(y, ys) \<in> set ((h, bs) # hs)" and f: "sh_fork x = sh_fork y" "\<not> prefix ys xs"
  then consider "(x, xs) = (h, bs)" "(y, ys) = (h, bs)" | "(x, xs) = (h, bs)" "(y, ys) \<in> set hs" |
    "(x, xs) \<in> set hs" "(y, ys) = (h, bs)" | "(x, xs) \<in> set hs" "(y, ys) \<in> set hs" by auto
  then show "prefix xs ys"
  proof cases
    case 4
    then show ?thesis using assms(1) f unfolding one_log_per_fork_def by blast
  qed (use assms(2) [of y ys] assms(2) [of x xs] f in auto)
qed

lemma history_ok_Cons:
  assumes "history_ok E H pk fk bs hs" "head_for E H pk h bs'" "sh_fork h = fk'"
    and "fk < fk' \<or> fk = fk' \<and> prefix bs bs'"
  shows "history_ok E H pk fk' bs' ((h, bs') # hs)"
proof -
  have old: "head_for E H pk a as \<and> sh_fork a \<le> fk' \<and> (sh_fork a = fk' \<longrightarrow> prefix as bs')" if "(a, as) \<in> set hs" for a as
  proof -
    have "head_for E H pk a as" "sh_fork a \<le> fk" "sh_fork a = fk \<longrightarrow> prefix as bs"
      using that assms(1) unfolding history_ok_def by blast+
    then show ?thesis using assms(4) by (auto dest: prefix_order.trans)
  qed
  have "one_log_per_fork ((h, bs') # hs)"
    using assms(1,3) old by (intro one_log_per_fork_Cons) (auto simp: history_ok_def)
  then show ?thesis unfolding history_ok_def using old assms(2,3) by auto
qed

lemma core_inv_head:
  assumes "core_inv E H ok content c bs" "head c \<noteq> None"
  shows "head_for E H (public c) (the (head c)) bs \<and> sh_fork (the (head c)) = fork c"
proof -
  obtain h where h: "head c = Some h" using assms(2) by auto
  have t: "tree_ok H bs (hc_tree c)" using assms(1) by (simp add: core_inv_def)
  then show ?thesis
    using assms(1) h roots_ok(3) [OF t]
    by (auto simp: core_inv_def verify_head_def head_for_def verify_signed_head_def split: if_splits)
qed

lemma core_inv_nonempty: "core_inv E H ok content c bs \<Longrightarrow> bs \<noteq> [] \<Longrightarrow> head c \<noteq> None"
  by (cases "head c") (auto simp: core_inv_def verify_head_def)

context byte_store
begin

lemma writer_run_ok:
  assumes "writer_run E H S fits ok c bs hs" "sig_correct E"
  shows "core_inv E H ok content c bs \<and> log_keys (length bs) \<and> history_ok E H (public c) (fork c) bs hs"
  using assms
proof (induction rule: writer_run.induct)
  case (start s pr sk cd)
  then show ?case
    using core_inv_new [of ok s E H content sk cd]
    by (auto simp: core_inv_def verify_head_def history_ok_def one_log_per_fork_def log_keys_def hc_new_def)
next
  case (append c bs hs v i c')
  note a = hc_append_ok [OF _ append(6,2,3,4)]
  have inv: "core_inv E H ok content c' (bs @ [encode (hc_codec c) v])" "same_writer c c'"
    using a append by blast+
  have "history_ok E H (public c') (fork c') (bs @ [encode (hc_codec c) v]) ((the (head c'), bs @ [encode (hc_codec c) v]) # hs)"
    using append core_inv_head [OF inv(1)] core_inv_nonempty [OF inv(1)] inv(2)
    by (intro history_ok_Cons [of _ _ _ "fork c" bs]) (auto simp: same_writer_def)
  then show ?case using inv append(2) by simp
next
  case (commit c bs hs b r c')
  note a = commit_ok [OF _ commit(8,2,3,4,6)]
  have inv: "core_inv E H ok content c' (bs @ encoded b)" "same_writer c c'" using a commit by blast+
  have "history_ok E H (public c') (fork c') (bs @ encoded b) ((the (head c'), bs @ encoded b) # hs)"
    using commit core_inv_head [OF inv(1)] core_inv_nonempty [OF inv(1)] inv(2)
    by (intro history_ok_Cons [of _ _ _ "fork c" bs]) (auto simp: same_writer_def)
  then show ?case using inv commit(2) by simp
next
  case (truncate c bs hs n t c')
  then have IH: "core_inv E H ok content c bs" "log_keys (length bs)" "history_ok E H (public c) (fork c) bs hs"
    by blast+
  have inv: "core_inv E H ok content c' (take n bs)" "public c' = public c" "fork c' = fork c + 1" "head c' \<noteq> None"
    using hc_truncate_cases [OF IH(1) truncate(5,3)] truncate(2) by (auto simp: add64_exact split: if_splits)
  then have "history_ok E H (public c') (fork c') (take n bs) ((the (head c'), take n bs) # hs)"
    using IH(3) core_inv_head [OF inv(1)] by (intro history_ok_Cons [of _ _ _ "fork c" bs]) auto
  then show ?case using inv IH(2) by (auto simp: log_keys_def)
next
  case (clear c bs hs a e n c')
  then show ?case using hc_clear_ok [of E H c bs a e n c'] by (auto simp: same_writer_def)
next
  case (sweep c bs hs keep n c')
  then show ?case using hc_sweep_ok [of E H c bs keep n c'] by (auto simp: same_writer_def)
next
  case (persist c bs hs u c')
  then have p: "core_inv E H ok content c' bs \<and> c' = c\<lparr> hc_store := hc_store c' \<rparr>"
    using hc_persist_ok [of E H c bs u c'] by blast
  then have "public c' = public c" "fork c' = fork c" by (metis hypercore.select_convs hypercore.surjective hypercore.update_convs(4))+
  then show ?case using p persist by simp
qed

end

section \<open>What a verifier learns\<close>

definition signed_messages :: "hashfun \<Rightarrow> (signed_head \<times> bytes list) list \<Rightarrow> bytes set" where
  "signed_messages H hs = (\<lambda>(h, ds). head_message (sh_fork h) (length ds) (root_of H ds)) ` set hs"

abbreviation head_shown :: "signed_head \<Rightarrow> bytes \<times> bytes" where
  "head_shown h \<equiv> (head_message (sh_fork h) (sh_length h) (sh_root h), sh_sig h)"

lemma head_message_inj:
  assumes "f < 2 ^ 64" "f' < 2 ^ 64" "n < 2 ^ 64" "n' < 2 ^ 64" "head_message f n r = head_message f' n' r'"
  shows "f = f' \<and> n = n' \<and> r = r'"
proof -
  have "le64 f = le64 f'" "le64 n = le64 n'" "r = r'" using assms(5) by (simp_all add: head_message_def)
  then show ?thesis using le64_inj assms(1-4) by blast
qed

lemma signed_head_sound:
  assumes "unforged E pk (signed_messages H hs) [head_shown h]" "verify_signed_head E pk h" "wf_head h"
    and "\<And>a as. (a, as) \<in> set hs \<Longrightarrow> sh_fork a < 2 ^ 64 \<and> sized as"
  obtains a as where "(a, as) \<in> set hs" "sh_fork h = sh_fork a" "sh_length h = length as" "sh_root h = root_of H as"
proof -
  have "head_message (sh_fork h) (sh_length h) (sh_root h) \<in> signed_messages H hs"
    using assms(1,2) by (simp add: unforged_def verify_signed_head_def)
  then obtain a as where a: "(a, as) \<in> set hs"
      "head_message (sh_fork h) (sh_length h) (sh_root h) = head_message (sh_fork a) (length as) (root_of H as)"
    unfolding signed_messages_def by auto
  have "sh_fork a < 2 ^ 64" "length as < 2 ^ 64" using assms(4) [OF a(1)] by (auto simp: sized_def)
  with head_message_inj [OF _ _ _ _ a(2)] assms(3) that a(1) show thesis by (auto simp: wf_head_def)
qed

lemma verify_block_sound:
  assumes "unforged E pk (signed_messages H hs) [head_shown h]" "wf_head h"
    and "\<And>a as. (a, as) \<in> set hs \<Longrightarrow> sh_fork a < 2 ^ 64 \<and> sized as"
    and "collision_free H (concat (map (tree_inputs H \<circ> snd) hs) @ proof_inputs H p data)"
    and "hash32 H" "wf_proof p" "length data < 2 ^ 64" "verify_block E H pk h i data p"
  obtains a as where "(a, as) \<in> set hs" "sh_fork h = sh_fork a" "sh_length h = length as" "sh_root h = root_of H as"
    "i < length as" "data = as ! i"
proof -
  have v: "verify_signed_head E pk h" "block p = i" "verify_proof H p data (sh_root h)"
    using assms(8) by (simp_all add: verify_block_def)
  from assms(1) v(1) assms(2,3) obtain a as where a: "(a, as) \<in> set hs" "sh_fork h = sh_fork a"
      "sh_length h = length as" "sh_root h = root_of H as"
    by (rule signed_head_sound) blast+
  have "collision_free H (tree_inputs H as @ proof_inputs H p data)"
    using assms(4) by (rule collision_free_mono) (use a(1) in force)
  then have "i < length as \<and> data = as ! i"
    using verify_proof_sound [of H as p data] v(2,3) assms(3) [OF a(1)] assms(5-7) a(4) by auto
  with that a show thesis by blast
qed

section \<open>Failures\<close>

lemma hc_append_Inl:
  assumes "core_inv E H ok content c bs" "hc_append E H S c v = (Inl e, c')"
  shows "\<exists>se s. e = Storage se \<and> c' = c\<lparr> hc_store := s \<rparr>"
proof -
  let ?b = "encode (hc_codec c) v"
  have t: "tree_ok H (bs @ [?b]) (snd (append H (hc_tree c) ?b))"
    using append_ok [of H bs "hc_tree c" ?b] assms(1) by (simp add: core_inv_def)
  show ?thesis
    using assms(2) t
    by (auto simp: hc_append_def Let_def and_then_Inl core_put_Inr resign_and_def resign_ok
        dest: core_put_Inl split: option.splits)
qed

lemma commit_Inl:
  assumes "core_inv E H ok content c bs" "commit E H S c b = (Inl e, c')"
  shows "\<exists>se s. e = Storage se \<and> c' = c\<lparr> hc_store := s \<rparr>"
proof -
  have t: "tree_ok H bs (hc_tree c)" "bf_ok (presence c)" using assms(1) by (simp_all add: core_inv_def)
  obtain t' p where f: "fold_blocks H (length bs) (encoded b) (hc_tree c) (presence c) = (t', p)" by fastforce
  let ?c = "\<lambda>s. c\<lparr> hc_store := s, hc_tree := t', presence := p, last_truncation := None \<rparr>"
  have res: "resign E H (?c s) = Some ((?c s)\<lparr> head := Some (own_head E H (?c s) (bs @ encoded b)) \<rparr>)" for s
    using resign_ok [of H "bs @ encoded b" "?c s" E] fold_blocks_ok [OF t f] by simp
  then show ?thesis
    using assms(2) core_inv_len [OF assms(1)] f
    by (auto simp: commit_def Let_def resign_and_def res split: if_splits prod.splits sum.splits option.splits)
qed

section \<open>Backends that do not fail\<close>

context total_store
begin

lemma core_put_total:
  assumes "ok (hc_store c)" "k < 2 ^ 64" "fits v"
  shows "\<exists>s. core_put S c k v = (Inr (), c\<lparr> hc_store := s \<rparr>) \<and> ok s"
  using put_total [OF assms] put_law [OF assms] by (fastforce simp: core_put_def)

lemma hc_append_total:
  assumes "core_inv E H ok content c bs" "log_keys (Suc (length bs))" "fits (encode (hc_codec c) v)"
  shows "\<exists>c'. hc_append E H S c v = (Inr (length bs), c')"
proof (cases "hc_append E H S c v")
  case (Pair r c')
  have "ok (hc_store c)" using assms(1) by (simp add: core_inv_def)
  from put_total [OF this _ assms(3)] log_keysD [OF assms(2), of "length bs"]
  have put: "\<exists>s. st_put S (hc_store c) (length bs) (encode (hc_codec c) v) = (Inr (), s)" by simp
  have t: "tree_ok H (bs @ [encode (hc_codec c) v]) (snd (append H (hc_tree c) (encode (hc_codec c) v)))"
    using append_ok [of H bs "hc_tree c"] assms(1) by (simp add: core_inv_def)
  show ?thesis
    using put t core_inv_len [OF assms(1)]
    by (auto simp: hc_append_def Let_def core_put_def resign_and_def resign_ok)
qed

lemma write_blocks_total:
  assumes "ok s" "log_keys (idx + length encs)" "list_all fits encs"
  shows "\<exists>s'. write_blocks S s idx encs written = (Inr (), s')"
  using assms
proof (induction encs arbitrary: s idx written)
  case (Cons enc encs)
  have idx: "idx < 2 ^ 64" using log_keysD [OF Cons(3), of idx] by simp
  have fe: "fits enc" "list_all fits encs" using Cons(4) by simp_all
  obtain s1 where s1: "st_put S s idx enc = (Inr (), s1)" using put_total [OF Cons(2) idx fe(1)] by blast
  have "ok s1" using put_law [OF Cons(2) idx fe(1) s1] by simp
  moreover have "log_keys (idx + 1 + length encs)" using Cons(3) by simp
  ultimately have "\<exists>s'. write_blocks S s1 (idx + 1) encs (written @ [idx]) = (Inr (), s')"
    by (rule Cons(1) [OF _ _ fe(2)])
  then show ?case using s1 by simp
qed simp

lemma commit_total:
  assumes "core_inv E H ok content c bs" "log_keys (length bs + length (encoded b))" "list_all fits (encoded b)"
  shows "\<exists>r c'. commit E H S c b = (Inr r, c')"
proof -
  have t: "tree_ok H bs (hc_tree c)" "bf_ok (presence c)" "ok (hc_store c)" using assms(1) by (simp_all add: core_inv_def)
  obtain s where w: "write_blocks S (hc_store c) (length bs) (encoded b) [] = (Inr (), s)"
    using write_blocks_total [OF t(3) assms(2,3)] by blast
  obtain t' p where f: "fold_blocks H (length bs) (encoded b) (hc_tree c) (presence c) = (t', p)" by fastforce
  have t': "tree_ok H (bs @ encoded b) t'" using fold_blocks_ok [OF t(1,2) f] by simp
  show ?thesis
    using w f t' core_inv_len [OF assms(1)] by (simp add: commit_def Let_def resign_and_def resign_ok)
qed

lemma hc_persist_total:
  assumes "core_inv E H ok content c bs" "fits (serialize (hc_tree c))" "fits (bf_serialize (presence c))" "fits (encode_meta c)"
  shows "\<exists>c'. hc_persist S c = (Inr (), c')"
proof -
  have k: "KEY_TREE < 2 ^ 64" "KEY_PRESENCE < 2 ^ 64" "KEY_META < 2 ^ 64"
    by (simp_all add: KEY_TREE_def KEY_PRESENCE_def KEY_META_def)
  have "ok (hc_store c)" using assms(1) by (simp add: core_inv_def)
  from core_put_total [of c, OF this k(1) assms(2)] obtain s1 where
    s1: "core_put S c KEY_TREE (serialize (hc_tree c)) = (Inr (), c\<lparr> hc_store := s1 \<rparr>)" "ok s1" by blast
  obtain s2 where s2: "core_put S (c\<lparr> hc_store := s1 \<rparr>) KEY_PRESENCE (bf_serialize (presence c)) = (Inr (), c\<lparr> hc_store := s2 \<rparr>)" "ok s2"
    using core_put_total [of "c\<lparr> hc_store := s1 \<rparr>" KEY_PRESENCE] s1(2) k(2) assms(3) by auto
  obtain s3 where "core_put S (c\<lparr> hc_store := s2 \<rparr>) KEY_META (encode_meta c) = (Inr (), c\<lparr> hc_store := s3 \<rparr>)"
    using core_put_total [of "c\<lparr> hc_store := s2 \<rparr>" KEY_META] s2(2) k(3) assms(4) by auto
  then show ?thesis using s1(1) s2(1) by (simp add: hc_persist_def Let_def)
qed

lemma hc_open_total: "ok s \<Longrightarrow> hc_open E H S sk cd s \<noteq> Inl (Storage e)"
  by (auto simp: hc_open_def get_eq Let_def split: option.splits if_splits)

end

section \<open>An example log\<close>

text \<open>An in-memory log of byte strings with the example key, and the log after one append.\<close>

definition demo_core :: "(bytes, memory_store) hypercore" where
  "demo_core = hc_new toy_crypto [1] bytes_codec []"

definition demo_store :: "(unit, memory_store) store" where
  "demo_store = mem_store"

interpretation demo: total_store demo_store bt_inv bt_get "\<lambda>_. True"
  unfolding demo_store_def by (rule mem.total_store_axioms)

lemma demo_inv: "core_inv toy_crypto squeeze32 bt_inv bt_get demo_core []"
  unfolding demo_core_def by (rule core_inv_new) simp

lemma demo_codec [simp]: "hc_codec demo_core = bytes_codec" "author demo_core = [1]" "hc_prologue demo_core = None"
  "fork demo_core = 0"
  by (simp_all add: demo_core_def hc_new_def)

lemma demo_append:
  obtains c where "hc_append toy_crypto squeeze32 demo_store demo_core [7] = (Inr 0, c)"
    "core_inv toy_crypto squeeze32 bt_inv bt_get c [encode bytes_codec [7]]" "same_writer demo_core c"
    "head c = Some (own_head toy_crypto squeeze32 c [encode bytes_codec [7]])"
    "writer_run toy_crypto squeeze32 demo_store (\<lambda>_. True) bt_inv c [encode bytes_codec [7]]
       [(the (head c), [encode bytes_codec [7]])]"
proof -
  have k: "log_keys (Suc (length ([] :: bytes list)))" by (simp add: log_keys_def KEY_USERDATA_def)
  obtain c where c: "hc_append toy_crypto squeeze32 demo_store demo_core [7] = (Inr 0, c)"
    using demo.hc_append_total [OF demo_inv k, of "[7]"] by auto
  have "writer_run toy_crypto squeeze32 demo_store (\<lambda>_. True) bt_inv demo_core [] []"
    using writer_run.start [of bt_inv "[]" toy_crypto squeeze32 demo_store "\<lambda>_. True" None "[1]" bytes_codec]
    by (simp add: demo_core_def hc_new_def)
  from writer_run.append [OF this k _ c]
  have "writer_run toy_crypto squeeze32 demo_store (\<lambda>_. True) bt_inv c [encode bytes_codec [7]]
       [(the (head c), [encode bytes_codec [7]])]" by simp
  moreover note demo.hc_append_ok [OF demo_inv sig_correct_toy k _ c]
  ultimately show thesis using that c by simp
qed

section \<open>Properties\<close>

text \<open>
  Property C1. Appending refines appending to a list of blocks, over every backend that meets the storage contract:
  the new block gets the next index, reads back as the appended value, everything else present stays
  present, and the signed head covers exactly the new list. When the backend fails, that error is
  returned and nothing but the backend has changed. No other error occurs.
\<close>

theorem hypercore_append:
  assumes "byte_store S ok content fits" "sig_correct E" "core_inv E H ok content c bs"
    and "length bs < KEY_USERDATA" "fits (encode (hc_codec c) v)"
    and "decode (hc_codec c) (encode (hc_codec c) v) = Inr v"
    and "hc_append E H S c v = (r, c')"
  shows "case r of
      Inr i \<Rightarrow> i = length bs \<and> core_inv E H ok content c' (bs @ [encode (hc_codec c) v]) \<and>
        head c' = Some (own_head E H c' (bs @ [encode (hc_codec c) v])) \<and> fork c' = fork c \<and>
        (\<forall>j. hc_has c' j \<longleftrightarrow> hc_has c j \<or> j = i) \<and>
        (\<forall>x. hc_get S c' i = Inr x \<longrightarrow> x = Some v) \<and> hc_get S c' i \<noteq> Inl Corrupt
    | Inl e \<Rightarrow> (\<exists>se s. e = Storage se \<and> c' = c\<lparr> hc_store := s \<rparr>)"
proof (cases r)
  case (Inl e)
  then show ?thesis using hc_append_Inl [OF assms(3)] assms(7) by simp
next
  case (Inr i)
  have k: "log_keys (Suc (length bs))" using assms(4) by (simp add: log_keys_def)
  have run: "hc_append E H S c v = (Inr i, c')" using assms(7) Inr by simp
  note a = byte_store.hc_append_ok [OF assms(1,3,2) k assms(5) run]
  have inv: "core_inv E H ok content c' (bs @ [encode (hc_codec c) v])" and w: "same_writer c c'" "hc_has c' i" "i = length bs"
    using a by auto
  have "x = Some v" if "hc_get S c' i = Inr x" for x
    using byte_store.hc_get_Inr [OF assms(1) inv that] w assms(6) by (simp add: same_writer_def)
  then show ?thesis using Inr a w byte_store.not_corrupt [OF assms(1) inv] by (auto simp: same_writer_def)
qed

theorem hypercore_append_witness:
  "\<exists>c. hc_append toy_crypto squeeze32 demo_store demo_core [7] = (Inr 0, c) \<and>
       hc_get demo_store c 0 = Inr (Some [7])"
proof -
  obtain c where c: "hc_append toy_crypto squeeze32 demo_store demo_core [7] = (Inr 0, c)"
    "core_inv toy_crypto squeeze32 bt_inv bt_get c [encode bytes_codec [7]]" "same_writer demo_core c" by (rule demo_append)
  have "decode bytes_codec (encode bytes_codec [7]) = Inr [7]" by (rule bytesc.decode_encode_exact) simp
  then have "\<forall>x. hc_get demo_store c 0 = Inr x \<longrightarrow> x = Some [7]" "hc_has c 0"
    using hypercore_append [OF demo.byte_store_axioms sig_correct_toy demo_inv _ _ _ c(1)] by (simp_all add: KEY_USERDATA_def)
  moreover have "\<exists>x. hc_get demo_store c 0 = Inr x"
    using \<open>decode bytes_codec _ = _\<close> \<open>hc_has c 0\<close> c(2,3) demo.get_eq [of "hc_store c" 0]
    by (auto simp: hc_get_def core_inv_def hc_has_def same_writer_def)
  ultimately show ?thesis using c(1) by auto
qed



text \<open>
  Truncation rewinds the log to a prefix under the next fork number and signs it; blocks above the cut
  are no longer present. It refuses to grow the log or to cut into the prologue, and a core that
  satisfied its prologue still does.
\<close>

theorem hypercore_truncate:
  assumes "byte_store S ok content fits" "sig_correct E" "core_inv E H ok content c bs" "verify_prologue H c"
    and "hc_truncate E H c n = (r :: ('err core_error, truncation option) result, c')"
  shows "verify_prologue H c' \<and>
    (if n < length bs \<and> (case hc_prologue c of Some pr \<Rightarrow> cp_length pr \<le> n | None \<Rightarrow> True)
     then r = Inr (Some \<lparr> tr_from = length bs, tr_to = n \<rparr>) \<and> core_inv E H ok content c' (take n bs) \<and>
       (\<forall>j. hc_has c' j \<longleftrightarrow> hc_has c j \<and> j < n) \<and> fork c' = (fork c + 1) mod 2 ^ 64 \<and>
       head c' = Some (own_head E H c' (take n bs))
     else r = Inr None \<and> c' = c)"
proof -
  note t = byte_store.hc_truncate_cases [OF assms(1,3,2,5)]
  have "verify_prologue H c'"
    if cut: "core_inv E H ok content c' (take n bs)" "hc_prologue c' = hc_prologue c" "n < length bs"
      "case hc_prologue c of Some pr \<Rightarrow> cp_length pr \<le> n | None \<Rightarrow> True"
  proof (cases "hc_prologue c")
    case (Some pr)
    have "tree_ok H bs (hc_tree c)" "tree_ok H (take n bs) (hc_tree c')" using assms(3) cut(1) by (simp_all add: core_inv_def)
    then show ?thesis
      using assms(4) cut Some by (auto simp: verify_prologue_def prefix_root_hash_ok min_def split: if_splits)
  qed (simp add: verify_prologue_def cut(2))
  then show ?thesis using t assms(4) by (auto simp: add64_def split: if_splits)
qed

theorem hypercore_truncate_witness:
  "\<exists>c c'. hc_append toy_crypto squeeze32 demo_store demo_core [7] = (Inr 0, c) \<and>
     hc_truncate toy_crypto squeeze32 c 0 = (Inr (Some \<lparr> tr_from = 1, tr_to = 0 \<rparr>) :: (unit core_error, truncation option) result, c') \<and>
     core_inv toy_crypto squeeze32 bt_inv bt_get c' [] \<and> fork c' = 1"
proof -
  obtain c where c: "hc_append toy_crypto squeeze32 demo_store demo_core [7] = (Inr 0, c)"
    "core_inv toy_crypto squeeze32 bt_inv bt_get c [encode bytes_codec [7]]" "same_writer demo_core c" by (rule demo_append)
  obtain r c' where t: "hc_truncate toy_crypto squeeze32 c 0 = (r :: (unit core_error, truncation option) result, c')" by fastforce
  have "verify_prologue squeeze32 c" using c(3) by (simp add: verify_prologue_def same_writer_def)
  with hypercore_truncate [OF demo.byte_store_axioms sig_correct_toy c(2) _ t] t c show ?thesis
    by (simp add: same_writer_def)
qed







end
