(* ===== verification/Hypercore_Views.thy ===== *)
theory Hypercore_Views
  imports Hypercore_Log
begin

text \<open>
  The remaining operations of the signed log: purge, adopting a prologue, recovering a signed suffix
  after a crash, reopening damaged metadata, user data, read streams and snapshots.
\<close>

section \<open>Purge\<close>

context byte_store
begin

lemma delete_all_ok:
  assumes "ok (hc_store c)" "\<forall>k \<in> set ks. k < 2 ^ 64" "delete_all S ks c = (Inr u, c')"
  shows "\<exists>s. c' = c\<lparr> hc_store := s \<rparr> \<and> ok s \<and> (\<forall>k \<in> set ks. content s k = None)"
proof -
  have "\<exists>s. c' = c\<lparr> hc_store := s \<rparr> \<and> ok s \<and> (\<forall>k. k \<in> set ks \<or> content (hc_store c) k = None \<longrightarrow> content s k = None)"
    using assms
  proof (induction ks arbitrary: c)
    case (Cons k ks)
    obtain s1 where s1: "st_delete S (hc_store c) k = (Inr (), s1)" "delete_all S ks (c\<lparr> hc_store := s1 \<rparr>) = (Inr u, c')"
      using Cons(4) by (auto simp: core_delete_Inr)
    have d: "ok s1" "content s1 = (content (hc_store c))(k := None)"
      using delete_law [OF Cons(2) _ s1(1)] Cons(3) by auto
    have "ok (hc_store (c\<lparr> hc_store := s1 \<rparr>))" "\<forall>k \<in> set ks. k < 2 ^ 64" using d(1) Cons(3) by simp_all
    from Cons(1) [OF this s1(2)] obtain s where "c' = c\<lparr> hc_store := s \<rparr>" "ok s"
      "\<forall>j. j \<in> set ks \<or> content s1 j = None \<longrightarrow> content s j = None" by auto
    then show ?case using d(2) by (intro exI [of _ s]) auto
  qed (auto intro: exI [of _ "hc_store c'"])
  then show ?thesis by blast
qed

lemma delete_all_keeps:
  assumes "ok (hc_store c)" "\<forall>k \<in> set ks. k < 2 ^ 64" "delete_all S ks c = (Inr u, c')" "content (hc_store c) k = None"
  shows "content (hc_store c') k = None"
  using assms
proof (induction ks arbitrary: c)
  case (Cons j ks)
  obtain s1 where s1: "st_delete S (hc_store c) j = (Inr (), s1)" "delete_all S ks (c\<lparr> hc_store := s1 \<rparr>) = (Inr u, c')"
    using Cons(4) by (auto simp: core_delete_Inr)
  have "ok s1" "content s1 = (content (hc_store c))(j := None)"
    using delete_law [OF Cons(2) _ s1(1)] Cons(3) by auto
  then show ?case using Cons(1) [OF _ _ s1(2)] Cons(3,5) by simp
qed auto

lemma hc_purge_ok:
  assumes inv: "core_inv E H ok content c bs" and k: "log_keys (length bs)" and run: "hc_purge S c = (Inr u, c')"
  shows "core_inv E H ok content c' [] \<and> fork c' = 0 \<and> head c' = None \<and> author c' = author c \<and>
    public c' = public c \<and> hc_codec c' = hc_codec c \<and> hc_prologue c' = None \<and>
    (\<forall>i. i < length bs \<or> i \<in> {KEY_META, KEY_TREE, KEY_PRESENCE, KEY_USERDATA} \<longrightarrow> content (hc_store c') i = None)"
proof -
  let ?ks = "[KEY_META, KEY_TREE, KEY_PRESENCE, KEY_USERDATA]"
  obtain c1 c2 where r: "delete_all S [0..<length bs] c = (Inr (), c1)" "delete_all S ?ks c1 = (Inr (), c2)"
      "c' = c2\<lparr> hc_tree := empty_tree, presence := bf_new, head := None, fork := 0, hc_prologue := None, last_truncation := None \<rparr>"
    using run core_inv_len [OF inv] by (auto simp: hc_purge_def simp del: delete_all.simps)
  have ok0: "ok (hc_store c)" using inv by (simp add: core_inv_def)
  have "\<forall>i \<in> set [0..<length bs]. i < 2 ^ 64" using log_keysD [OF k] by auto
  from delete_all_ok [OF ok0 this r(1)] obtain s1 where s1: "c1 = c\<lparr> hc_store := s1 \<rparr>" "ok s1"
    "\<forall>i \<in> set [0..<length bs]. content s1 i = None" by blast
  have ks: "\<forall>i \<in> set ?ks. i < 2 ^ 64" by (simp add: KEY_META_def KEY_TREE_def KEY_PRESENCE_def KEY_USERDATA_def)
  have ok1: "ok (hc_store c1)" using s1 by simp
  obtain s2 where s2: "c2 = c1\<lparr> hc_store := s2 \<rparr>" "ok s2" "\<forall>i \<in> set ?ks. content s2 i = None"
    using delete_all_ok [OF ok1 ks r(2)] by blast
  have keep: "content s2 i = None" if "i < length bs" for i
    using delete_all_keeps [OF ok1 ks r(2), of i] s1 s2(1) that by simp
  have c': "hc_tree c' = empty_tree" "presence c' = bf_new" "head c' = None" "fork c' = 0" "hc_prologue c' = None"
    "author c' = author c" "public c' = public c" "hc_codec c' = hc_codec c" "hc_store c' = s2"
    using r(3) s1(1) s2(1) by simp_all
  have "core_inv E H ok content c' []"
    using inv s2(2) tree_ok_empty bf_ok_new tree_ok_len [OF tree_ok_empty]
    by (simp add: core_inv_def verify_head_def c')
  then show ?thesis using c' s2(3) keep by auto
qed

end

context total_store
begin

lemma delete_all_total:
  assumes "ok (hc_store c)" "\<forall>k \<in> set ks. k < 2 ^ 64"
  shows "\<exists>s. delete_all S ks c = (Inr (), c\<lparr> hc_store := s \<rparr>) \<and> ok s"
  using assms
proof (induction ks arbitrary: c)
  case (Cons k ks)
  have k: "k < 2 ^ 64" using Cons(3) by simp
  obtain s1 where s1: "st_delete S (hc_store c) k = (Inr (), s1)" using delete_total [OF Cons(2) k] by blast
  have "ok s1" using delete_law [OF Cons(2) k s1] by simp
  then show ?case using Cons(1) [of "c\<lparr> hc_store := s1 \<rparr>"] Cons(3) s1 by (simp add: core_delete_def)
next
  case Nil
  then show ?case by (auto intro!: exI [of _ "hc_store c"])
qed

lemma hc_purge_total:
  assumes "core_inv E H ok content c bs" "log_keys (length bs)"
  shows "\<exists>c'. hc_purge S c = (Inr (), c')"
proof -
  have ok0: "ok (hc_store c)" using assms(1) by (simp add: core_inv_def)
  have "\<forall>i \<in> set [0..<length bs]. i < 2 ^ 64" using log_keysD [OF assms(2)] by auto
  from delete_all_total [OF ok0 this] obtain s1 where
    s1: "delete_all S [0..<length bs] c = (Inr (), c\<lparr> hc_store := s1 \<rparr>)" "ok s1" by blast
  have "\<forall>i \<in> set [KEY_META, KEY_TREE, KEY_PRESENCE, KEY_USERDATA]. i < 2 ^ 64"
    by (simp add: KEY_META_def KEY_TREE_def KEY_PRESENCE_def KEY_USERDATA_def)
  from delete_all_total [of "c\<lparr> hc_store := s1 \<rparr>", OF _ this] s1(2) obtain s2 where
    "delete_all S [KEY_META, KEY_TREE, KEY_PRESENCE, KEY_USERDATA] (c\<lparr> hc_store := s1 \<rparr>) = (Inr (), c\<lparr> hc_store := s2 \<rparr>)"
    by auto
  then show ?thesis
    using s1(1) core_inv_len [OF assms(1)] by (simp add: hc_purge_def del: delete_all.simps)
qed

end

section \<open>Adopting a prologue\<close>

text \<open>The state of the copy loop after the first \<open>k\<close> blocks of \<open>ds\<close>.\<close>

definition copied :: "hashfun \<Rightarrow> ('s \<Rightarrow> bool) \<Rightarrow> ('s \<Rightarrow> nat \<Rightarrow> bytes option) \<Rightarrow> bytes list \<Rightarrow> nat \<Rightarrow> ('a, 's) hypercore \<Rightarrow> bool" where
  "copied H ok content ds k c \<longleftrightarrow> tree_ok H (take k ds) (hc_tree c) \<and> bf_ok (presence c) \<and> ok (hc_store c) \<and>
     (\<forall>i. bf_get (presence c) i \<longleftrightarrow> i < k) \<and> (\<forall>i < k. content (hc_store c) i = Some (ds ! i))"

lemma copy_loop_append:
  "copy_loop H S source (is @ js) c = and_then (copy_loop H S source is c) (\<lambda>_. copy_loop H S source js) id"
proof (induction "is" arbitrary: c)
  case (Cons i "is")
  show ?case
  proof (cases "\<exists>enc. hc_block S source i = Inr (Some enc)")
    case True
    then obtain enc where "hc_block S source i = Inr (Some enc)" by blast
    then show ?thesis using Cons by (cases "core_put S c i enc"; cases "fst (core_put S c i enc)") auto
  qed (auto split: sum.split option.split)
qed simp

context byte_store
begin

lemma copy_loop_ok:
  assumes src: "core_inv E H ok content source ds" and n: "n \<le> length ds" and key: "log_keys n" and fit: "list_all fits ds"
    and "copied H ok content ds k c" "k \<le> n" "copy_loop H S source [k..<n] c = (Inr u, c')"
  shows "copied H ok content ds n c' \<and> same_writer c c' \<and> head c' = head c \<and> (\<forall>i. k \<le> i \<and> i < n \<longrightarrow> hc_has source i)"
  using assms(5-7)
proof (induction "n - k" arbitrary: k c)
  case 0
  then show ?case by (auto simp: same_writer_def)
next
  case (Suc m)
  then have k: "k < n" "k < length ds" using n by auto
  have up: "[k..<n] = k # [Suc k..<n]" using k(1) by (simp add: upt_conv_Cons)
  obtain enc s where b: "hc_block S source k = Inr (Some enc)" "st_put S (hc_store c) k enc = (Inr (), s)"
      "copy_loop H S source [Suc k..<n] (c\<lparr> hc_store := s, hc_tree := snd (append H (hc_tree c) enc),
         presence := bf_set (presence c) k True \<rparr>) = (Inr u, c')"
    using Suc(5) unfolding up by (auto simp: core_put_Inr split: sum.splits option.splits)
  have enc: "enc = ds ! k" "hc_has source k" using hc_block_Inr [OF src b(1)] by (simp_all split: if_splits)
  have t: "tree_ok H (take k ds) (hc_tree c)" "bf_ok (presence c)" "ok (hc_store c)" using Suc(3) by (simp_all add: copied_def)
  have "fits enc" using fit enc k(2) by (simp add: list_all_length)
  then have put: "ok s" "content s = (content (hc_store c))(k \<mapsto> enc)"
    using put_law [OF t(3) _ _ b(2)] log_keysD [OF key k(1)] by auto
  have tk: "take (Suc k) ds = take k ds @ [ds ! k]" using k(2) by (rule take_Suc_conv_app_nth)
  let ?c = "c\<lparr> hc_store := s, hc_tree := snd (append H (hc_tree c) enc), presence := bf_set (presence c) k True \<rparr>"
  have "copied H ok content ds (Suc k) ?c"
    using Suc(3) append_ok [OF t(1), of enc] put bf_set_ok [OF t(2)]
    unfolding copied_def tk enc(1) by (auto simp: less_Suc_eq)
  then have "copied H ok content ds n c' \<and> same_writer ?c c' \<and> head c' = head ?c \<and> (\<forall>i. Suc k \<le> i \<and> i < n \<longrightarrow> hc_has source i)"
    using Suc(1) [of "Suc k" ?c] Suc(2) k(1) b(3) by simp
  then show ?case using enc(2) by (auto simp: same_writer_def Suc_le_eq le_eq_less_or_eq [of k])
qed

lemma copied_start: "core_inv E H ok content c [] \<Longrightarrow> copied H ok content ds 0 c"
  by (simp add: copied_def core_inv_def)

lemma copy_prologue_ok:
  assumes E: "sig_correct E" and inv: "core_inv E H ok content c []" and src: "core_inv E H ok content source ds"
    and key: "log_keys (length ds)" and fit: "list_all fits ds"
    and run: "copy_prologue E H S c source = (Inr n, c')"
  shows "\<exists>pr. hc_prologue c = Some pr \<and> n = cp_length pr \<and> n \<le> length ds \<and>
    core_inv E H ok content c' (take n ds) \<and> verify_prologue H c' \<and> (\<forall>i. hc_has c' i \<longleftrightarrow> i < n) \<and> same_writer c c'"
proof -
  obtain pr c1 where r: "hc_prologue c = Some pr" "prefix_root_hash H (hc_tree source) (cp_length pr) = Some (cp_hash pr)"
      "copy_loop H S source [0..<cp_length pr] c = (Inr (), c1)" "n = cp_length pr"
      "resign E H (c1\<lparr> last_truncation := None \<rparr>) = Some c'"
    using run by (auto simp: copy_prologue_def resign_and_Inr split: option.splits if_splits)
  have ts: "tree_ok H ds (hc_tree source)" using src by (simp add: core_inv_def)
  have n: "n \<le> length ds" "root_of H (take n ds) = cp_hash pr"
    using r(2,4) prefix_root_hash_ok [OF ts, of n] by (auto split: if_splits)
  then have "log_keys n" using key by (simp add: log_keys_def)
  then have cp: "copied H ok content ds n c1 \<and> same_writer c c1 \<and> head c1 = head c"
    using copy_loop_ok [OF src n(1) _ fit copied_start [OF inv]] r(3,4) by blast
  let ?c = "c1\<lparr> last_truncation := None \<rparr>"
  have t: "tree_ok H (take n ds) (hc_tree ?c)" using cp by (simp add: copied_def)
  have c': "c' = ?c\<lparr> head := Some (own_head E H ?c (take n ds)) \<rparr>" using r(5) resign_ok [OF t] by simp
  have "verify_head E H c' = Some True"
    unfolding c' using t E inv cp by (intro verify_own_head) (auto simp: core_inv_def same_writer_def)
  moreover have "hc_tree c' = hc_tree c1" "presence c' = presence c1" "hc_store c' = hc_store c1"
    "public c' = public c" "author c' = author c" "fork c' = fork c" "hc_codec c' = hc_codec c" "hc_prologue c' = hc_prologue c"
    using cp by (simp_all add: c' same_writer_def)
  ultimately have inv': "core_inv E H ok content c' (take n ds)" and w: "same_writer c c'"
    "\<And>i. hc_has c' i \<longleftrightarrow> i < n"
    using inv cp n(1) by (auto simp: core_inv_def copied_def same_writer_def hc_has_def)
  have "verify_prologue H c'"
    using w(1) r(1,4) n t prefix_root_hash_ok [of H "take n ds" "hc_tree c'" n] inv'
    by (simp add: verify_prologue_def same_writer_def core_inv_def)
  then show ?thesis using r(1,4) n(1) inv' w by blast
qed

end

context total_store
begin

lemma hc_block_total:
  "\<lbrakk>core_inv E H ok content c bs; hc_has c i\<rbrakk> \<Longrightarrow> hc_block S c i = Inr (Some (bs ! i))"
  by (auto simp: hc_block_def core_inv_def hc_has_def get_eq)

lemma copy_loop_total:
  assumes src: "core_inv E H ok content source ds" and n: "n \<le> length ds" and key: "log_keys n" and fit: "list_all fits ds"
    and "ok (hc_store c)" "k \<le> n" "\<forall>i. k \<le> i \<and> i < n \<longrightarrow> hc_has source i"
  shows "\<exists>c'. copy_loop H S source [k..<n] c = (Inr (), c')"
  using assms(5-7)
proof (induction "n - k" arbitrary: k c)
  case (Suc m)
  then have k: "k < n" "k < length ds" using n by auto
  have up: "[k..<n] = k # [Suc k..<n]" using k(1) by (simp add: upt_conv_Cons)
  have b: "hc_block S source k = Inr (Some (ds ! k))" using hc_block_total [OF src] Suc(5) k(1) by simp
  have "fits (ds ! k)" "k < 2 ^ 64" using fit k(2) log_keysD [OF key k(1)] by (simp_all add: list_all_length)
  then obtain s where s: "core_put S c k (ds ! k) = (Inr (), c\<lparr> hc_store := s \<rparr>)" "ok s"
    using core_put_total [OF Suc(3)] by blast
  show ?case
    using Suc(1) [of "Suc k" "c\<lparr> hc_store := s, hc_tree := snd (append H (hc_tree c) (ds ! k)), presence := bf_set (presence c) k True \<rparr>"]
      Suc(2,5) k(1) s unfolding up by (simp add: b)
qed simp

text \<open>
  A source that backs the commitment but has dropped one of its blocks: the copy stops there with an
  error and leaves the core with blocks but without a head, and no later copy into it can succeed.
\<close>

lemma copy_prologue_missing_block:
  assumes inv: "core_inv E H ok content c []" "head c = None" "hc_prologue c = Some pr"
    and src: "core_inv E H ok content source ds" and key: "log_keys (length ds)" and fit: "list_all fits ds"
    and pre: "prefix_root_hash H (hc_tree source) (cp_length pr) = Some (cp_hash pr)"
    and j: "j < cp_length pr" "0 < j" "\<forall>i < j. hc_has source i" "\<not> hc_has source j"
  shows "\<exists>c'. copy_prologue E H S c source = (Inl PrologueMismatch, c') \<and> hc_len c' = j \<and>
    verify_head E H c' = Some False \<and> (\<forall>src. copy_prologue E H S c' src = (Inl PrologueMismatch, c'))"
proof -
  have "tree_ok H ds (hc_tree source)" using src by (simp add: core_inv_def)
  then have n: "cp_length pr \<le> length ds" using pre by (auto simp: prefix_root_hash_ok split: if_splits)
  have jk: "j \<le> length ds" "log_keys j" using n j(1) key by (simp_all add: log_keys_def)
  have ok0: "ok (hc_store c)" using inv(1) by (simp add: core_inv_def)
  obtain c' where c': "copy_loop H S source [0..<j] c = (Inr (), c')"
    using copy_loop_total [OF src jk fit ok0, of 0] j(3) by auto
  have cp: "copied H ok content ds j c' \<and> same_writer c c' \<and> head c' = head c"
    using copy_loop_ok [OF src jk fit copied_start [OF inv(1)] _ c'] by simp
  have len: "tree_len (hc_tree c') = j" using cp n j(1) by (auto simp: copied_def)
  have up: "[0..<cp_length pr] = [0..<j] @ j # [Suc j..<cp_length pr]"
    using j(1) upt_add_eq_append [of 0 j "cp_length pr - j"] upt_conv_Cons [OF j(1)] by simp
  have "copy_loop H S source [0..<cp_length pr] c = (Inl PrologueMismatch, c')"
    unfolding up copy_loop_append c' using j(4) by (simp add: hc_block_def)
  then have "copy_prologue E H S c source = (Inl PrologueMismatch, c')"
    using inv(3) pre core_inv_len [OF inv(1)] by (simp add: copy_prologue_def hc_is_empty_def)
  moreover have "copy_prologue E H S c' src = (Inl PrologueMismatch, c')" for src
    using cp inv(3) len j(2) by (simp add: copy_prologue_def hc_is_empty_def same_writer_def)
  moreover have "verify_head E H c' = Some False" using cp inv(2) len j(2) by (simp add: verify_head_def)
  ultimately show ?thesis using len by (auto simp: hc_len_def)
qed

end

section \<open>Recovering a signed suffix\<close>

lemma verify_archived_feed_iff:
  "verify_archived_feed E H pk h blocks \<longleftrightarrow>
   sh_length h = length blocks \<and> sh_root h = root_of H blocks \<and> verify_signed_head E pk h"
proof -
  have "tree_ok H blocks (foldl (\<lambda>t b. snd (append H t b)) empty_tree blocks)"
    using foldl_append_ok [OF tree_ok_empty] by simp
  from roots_ok(3) [OF this] tree_ok_len [OF this] show ?thesis
    by (auto simp: verify_archived_feed_def Let_def verify_signed_head_def)
qed

lemma core_put_shape: "core_put S c i b = (r, c') \<Longrightarrow> \<exists>s. c' = c\<lparr> hc_store := s \<rparr>"
  by (auto simp: core_put_def split: prod.splits)

lemma put_blocks_shape: "put_blocks S i bs c = (r, c') \<Longrightarrow> \<exists>s. c' = c\<lparr> hc_store := s \<rparr>"
proof (induction bs arbitrary: i c)
  case (Cons b bs)
  obtain r1 s1 where p: "core_put S c i b = (r1, c\<lparr> hc_store := s1 \<rparr>)"
    by (metis core_put_shape old.prod.exhaust)
  then show ?case using Cons(1) [of "i + 1" "c\<lparr> hc_store := s1 \<rparr>"] Cons(2) by (cases r1) auto
qed (auto intro!: exI [of _ "hc_store c'"])

context byte_store
begin

lemma read_blocks_ok:
  "\<lbrakk>core_inv E H ok content c bs; read_blocks S c is = Inr pre\<rbrakk> \<Longrightarrow>
   pre = map ((!) bs) is \<and> (\<forall>i \<in> set is. hc_has c i)"
proof (induction "is" arbitrary: pre)
  case (Cons i "is")
  then obtain b pre' where "hc_block S c i = Inr (Some b)" "read_blocks S c is = Inr pre'" "pre = b # pre'"
    by (auto split: option.splits)
  then show ?case using Cons hc_block_Inr [OF Cons(2), of i] by (auto split: if_splits)
qed simp

lemma put_blocks_ok:
  assumes "ok (hc_store c)" "log_keys (i + length bs)" "list_all fits bs" "put_blocks S i bs c = (Inr u, c')"
  shows "\<exists>s. c' = c\<lparr> hc_store := s \<rparr> \<and> ok s \<and> (\<forall>j < length bs. content s (i + j) = Some (bs ! j)) \<and>
    (\<forall>j < i. content s j = content (hc_store c) j)"
  using assms
proof (induction bs arbitrary: i c)
  case (Cons b bs)
  obtain s1 where s1: "st_put S (hc_store c) i b = (Inr (), s1)" "put_blocks S (i + 1) bs (c\<lparr> hc_store := s1 \<rparr>) = (Inr u, c')"
    using Cons(5) by (auto simp: core_put_Inr)
  have p: "ok s1" "content s1 = (content (hc_store c))(i \<mapsto> b)"
    using put_law [OF Cons(2) _ _ s1(1)] log_keysD [OF Cons(3), of i] Cons(4) by auto
  obtain s where s: "c' = c\<lparr> hc_store := s \<rparr>" "ok s" "\<forall>j < length bs. content s (i + 1 + j) = Some (bs ! j)"
    "\<forall>j < i + 1. content s j = content s1 j"
    using Cons(1) [OF _ _ _ s1(2)] p(1) Cons(3,4) by auto
  have "content s (i + j) = Some ((b # bs) ! j)" if "j < length (b # bs)" for j
    using s(3,4) p(2) that by (cases j) auto
  then show ?case using s p(2) by (intro exI [of _ s]) auto
qed (auto intro!: exI [of _ "hc_store c'"])

lemma put_keeps_blocks:
  assumes "ok (hc_store c)" "k < 2 ^ 64" "fits v" "core_put S c k v = (Inr u, c')"
  shows "\<exists>s. c' = c\<lparr> hc_store := s \<rparr> \<and> ok s \<and> (\<forall>j. j \<noteq> k \<longrightarrow> content s j = content (hc_store c) j)"
  using assms(4) put_law [OF assms(1-3)] by (auto simp: core_put_Inr)

lemma recover_ok:
  assumes inv: "core_inv E H ok content c bs" and key: "log_keys (length bs + length suf)" and fit: "\<And>v. fits v"
    and run: "recover_signed_suffix E H S c h suf = (Inr u, c')"
  shows "core_inv E H ok content c' (bs @ suf) \<and> head c' = Some h \<and> same_writer c c' \<and>
    (\<forall>i < length bs. hc_has c i) \<and> (\<forall>i. hc_has c' i \<longleftrightarrow> i < length bs + length suf)"
proof -
  note len = core_inv_len [OF inv]
  obtain pre tr p c1 c2 c3 c4 where r: "sh_fork h = fork c" "read_blocks S c [0..<length bs] = Inr pre"
      "verify_archived_feed E H (public c) h (pre @ suf)" "fold_blocks H 0 (pre @ suf) empty_tree bf_new = (tr, p)"
      "put_blocks S (length bs) suf c = (Inr (), c1)" "core_put S c1 KEY_TREE (serialize tr) = (Inr (), c2)"
      "core_put S c2 KEY_PRESENCE (bf_serialize p) = (Inr (), c3)"
      "core_put S c3 KEY_META (encode_meta_parts (fork c3) (Some h) (hc_prologue c3)) = (Inr (), c4)"
      "c' = c4\<lparr> hc_tree := tr, presence := p, head := Some h, last_truncation := None \<rparr>"
    using run len by (auto simp: recover_signed_suffix_def hc_len_def Let_def split: if_splits sum.splits prod.splits)
  have pre: "pre = bs" "\<forall>i < length bs. hc_has c i" using read_blocks_ok [OF inv r(2)] by (auto simp: map_nth)
  have k: "KEY_TREE < 2 ^ 64" "KEY_PRESENCE < 2 ^ 64" "KEY_META < 2 ^ 64"
    by (simp_all add: KEY_TREE_def KEY_PRESENCE_def KEY_META_def)
  have ok0: "ok (hc_store c)" using inv by (simp add: core_inv_def)
  obtain s1 where s1: "c1 = c\<lparr> hc_store := s1 \<rparr>" "ok s1" "\<forall>j < length suf. content s1 (length bs + j) = Some (suf ! j)"
      "\<forall>j < length bs. content s1 j = content (hc_store c) j"
    using put_blocks_ok [OF ok0 key _ r(5)] fit by (auto simp: list_all_iff)
  obtain s2 where s2: "c2 = c\<lparr> hc_store := s2 \<rparr>" "ok s2" "\<forall>j. j \<noteq> KEY_TREE \<longrightarrow> content s2 j = content s1 j"
    using put_keeps_blocks [OF _ k(1) fit r(6)] s1(1,2) by auto
  obtain s3 where s3: "c3 = c\<lparr> hc_store := s3 \<rparr>" "ok s3" "\<forall>j. j \<noteq> KEY_PRESENCE \<longrightarrow> content s3 j = content s2 j"
    using put_keeps_blocks [OF _ k(2) fit r(7)] s2(1,2) by auto
  obtain s4 where s4: "c4 = c\<lparr> hc_store := s4 \<rparr>" "ok s4" "\<forall>j. j \<noteq> KEY_META \<longrightarrow> content s4 j = content s3 j"
    using put_keeps_blocks [OF _ k(3) fit r(8)] s3(1,2) by auto
  have c': "c' = c\<lparr> hc_store := s4, hc_tree := tr, presence := p, head := Some h, last_truncation := None \<rparr>"
    using r(9) s4(1) by simp
  have f: "tree_ok H (bs @ suf) tr" "bf_ok p" "bf_get p i \<longleftrightarrow> i < length bs + length suf" for i
    using fold_blocks_ok [OF tree_ok_empty bf_ok_new(1), of H "pre @ suf" tr p] r(4) pre(1) bf_ok_new(2) by auto
  have cont: "content s4 i = Some ((bs @ suf) ! i)" if i: "i < length bs + length suf" for i
  proof -
    have "content s4 i = content s1 i" using log_keysD [OF key i] s2(3) s3(3) s4(3) by simp
    also have "\<dots> = Some ((bs @ suf) ! i)"
    proof (cases "i < length bs")
      case True
      then show ?thesis using s1(4) pre(2) inv by (simp add: core_inv_def hc_has_def nth_append)
    next
      case False
      then show ?thesis using s1(3) i by (auto simp: nth_append dest!: spec [of _ "i - length bs"])
    qed
    finally show ?thesis .
  qed
  have "verify_head E H c' = Some True"
    using r(1,3) f(1) pre(1) roots_ok(3) [OF f(1)]
    by (auto simp: verify_head_def c' verify_archived_feed_iff verify_signed_head_def)
  then have "core_inv E H ok content c' (bs @ suf)"
    using inv f cont s4(2) by (auto simp: core_inv_def c')
  then show ?thesis using pre(2) f by (simp add: c' same_writer_def hc_has_def)
qed

end

lemma recover_Inl:
  assumes "recover_signed_suffix E H S c h suf = (Inl e, c')"
  shows "\<exists>s. c' = c\<lparr> hc_store := s \<rparr>"
proof -
  have self: "\<exists>s. c = c\<lparr> hc_store := s \<rparr>" by (intro exI [of _ "hc_store c"]) simp
  show ?thesis
    using assms self
    by (auto simp: recover_signed_suffix_def Let_def and_then_Inl core_put_Inr
        split: if_splits sum.splits prod.splits dest!: put_blocks_shape core_put_shape)
qed

section \<open>User data\<close>

definition user_ok :: "(bytes, bytes) btmap \<Rightarrow> bool" where
  "user_ok m \<longleftrightarrow> bt_inv m \<and> length m < 2 ^ 64 \<and> (\<forall>(k, v) \<in> set m. length k < 2 ^ 64 \<and> length v < 2 ^ 64)"

lemma decode_entries_ok:
  assumes "\<forall>(k, v) \<in> set m. length k < 2 ^ 64 \<and> length v < 2 ^ 64"
  shows "decode_entries (length m) (concat (map (\<lambda>(k, v). le64 (length k) @ k @ le64 (length v) @ v) m) @ rest) acc =
    Some (fold (\<lambda>(k, v). bt_insert k v) m acc, rest)"
  using assms
proof (induction m arbitrary: acc)
  case (Cons e m)
  obtain k v where e: "e = (k, v)" by fastforce
  then show ?case using Cons by simp
qed simp

lemma decode_user_data_encode: "user_ok m \<Longrightarrow> decode_user_data (encode_user_data m) = Some m"
  using decode_entries_ok [of m "[]" "[]"] bt_collect_id [of m]
  by (simp add: user_ok_def decode_user_data_def encode_user_data_def bt_collect_def)

context byte_store
begin

lemma set_user_data_ok:
  assumes inv: "core_inv E H ok content c bs" and key: "log_keys (length bs)"
    and m: "load_user_data S c = Inr m" "user_ok (bt_insert k v m)" and fit: "fits (encode_user_data (bt_insert k v m))"
    and run: "set_user_data S c k v = (Inr u, c')"
  shows "core_inv E H ok content c' bs \<and> same_writer c c' \<and> (\<forall>i. hc_has c' i = hc_has c i) \<and> head c' = head c \<and>
    (\<forall>x. load_user_data S c' = Inr x \<longrightarrow> x = bt_insert k v m) \<and> load_user_data S c' \<noteq> Inl Corrupt"
proof -
  obtain s where s: "st_put S (hc_store c) KEY_USERDATA (encode_user_data (bt_insert k v m)) = (Inr (), s)" "c' = c\<lparr> hc_store := s \<rparr>"
    using run m(1) by (auto simp: set_user_data_def core_put_Inr)
  have "ok (hc_store c)" "KEY_USERDATA < 2 ^ 64" using inv by (simp_all add: core_inv_def KEY_USERDATA_def)
  from put_law [OF this fit s(1)] have p: "ok s" "content s = (content (hc_store c))(KEY_USERDATA \<mapsto> encode_user_data (bt_insert k v m))"
    by simp_all
  have "content s i = content (hc_store c) i" if "i < length bs" for i using p(2) log_keysD [OF key that] by simp
  then have "core_inv E H ok content c' bs" using inv p(1) s(2) by (auto simp: core_inv_def)
  moreover have "x = Some (encode_user_data (bt_insert k v m))" if "st_get S s KEY_USERDATA = Inr x" for x
    using get_law [OF p(1) that] p(2) by simp
  then have "load_user_data S c' = Inr x \<Longrightarrow> x = bt_insert k v m" "load_user_data S c' \<noteq> Inl Corrupt" for x
    using decode_user_data_encode [OF m(2)]
    by (auto simp: load_user_data_def s(2) bind_res_Inl_iff map_err_Inl_iff split: option.splits)
  ultimately show ?thesis by (auto simp: same_writer_def s(2) hc_has_def)
qed

end

section \<open>Read streams\<close>

lemma rs_next_decreases:
  "rs_next S c r = (Some x, r') \<Longrightarrow> rs_hi r' - rs_lo r' < rs_hi r - rs_lo r"
proof (induction S c r rule: rs_next.induct)
  case (1 S c r)
  have lt: "rs_lo r < rs_hi r" using 1(2) by (subst (asm) rs_next.simps) (auto split: if_splits)
  then have "rs_hi (snd (rs_step r)) - rs_lo (snd (rs_step r)) < rs_hi r - rs_lo r" by (auto simp: rs_step_def)
  then show ?case
    using 1 lt by (subst (asm) (2) rs_next.simps) (auto split: sum.splits option.splits)
qed

text \<open>\<open>collect\<close> on a read stream.\<close>

function rs_collect :: "('e, 's) store \<Rightarrow> ('a, 's) hypercore \<Rightarrow> read_stream \<Rightarrow> ('e core_error, 'a) result list" where
  "rs_collect S c r = (case rs_next S c r of (None, _) \<Rightarrow> [] | (Some x, r') \<Rightarrow> x # rs_collect S c r')"
  by pat_completeness auto

termination
  by (relation "measure (\<lambda>(S, c, r). rs_hi r - rs_lo r)") (auto dest: rs_next_decreases [OF sym])

declare rs_collect.simps [simp del]

definition read_item :: "('e, 's) store \<Rightarrow> ('a, 's) hypercore \<Rightarrow> nat \<Rightarrow> ('e core_error, 'a) result" where
  "read_item S c i = bind_res (hc_get S c i) (\<lambda>r. Inr (the r))"

lemma rs_collect_step:
  "rs_collect S c r =
     (if rs_lo r < rs_hi r
      then (if hc_get S c (fst (rs_step r)) = Inr None then [] else [read_item S c (fst (rs_step r))]) @
           rs_collect S c (snd (rs_step r))
      else [])"
proof -
  have "rs_collect S c (snd (rs_step r)) = (case rs_next S c (snd (rs_step r)) of (None, _) \<Rightarrow> [] | (Some x, r') \<Rightarrow> x # rs_collect S c r')"
    by (rule rs_collect.simps)
  then show ?thesis
    by (subst rs_collect.simps, subst rs_next.simps) (auto simp: read_item_def split: sum.splits option.splits)
qed

lemma rs_collect_forward:
  "rs_collect S c \<lparr> rs_lo = lo, rs_hi = hi, rs_reverse = False \<rparr> =
   map (read_item S c) (filter (\<lambda>i. hc_get S c i \<noteq> Inr None) [lo..<hi])"
proof (induction "hi - lo" arbitrary: lo)
  case 0
  then show ?case by (subst rs_collect_step) simp
next
  case (Suc n)
  then have "lo < hi" "n = hi - Suc lo" by auto
  then show ?case
    using Suc(1) [of "Suc lo"] by (subst rs_collect_step) (simp add: rs_step_def upt_conv_Cons)
qed

lemma rs_collect_reverse:
  "rs_collect S c \<lparr> rs_lo = lo, rs_hi = hi, rs_reverse = True \<rparr> =
   map (read_item S c) (rev (filter (\<lambda>i. hc_get S c i \<noteq> Inr None) [lo..<hi]))"
proof (induction "hi - lo" arbitrary: hi)
  case 0
  then show ?case by (subst rs_collect_step) simp
next
  case (Suc n)
  then obtain h where h: "hi = Suc h" "lo \<le> h" "n = h - lo" by (cases hi) auto
  then show ?case
    using Suc(1) [of h] by (subst rs_collect_step) (simp add: rs_step_def)
qed

lemma hc_get_absent: "hc_get S c i = Inr None \<longleftrightarrow> \<not> hc_has c i"
  by (auto simp: hc_get_def split: option.splits)

section \<open>Snapshots\<close>

context byte_store
begin

lemma capture_ok:
  assumes "core_inv E H ok content c bs" "capture S c is m = Inr m'"
  shows "bt_get m' = (\<lambda>i. if i \<in> set is \<and> bf_get (presence c) i then Some (bs ! i) else bt_get m i)"
  using assms(2)
proof (induction "is" arbitrary: m)
  case (Cons i "is")
  have st: "content (hc_store c) i = Some (bs ! i)" "ok (hc_store c)" if "bf_get (presence c) i"
    using assms(1) that by (auto simp: core_inv_def)
  show ?case
  proof (cases "bf_get (presence c) i")
    case True
    then have "capture S c is (bt_insert i (bs ! i) m) = Inr m'"
      using Cons(2) get_law [OF st(2)] st(1) by (fastforce split: option.splits)
    then show ?thesis using Cons(1) True by (fastforce simp: fun_eq_iff)
  next
    case False
    then have "bt_get m' = (\<lambda>i. if i \<in> set is \<and> bf_get (presence c) i then Some (bs ! i) else bt_get m i)"
      using Cons by simp
    then show ?thesis using False by (auto simp: fun_eq_iff)
  qed
qed auto

lemma snapshot_ok:
  assumes "core_inv E H ok content c bs" "hc_snapshot S c = Inr n"
  shows "sn_length n = length bs \<and> sn_tree n = hc_tree c \<and> sn_head n = head c \<and> sn_fork n = fork c \<and>
    sn_codec n = hc_codec c \<and> sn_block n i = (if hc_has c i then Some (bs ! i) else None)"
proof -
  obtain m where m: "capture S c [0..<length bs] [] = Inr m"
      "n = \<lparr> sn_length = length bs, sn_fork = fork c, sn_head = head c, sn_tree = hc_tree c, sn_blocks = m, sn_codec = hc_codec c \<rparr>"
    using assms(2) core_inv_len [OF assms(1)] by (auto simp: hc_snapshot_def Let_def)
  then show ?thesis
    using capture_ok [OF assms(1) m(1)] core_inv_len [OF assms(1)] by (auto simp: sn_block_def hc_has_def)
qed

end

section \<open>Reopening damaged metadata\<close>

lemma roots_missing:
  assumes "0 < n"
  shows "root_hash H \<lparr> nodes = [], tree_len = n \<rparr> = None"
proof -
  obtain d off where "index d off \<in> set (roots_loop n 0)" using assms by (rule root_above)
  then obtain i "is" where "roots_loop n 0 = i # is" by (cases "roots_loop n 0") auto
  then show ?thesis using assms by (simp add: root_hash_def roots_def)
qed

lemma empty_nodes_wf: "n < 2 ^ 64 \<Longrightarrow> wf_tree \<lparr> nodes = [], tree_len = n \<rparr>"
  by (simp add: wf_tree_def)

section \<open>Properties\<close>

text \<open>
  Property C39. Purging resets the fork counter, so an author that purges a fresh log and starts over signs two
  conflicting heads: by the code's own test the two heads are a proven equivocation, although every
  step was an ordinary operation of the log.
\<close>

theorem purge_reuses_fork:
  assumes "byte_store S ok content fits" "sig_correct E" "core_inv E H ok content c []" "fork c = 0"
    and "fits (encode (hc_codec c) v)" "fits (encode (hc_codec c) w)"
    and "hc_append E H S c v = (Inr i, c1)" "hc_purge S c1 = (Inr (), c2)" "hc_append E H S c2 w = (Inr j, c3)"
    and "root_of H [encode (hc_codec c) v] \<noteq> root_of H [encode (hc_codec c) w]"
  shows "conflicting_heads E (public c) (the (head c1)) (the (head c3))"
proof -
  have k: "log_keys (Suc (length ([] :: bytes list)))" by (simp add: log_keys_def KEY_USERDATA_def)
  note a1 = byte_store.hc_append_ok [OF assms(1,3,2) k assms(5,7)]
  have i1: "core_inv E H ok content c1 [encode (hc_codec c) v]" "log_keys (length [encode (hc_codec c) v])"
    using a1 by (simp_all add: log_keys_def KEY_USERDATA_def)
  note p = byte_store.hc_purge_ok [OF assms(1) i1 assms(8)]
  have cd: "hc_codec c2 = hc_codec c" "public c2 = public c" "fork c2 = 0" "core_inv E H ok content c2 []"
    using a1 p by (auto simp: same_writer_def)
  have a3: "core_inv E H ok content c3 [encode (hc_codec c) w]" "same_writer c2 c3"
    using byte_store.hc_append_ok [OF assms(1) cd(4) assms(2) k _ assms(9)] assms(6) cd(1) by simp_all
  have h1: "head_for E H (public c) (the (head c1)) [encode (hc_codec c) v]" "sh_fork (the (head c1)) = 0"
    using core_inv_head [OF i1(1) core_inv_nonempty [OF i1(1)]] a1 assms(4) by (simp_all add: same_writer_def)
  have h3: "head_for E H (public c) (the (head c3)) [encode (hc_codec c) w]" "sh_fork (the (head c3)) = 0"
    using core_inv_head [OF a3(1) core_inv_nonempty [OF a3(1)]] a3(2) cd by (simp_all add: same_writer_def)
  show ?thesis
    using h1 h3 assms(10) by (auto simp: conflicting_heads_def head_for_def verify_signed_head_def)
qed

theorem purge_reuses_fork_witness:
  "\<exists>c1 c2 c3. hc_append toy_crypto squeeze32 demo_store demo_core [7] = (Inr 0, c1) \<and>
     hc_purge demo_store c1 = (Inr (), c2) \<and> hc_append toy_crypto squeeze32 demo_store c2 [8] = (Inr 0, c3) \<and>
     conflicting_heads toy_crypto (public demo_core) (the (head c1)) (the (head c3))"
proof -
  obtain c1 where c1: "hc_append toy_crypto squeeze32 demo_store demo_core [7] = (Inr 0, c1)"
    "core_inv toy_crypto squeeze32 bt_inv bt_get c1 [encode bytes_codec [7]]" by (rule demo_append)
  have k: "log_keys (length [encode bytes_codec [7]])" "log_keys (Suc (length ([] :: bytes list)))"
    by (simp_all add: log_keys_def KEY_USERDATA_def)
  obtain c2 where c2: "hc_purge demo_store c1 = (Inr (), c2)" using demo.hc_purge_total [OF c1(2) k(1)] by blast
  have "core_inv toy_crypto squeeze32 bt_inv bt_get c2 []" using demo.hc_purge_ok [OF c1(2) k(1) c2] by blast
  then obtain c3 where c3: "hc_append toy_crypto squeeze32 demo_store c2 [8] = (Inr 0, c3)"
    using demo.hc_append_total [OF _ k(2)] by fastforce
  have "root_of squeeze32 [encode bytes_codec [7]] \<noteq> root_of squeeze32 [encode bytes_codec [8]]" by code_simp
  then have "conflicting_heads toy_crypto (public demo_core) (the (head c1)) (the (head c3))"
    using purge_reuses_fork [OF demo.byte_store_axioms sig_correct_toy demo_inv _ _ _ c1(1) c2 c3] by simp
  then show ?thesis using c1(1) c2 c3 by blast
qed

text \<open>
  Reopening does not always report corruption: a tree record that claims the length of the signed head
  but lacks its nodes passes deserialization, and checking the head then panics on the absent root
  instead of returning \<open>Error::Corrupt\<close>.
\<close>

theorem open_panics_on_missing_roots:
  assumes "total_store S ok content fits" "ok s" "wf_head h" "0 < sh_length h"
    and "\<forall>p. pr = Some p \<longrightarrow> wf_prologue p"
    and "content s KEY_META = Some (encode_meta_parts (sh_fork h) (Some h) pr)"
    and "content s KEY_TREE = Some (serialize \<lparr> nodes = [], tree_len = sh_length h \<rparr>)"
    and "content s KEY_PRESENCE = Some (bf_serialize bf_new)"
  shows "hc_open E H S sk cd s = Inl Panic"
proof -
  have "deserialize (serialize \<lparr> nodes = [], tree_len = sh_length h \<rparr>) = Some \<lparr> nodes = [], tree_len = sh_length h \<rparr>"
    using assms(3) by (intro deserialize_serialize empty_nodes_wf) (simp add: wf_head_def)
  moreover obtain p where "bf_deserialize (bf_serialize bf_new) = Some p"
    using bf_deserialize_bounded [OF bf_ok_new(1)] bf_ok_new(2) by auto
  moreover have "decode_meta (encode_meta_parts (sh_fork h) (Some h) pr) = Some (sh_fork h, Some h, pr)"
    using assms(3,5) by (intro decode_meta_encode) (auto simp: wf_head_def)
  ultimately show ?thesis
    using assms(6-8) roots_missing [OF assms(4), of H]
    by (simp add: hc_open_def total_store.get_eq [OF assms(1,2)] verify_head_def Let_def)
qed

theorem open_panics_on_missing_roots_witness:
  "let h = \<lparr> sh_fork = 0, sh_length = 1, sh_root = replicate 32 0, sh_sig = replicate 64 0 \<rparr>;
       s = bt_insert KEY_META (encode_meta_parts 0 (Some h) None)
             (bt_insert KEY_TREE (serialize \<lparr> nodes = [], tree_len = 1 \<rparr>)
               (bt_insert KEY_PRESENCE (bf_serialize bf_new) []))
   in hc_open toy_crypto squeeze32 demo_store [1] bytes_codec s = Inl Panic"
proof -
  let ?h = "\<lparr> sh_fork = 0, sh_length = 1, sh_root = replicate 32 0, sh_sig = replicate 64 0 \<rparr>"
  let ?s = "bt_insert KEY_META (encode_meta_parts 0 (Some ?h) None)
             (bt_insert KEY_TREE (serialize \<lparr> nodes = [], tree_len = 1 \<rparr>)
               (bt_insert KEY_PRESENCE (bf_serialize bf_new) []))"
  have s: "bt_inv ?s" by (intro bt_inv_insert bt_inv_Nil)
  have h: "wf_head ?h" by (simp add: wf_head_def)
  have "hc_open toy_crypto squeeze32 demo_store [1] bytes_codec ?s = Inl Panic"
    by (rule open_panics_on_missing_roots [OF demo.total_store_axioms s h, where pr = None])
      (simp_all add: KEY_META_def KEY_TREE_def KEY_PRESENCE_def)
  then show ?thesis by (simp add: Let_def)
qed

text \<open>
  Migration: adopting a prologue copies exactly the committed prefix of the source under the new key,
  all of it present, with a valid head, and satisfies the commitment from then on.
\<close>

theorem copy_prologue_migrates:
  assumes "byte_store S ok content fits" "sig_correct E" "core_inv E H ok content c []"
    and "core_inv E H ok content source ds" "length ds \<le> KEY_USERDATA" "list_all fits ds"
    and "copy_prologue E H S c source = (Inr n, c')"
  shows "\<exists>pr. hc_prologue c = Some pr \<and> n = cp_length pr \<and> n \<le> length ds \<and>
    core_inv E H ok content c' (take n ds) \<and> verify_prologue H c' \<and> (\<forall>i. hc_has c' i \<longleftrightarrow> i < n) \<and>
    author c' = author c \<and> fork c' = fork c"
  using byte_store.copy_prologue_ok [OF assms(1-4) _ assms(6,7)] assms(5) by (auto simp: log_keys_def same_writer_def)

theorem copy_prologue_migrates_witness:
  "\<exists>source pr c'. hc_append toy_crypto squeeze32 demo_store demo_core [7] = (Inr 0, source) \<and>
     prologue_at squeeze32 source 1 = Some pr \<and>
     copy_prologue toy_crypto squeeze32 demo_store (hc_with_prologue toy_crypto [2] bytes_codec [] pr) source = (Inr 1, c') \<and>
     core_inv toy_crypto squeeze32 bt_inv bt_get c' [encode bytes_codec [7]] \<and> verify_prologue squeeze32 c'"
proof -
  let ?b = "encode bytes_codec [7]"
  obtain src where src: "hc_append toy_crypto squeeze32 demo_store demo_core [7] = (Inr 0, src)"
    "core_inv toy_crypto squeeze32 bt_inv bt_get src [?b]"
    "writer_run toy_crypto squeeze32 demo_store (\<lambda>_. True) bt_inv src [?b] [(the (head src), [?b])]" by (rule demo_append)
  have k: "log_keys (Suc (length ([] :: bytes list)))" "log_keys 1" by (simp_all add: log_keys_def KEY_USERDATA_def)
  have has: "\<forall>i. 0 \<le> i \<and> i < 1 \<longrightarrow> hc_has src i"
    using demo.hc_append_ok [OF demo_inv sig_correct_toy k(1) _ src(1)] by simp
  have t: "tree_ok squeeze32 [?b] (hc_tree src)" using src(2) by (simp add: core_inv_def)
  let ?pr = "\<lparr> cp_length = 1, cp_hash = root_of squeeze32 [?b] \<rparr>"
  let ?c = "hc_with_prologue toy_crypto [2] bytes_codec [] ?pr :: (bytes, memory_store) hypercore"
  have pr: "prologue_at squeeze32 src 1 = Some ?pr" using prefix_root_hash_ok [OF t, of 1] by (simp add: prologue_at_def)
  have inv: "core_inv toy_crypto squeeze32 bt_inv bt_get ?c []"
    using core_inv_new [of bt_inv "[]" toy_crypto squeeze32 bt_get "[2]" bytes_codec]
    by (simp add: hc_with_prologue_def core_inv_def verify_head_def hc_new_def)
  obtain c1 where c1: "copy_loop squeeze32 demo_store src [0..<1] ?c = (Inr (), c1)"
    using demo.copy_loop_total [OF src(2) _ k(2) _ _ _ has, where c = ?c] inv by (auto simp: core_inv_def)
  have "copied squeeze32 bt_inv bt_get [?b] 1 c1"
    using demo.copy_loop_ok [OF src(2) _ k(2) _ demo.copied_start [OF inv] _ c1] by simp
  then have "tree_ok squeeze32 [?b] (hc_tree c1)" by (simp add: copied_def)
  then obtain c' where c': "copy_prologue toy_crypto squeeze32 demo_store ?c src = (Inr 1, c')"
    using c1 prefix_root_hash_ok [OF t, of 1] core_inv_len [OF inv]
    by (simp add: copy_prologue_def hc_with_prologue_def hc_is_empty_def resign_and_def resign_ok)
  have "length [?b] \<le> KEY_USERDATA" by (simp add: KEY_USERDATA_def)
  from copy_prologue_migrates [OF demo.byte_store_axioms sig_correct_toy inv src(2) this _ c']
  show ?thesis using src(1) pr c' by auto
qed

text \<open>
  Property C26. Crash recovery: a suffix is taken over only when the given head is signed by the author for exactly
  the stored blocks followed by the suffix. Then the log is that list with that head; otherwise tree,
  presence map, head and fork are untouched.
\<close>

theorem recover_signed_suffix_safe:
  assumes "byte_store S ok content fits" "core_inv E H ok content c bs" "\<forall>v. fits v"
    and "length bs + length suf \<le> KEY_USERDATA" "recover_signed_suffix E H S c h suf = (r, c')"
  shows "case r of
      Inr _ \<Rightarrow> verify_signed_head E (public c) h \<and> sh_root h = root_of H (bs @ suf) \<and>
        core_inv E H ok content c' (bs @ suf) \<and> head c' = Some h \<and> fork c' = fork c
    | Inl e \<Rightarrow> (\<exists>s. c' = c\<lparr> hc_store := s \<rparr>)"
proof (cases r)
  case (Inl e)
  then show ?thesis using recover_Inl assms(5) by auto
next
  case (Inr u)
  have run: "recover_signed_suffix E H S c h suf = (Inr u, c')" using assms(5) Inr by simp
  have "log_keys (length bs + length suf)" using assms(4) by (simp add: log_keys_def)
  from byte_store.recover_ok [OF assms(1,2) this _ run] assms(3)
  have ok: "core_inv E H ok content c' (bs @ suf)" "head c' = Some h" "same_writer c c'" by blast+
  from core_inv_head [OF ok(1)] ok(2,3) have "head_for E H (public c) h (bs @ suf)" by (simp add: same_writer_def)
  then show ?thesis using ok Inr by (simp add: head_for_def same_writer_def)
qed

theorem recover_signed_suffix_safe_witness:
  "\<exists>h c'. recover_signed_suffix toy_crypto squeeze32 demo_store demo_core h [encode bytes_codec [7]] = (Inr (), c') \<and>
     core_inv toy_crypto squeeze32 bt_inv bt_get c' [encode bytes_codec [7]] \<and> head c' = Some h"
proof -
  let ?b = "encode bytes_codec [7]"
  obtain c where c: "core_inv toy_crypto squeeze32 bt_inv bt_get c [?b]" "same_writer demo_core c" by (rule demo_append)
  let ?h = "the (head c)"
  have h: "head_for toy_crypto squeeze32 (public demo_core) ?h [?b]" "sh_fork ?h = 0"
    using core_inv_head [OF c(1) core_inv_nonempty [OF c(1)]] c(2) by (simp_all add: same_writer_def)
  then have "verify_archived_feed toy_crypto squeeze32 (public demo_core) ?h [?b]"
    by (simp add: verify_archived_feed_iff head_for_def)
  moreover have "hc_len demo_core = 0" using core_inv_len [OF demo_inv] by (simp add: hc_len_def)
  moreover obtain t p where "fold_blocks squeeze32 0 [?b] empty_tree bf_new = (t, p)" by fastforce
  ultimately obtain c' where r: "recover_signed_suffix toy_crypto squeeze32 demo_store demo_core ?h [?b] = (Inr (), c')"
    using h by (auto simp: recover_signed_suffix_def Let_def core_put_def demo_store_def mem_store_def head_for_def
        simp del: fold_blocks.simps split: prod.splits)
  have "length ([] :: bytes list) + length [?b] \<le> KEY_USERDATA" by (simp add: KEY_USERDATA_def)
  from recover_signed_suffix_safe [OF demo.byte_store_axioms demo_inv _ this r] r show ?thesis by auto
qed

text \<open>
  User data: after a successful \<open>set_user_data\<close> a read of that key returns the value, every other key
  reads as before, and the log is not affected.
\<close>

theorem user_data_roundtrip:
  assumes "byte_store S ok content fits" "core_inv E H ok content c bs" "length bs \<le> KEY_USERDATA"
    and "load_user_data S c = Inr m" "user_ok (bt_insert k v m)" "fits (encode_user_data (bt_insert k v m))"
    and "set_user_data S c k v = (Inr (), c')" "get_user_data S c' j = Inr x"
  shows "core_inv E H ok content c' bs \<and> head c' = head c \<and>
    (if j = k then x = Some v else get_user_data S c j = Inr x)"
proof -
  have "log_keys (length bs)" using assms(3) by (simp add: log_keys_def)
  note u = byte_store.set_user_data_ok [OF assms(1,2) this assms(4-7)]
  obtain m' where "load_user_data S c' = Inr m'" "x = bt_get m' j" using assms(8) by (auto simp: get_user_data_def)
  then show ?thesis using u assms(4) by (auto simp: get_user_data_def)
qed

theorem user_data_roundtrip_witness:
  "\<exists>c'. set_user_data demo_store demo_core [1] [2] = (Inr (), c') \<and> get_user_data demo_store c' [1] = Inr (Some [2]) \<and>
        get_user_data demo_store c' [3] = Inr None"
proof -
  have l: "load_user_data demo_store demo_core = Inr []"
    by (simp add: load_user_data_def demo_store_def mem_store_def demo_core_def hc_new_def)
  have ok: "user_ok (bt_insert [1] [2] [])" by (simp add: user_ok_def bt_inv_def)
  obtain c' where c': "set_user_data demo_store demo_core [1] [2] = (Inr (), c')"
    using demo.core_put_total [of demo_core KEY_USERDATA] demo_inv
    by (fastforce simp: set_user_data_def l KEY_USERDATA_def core_inv_def)
  have k: "length ([] :: bytes list) \<le> KEY_USERDATA" by simp
  have inv: "core_inv toy_crypto squeeze32 bt_inv bt_get c' []" "load_user_data demo_store c' \<noteq> Inl Corrupt"
    using demo.set_user_data_ok [OF demo_inv _ l ok _ c'] by (simp_all add: log_keys_def)
  have "\<exists>m. load_user_data demo_store c' = Inr m"
    using inv by (auto simp: load_user_data_def core_inv_def demo.get_eq split: option.splits)
  then obtain x y where x: "get_user_data demo_store c' [1] = Inr x" "get_user_data demo_store c' [3] = Inr y"
    by (auto simp: get_user_data_def)
  note r = user_data_roundtrip [OF demo.byte_store_axioms demo_inv k l ok _ c']
  have "x = Some [2]" "get_user_data demo_store demo_core [3] = Inr y" using r [OF _ x(1)] r [OF _ x(2)] by simp_all
  then show ?thesis using c' x l by (auto simp: get_user_data_def)
qed

text \<open>
  A read stream ends and emits exactly the present blocks of the requested range that lies in the log,
  in ascending or descending order, each as \<open>get\<close> reads it; absent blocks are skipped.
\<close>

theorem read_stream_emits_present:
  "rs_collect S c (hc_read_stream c opts) =
   (let hi = min (case ro_end opts of Some e \<Rightarrow> e | None \<Rightarrow> hc_len c) (hc_len c);
        is = filter (hc_has c) [ro_start opts..<hi]
    in map (read_item S c) (if ro_reverse opts then rev is else is))"
proof -
  define hi where "hi = min (case ro_end opts of Some e \<Rightarrow> e | None \<Rightarrow> hc_len c) (hc_len c)"
  have "[min (ro_start opts) hi..<hi] = [ro_start opts..<hi]" by (simp add: min_def)
  moreover have "hc_read_stream c opts = \<lparr> rs_lo = min (ro_start opts) hi, rs_hi = hi, rs_reverse = ro_reverse opts \<rparr>"
    by (cases "ro_end opts") (simp_all add: hc_read_stream_def Let_def hi_def hc_len_def)
  ultimately show ?thesis
    unfolding Let_def hi_def [symmetric]
    by (cases "ro_reverse opts") (simp_all add: rs_collect_forward rs_collect_reverse hc_get_absent)
qed

text \<open>
  A snapshot is a frozen, verifiable copy: it reads every block as the log had it when the snapshot was
  taken, each captured block verifies against the captured head, and \<open>signed_length\<close> against any later
  state of the log is the length of the common prefix of the two.
\<close>

theorem snapshot_is_frozen:
  assumes "byte_store S ok content fits" "core_inv E H ok content c bs" "hc_snapshot S c = Inr n"
    and "core_inv E H ok' content' c' cs" "hash32 H" "sized bs" "sized cs"
    and "collision_free H (tree_inputs H bs @ tree_inputs H cs)"
  shows "sn_length n = length bs \<and>
    (\<forall>i. sn_block n i = (if hc_has c i then Some (bs ! i) else None)) \<and>
    (\<forall>i < length bs. \<exists>p. sn_proof n i = Some (Some p) \<and> verify_block E H (public c) (the (sn_head n)) i (bs ! i) p) \<and>
    signed_length H n c' = length (longest_common_prefix bs cs)"
proof -
  note sn = byte_store.snapshot_ok [OF assms(1-3)]
  have t: "tree_ok H bs (hc_tree c)" "tree_ok H cs (hc_tree c')" using assms(2,4) by (simp_all add: core_inv_def)
  have "\<exists>p. sn_proof n i = Some (Some p) \<and> verify_block E H (public c) (the (sn_head n)) i (bs ! i) p" if i: "i < length bs" for i
  proof -
    have ne: "bs \<noteq> []" using \<open>i < length bs\<close> by auto
    then have h: "head_for E H (public c) (the (head c)) bs" using core_inv_head core_inv_nonempty assms(2) by blast
    obtain p where p: "proof_of (hc_tree c) i = Some (Some p)" "block p = i" "verify_proof H p (bs ! i) (root_of H bs)"
      using proof_of_ok [OF t(1) i] assms(6) by (auto simp: sized_def)
    then show ?thesis using h sn [of i] by (simp add: sn_proof_def verify_block_def head_for_def)
  qed
  moreover have "signed_length H n c' = length (longest_common_prefix bs cs)"
    using lowest_common_ancestor_ok [OF assms(8,5-7) t] sn by (simp add: signed_length_def)
  ultimately show ?thesis using sn by blast
qed

theorem snapshot_is_frozen_witness:
  "\<exists>c n. hc_append toy_crypto squeeze32 demo_store demo_core [7] = (Inr 0, c) \<and> hc_snapshot demo_store c = Inr n \<and>
     sn_block n 0 = Some (encode bytes_codec [7]) \<and> signed_length squeeze32 n demo_core = 0"
proof -
  let ?b = "encode bytes_codec [7]"
  obtain c where c: "hc_append toy_crypto squeeze32 demo_store demo_core [7] = (Inr 0, c)"
    "core_inv toy_crypto squeeze32 bt_inv bt_get c [?b]" by (rule demo_append)
  have k: "log_keys (Suc (length ([] :: bytes list)))" by (simp add: log_keys_def KEY_USERDATA_def)
  have has: "hc_has c 0" using demo.hc_append_ok [OF demo_inv sig_correct_toy k _ c(1)] by simp
  have "bt_inv (hc_store c)" "length [?b] = 1" using c(2) by (simp_all add: core_inv_def)
  then obtain n where n: "hc_snapshot demo_store c = Inr n"
    using core_inv_len [OF c(2)] has c(2) by (auto simp: hc_snapshot_def demo.get_eq hc_has_def core_inv_def)
  have sz: "sized [?b]" "sized []" by (simp_all add: sized_def encode_def bytes_codec_def varint_write_last)
  have cf: "collision_free squeeze32 (tree_inputs squeeze32 [?b] @ tree_inputs squeeze32 [])" by code_simp
  from snapshot_is_frozen [OF demo.byte_store_axioms c(2) n demo_inv hash32_squeeze32 sz cf]
  show ?thesis using c(1) n has by auto
qed

end
