(* ===== verification/Replica.thy ===== *)
theory Replica
  imports Hypercore_Views
begin

text \<open>
  The verify-only replica of a signed log (\<open>crates/hypercore/src/replica.rs\<close>): blocks are taken in
  order, each with an inclusion proof against a signed head; longer heads are checked with upgrade
  proofs, rewritten histories are followed by \<open>reorg\<close>.
\<close>

section \<open>Operations\<close>

record ('a, 's) replica =
  rp_public :: bytes
  rp_codec :: "'a codec"
  rp_store :: 's
  rp_tree :: merkle_tree
  rp_head :: "signed_head option"

definition rp_new :: "bytes \<Rightarrow> 'a codec \<Rightarrow> 's \<Rightarrow> ('a, 's) replica" where
  "rp_new pk cd s = \<lparr> rp_public = pk, rp_codec = cd, rp_store = s, rp_tree = empty_tree, rp_head = None \<rparr>"

definition rp_len :: "('a, 's) replica \<Rightarrow> nat" where
  "rp_len r = tree_len (rp_tree r)"

definition rp_add_block :: "crypto \<Rightarrow> hashfun \<Rightarrow> ('e, 's) store \<Rightarrow> ('a, 's) replica \<Rightarrow> signed_head \<Rightarrow> nat \<Rightarrow> bytes \<Rightarrow>
    inclusion_proof \<Rightarrow> ('e core_error, bool, ('a, 's) replica) outcome" where
  "rp_add_block E H S r h i enc p =
     (if i \<noteq> tree_len (rp_tree r) then (Inr False, r)
      else if \<not> verify_block E H (rp_public r) h i enc p then (Inr False, r)
      else case st_put S (rp_store r) i enc of
             (Inl e, s) \<Rightarrow> (Inl (Storage e), r\<lparr> rp_store := s \<rparr>)
           | (Inr _, s) \<Rightarrow>
               let r = r\<lparr> rp_store := s, rp_tree := snd (append H (rp_tree r) enc) \<rparr>
               in if tree_len (rp_tree r) = sh_length h
                  then case root_hash H (rp_tree r) of
                         None \<Rightarrow> (Inl Panic, r)
                       | Some root \<Rightarrow> (Inr True, if root = sh_root h then r\<lparr> rp_head := Some h \<rparr> else r)
                  else (Inr True, r))"

text \<open>\<open>None\<close> is the panic of \<open>roots\<close>.\<close>

definition rp_verify_upgrade :: "crypto \<Rightarrow> hashfun \<Rightarrow> ('a, 's) replica \<Rightarrow> signed_head \<Rightarrow> upgrade_proof \<Rightarrow> bool option" where
  "rp_verify_upgrade E H r h p =
     (if old_len p = tree_len (rp_tree r) \<and> new_len p = sh_length h \<and> tree_len (rp_tree r) < sh_length h \<and>
         sig_verify E (rp_public r) (head_message (sh_fork h) (sh_length h) (sh_root h)) (sh_sig h)
      then map_option (\<lambda>rs. verify_upgrade_proof H p rs (sh_root h)) (roots (rp_tree r))
      else Some False)"

definition rp_verify_reorg :: "crypto \<Rightarrow> hashfun \<Rightarrow> ('a, 's) replica \<Rightarrow> signed_head \<Rightarrow> nat \<Rightarrow> upgrade_proof option \<Rightarrow> bool" where
  "rp_verify_reorg E H r h ancestors p =
     (case rp_head r of
        None \<Rightarrow> False
      | Some cur \<Rightarrow>
          if sh_fork h \<le> sh_fork cur then False
          else if \<not> sig_verify E (rp_public r) (head_message (sh_fork h) (sh_length h) (sh_root h)) (sh_sig h) then False
          else if tree_len (rp_tree r) < ancestors \<or> sh_length h < ancestors then False
          else case prefix_roots (rp_tree r) ancestors of
                 None \<Rightarrow> False
               | Some anchor \<Rightarrow>
                   if ancestors = sh_length h then prefix_root_hash H (rp_tree r) ancestors = Some (sh_root h)
                   else if ancestors = 0 then True
                   else case p of
                          Some p \<Rightarrow> old_len p = ancestors \<and> new_len p = sh_length h \<and>
                                    verify_upgrade_proof H p anchor (sh_root h)
                        | None \<Rightarrow> False)"

definition rp_reorg :: "crypto \<Rightarrow> hashfun \<Rightarrow> ('a, 's) replica \<Rightarrow> signed_head \<Rightarrow> nat \<Rightarrow> upgrade_proof option \<Rightarrow>
    ('e core_error, bool, ('a, 's) replica) outcome" where
  "rp_reorg E H r h ancestors p =
     (if \<not> rp_verify_reorg E H r h ancestors p then (Inr False, r)
      else let r = r\<lparr> rp_tree := snd (Merkle.truncate (rp_tree r) ancestors) \<rparr>
           in if tree_len (rp_tree r) = sh_length h
              then case root_hash H (rp_tree r) of
                     None \<Rightarrow> (Inl Panic, r)
                   | Some root \<Rightarrow> (Inr True, if root = sh_root h then r\<lparr> rp_head := Some h \<rparr> else r\<lparr> rp_head := None \<rparr>)
              else (Inr True, r\<lparr> rp_head := None \<rparr>))"

definition rp_get :: "('e, 's) store \<Rightarrow> ('a, 's) replica \<Rightarrow> nat \<Rightarrow> ('e core_error, 'a option) result" where
  "rp_get S r i =
     (if tree_len (rp_tree r) \<le> i then Inr None
      else bind_res (core_get S (rp_store r) i) (\<lambda>x.
             case x of
               None \<Rightarrow> Inl Corrupt
             | Some bytes \<Rightarrow> bind_res (map_err CodecFailed (decode (rp_codec r) bytes)) (\<lambda>v. Inr (Some v))))"

definition rp_block :: "('e, 's) store \<Rightarrow> ('a, 's) replica \<Rightarrow> nat \<Rightarrow> ('e core_error, bytes option) result" where
  "rp_block S r i = (if tree_len (rp_tree r) \<le> i then Inr None else core_get S (rp_store r) i)"

definition rp_proof :: "('a, 's) replica \<Rightarrow> nat \<Rightarrow> inclusion_proof option option" where
  "rp_proof r i = proof_of (rp_tree r) i"

subsection \<open>Persistence\<close>

definition encode_replica_meta :: "signed_head option \<Rightarrow> bytes" where
  "encode_replica_meta hh =
     (case hh of
        None \<Rightarrow> [0]
      | Some h \<Rightarrow> [1] @ le64 (sh_fork h) @ le64 (sh_length h) @ sh_root h @ sh_sig h)"

definition decode_replica_meta :: "bytes \<Rightarrow> signed_head option option" where
  "decode_replica_meta bs =
     (case bs of
        [] \<Rightarrow> None
      | tag # rest \<Rightarrow>
          if tag = 0 then Some None
          else if tag = 1 then
            (if length rest < 8 + 8 + 32 + 64 then None
             else Some (Some \<lparr> sh_fork = of_le (take 8 rest), sh_length = of_le (take 8 (drop 8 rest)),
                               sh_root = take 32 (drop 16 rest), sh_sig = take 64 (drop 48 rest) \<rparr>))
          else None)"

definition rp_persist :: "('e, 's) store \<Rightarrow> ('a, 's) replica \<Rightarrow> ('e core_error, unit, ('a, 's) replica) outcome" where
  "rp_persist S r =
     (let tree = serialize (rp_tree r); meta = encode_replica_meta (rp_head r)
      in and_then (map_fst Storage (st_put S (rp_store r) KEY_TREE tree)) (\<lambda>_ s.
         and_then (map_fst Storage (st_put S s KEY_META meta)) (\<lambda>_ s.
           (Inr (), r\<lparr> rp_store := s \<rparr>)) (\<lambda>s. r\<lparr> rp_store := s \<rparr>)) (\<lambda>s. r\<lparr> rp_store := s \<rparr>))"

definition rp_open :: "crypto \<Rightarrow> hashfun \<Rightarrow> ('e, 's) store \<Rightarrow> bytes \<Rightarrow> 'a codec \<Rightarrow> 's \<Rightarrow>
    ('e core_error, ('a, 's) replica) result" where
  "rp_open E H S pk cd s =
     bind_res (core_get S s KEY_TREE) (\<lambda>t.
     bind_res (core_get S s KEY_META) (\<lambda>m.
       case (t, m) of
         (Some tree_bytes, Some meta_bytes) \<Rightarrow>
           (case deserialize tree_bytes of None \<Rightarrow> Inl Corrupt | Some tree \<Rightarrow>
           (case decode_replica_meta meta_bytes of None \<Rightarrow> Inl Corrupt | Some hh \<Rightarrow>
              let tree = (case hh of
                            Some h \<Rightarrow> if sh_length h < tree_len tree then snd (Merkle.truncate tree (sh_length h)) else tree
                          | None \<Rightarrow> tree);
                  r = \<lparr> rp_public = pk, rp_codec = cd, rp_store = s, rp_tree = tree, rp_head = hh \<rparr>
              in case hh of
                   None \<Rightarrow> Inr r
                 | Some h \<Rightarrow>
                     if sig_verify E pk (head_message (sh_fork h) (sh_length h) (sh_root h)) (sh_sig h) \<and>
                        tree_len tree = sh_length h
                     then (case root_hash H tree of
                             None \<Rightarrow> Inl Panic
                           | Some root \<Rightarrow> if root = sh_root h then Inr r else Inl Corrupt)
                     else Inl Corrupt))
       | _ \<Rightarrow> Inl NotPersisted))"

section \<open>The invariant\<close>

text \<open>
  The replica holds the blocks \<open>cs\<close>; its verified head, if any, covers a prefix of them.
\<close>

definition rp_inv :: "crypto \<Rightarrow> hashfun \<Rightarrow> ('s \<Rightarrow> bool) \<Rightarrow> ('s \<Rightarrow> nat \<Rightarrow> bytes option) \<Rightarrow> ('a, 's) replica \<Rightarrow>
    bytes list \<Rightarrow> bool" where
  "rp_inv E H ok content r cs \<longleftrightarrow>
     tree_ok H cs (rp_tree r) \<and> ok (rp_store r) \<and> (\<forall>i < length cs. content (rp_store r) i = Some (cs ! i)) \<and>
     (\<forall>h. rp_head r = Some h \<longrightarrow> sh_length h \<le> length cs \<and> sh_root h = root_of H (take (sh_length h) cs) \<and>
        verify_signed_head E (rp_public r) h)"

lemma rp_inv_new: "ok s \<Longrightarrow> rp_inv E H ok content (rp_new pk cd s) []"
  by (simp add: rp_inv_def rp_new_def tree_ok_empty)

lemma rp_inv_len: "rp_inv E H ok content r cs \<Longrightarrow> tree_len (rp_tree r) = length cs"
  by (auto simp: rp_inv_def)

context byte_store
begin

lemma rp_add_block_ok:
  assumes inv: "rp_inv E H ok content r cs" and key: "log_keys (Suc (length cs))" and fit: "fits enc"
    and run: "rp_add_block E H S r h i enc p = (Inr True, r')"
  shows "i = length cs \<and> verify_block E H (rp_public r) h i enc p \<and> rp_inv E H ok content r' (cs @ [enc]) \<and>
    rp_public r' = rp_public r \<and> rp_codec r' = rp_codec r \<and>
    rp_head r' = (if length cs + 1 = sh_length h \<and> root_of H (cs @ [enc]) = sh_root h then Some h else rp_head r)"
proof -
  note len = rp_inv_len [OF inv]
  have v: "i = length cs" "verify_block E H (rp_public r) h i enc p"
    using run len by (auto simp: rp_add_block_def split: if_splits)
  have t: "tree_ok H (cs @ [enc]) (snd (append H (rp_tree r) enc))"
    using append_ok [of H cs "rp_tree r" enc] inv by (simp add: rp_inv_def)
  obtain s where s: "st_put S (rp_store r) (length cs) enc = (Inr (), s)"
    and r': "r' = (if length cs + 1 = sh_length h \<and> root_of H (cs @ [enc]) = sh_root h
       then r\<lparr> rp_store := s, rp_tree := snd (append H (rp_tree r) enc), rp_head := Some h \<rparr>
       else r\<lparr> rp_store := s, rp_tree := snd (append H (rp_tree r) enc) \<rparr>)"
    using run v len t roots_ok(3) [OF t]
    by (auto simp: rp_add_block_def Let_def split: prod.splits sum.splits if_splits)
  have ok0: "ok (rp_store r)" "length cs < 2 ^ 64" using inv log_keysD [OF key] by (simp_all add: rp_inv_def)
  from put_law [OF ok0 fit s] have put: "ok s" "content s = (content (rp_store r))(length cs \<mapsto> enc)" by simp_all
  have old: "sh_length g \<le> length cs \<and> sh_root g = root_of H (take (sh_length g) cs)" if "rp_head r = Some g" for g
    using inv that by (simp add: rp_inv_def)
  have "rp_inv E H ok content r' (cs @ [enc])"
    using t put inv v(2) old unfolding rp_inv_def r'
    by (auto simp: less_Suc_eq nth_append verify_block_def)
  then show ?thesis using v by (simp add: r')
qed

lemma rp_reorg_ok:
  assumes inv: "rp_inv E H ok content r cs"
    and run: "rp_reorg E H r h n p = (Inr True :: ('err core_error, bool) result, r')"
  shows "rp_verify_reorg E H r h n p \<and> n \<le> length cs \<and> n \<le> sh_length h \<and> rp_inv E H ok content r' (take n cs) \<and>
    rp_public r' = rp_public r \<and> rp_codec r' = rp_codec r \<and>
    rp_head r' = (if n = sh_length h then Some h else None)"
proof -
  have v: "rp_verify_reorg E H r h n p" using run by (auto simp: rp_reorg_def split: if_splits)
  have n: "n \<le> length cs" "n \<le> sh_length h" "verify_signed_head E (rp_public r) h"
    using v rp_inv_len [OF inv] by (auto simp: rp_verify_reorg_def verify_signed_head_def split: option.splits if_splits)
  have t0: "tree_ok H cs (rp_tree r)" using inv by (simp add: rp_inv_def)
  have t: "tree_ok H (take n cs) (snd (Merkle.truncate (rp_tree r) n))" using truncate_ok [OF t0] by simp
  have len: "tree_len (snd (Merkle.truncate (rp_tree r) n)) = n" using tree_ok_len [OF t] n(1) by simp
  have root: "sh_root h = root_of H (take n cs)" if "n = sh_length h"
    using v that prefix_root_hash_ok [OF t0, of n] n(1)
    by (auto simp: rp_verify_reorg_def split: option.splits if_splits)
  have r': "r' = r\<lparr> rp_tree := snd (Merkle.truncate (rp_tree r) n), rp_head := (if n = sh_length h then Some h else None) \<rparr>"
    using run v len roots_ok(3) [OF t] root by (auto simp: rp_reorg_def Let_def split: if_splits)
  have "rp_inv E H ok content r' (take n cs)"
    using t inv n root unfolding rp_inv_def r' by auto
  then show ?thesis using v n by (simp add: r')
qed

end

section \<open>Replication from an honest source\<close>

text \<open>Blocks with their proofs, offered in order against one head; \<open>None\<close> when one is not accepted.\<close>

fun rp_feed :: "crypto \<Rightarrow> hashfun \<Rightarrow> ('e, 's) store \<Rightarrow> signed_head \<Rightarrow> (nat \<times> bytes \<times> inclusion_proof) list \<Rightarrow>
    ('a, 's) replica \<Rightarrow> ('a, 's) replica option" where
  "rp_feed E H S h [] r = Some r"
| "rp_feed E H S h ((i, enc, p) # xs) r =
     (case rp_add_block E H S r h i enc p of (Inr True, r') \<Rightarrow> rp_feed E H S h xs r' | _ \<Rightarrow> None)"

definition offer :: "merkle_tree \<Rightarrow> bytes list \<Rightarrow> nat \<Rightarrow> nat \<times> bytes \<times> inclusion_proof" where
  "offer t bs i = (i, bs ! i, the (the (proof_of t i)))"

context total_store
begin

lemma rp_add_block_total:
  assumes inv: "rp_inv E H ok content r cs" and "log_keys (Suc (length cs))" "fits enc"
    and v: "verify_block E H (rp_public r) h (length cs) enc p"
  shows "\<exists>r'. rp_add_block E H S r h (length cs) enc p = (Inr True, r')"
proof -
  have t: "tree_ok H (cs @ [enc]) (snd (append H (rp_tree r) enc))"
    using append_ok [of H cs "rp_tree r" enc] inv by (simp add: rp_inv_def)
  have "ok (rp_store r)" "length cs < 2 ^ 64" using inv log_keysD [OF assms(2)] by (simp_all add: rp_inv_def)
  then obtain s where "st_put S (rp_store r) (length cs) enc = (Inr (), s)" using put_total assms(3) by blast
  then show ?thesis
    using v rp_inv_len [OF inv] t roots_ok(3) [OF t] by (auto simp: rp_add_block_def Let_def)
qed

lemma rp_feed_ok:
  assumes t: "tree_ok H bs t" and h: "head_for E H pk h bs" and fit: "list_all fits bs" and key: "log_keys (length bs)"
    and sz: "2 * length bs < 2 ^ 64"
    and "rp_inv E H ok content r (take k bs)" "rp_public r = pk" "k < length bs"
  shows "\<exists>r'. rp_feed E H S h (map (offer t bs) [k..<length bs]) r = Some r' \<and> rp_inv E H ok content r' bs \<and> rp_head r' = Some h"
  using assms(6-8)
proof (induction "length bs - k" arbitrary: k r)
  case (Suc m)
  have up: "[k..<length bs] = k # [Suc k..<length bs]" using Suc(5) by (simp add: upt_conv_Cons)
  have tk: "take (Suc k) bs = take k bs @ [bs ! k]" "length (take k bs) = k" using Suc(5) by (simp_all add: take_Suc_conv_app_nth)
  obtain p where p: "proof_of t k = Some (Some p)" "block p = k" "verify_proof H p (bs ! k) (root_of H bs)"
    using proof_of_ok [OF t Suc(5) sz] by blast
  have v: "verify_block E H (rp_public r) h k (bs ! k) p" using p h Suc(4) by (simp add: verify_block_def head_for_def)
  have kk: "log_keys (Suc k)" "fits (bs ! k)" using key fit Suc(5) by (simp_all add: log_keys_def list_all_length)
  obtain r1 where r1: "rp_add_block E H S r h k (bs ! k) p = (Inr True, r1)"
    using rp_add_block_total [OF Suc(3), of "bs ! k" h p] kk v tk(2) by auto
  note a = rp_add_block_ok [OF Suc(3) _ kk(2) r1, unfolded tk(2), OF kk(1)]
  have inv1: "rp_inv E H ok content r1 (take (Suc k) bs)" "rp_public r1 = pk" using a Suc(4) by (simp_all add: tk(1))
  show ?case
  proof (cases "Suc k < length bs")
    case True
    then show ?thesis using Suc(1) [OF _ inv1] Suc(2) r1 p(1) unfolding up by (simp add: offer_def)
  next
    case False
    then have fin: "Suc k = length bs" using Suc(5) by simp
    then have "rp_head r1 = Some h" using a h unfolding tk(1) [symmetric] by (simp add: head_for_def)
    then show ?thesis using r1 p(1) inv1 fin unfolding up by (simp add: offer_def)
  qed
qed simp

end

section \<open>Persistence\<close>

lemma decode_replica_meta_encode:
  assumes "\<forall>h. hh = Some h \<longrightarrow> wf_head h"
  shows "decode_replica_meta (encode_replica_meta hh) = Some hh"
proof (cases hh)
  case (Some h)
  then have "wf_head h" using assms by simp
  then have l: "length (sh_root h) = 32" "length (sh_sig h) = 64" "of_le (le64 (sh_fork h)) = sh_fork h"
    "of_le (le64 (sh_length h)) = sh_length h"
    using of_le_le64 by (auto simp: wf_head_def)
  then show ?thesis
    using Some by (simp add: decode_replica_meta_def encode_replica_meta_def del: of_le_le_bytes)
qed (simp add: decode_replica_meta_def encode_replica_meta_def)

text \<open>Bytes behind the record are not noticed, unlike in \<open>decode_meta\<close>.\<close>

lemma decode_replica_meta_ignores_tail:
  assumes "decode_replica_meta bs = Some hh"
  shows "decode_replica_meta (bs @ junk) = Some hh"
  using assms by (auto simp: decode_replica_meta_def split: list.splits if_splits)

lemma decode_meta_rejects_tail:
  assumes "fk < 2 ^ 64" "\<forall>h. hh = Some h \<longrightarrow> wf_head h" "junk \<noteq> []"
  shows "decode_meta (encode_meta_parts fk hh None @ junk) = None"
  using assms by (cases hh) (simp_all add: decode_meta_def encode_meta_parts_def decode_head_def decode_prologue_def wf_head_def)

context byte_store
begin

lemma rp_persist_ok:
  assumes inv: "rp_inv E H ok content r cs" and key: "log_keys (length cs)"
    and fit: "fits (serialize (rp_tree r))" "fits (encode_replica_meta (rp_head r))"
    and run: "rp_persist S r = (Inr u, r')"
  shows "\<exists>s. r' = r\<lparr> rp_store := s \<rparr> \<and> ok s \<and> content s KEY_TREE = Some (serialize (rp_tree r)) \<and>
    content s KEY_META = Some (encode_replica_meta (rp_head r)) \<and> (\<forall>i < length cs. content s i = Some (cs ! i))"
proof -
  obtain s1 s2 where s: "st_put S (rp_store r) KEY_TREE (serialize (rp_tree r)) = (Inr (), s1)"
      "st_put S s1 KEY_META (encode_replica_meta (rp_head r)) = (Inr (), s2)" "r' = r\<lparr> rp_store := s2 \<rparr>"
    using run by (auto simp: rp_persist_def Let_def)
  have k: "KEY_TREE < 2 ^ 64" "KEY_META < 2 ^ 64" "KEY_TREE \<noteq> KEY_META" by (simp_all add: KEY_TREE_def KEY_META_def)
  have ok0: "ok (rp_store r)" using inv by (simp add: rp_inv_def)
  note p1 = put_law [OF ok0 k(1) fit(1) s(1)]
  note p2 = put_law [OF conjunct1 [OF p1] k(2) fit(2) s(2)]
  have "content s2 i = Some (cs ! i)" if "i < length cs" for i
    using p1 p2 log_keysD [OF key that] inv that by (simp add: rp_inv_def)
  then show ?thesis using p1 p2 s(3) k(3) by (intro exI [of _ s2]) simp
qed

lemma rp_open_ok:
  assumes inv: "rp_inv E H ok content r cs" and h: "hash32 H" "sized cs"
    and wf: "\<forall>h. rp_head r = Some h \<longrightarrow> wf_head h"
    and s: "ok s" "content s KEY_TREE = Some (serialize (rp_tree r))" "content s KEY_META = Some (encode_replica_meta (rp_head r))"
      "\<forall>i < length cs. content s i = Some (cs ! i)"
    and run: "rp_open E H S (rp_public r) cd s = x"
  shows "(\<exists>e. x = Inl (Storage e)) \<or> (\<exists>r'. x = Inr r' \<and> rp_head r' = rp_head r \<and>
    rp_inv E H ok content r' (case rp_head r of Some h \<Rightarrow> take (sh_length h) cs | None \<Rightarrow> cs))"
proof (cases "\<exists>a b. st_get S s KEY_TREE = Inr a \<and> st_get S s KEY_META = Inr b")
  case False
  then show ?thesis
    using run by (cases "st_get S s KEY_TREE"; cases "st_get S s KEY_META") (auto simp: rp_open_def)
next
  case True
  have t: "tree_ok H cs (rp_tree r)" using inv by (simp add: rp_inv_def)
  have g: "st_get S s KEY_TREE = Inr (Some (serialize (rp_tree r)))" "st_get S s KEY_META = Inr (Some (encode_replica_meta (rp_head r)))"
    using True get_law [OF s(1)] s(2,3) by metis+
  note d = deserialize_serialize [OF tree_ok_wf [OF t h]] decode_replica_meta_encode [OF wf]
  show ?thesis
  proof (cases "rp_head r")
    case None
    then have "x = Inr \<lparr> rp_public = rp_public r, rp_codec = cd, rp_store = s, rp_tree = rp_tree r, rp_head = None \<rparr>"
      using run g d by (simp add: rp_open_def Let_def)
    then show ?thesis using None t s(1,4) by (simp add: rp_inv_def)
  next
    case (Some hh)
    then have hh: "sh_length hh \<le> length cs" "sh_root hh = root_of H (take (sh_length hh) cs)" "verify_signed_head E (rp_public r) hh"
      using inv by (simp_all add: rp_inv_def)
    define tr where "tr = (if sh_length hh < tree_len (rp_tree r) then snd (Merkle.truncate (rp_tree r) (sh_length hh)) else rp_tree r)"
    have tr: "tree_ok H (take (sh_length hh) cs) tr" using truncate_ok [OF t] t hh(1) by (auto simp: tr_def)
    have "x = Inr \<lparr> rp_public = rp_public r, rp_codec = cd, rp_store = s, rp_tree = tr, rp_head = Some hh \<rparr>"
      using run g d Some hh roots_ok(3) [OF tr] tree_ok_len [OF tr]
      by (simp add: rp_open_def Let_def tr_def [symmetric] verify_signed_head_def)
    then show ?thesis using Some tr hh s(1,4) by (auto simp: rp_inv_def)
  qed
qed

end

section \<open>An example\<close>

text \<open>Heads signed with the example key, and a replica that holds some blocks and is at a given head.\<close>

definition demo_head :: "nat \<Rightarrow> bytes list \<Rightarrow> signed_head" where
  "demo_head fk bs = \<lparr> sh_fork = fk, sh_length = length bs, sh_root = root_of squeeze32 bs,
     sh_sig = sign_with toy_crypto [1] (head_message fk (length bs) (root_of squeeze32 bs)) \<rparr>"

definition demo_replica :: "bytes list \<Rightarrow> signed_head option \<Rightarrow> (bytes, memory_store) replica" where
  "demo_replica bs hh = \<lparr> rp_public = public_of toy_crypto [1], rp_codec = bytes_codec,
     rp_store = map (\<lambda>i. (i, bs ! i)) [0..<length bs], rp_tree = tree_of squeeze32 bs, rp_head = hh \<rparr>"

lemma demo_head_for:
  assumes "fk < 2 ^ 64" "length bs < 2 ^ 64"
  shows "head_for toy_crypto squeeze32 (public_of toy_crypto [1]) (demo_head fk bs) bs" "wf_head (demo_head fk bs)"
    "unforged toy_crypto (public_of toy_crypto [1]) (signed_messages squeeze32 [(demo_head fk bs, bs)]) [head_shown (demo_head fk bs)]"
  using assms sig_correct_toy hash32_squeeze32
  by (simp_all add: head_for_def demo_head_def verify_signed_head_def sig_correct_def wf_head_def tree_hash_def hash32_def
      unforged_def signed_messages_def)

lemma demo_replica_inv:
  assumes "\<forall>h. hh = Some h \<longrightarrow> (\<exists>fk < 2 ^ 64. h = demo_head fk bs)" "length bs < 2 ^ 64"
  shows "rp_inv toy_crypto squeeze32 bt_inv bt_get (demo_replica bs hh) bs"
proof -
  have "bt_inv (map (\<lambda>i. (i, bs ! i)) [0..<length bs])" by (simp add: bt_inv_def comp_def)
  moreover have "bt_get (map (\<lambda>i. (i, bs ! i)) [0..<length bs]) i = Some (bs ! i)" if "i < length bs" for i
    using that by (simp add: map_of_map_restrict)
  moreover have "verify_signed_head toy_crypto (public_of toy_crypto [1]) h" "sh_length h = length bs" "sh_root h = root_of squeeze32 bs"
    if "hh = Some h" for h
    using that assms demo_head_for(1) by (auto simp: head_for_def)
  ultimately show ?thesis by (auto simp: rp_inv_def demo_replica_def tree_of_ok)
qed

section \<open>Properties\<close>



text \<open>
  Property C9. Replication completes: a replica that holds a proper prefix of a log and is offered the remaining
  blocks with the proofs of the author's tree accepts all of them and ends with the same tree and the
  author's head as its verified head.
\<close>

theorem replication_completes:
  assumes "total_store S ok content fits" "tree_ok H bs t" "head_for E H (rp_public r) h bs"
    and "list_all fits bs" "length bs \<le> KEY_USERDATA" "2 * length bs < 2 ^ 64"
    and "rp_inv E H ok content r (take k bs)" "k < length bs"
  shows "\<exists>r'. rp_feed E H S h (map (offer t bs) [k..<length bs]) r = Some r' \<and> rp_inv E H ok content r' bs \<and>
    rp_tree r' = t \<and> rp_head r' = Some h"
  using total_store.rp_feed_ok [OF assms(1-4) _ assms(6,7) _ assms(8)] assms(2,5)
  by (auto simp: log_keys_def rp_inv_def tree_ok_iff)

theorem replication_completes_witness:
  "\<exists>r'. rp_feed toy_crypto squeeze32 demo_store (demo_head 0 [[1], [2], [3]])
       (map (offer (tree_of squeeze32 [[1], [2], [3]]) [[1], [2], [3]]) [1..<3]) (demo_replica [[1]] None) = Some r' \<and>
     rp_tree r' = tree_of squeeze32 [[1], [2], [3]]"
proof -
  let ?bs = "[[1], [2], [3]] :: bytes list" and ?r = "demo_replica [[1]] None"
  have "rp_inv toy_crypto squeeze32 bt_inv bt_get ?r [[1]]" by (rule demo_replica_inv) simp_all
  then have inv: "rp_inv toy_crypto squeeze32 bt_inv bt_get ?r (take 1 ?bs)" by simp
  have h: "head_for toy_crypto squeeze32 (rp_public ?r) (demo_head 0 ?bs) ?bs"
    using demo_head_for(1) [of 0 ?bs] by (simp add: demo_replica_def)
  have "length ?bs \<le> KEY_USERDATA" by (simp add: KEY_USERDATA_def)
  moreover have "[1..<3] = [1..<length ?bs]" by (simp add: numeral_3_eq_3)
  ultimately show ?thesis
    using replication_completes [OF demo.total_store_axioms tree_of_ok h _ _ _ inv] by (simp del: upt_Suc) blast
qed

text \<open>
  An accepted upgrade is an honest extension: the log of the new head properly extends the blocks the
  replica holds, so no history the replica has verified was rewritten.
\<close>

theorem replica_upgrade_extends:
  assumes "rp_inv E H ok content r cs" "rp_verify_upgrade E H r h p = Some True"
    and "unforged E (rp_public r) (signed_messages H hs) [head_shown h]" "wf_head h"
    and "list_all (\<lambda>(a, as). sh_fork a < 2 ^ 64 \<and> sized as) hs" "hash32 H" "sized cs" "wf_upgrade_proof p"
    and "collision_free H (tree_inputs H cs @ concat (map (tree_inputs H \<circ> snd) hs) @ upgrade_inputs H p (spec_roots H cs))"
  shows "\<exists>a as. (a, as) \<in> set hs \<and> sh_fork h = sh_fork a \<and> sh_length h = length as \<and> strict_prefix cs as"
proof -
  have t: "tree_ok H cs (rp_tree r)" using assms(1) by (simp add: rp_inv_def)
  have v: "verify_signed_head E (rp_public r) h" "verify_upgrade_proof H p (spec_roots H cs) (sh_root h)"
    using assms(2) roots_ok(1) [OF t] by (auto simp: rp_verify_upgrade_def verify_signed_head_def split: if_splits)
  obtain x xs where x: "(x, xs) \<in> set hs" "sh_fork h = sh_fork x" "sh_length h = length xs" "sh_root h = root_of H xs"
    by (rule signed_head_sound [OF assms(3) v(1) assms(4)]) (use assms(5) in \<open>auto simp: list_all_iff\<close>)
  have cf: "collision_free H (tree_inputs H cs @ tree_inputs H xs @ upgrade_inputs H p (spec_roots H cs))"
    using assms(9) by (rule collision_free_mono) (use x(1) in force)
  have "sized xs" using assms(5) x(1) by (auto simp: list_all_iff)
  from verify_upgrade_sound [OF cf assms(6,7) this assms(8)] v(2) x(4) have "strict_prefix cs xs" by simp
  then show ?thesis using x by blast
qed

theorem replica_upgrade_extends_witness:
  "let p = the (the (upgrade_proof_of (tree_of squeeze32 [[1], [2]]) 1 2))
   in rp_verify_upgrade toy_crypto squeeze32 (demo_replica [[1]] None) (demo_head 0 [[1], [2]]) p = Some True \<and>
      strict_prefix [[1]] [[1], [2 :: byte]]"
proof -
  let ?h = "demo_head 0 [[1], [2]]" and ?r = "demo_replica [[1]] None" and ?bs = "[[1], [2]] :: bytes list"
  define p where "p = the (the (upgrade_proof_of (tree_of squeeze32 ?bs) 1 2))"
  have inv: "rp_inv toy_crypto squeeze32 bt_inv bt_get ?r [[1]]" by (rule demo_replica_inv) simp_all
  have pk: "rp_public ?r = public_of toy_crypto [1]" by (simp add: demo_replica_def)
  note h = demo_head_for [of 0 ?bs, folded pk, simplified]
  have v: "rp_verify_upgrade toy_crypto squeeze32 ?r ?h p = Some True" unfolding p_def by code_simp
  have wf: "wf_upgrade_proof p" unfolding p_def by code_simp
  have cf: "collision_free squeeze32 (tree_inputs squeeze32 [[1]] @ concat (map (tree_inputs squeeze32 \<circ> snd) [(?h, ?bs)]) @
      upgrade_inputs squeeze32 p (spec_roots squeeze32 [[1]]))"
    unfolding p_def list.map comp_def snd_conv by code_simp
  have sz: "sized [[1]]" by (simp add: sized_def)
  have hs: "list_all (\<lambda>(a, as). sh_fork a < 2 ^ 64 \<and> sized as) [(?h, ?bs)]" by (simp add: demo_head_def sized_def)
  from replica_upgrade_extends [OF inv v h(3,2) hs hash32_squeeze32 sz wf cf] v show ?thesis by (simp add: p_def)
qed

text \<open>
  Property C23. Following a reorg: only a head of a strictly higher fork is followed, and the blocks kept are a
  prefix of the log that head was signed for; a claimed ancestor beyond the shared history is refused.
\<close>

theorem replica_reorg_keeps_shared_prefix:
  assumes "byte_store S ok content fits" "rp_inv E H ok content r cs"
    and "rp_reorg E H r h n p = (Inr True :: ('err core_error, bool) result, r')"
    and "unforged E (rp_public r) (signed_messages H hs) [head_shown h]" "wf_head h"
    and "list_all (\<lambda>(a, as). sh_fork a < 2 ^ 64 \<and> sized as) hs" "hash32 H" "sized cs"
    and "\<forall>q. p = Some q \<longrightarrow> wf_upgrade_proof q"
    and "collision_free H (tree_inputs H (take n cs) @ concat (map (tree_inputs H \<circ> snd) hs) @
           (case p of Some q \<Rightarrow> upgrade_inputs H q (spec_roots H (take n cs)) | None \<Rightarrow> []))"
  shows "\<exists>a as. (a, as) \<in> set hs \<and> sh_fork h = sh_fork a \<and> sh_length h = length as \<and>
    (\<exists>old. rp_head r = Some old \<and> sh_fork old < sh_fork h) \<and>
    prefix (take n cs) as \<and> rp_inv E H ok content r' (take n cs) \<and>
    rp_head r' = (if n = length as then Some h else None)"
proof -
  note g = byte_store.rp_reorg_ok [OF assms(1-3)]
  have t: "tree_ok H cs (rp_tree r)" using assms(2) by (simp add: rp_inv_def)
  have v: "verify_signed_head E (rp_public r) h" "\<exists>old. rp_head r = Some old \<and> sh_fork old < sh_fork h"
    "n = sh_length h \<Longrightarrow> sh_root h = root_of H (take n cs)"
    "n \<noteq> sh_length h \<Longrightarrow> n \<noteq> 0 \<Longrightarrow> \<exists>q. p = Some q \<and> verify_upgrade_proof H q (spec_roots H (take n cs)) (sh_root h)"
    using g prefix_roots_ok [OF t, of n] prefix_root_hash_ok [OF t, of n]
    by (auto simp: rp_verify_reorg_def verify_signed_head_def split: option.splits if_splits)
  obtain x xs where x: "(x, xs) \<in> set hs" "sh_fork h = sh_fork x" "sh_length h = length xs" "sh_root h = root_of H xs"
    by (rule signed_head_sound [OF assms(4) v(1) assms(5)]) (use assms(6) in \<open>auto simp: list_all_iff\<close>)
  have sz: "sized xs" "sized (take n cs)" using assms(6,8) x(1) by (auto simp: list_all_iff)
  have "prefix (take n cs) xs"
  proof (cases "n = sh_length h")
    case True
    have cf: "collision_free H (tree_inputs H (take n cs) @ tree_inputs H xs)"
      using assms(10) by (rule collision_free_mono) (use x(1) in force)
    show ?thesis using head_commit [OF cf assms(7) sz(2,1), of n] v(3) True x(3,4) g by simp
  next
    case False
    show ?thesis
    proof (cases "n = 0")
      case False
      then obtain q where q: "p = Some q" "verify_upgrade_proof H q (spec_roots H (take n cs)) (sh_root h)"
        using v(4) \<open>n \<noteq> sh_length h\<close> by blast
      have cf: "collision_free H (tree_inputs H (take n cs) @ tree_inputs H xs @ upgrade_inputs H q (spec_roots H (take n cs)))"
        using assms(10) by (rule collision_free_mono) (use x(1) q(1) in force)
      show ?thesis using verify_upgrade_sound [OF cf assms(7) sz(2,1)] assms(9) q x(4) by (simp add: strict_prefix_def)
    qed simp
  qed
  then show ?thesis using g x v(2) by auto
qed

theorem replica_reorg_keeps_shared_prefix_witness:
  "let p = the (the (upgrade_proof_of (tree_of squeeze32 [[1], [2]]) 1 2));
       r = demo_replica [[1], [3]] (Some (demo_head 0 [[1], [3]]))
   in \<exists>r'. rp_reorg toy_crypto squeeze32 r (demo_head 2 [[1], [2]]) 1 (Some p) = (Inr True :: (unit core_error, bool) result, r') \<and>
      rp_inv toy_crypto squeeze32 bt_inv bt_get r' [[1]]"
proof -
  let ?h = "demo_head 2 [[1], [2]]" and ?bs = "[[1], [2]] :: bytes list" and ?cs = "[[1], [3]] :: bytes list"
  let ?r = "demo_replica ?cs (Some (demo_head 0 ?cs))"
  define p where "p = the (the (upgrade_proof_of (tree_of squeeze32 ?bs) 1 2))"
  have inv: "rp_inv toy_crypto squeeze32 bt_inv bt_get ?r ?cs" by (rule demo_replica_inv) (auto intro: exI [of _ 0])
  have pk: "rp_public ?r = public_of toy_crypto [1]" by (simp add: demo_replica_def)
  note h = demo_head_for [of 2 ?bs, folded pk, simplified]
  have "rp_verify_reorg toy_crypto squeeze32 ?r ?h 1 (Some p)" unfolding p_def by code_simp
  moreover have "tree_len (snd (Merkle.truncate (rp_tree ?r) 1)) = 1" by code_simp
  ultimately obtain r' where r': "rp_reorg toy_crypto squeeze32 ?r ?h 1 (Some p) = (Inr True :: (unit core_error, bool) result, r')"
    by (simp add: rp_reorg_def demo_head_def)
  have wf: "\<forall>q. Some p = Some q \<longrightarrow> wf_upgrade_proof q" unfolding p_def option.inject by (auto intro: refl) code_simp
  have cf: "collision_free squeeze32 (tree_inputs squeeze32 (take 1 ?cs) @ concat (map (tree_inputs squeeze32 \<circ> snd) [(?h, ?bs)]) @
      (case Some p of Some q \<Rightarrow> upgrade_inputs squeeze32 q (spec_roots squeeze32 (take 1 ?cs)) | None \<Rightarrow> []))"
    unfolding p_def list.map comp_def snd_conv by code_simp
  have sz: "sized ?cs" by (simp add: sized_def)
  have hs: "list_all (\<lambda>(a, as). sh_fork a < 2 ^ 64 \<and> sized as) [(?h, ?bs)]" by (simp add: demo_head_def sized_def)
  from replica_reorg_keeps_shared_prefix [OF demo.byte_store_axioms inv r' h(3,2) hs hash32_squeeze32 sz wf cf] r'
  show ?thesis by (auto simp: p_def)
qed

text \<open>
  A persisted replica reopens at its verified head: the blocks up to that head are kept, later ones are
  dropped to be fetched again, and the head is checked anew; without a verified head all blocks stay.
  Only a backend error can prevent it.
\<close>

theorem replica_reopens_at_head:
  assumes "byte_store S ok content fits" "rp_inv E H ok content r cs" "hash32 H" "sized cs"
    and "\<forall>h. rp_head r = Some h \<longrightarrow> wf_head h"
    and "fits (serialize (rp_tree r))" "fits (encode_replica_meta (rp_head r))" "rp_persist S r = (Inr (), r')"
  shows "(\<exists>e. rp_open E H S (rp_public r) cd (rp_store r') = Inl (Storage e)) \<or>
    (\<exists>r''. rp_open E H S (rp_public r) cd (rp_store r') = Inr r'' \<and> rp_head r'' = rp_head r \<and>
       rp_inv E H ok content r'' (case rp_head r of Some h \<Rightarrow> take (sh_length h) cs | None \<Rightarrow> cs))"
proof -
  have "log_keys (length cs)" using assms(4) by (simp add: sized_def log_keys_def KEY_USERDATA_def)
  from byte_store.rp_persist_ok [OF assms(1,2) this assms(6-8)] obtain s where
    "r' = r\<lparr> rp_store := s \<rparr>" "ok s" "content s KEY_TREE = Some (serialize (rp_tree r))"
    "content s KEY_META = Some (encode_replica_meta (rp_head r))" "\<forall>i < length cs. content s i = Some (cs ! i)" by blast
  then show ?thesis using byte_store.rp_open_ok [OF assms(1-5), of s cd] by simp
qed

theorem replica_reopens_at_head_witness:
  "\<exists>r' r''. rp_persist demo_store (demo_replica [[1]] (Some (demo_head 0 [[1]]))) = (Inr (), r') \<and>
     rp_open toy_crypto squeeze32 demo_store (public_of toy_crypto [1]) bytes_codec (rp_store r') = Inr r'' \<and>
     rp_inv toy_crypto squeeze32 bt_inv bt_get r'' [[1]] \<and> rp_head r'' = Some (demo_head 0 [[1]])"
proof -
  let ?r = "demo_replica [[1]] (Some (demo_head 0 [[1]]))"
  have inv: "rp_inv toy_crypto squeeze32 bt_inv bt_get ?r [[1]]" by (rule demo_replica_inv) (auto intro: exI [of _ 0])
  have r: "rp_public ?r = public_of toy_crypto [1]" "rp_head ?r = Some (demo_head 0 [[1]])" by (simp_all add: demo_replica_def)
  obtain r' where p: "rp_persist demo_store ?r = (Inr (), r')"
    by (auto simp: rp_persist_def Let_def demo_store_def mem_store_def map_fst_def)
  have ok: "bt_inv (rp_store r')"
    using p inv by (auto simp: rp_persist_def Let_def demo_store_def mem_store_def map_fst_def rp_inv_def)
  have wf: "\<forall>h. rp_head ?r = Some h \<longrightarrow> wf_head h" using demo_head_for(2) [of 0 "[[1]]"] r(2) by simp
  have sz: "sized [[1]]" by (simp add: sized_def)
  have "rp_open toy_crypto squeeze32 demo_store (rp_public ?r) bytes_codec (rp_store r') \<noteq> Inl (Storage e)" for e
    using ok by (auto simp: rp_open_def demo.get_eq Let_def split: option.splits if_splits)
  with replica_reopens_at_head [OF demo.byte_store_axioms inv hash32_squeeze32 sz wf _ _ p, of bytes_codec] p r
  show ?thesis by (auto simp: demo_head_def)
qed

end
