(* ===== verification/Manifest_Core.thy ===== *)
theory Manifest_Core
  imports Replica
begin

text \<open>
  The log whose authority is a multi-signer manifest (\<open>crates/hypercore/src/manifest_core.rs\<close>): the
  head carries the signatures of all held secrets that the manifest declares, and a replica accepts a
  block only against a head that the manifest authorises.
\<close>

section \<open>The log\<close>

record manifest_head =
  mh_length :: nat
  mh_root :: bytes
  mh_sigs :: "partial_sig list"

record ('a, 's) manifest_core =
  mc_manifest :: manifest
  mc_signers :: "bytes list"
  mc_codec :: "'a codec"
  mc_store :: 's
  mc_tree :: merkle_tree
  mc_head :: "manifest_head option"

definition mc_new :: "manifest \<Rightarrow> bytes list \<Rightarrow> 'a codec \<Rightarrow> 's \<Rightarrow> ('a, 's) manifest_core" where
  "mc_new m sks cd s = \<lparr> mc_manifest = m, mc_signers = sks, mc_codec = cd, mc_store = s,
     mc_tree = empty_tree, mc_head = None \<rparr>"

definition mc_key :: "hashfun \<Rightarrow> ('a, 's) manifest_core \<Rightarrow> bytes" where
  "mc_key H c = manifest_hash H (mc_manifest c)"

text \<open>\<open>dedup_by_key\<close>: of consecutive elements with equal keys the first stays.\<close>

fun dedup_by_key :: "('a \<Rightarrow> 'k) \<Rightarrow> 'a list \<Rightarrow> 'a list" where
  "dedup_by_key k (x # y # xs) = (if k x = k y then dedup_by_key k (x # xs) else x # dedup_by_key k (y # xs))"
| "dedup_by_key k xs = xs"

definition head_sigs :: "crypto \<Rightarrow> hashfun \<Rightarrow> manifest \<Rightarrow> bytes list \<Rightarrow> nat \<Rightarrow> bytes \<Rightarrow> partial_sig list" where
  "head_sigs E H m sks len root =
     dedup_by_key ps_signer (sort_key ps_signer (List.map_filter (\<lambda>sk. manifest_sign E H m sk len root) sks))"

definition mc_resign :: "crypto \<Rightarrow> hashfun \<Rightarrow> ('a, 's) manifest_core \<Rightarrow> ('a, 's) manifest_core option" where
  "mc_resign E H c =
     (let len = tree_len (mc_tree c)
      in case root_hash H (mc_tree c) of
           None \<Rightarrow> None
         | Some root \<Rightarrow>
             Some (c\<lparr> mc_head := Some \<lparr> mh_length = len, mh_root = root,
                      mh_sigs = head_sigs E H (mc_manifest c) (mc_signers c) len root \<rparr> \<rparr>))"

definition mc_append :: "crypto \<Rightarrow> hashfun \<Rightarrow> ('e, 's) store \<Rightarrow> ('a, 's) manifest_core \<Rightarrow> 'a \<Rightarrow>
    ('e core_error, nat, ('a, 's) manifest_core) outcome" where
  "mc_append E H S c v =
     (let bytes = encode (mc_codec c) v; i = tree_len (mc_tree c)
      in case st_put S (mc_store c) i bytes of
           (Inl e, s) \<Rightarrow> (Inl (Storage e), c\<lparr> mc_store := s \<rparr>)
         | (Inr _, s) \<Rightarrow>
             let c = c\<lparr> mc_store := s, mc_tree := snd (append H (mc_tree c) bytes) \<rparr>
             in case mc_resign E H c of None \<Rightarrow> (Inl Panic, c) | Some c \<Rightarrow> (Inr i, c))"

definition mc_block :: "('e, 's) store \<Rightarrow> ('a, 's) manifest_core \<Rightarrow> nat \<Rightarrow> ('e core_error, bytes option) result" where
  "mc_block S c i =
     (if tree_len (mc_tree c) \<le> i then Inr None
      else bind_res (core_get S (mc_store c) i) (\<lambda>x.
             case x of None \<Rightarrow> Inl Corrupt | Some bytes \<Rightarrow> Inr (Some bytes)))"

definition mc_get :: "('e, 's) store \<Rightarrow> ('a, 's) manifest_core \<Rightarrow> nat \<Rightarrow> ('e core_error, 'a option) result" where
  "mc_get S c i =
     bind_res (mc_block S c i) (\<lambda>x.
       case x of
         Some bytes \<Rightarrow> bind_res (map_err CodecFailed (decode (mc_codec c) bytes)) (\<lambda>v. Inr (Some v))
       | None \<Rightarrow> Inr None)"

definition mc_proof :: "('a, 's) manifest_core \<Rightarrow> nat \<Rightarrow> inclusion_proof option option" where
  "mc_proof c i = proof_of (mc_tree c) i"

definition mc_verify_head :: "crypto \<Rightarrow> hashfun \<Rightarrow> ('a, 's) manifest_core \<Rightarrow> bool option" where
  "mc_verify_head E H c =
     (case mc_head c of
        None \<Rightarrow> Some (tree_len (mc_tree c) = 0)
      | Some h \<Rightarrow>
          if mh_length h = tree_len (mc_tree c)
          then map_option (\<lambda>root. mh_root h = root \<and> manifest_verify E H (mc_manifest c) (mh_length h) (mh_root h) (mh_sigs h))
                 (root_hash H (mc_tree c))
          else Some False)"

definition verify_manifest_block :: "crypto \<Rightarrow> hashfun \<Rightarrow> manifest \<Rightarrow> manifest_head \<Rightarrow> nat \<Rightarrow> bytes \<Rightarrow> inclusion_proof \<Rightarrow> bool" where
  "verify_manifest_block E H m h i data p \<longleftrightarrow>
     manifest_verify E H m (mh_length h) (mh_root h) (mh_sigs h) \<and> block p = i \<and> verify_proof H p data (mh_root h)"

section \<open>The replica\<close>

record ('a, 's) manifest_replica =
  mr_manifest :: manifest
  mr_codec :: "'a codec"
  mr_store :: 's
  mr_tree :: merkle_tree
  mr_head :: "manifest_head option"

definition mr_new :: "manifest \<Rightarrow> 'a codec \<Rightarrow> 's \<Rightarrow> ('a, 's) manifest_replica" where
  "mr_new m cd s = \<lparr> mr_manifest = m, mr_codec = cd, mr_store = s, mr_tree = empty_tree, mr_head = None \<rparr>"

definition mr_add_block :: "crypto \<Rightarrow> hashfun \<Rightarrow> ('e, 's) store \<Rightarrow> ('a, 's) manifest_replica \<Rightarrow> manifest_head \<Rightarrow> nat \<Rightarrow>
    bytes \<Rightarrow> inclusion_proof \<Rightarrow> ('e core_error, bool, ('a, 's) manifest_replica) outcome" where
  "mr_add_block E H S r h i enc p =
     (if i \<noteq> tree_len (mr_tree r) then (Inr False, r)
      else if \<not> verify_manifest_block E H (mr_manifest r) h i enc p then (Inr False, r)
      else case st_put S (mr_store r) i enc of
             (Inl e, s) \<Rightarrow> (Inl (Storage e), r\<lparr> mr_store := s \<rparr>)
           | (Inr _, s) \<Rightarrow>
               let r = r\<lparr> mr_store := s, mr_tree := snd (append H (mr_tree r) enc) \<rparr>
               in if tree_len (mr_tree r) = mh_length h
                  then case root_hash H (mr_tree r) of
                         None \<Rightarrow> (Inl Panic, r)
                       | Some root \<Rightarrow> (Inr True, if root = mh_root h then r\<lparr> mr_head := Some h \<rparr> else r)
                  else (Inr True, r))"

definition mr_get :: "('e, 's) store \<Rightarrow> ('a, 's) manifest_replica \<Rightarrow> nat \<Rightarrow> ('e core_error, 'a option) result" where
  "mr_get S r i =
     (if tree_len (mr_tree r) \<le> i then Inr None
      else bind_res (core_get S (mr_store r) i) (\<lambda>x.
             case x of
               None \<Rightarrow> Inl Corrupt
             | Some bytes \<Rightarrow> bind_res (map_err CodecFailed (decode (mr_codec r) bytes)) (\<lambda>v. Inr (Some v))))"

section \<open>The signatures of a head\<close>

lemma dedup_sorted:
  assumes "sorted (map k xs)"
  shows "distinct (map k (dedup_by_key k xs)) \<and> sorted (map k (dedup_by_key k xs)) \<and>
    k ` set (dedup_by_key k xs) = k ` set xs \<and> set (dedup_by_key k xs) \<subseteq> set xs"
  using assms
proof (induction k xs rule: dedup_by_key.induct)
  case (1 k x y xs)
  show ?case
  proof (cases "k x = k y")
    case True
    then show ?thesis using 1(1) [OF True] 1(3) by auto
  next
    case False
    have d: "distinct (map k (dedup_by_key k (y # xs))) \<and> sorted (map k (dedup_by_key k (y # xs))) \<and>
      k ` set (dedup_by_key k (y # xs)) = k ` set (y # xs) \<and> set (dedup_by_key k (y # xs)) \<subseteq> set (y # xs)"
      using 1(2) [OF False] 1(3) by simp
    have lt: "k x < z" if "z \<in> k ` set (dedup_by_key k (y # xs))" for z
      using that d 1(3) False by (force simp: less_le)
    have "k x \<notin> set (map k (dedup_by_key k (y # xs)))" using lt by fastforce
    moreover have "\<forall>z \<in> set (map k (dedup_by_key k (y # xs))). k x \<le> z" using lt by (auto intro: less_imp_le)
    ultimately show ?thesis using d False by auto
  qed
qed auto

definition held_positions :: "crypto \<Rightarrow> manifest \<Rightarrow> bytes list \<Rightarrow> nat set" where
  "held_positions E m sks = {i. \<exists>sk \<in> set sks. position (\<lambda>s. signer_key s = public_of E sk) (signers m) = Some i}"

lemma head_sigs_ok:
  assumes "sig_correct E"
  shows "distinct (map ps_signer (head_sigs E H m sks len root)) \<and> ps_signer ` set (head_sigs E H m sks len root) = held_positions E m sks \<and>
    (\<forall>ps \<in> set (head_sigs E H m sks len root). sig_valid E m (signable H m len root) ps)"
proof -
  let ?raw = "List.map_filter (\<lambda>sk. manifest_sign E H m sk len root) sks"
  have raw: "set ?raw = {ps. \<exists>sk \<in> set sks. manifest_sign E H m sk len root = Some ps}"
    by (force simp: List.map_filter_def)
  have "ps_signer ` set ?raw = held_positions E m sks"
    unfolding raw held_positions_def by (force simp: manifest_sign_def split: option.splits)
  moreover have "sig_valid E m (signable H m len root) ps" if "ps \<in> set ?raw" for ps
    using that assms unfolding raw
    by (auto simp: manifest_sign_def sig_valid_def sig_correct_def position_Some split: option.splits)
  ultimately show ?thesis
    using dedup_sorted [of ps_signer "sort_key ps_signer ?raw"] unfolding head_sigs_def by (auto simp: subset_iff)
qed

lemma head_sigs_verify:
  assumes "sig_correct E" "m_prologue m = None"
  shows "manifest_verify E H m len root (head_sigs E H m sks len root) \<longleftrightarrow>
    0 < quorum m \<and> quorum m \<le> card (held_positions E m sks)"
  using head_sigs_ok [OF assms(1), of H m sks len root] assms(2)
  by (auto simp: manifest_verify_def quorum_verify_iff)

definition mc_inv :: "('s \<Rightarrow> bool) \<Rightarrow> ('s \<Rightarrow> nat \<Rightarrow> bytes option) \<Rightarrow> hashfun \<Rightarrow> ('a, 's) manifest_core \<Rightarrow> bytes list \<Rightarrow> bool" where
  "mc_inv ok content H c bs \<longleftrightarrow> tree_ok H bs (mc_tree c) \<and> ok (mc_store c) \<and>
     (\<forall>i < length bs. content (mc_store c) i = Some (bs ! i))"

lemma mc_inv_new: "ok s \<Longrightarrow> mc_inv ok content H (mc_new m sks cd s) []"
  by (simp add: mc_inv_def mc_new_def tree_ok_empty)

context byte_store
begin

lemma mc_append_ok:
  assumes inv: "mc_inv ok content H c bs" and key: "log_keys (Suc (length bs))" and fit: "fits (encode (mc_codec c) v)"
    and run: "mc_append E H S c v = (Inr i, c')"
  shows "i = length bs \<and> mc_inv ok content H c' (bs @ [encode (mc_codec c) v]) \<and> mc_manifest c' = mc_manifest c \<and>
    mc_signers c' = mc_signers c \<and> mc_codec c' = mc_codec c \<and>
    mc_head c' = Some \<lparr> mh_length = Suc (length bs), mh_root = root_of H (bs @ [encode (mc_codec c) v]),
      mh_sigs = head_sigs E H (mc_manifest c) (mc_signers c) (Suc (length bs)) (root_of H (bs @ [encode (mc_codec c) v])) \<rparr>"
proof -
  let ?b = "encode (mc_codec c) v"
  have t: "tree_ok H bs (mc_tree c)" "ok (mc_store c)" using inv by (simp_all add: mc_inv_def)
  have t': "tree_ok H (bs @ [?b]) (snd (append H (mc_tree c) ?b))" using append_ok [OF t(1)] by simp
  obtain s where s: "st_put S (mc_store c) (length bs) ?b = (Inr (), s)"
    and c': "mc_resign E H (c\<lparr> mc_store := s, mc_tree := snd (append H (mc_tree c) ?b) \<rparr>) = Some c'" and i: "i = length bs"
    using run t(1) by (auto simp: mc_append_def Let_def split: prod.splits sum.splits option.splits)
  have "length bs < 2 ^ 64" using log_keysD [OF key] by simp
  from put_law [OF t(2) this fit s] have "ok s" "content s = (content (mc_store c))(length bs \<mapsto> ?b)" by simp_all
  then show ?thesis
    using c' i inv t' tree_ok_len [OF t'] roots_ok(3) [OF t'] by (auto simp: mc_resign_def Let_def mc_inv_def less_Suc_eq nth_append)
qed

end

section \<open>An example\<close>

definition demo_manifest :: manifest where
  "demo_manifest = \<lparr> quorum = 2, signers = map (\<lambda>b. new_signer (replicate 32 b)) [1, 2, 3], m_prologue = None \<rparr>"

definition demo_secrets :: "bytes list" where
  "demo_secrets = [replicate 32 3, replicate 32 1, replicate 32 3]"

lemma demo_held: "held_positions toy_crypto demo_manifest demo_secrets = {0, 2}"
proof -
  have "position (\<lambda>s. signer_key s = public_of toy_crypto (replicate 32 3)) (signers demo_manifest) = Some 2"
    "position (\<lambda>s. signer_key s = public_of toy_crypto (replicate 32 1)) (signers demo_manifest) = Some 0"
    by (simp_all add: demo_manifest_def toy_crypto_def new_signer_def replicate_eq_replicate)
  then show ?thesis by (auto simp: held_positions_def demo_secrets_def)
qed

section \<open>Properties\<close>

text \<open>
  A head of a multi-signer log is authorised exactly when enough signers take part: after an append the
  blocks are the old ones and the new one, and the log's own head verifies if and only if the held
  secrets cover at least \<open>quorum\<close> different declared signers, however often a secret is repeated.
\<close>

theorem manifest_append_authorised:
  assumes "byte_store S ok content fits" "sig_correct E" "mc_inv ok content H c bs"
    and "length bs < KEY_USERDATA" "fits (encode (mc_codec c) v)" "m_prologue (mc_manifest c) = None"
    and "mc_append E H S c v = (Inr i, c')"
  shows "i = length bs \<and> mc_inv ok content H c' (bs @ [encode (mc_codec c) v]) \<and>
    (mc_verify_head E H c' = Some True \<longleftrightarrow>
       0 < quorum (mc_manifest c) \<and> quorum (mc_manifest c) \<le> card (held_positions E (mc_manifest c) (mc_signers c)))"
proof -
  have "log_keys (Suc (length bs))" using assms(4) by (simp add: log_keys_def)
  note a = byte_store.mc_append_ok [OF assms(1,3) this assms(5,7)]
  then have t: "tree_ok H (bs @ [encode (mc_codec c) v]) (mc_tree c')" by (simp add: mc_inv_def)
  show ?thesis
    using a roots_ok(3) [OF t] tree_ok_len [OF t] head_sigs_verify [OF assms(2,6)] by (simp add: mc_verify_head_def)
qed

theorem manifest_append_authorised_witness:
  "\<exists>c'. mc_append toy_crypto squeeze32 demo_store (mc_new demo_manifest demo_secrets bytes_codec []) [7] = (Inr 0, c') \<and>
        mc_verify_head toy_crypto squeeze32 c' = Some True"
proof -
  let ?c = "mc_new demo_manifest demo_secrets bytes_codec [] :: (bytes, memory_store) manifest_core"
  have inv: "mc_inv bt_inv bt_get squeeze32 ?c []" by (rule mc_inv_new) simp
  have "tree_ok squeeze32 [encode bytes_codec [7]] (snd (append squeeze32 empty_tree (encode bytes_codec [7])))"
    using append_ok [OF tree_ok_empty, of squeeze32 "encode bytes_codec [7]"] by simp
  from roots_ok(3) [OF this] obtain c' where
    c': "mc_append toy_crypto squeeze32 demo_store ?c [7] = (Inr 0, c')"
    using tree_ok_len [OF tree_ok_empty]
    by (auto simp: mc_append_def mc_new_def mc_resign_def Let_def demo_store_def mem_store_def)
  have m: "mc_manifest ?c = demo_manifest" "mc_signers ?c = demo_secrets" "m_prologue demo_manifest = None" "quorum demo_manifest = 2"
    by (simp_all add: mc_new_def demo_manifest_def)
  have "length ([] :: bytes list) < KEY_USERDATA" by (simp add: KEY_USERDATA_def)
  from manifest_append_authorised [OF demo.byte_store_axioms sig_correct_toy inv this _ _ c'] c'
  show ?thesis by (simp add: m demo_held)
qed



end
