(* ===== verification/Btree.thy ===== *)
theory Btree
  imports Hypercore
begin

text \<open>
  The copy-on-write B-tree of crate \<open>hyperbee\<close> (\<open>crates/hyperbee/src/lib.rs\<close>, \<open>btree.rs\<close>): nodes and
  their encoding, and the algorithms on nodes that live in an append-only log. The two methods of
  \<open>Hyperbee\<close> that touch the log, \<open>node\<close> and \<open>append_node\<close>, are the record \<open>node_io\<close>; theory
  \<open>Hyperbee\<close> supplies them. A child pointer is a block number read from the log, so a recursion over it
  may not end on a corrupt log: such functions are partial, \<open>None\<close> is not returning.
\<close>

section \<open>Nodes and their encoding\<close>

abbreviation MAX_CHILDREN :: nat where "MAX_CHILDREN \<equiv> 9"

abbreviation MIN_KEYS :: nat where "MIN_KEYS \<equiv> 4"

type_synonym entry = "bytes \<times> bytes"

record bnode =
  bn_entries :: "entry list"
  bn_children :: "nat list"

definition is_leaf :: "bnode \<Rightarrow> bool" where
  "is_leaf n \<longleftrightarrow> bn_children n = []"

definition encode_entry :: "bytes \<Rightarrow> entry \<Rightarrow> bytes" where
  "encode_entry out kv =
     (let out = varint_write out (word_of_nat (length (fst kv))) @ fst kv
      in varint_write out (word_of_nat (length (snd kv))) @ snd kv)"

definition encode_node :: "bnode \<Rightarrow> bytes \<Rightarrow> bytes" where
  "encode_node n out =
     (let out = varint_write out (word_of_nat (length (bn_entries n)));
          out = foldl encode_entry out (bn_entries n);
          out = varint_write out (word_of_nat (length (bn_children n)))
      in foldl (\<lambda>out c. varint_write out (word_of_nat c)) out (bn_children n))"

text \<open>The closure \<open>take\<close> of \<open>decode\<close>.\<close>

definition take_bytes :: "nat \<Rightarrow> bytes \<Rightarrow> (codec_error, bytes \<times> bytes) result" where
  "take_bytes n b = (if length b < n then Inl Eof else Inr (take n b, drop n b))"

fun decode_kvs :: "nat \<Rightarrow> bytes \<Rightarrow> (codec_error, entry list \<times> bytes) result" where
  "decode_kvs 0 b = Inr ([], b)"
| "decode_kvs (Suc n) b =
     bind_res (varint_read b) (\<lambda>(kl, b).
     bind_res (take_bytes (unat kl) b) (\<lambda>(k, b).
     bind_res (varint_read b) (\<lambda>(vl, b).
     bind_res (take_bytes (unat vl) b) (\<lambda>(v, b).
     bind_res (decode_kvs n b) (\<lambda>(kvs, b). Inr ((k, v) # kvs, b))))))"

fun decode_seqs :: "nat \<Rightarrow> bytes \<Rightarrow> (codec_error, nat list \<times> bytes) result" where
  "decode_seqs 0 b = Inr ([], b)"
| "decode_seqs (Suc n) b =
     bind_res (varint_read b) (\<lambda>(c, b).
     bind_res (decode_seqs n b) (\<lambda>(cs, b). Inr (unat c # cs, b)))"

definition decode_node :: "bytes \<Rightarrow> (codec_error, bnode) result" where
  "decode_node bytes =
     bind_res (varint_read bytes) (\<lambda>(ne, b).
     bind_res (with_capacity 48 (unat ne)) (\<lambda>_.
     bind_res (decode_kvs (unat ne) b) (\<lambda>(kvs, b).
     bind_res (varint_read b) (\<lambda>(nc, b).
     bind_res (with_capacity 8 (unat nc)) (\<lambda>_.
     bind_res (decode_seqs (unat nc) b) (\<lambda>(cs, b).
       Inr \<lparr> bn_entries = kvs, bn_children = cs \<rparr>))))))"

definition node_codec :: "bnode codec" where
  "node_codec = \<lparr> encode_into = encode_node, decode = decode_node \<rparr>"

section \<open>Slices\<close>

text \<open>
  \<open>slice::binary_search_by\<close> of the standard library, on the keys of the entries: \<open>Inr i\<close> is \<open>Ok(i)\<close>,
  \<open>Inl i\<close> is \<open>Err(i)\<close>.
\<close>

fun bsearch_loop :: "entry list \<Rightarrow> bytes \<Rightarrow> nat \<Rightarrow> nat \<Rightarrow> nat" where
  "bsearch_loop es key lo sz =
     (if sz \<le> 1 then lo
      else let half = sz div 2; mid = lo + half
           in bsearch_loop es key (if key < fst (es ! mid) then lo else mid) (sz - half))"

declare bsearch_loop.simps [simp del]

definition bsearch :: "entry list \<Rightarrow> bytes \<Rightarrow> (nat, nat) result" where
  "bsearch es key =
     (if es = [] then Inl 0
      else let lo = bsearch_loop es key 0 (length es); k = fst (es ! lo)
           in if k = key then Inr lo else Inl (lo + (if k < key then 1 else 0)))"

text \<open>\<open>Vec::insert\<close> and \<open>Vec::remove\<close> inside the vector, and indexing, which panics outside it.\<close>

definition insert_at :: "nat \<Rightarrow> 'a \<Rightarrow> 'a list \<Rightarrow> 'a list" where
  "insert_at i x xs = take i xs @ x # drop i xs"

definition remove_at :: "nat \<Rightarrow> 'a list \<Rightarrow> 'a list" where
  "remove_at i xs = take i xs @ drop (Suc i) xs"

definition at_index :: "'a list \<Rightarrow> nat \<Rightarrow> ('e core_error, 'a) result" where
  "at_index xs i = (if i < length xs then Inr (xs ! i) else Inl Panic)"

section \<open>Access to the log\<close>

record ('e, 'b) node_io =
  io_node :: "'b \<Rightarrow> nat \<Rightarrow> ('e core_error, bnode) result"
  io_append :: "'b \<Rightarrow> bnode \<Rightarrow> ('e core_error, nat, 'b) outcome"

text \<open>The \<open>?\<close> operator for functions that may not return: on reads, and on calls that change the log.\<close>

definition then_read :: "('e, 'a) result option \<Rightarrow> ('a \<Rightarrow> ('e, 'c) result option) \<Rightarrow> ('e, 'c) result option" where
  "then_read m f = Option.bind m (\<lambda>r. case r of Inl e \<Rightarrow> Some (Inl e) | Inr x \<Rightarrow> f x)"

definition then_do :: "('e, 'a, 'b) outcome option \<Rightarrow> ('a \<Rightarrow> 'b \<Rightarrow> ('e, 'c, 'b) outcome option) \<Rightarrow>
    ('e, 'c, 'b) outcome option" where
  "then_do m f = Option.bind m (\<lambda>(r, b). case r of Inl e \<Rightarrow> Some (Inl e, b) | Inr x \<Rightarrow> f x b)"

text \<open>A read-only call in a method that changes the log.\<close>

abbreviation look :: "('e, 'a) result \<Rightarrow> 'b \<Rightarrow> ('e, 'a, 'b) outcome option" where
  "look r b \<equiv> Some (r, b)"

abbreviation put_node :: "('e, 'b) node_io \<Rightarrow> bnode \<Rightarrow> 'b \<Rightarrow> ('e core_error, nat, 'b) outcome option" where
  "put_node io n b \<equiv> Some (io_append io b n)"

lemma then_read_mono [partial_function_mono]:
  assumes "mono_option g" "\<And>x. mono_option (\<lambda>f. h x f)"
  shows "mono_option (\<lambda>f. then_read (g f) (\<lambda>x. h x f))"
proof -
  have "mono_option (\<lambda>f. case r of Inl e \<Rightarrow> Some (Inl e) | Inr x \<Rightarrow> h x f)" for r
    using assms(2) by (cases r) (simp_all add: option.const_mono)
  then show ?thesis unfolding then_read_def using assms(1) by (intro bind_mono)
qed

lemma then_do_mono [partial_function_mono]:
  assumes "mono_option g" "\<And>x b. mono_option (\<lambda>f. h x b f)"
  shows "mono_option (\<lambda>f. then_do (g f) (\<lambda>x b. h x b f))"
proof -
  have "mono_option (\<lambda>f. case y of (r, b) \<Rightarrow> case r of Inl e \<Rightarrow> Some (Inl e, b) | Inr x \<Rightarrow> h x b f)" for y
    using assms(2) by (cases y; cases "fst y") (simp_all add: option.const_mono)
  then show ?thesis unfolding then_do_def using assms(1) by (intro bind_mono)
qed

section \<open>Reading\<close>

partial_function (option) get_from :: "('e, 'b) node_io \<Rightarrow> 'b \<Rightarrow> nat \<Rightarrow> bytes \<Rightarrow> ('e core_error, bytes option) result option" where
  "get_from io b seq key =
     then_read (Some (io_node io b seq)) (\<lambda>n.
       case bsearch (bn_entries n) key of
         Inr i \<Rightarrow> Some (Inr (Some (snd (bn_entries n ! i))))
       | Inl i \<Rightarrow> if is_leaf n then Some (Inr None)
                  else then_read (Some (at_index (bn_children n) i)) (\<lambda>c. get_from io b c key))"

text \<open>
  The loop of \<open>collect\<close> over an internal node: child, entry, child, and so on; \<open>visit\<close> is the recursive
  call. A node with too few children panics at the first one missing.
\<close>

fun visit_kids :: "(nat \<Rightarrow> ('e core_error, entry list) result option) \<Rightarrow> nat list \<Rightarrow> entry list \<Rightarrow>
    ('e core_error, entry list) result option" where
  "visit_kids visit [] es = Some (Inl Panic)"
| "visit_kids visit (c # cs) [] = visit c"
| "visit_kids visit (c # cs) (e # es) =
     then_read (visit c) (\<lambda>l. then_read (visit_kids visit cs es) (\<lambda>r. Some (Inr (l @ e # r))))"

lemma visit_kids_mono [partial_function_mono]:
  assumes "\<And>c. mono_option (\<lambda>f. h c f)"
  shows "mono_option (\<lambda>f. visit_kids (\<lambda>c. h c f) cs es)"
proof (induction cs arbitrary: es)
  case (Cons c cs)
  show ?case
    using assms Cons by (cases es) (auto intro!: then_read_mono option.const_mono)
qed (simp add: option.const_mono)

partial_function (option) collect :: "('e, 'b) node_io \<Rightarrow> 'b \<Rightarrow> nat \<Rightarrow> ('e core_error, entry list) result option" where
  "collect io b seq =
     then_read (Some (io_node io b seq)) (\<lambda>n.
       if is_leaf n then Some (Inr (bn_entries n))
       else visit_kids (\<lambda>c. collect io b c) (bn_children n) (bn_entries n))"

partial_function (option) boundary_leaf_len :: "('e, 'b) node_io \<Rightarrow> 'b \<Rightarrow> nat \<Rightarrow> bool \<Rightarrow> ('e core_error, nat) result option" where
  "boundary_leaf_len io b seq leftmost =
     then_read (Some (io_node io b seq)) (\<lambda>n.
       if is_leaf n then Some (Inr (length (bn_entries n)))
       else boundary_leaf_len io b (if leftmost then bn_children n ! 0 else last (bn_children n)) leftmost)"

section \<open>Insertion\<close>

datatype ins = Down nat | Split nat entry nat

definition finish :: "('e, 'b) node_io \<Rightarrow> bnode \<Rightarrow> 'b \<Rightarrow> ('e core_error, ins, 'b) outcome option" where
  "finish io n b =
     (if length (bn_entries n) < MAX_CHILDREN then then_do (put_node io n b) (\<lambda>s b. Some (Inr (Down s), b))
      else let mid = length (bn_entries n) div 2;
               median = bn_entries n ! mid;
               left = n\<lparr> bn_entries := take mid (bn_entries n) \<rparr>;
               right = \<lparr> bn_entries = drop (mid + 1) (bn_entries n), bn_children = [] \<rparr>
           in if \<not> is_leaf n \<and> length (bn_children n) < mid + 1 then Some (Inl Panic, b)
              else let (left, right) = (if is_leaf n then (left, right)
                       else (left\<lparr> bn_children := take (mid + 1) (bn_children n) \<rparr>,
                             right\<lparr> bn_children := drop (mid + 1) (bn_children n) \<rparr>))
                   in then_do (put_node io left b) (\<lambda>l b.
                      then_do (put_node io right b) (\<lambda>r b. Some (Inr (Split l median r), b))))"

partial_function (option) bee_insert :: "('e, 'b) node_io \<Rightarrow> nat \<Rightarrow> bytes \<Rightarrow> bytes \<Rightarrow> 'b \<Rightarrow> ('e core_error, ins, 'b) outcome option" where
  "bee_insert io seq key val b =
     then_do (look (io_node io b seq) b) (\<lambda>n b.
       case bsearch (bn_entries n) key of
         Inr i \<Rightarrow> then_do (put_node io (n\<lparr> bn_entries := (bn_entries n)[i := (fst (bn_entries n ! i), val)] \<rparr>) b)
                    (\<lambda>s b. Some (Inr (Down s), b))
       | Inl i \<Rightarrow>
           if is_leaf n then finish io (n\<lparr> bn_entries := insert_at i (key, val) (bn_entries n) \<rparr>) b
           else then_do (look (at_index (bn_children n) i) b) (\<lambda>c b.
                then_do (bee_insert io c key val b) (\<lambda>r b.
                  case r of
                    Down c' \<Rightarrow> then_do (put_node io (n\<lparr> bn_children := (bn_children n)[i := c'] \<rparr>) b)
                                 (\<lambda>s b. Some (Inr (Down s), b))
                  | Split l m r \<Rightarrow>
                      finish io \<lparr> bn_entries = insert_at i m (bn_entries n),
                                  bn_children = insert_at (i + 1) r ((bn_children n)[i := l]) \<rparr> b)))"

section \<open>Deletion\<close>

datatype del = NotFound | Removed nat bool

definition borrow_left :: "('e, 'b) node_io \<Rightarrow> bnode \<Rightarrow> nat \<Rightarrow> bnode \<Rightarrow> 'b \<Rightarrow> ('e core_error, bnode, 'b) outcome option" where
  "borrow_left io n i left b =
     then_do (look (at_index (bn_children n) i) b) (\<lambda>cs b.
     then_do (look (io_node io b cs) b) (\<lambda>child b.
     then_do (look (at_index (bn_entries n) (i - 1)) b) (\<lambda>sep b.
       let child = child\<lparr> bn_entries := sep # bn_entries child \<rparr>;
           (left, child) = (if is_leaf left then (left, child)
              else (left\<lparr> bn_children := butlast (bn_children left) \<rparr>,
                    child\<lparr> bn_children := last (bn_children left) # bn_children child \<rparr>));
           n = n\<lparr> bn_entries := (bn_entries n)[i - 1 := last (bn_entries left)] \<rparr>;
           left = left\<lparr> bn_entries := butlast (bn_entries left) \<rparr>
       in then_do (put_node io left b) (\<lambda>l b.
          then_do (put_node io child b) (\<lambda>c b.
            Some (Inr (n\<lparr> bn_children := (bn_children n)[i - 1 := l, i := c] \<rparr>), b))))))"

definition borrow_right :: "('e, 'b) node_io \<Rightarrow> bnode \<Rightarrow> nat \<Rightarrow> bnode \<Rightarrow> 'b \<Rightarrow> ('e core_error, bnode, 'b) outcome option" where
  "borrow_right io n i right b =
     then_do (look (at_index (bn_children n) i) b) (\<lambda>cs b.
     then_do (look (io_node io b cs) b) (\<lambda>child b.
     then_do (look (at_index (bn_entries n) i) b) (\<lambda>sep b.
       let child = child\<lparr> bn_entries := bn_entries child @ [sep] \<rparr>;
           (right, child) = (if is_leaf right then (right, child)
              else (right\<lparr> bn_children := tl (bn_children right) \<rparr>,
                    child\<lparr> bn_children := bn_children child @ [hd (bn_children right)] \<rparr>));
           n = n\<lparr> bn_entries := (bn_entries n)[i := hd (bn_entries right)] \<rparr>;
           right = right\<lparr> bn_entries := tl (bn_entries right) \<rparr>
       in then_do (put_node io child b) (\<lambda>c b.
          then_do (put_node io right b) (\<lambda>r b.
            Some (Inr (n\<lparr> bn_children := (bn_children n)[i := c, i + 1 := r] \<rparr>), b))))))"

definition merge_kids :: "('e, 'b) node_io \<Rightarrow> bnode \<Rightarrow> nat \<Rightarrow> 'b \<Rightarrow> ('e core_error, bnode, 'b) outcome option" where
  "merge_kids io n i b =
     (let (li, ri) = (if 0 < i then (i - 1, i) else (i, i + 1))
      in then_do (look (at_index (bn_children n) li) b) (\<lambda>ls b.
         then_do (look (io_node io b ls) b) (\<lambda>left b.
         then_do (look (at_index (bn_children n) ri) b) (\<lambda>rs b.
         then_do (look (io_node io b rs) b) (\<lambda>right b.
         then_do (look (at_index (bn_entries n) li) b) (\<lambda>sep b.
         then_do (put_node io \<lparr> bn_entries = bn_entries left @ [sep] @ bn_entries right,
                             bn_children = bn_children left @ bn_children right \<rparr> b) (\<lambda>merged b.
           Some (Inr \<lparr> bn_entries = remove_at li (bn_entries n),
                       bn_children = (remove_at ri (bn_children n))[li := merged] \<rparr>, b))))))))"

text \<open>The sibling tests of \<open>rebalance\<close>; each sibling is read once, as in the code.\<close>

definition try_right :: "('e, 'b) node_io \<Rightarrow> bnode \<Rightarrow> nat \<Rightarrow> 'b \<Rightarrow> ('e core_error, bnode, 'b) outcome option" where
  "try_right io n i b =
     (if i + 1 < length (bn_children n)
      then then_do (look (io_node io b (bn_children n ! (i + 1))) b) (\<lambda>right b.
             if MIN_KEYS < length (bn_entries right) then borrow_right io n i right b else merge_kids io n i b)
      else merge_kids io n i b)"

definition rebalance :: "('e, 'b) node_io \<Rightarrow> bnode \<Rightarrow> nat \<Rightarrow> 'b \<Rightarrow> ('e core_error, bnode, 'b) outcome option" where
  "rebalance io n i b =
     (if 0 < i
      then then_do (look (at_index (bn_children n) (i - 1)) b) (\<lambda>ls b.
           then_do (look (io_node io b ls) b) (\<lambda>left b.
             if MIN_KEYS < length (bn_entries left) then borrow_left io n i left b else try_right io n i b))
      else try_right io n i b)"

definition fix_child :: "('e, 'b) node_io \<Rightarrow> bnode \<Rightarrow> nat \<Rightarrow> bool \<Rightarrow> 'b \<Rightarrow> ('e core_error, nat \<times> bool, 'b) outcome option" where
  "fix_child io n i child_low b =
     then_do (if child_low then rebalance io n i b else Some (Inr n, b)) (\<lambda>n b.
     then_do (put_node io n b) (\<lambda>s b. Some (Inr (s, length (bn_entries n) < MIN_KEYS), b)))"

partial_function (option) delete_min :: "('e, 'b) node_io \<Rightarrow> nat \<Rightarrow> 'b \<Rightarrow> ('e core_error, entry \<times> nat \<times> bool, 'b) outcome option" where
  "delete_min io seq b =
     then_do (look (io_node io b seq) b) (\<lambda>n b.
       if is_leaf n then
         then_do (look (at_index (bn_entries n) 0) b) (\<lambda>e b.
         then_do (put_node io (n\<lparr> bn_entries := tl (bn_entries n) \<rparr>) b) (\<lambda>s b.
           Some (Inr (e, s, length (bn_entries n) - 1 < MIN_KEYS), b)))
       else
         then_do (delete_min io (bn_children n ! 0) b) (\<lambda>(e, c, low) b.
         then_do (fix_child io (n\<lparr> bn_children := (bn_children n)[0 := c] \<rparr>) 0 low b) (\<lambda>(s, u) b.
           Some (Inr (e, s, u), b))))"

partial_function (option) delete_max :: "('e, 'b) node_io \<Rightarrow> nat \<Rightarrow> 'b \<Rightarrow> ('e core_error, entry \<times> nat \<times> bool, 'b) outcome option" where
  "delete_max io seq b =
     then_do (look (io_node io b seq) b) (\<lambda>n b.
       if is_leaf n then
         then_do (look (if bn_entries n = [] then Inl Panic else Inr (last (bn_entries n))) b) (\<lambda>e b.
         then_do (put_node io (n\<lparr> bn_entries := butlast (bn_entries n) \<rparr>) b) (\<lambda>s b.
           Some (Inr (e, s, length (bn_entries n) - 1 < MIN_KEYS), b)))
       else
         let k = length (bn_children n) - 1
         in then_do (delete_max io (bn_children n ! k) b) (\<lambda>(e, c, low) b.
            then_do (fix_child io (n\<lparr> bn_children := (bn_children n)[k := c] \<rparr>) k low b) (\<lambda>(s, u) b.
              Some (Inr (e, s, u), b))))"

definition replace_sep :: "('e, 'b) node_io \<Rightarrow> bnode \<Rightarrow> nat \<Rightarrow> 'b \<Rightarrow> ('e core_error, nat \<times> bool, 'b) outcome option" where
  "replace_sep io n i b =
     then_do (look (at_index (bn_children n) i) b) (\<lambda>lc b.
     then_do (look (at_index (bn_children n) (i + 1)) b) (\<lambda>rc b.
     then_do (map_option (\<lambda>r. (r, b)) (boundary_leaf_len io b lc False)) (\<lambda>ls b.
     then_do (map_option (\<lambda>r. (r, b)) (boundary_leaf_len io b rc True)) (\<lambda>rs b.
       if ls < rs
       then then_do (delete_min io rc b) (\<lambda>(e, c, low) b.
              fix_child io \<lparr> bn_entries = (bn_entries n)[i := e], bn_children = (bn_children n)[i + 1 := c] \<rparr> (i + 1) low b)
       else then_do (delete_max io lc b) (\<lambda>(e, c, low) b.
              fix_child io \<lparr> bn_entries = (bn_entries n)[i := e], bn_children = (bn_children n)[i := c] \<rparr> i low b)))))"

partial_function (option) bee_delete :: "('e, 'b) node_io \<Rightarrow> nat \<Rightarrow> bytes \<Rightarrow> 'b \<Rightarrow> ('e core_error, del, 'b) outcome option" where
  "bee_delete io seq key b =
     then_do (look (io_node io b seq) b) (\<lambda>n b.
       case bsearch (bn_entries n) key of
         Inr i \<Rightarrow>
           if is_leaf n then
             let n = n\<lparr> bn_entries := remove_at i (bn_entries n) \<rparr>
             in then_do (put_node io n b) (\<lambda>s b. Some (Inr (Removed s (length (bn_entries n) < MIN_KEYS)), b))
           else then_do (replace_sep io n i b) (\<lambda>(s, u) b. Some (Inr (Removed s u), b))
       | Inl i \<Rightarrow>
           if is_leaf n then Some (Inr NotFound, b)
           else then_do (look (at_index (bn_children n) i) b) (\<lambda>c b.
                then_do (bee_delete io c key b) (\<lambda>r b.
                  case r of
                    NotFound \<Rightarrow> Some (Inr NotFound, b)
                  | Removed c' low \<Rightarrow>
                      then_do (fix_child io (n\<lparr> bn_children := (bn_children n)[i := c'] \<rparr>) i low b)
                        (\<lambda>(s, u) b. Some (Inr (Removed s u), b)))))"

declare get_from.simps [code] collect.simps [code] boundary_leaf_len.simps [code] bee_insert.simps [code]
  delete_min.simps [code] delete_max.simps [code] bee_delete.simps [code]

section \<open>The encoding is read back\<close>

definition node_sized :: "bnode \<Rightarrow> bool" where
  "node_sized n \<longleftrightarrow> length (bn_entries n) * 48 < 2 ^ 63 \<and> length (bn_children n) * 8 < 2 ^ 63 \<and>
     (\<forall>(k, v) \<in> set (bn_entries n). length k < 2 ^ 64 \<and> length v < 2 ^ 64) \<and> (\<forall>c \<in> set (bn_children n). c < 2 ^ 64)"

lemma foldl_append_out:
  assumes "\<And>out x. f out x = out @ f [] x"
  shows "foldl f out xs = out @ concat (map (f []) xs)"
proof (induction xs arbitrary: out)
  case (Cons x xs)
  show ?case using Cons [of "f out x"] assms [of out x] by simp
qed simp

lemma encode_entry_append: "encode_entry out kv = out @ encode_entry [] kv"
  unfolding encode_entry_def Let_def
  by (metis append.assoc varint_write_append)

lemma encode_seq_append: "(\<lambda>out c. varint_write out (word_of_nat c)) out c = out @ varint_write [] (word_of_nat c)"
  by (rule varint_write_append)

lemma encode_node_eq:
  "encode_node n out = out @ varint_write [] (word_of_nat (length (bn_entries n))) @
     concat (map (encode_entry []) (bn_entries n)) @ varint_write [] (word_of_nat (length (bn_children n))) @
     concat (map (\<lambda>c. varint_write [] (word_of_nat c)) (bn_children n))"
  unfolding encode_node_def Let_def
  by (subst foldl_append_out [where f = "\<lambda>out c. varint_write out (word_of_nat c)"], rule varint_write_append,
      subst varint_write_append,
      subst foldl_append_out [where f = encode_entry], rule encode_entry_append,
      subst varint_write_append, simp)

lemma decode_kvs_encode:
  "\<forall>(k, v) \<in> set kvs. length k < 2 ^ 64 \<and> length v < 2 ^ 64 \<Longrightarrow>
   decode_kvs (length kvs) (concat (map (encode_entry []) kvs) @ rest) = Inr (kvs, rest)"
proof (induction kvs)
  case (Cons kv kvs)
  obtain k v where kv: "kv = (k, v)" by (cases kv)
  have "encode_entry [] kv = varint_write [] (word_of_nat (length k)) @ k @ varint_write [] (word_of_nat (length v)) @ v"
    unfolding encode_entry_def kv Let_def fst_conv snd_conv
    by (subst varint_write_append [of "varint_write [] (word_of_nat (length k)) @ k"]) simp
  then show ?case using Cons by (simp add: kv take_bytes_def)
qed simp

lemma decode_seqs_encode:
  "\<forall>c \<in> set cs. c < 2 ^ 64 \<Longrightarrow>
   decode_seqs (length cs) (concat (map (\<lambda>c. varint_write [] (word_of_nat c)) cs) @ rest) = Inr (cs, rest)"
  by (induction cs) (simp_all add: unat_of_nat)

lemma decode_encode_node: "node_sized n \<Longrightarrow> decode_node (encode_node n [] @ junk) = Inr n"
  using decode_kvs_encode [of "bn_entries n"] decode_seqs_encode [of "bn_children n" junk]
  by (simp add: decode_node_def encode_node_eq node_sized_def with_capacity_def)

interpretation nodec: tolerant_codec node_codec node_sized
proof
  show "encode_into node_codec n out = out @ encode node_codec n" for n out
    by (simp add: node_codec_def encode_def encode_node_eq)
  show "node_sized n \<Longrightarrow> decode node_codec (encode node_codec n @ junk) = Inr n" for n junk
    by (simp add: node_codec_def encode_def decode_encode_node)
qed

lemma decode_node_codec: "node_sized n \<Longrightarrow> decode node_codec (encode node_codec n) = Inr n"
  by (rule nodec.decode_encode_exact)

section \<open>Binary search\<close>

lemma bsearch_loop_bounds:
  assumes "0 < sz"
  shows "lo \<le> bsearch_loop es key lo sz \<and> bsearch_loop es key lo sz < lo + sz"
  using assms
proof (induction es key lo sz rule: bsearch_loop.induct)
  case (1 es key lo sz)
  show ?case
  proof (cases "sz \<le> 1")
    case False
    then have "0 < sz - sz div 2" by simp
    from "1.IH" [OF False refl refl this] show ?thesis
      using False by (subst (1 2) bsearch_loop.simps) (auto simp: Let_def split: if_splits)
  qed (use 1 in \<open>simp add: bsearch_loop.simps\<close>)
qed

text \<open>The loop ends at the last entry whose key is not above the key searched, or at the start.\<close>

lemma bsearch_loop_sorted:
  assumes "bt_inv es" "0 < sz" "lo + sz \<le> length es"
    and "\<forall>j < lo. fst (es ! j) < key" "0 < lo \<longrightarrow> fst (es ! lo) \<le> key"
    and "\<forall>j < length es. lo + sz \<le> j \<longrightarrow> key < fst (es ! j)"
  shows "let i = bsearch_loop es key lo sz in (\<forall>j < i. fst (es ! j) < key) \<and> (0 < i \<longrightarrow> fst (es ! i) \<le> key) \<and>
     (\<forall>j < length es. i < j \<longrightarrow> key < fst (es ! j))"
  using assms
proof (induction es key lo sz rule: bsearch_loop.induct)
  case (1 es key lo sz)
  have mono: "fst (es ! i) < fst (es ! j)" if "i < j" "j < length es" for i j
    using "1.prems"(1) that by (auto simp: bt_inv_def sorted_wrt_iff_nth_less)
  show ?case
  proof (cases "sz \<le> 1")
    case True
    with "1.prems"(2) have "sz = 1" by simp
    then show ?thesis using "1.prems" by (subst bsearch_loop.simps) (auto simp: Let_def)
  next
    case False
    let ?mid = "lo + sz div 2" and ?lo = "if key < fst (es ! (lo + sz div 2)) then lo else lo + sz div 2"
    have m: "?mid < length es" "0 < sz div 2" using "1.prems"(2,3) False by auto
    have "let i = bsearch_loop es key ?lo (sz - sz div 2) in (\<forall>j < i. fst (es ! j) < key) \<and> (0 < i \<longrightarrow> fst (es ! i) \<le> key) \<and>
     (\<forall>j < length es. i < j \<longrightarrow> key < fst (es ! j))"
    proof (rule "1.IH" [OF False refl refl "1.prems"(1)])
      show "0 < sz - sz div 2" "?lo + (sz - sz div 2) \<le> length es" using "1.prems"(2,3) False by auto
      show "\<forall>j < ?lo. fst (es ! j) < key"
        using "1.prems"(4) mono [of _ ?mid] m by (auto simp: not_less intro: less_le_trans)
      show "0 < ?lo \<longrightarrow> fst (es ! ?lo) \<le> key" using "1.prems"(5) by (auto simp: not_less)
      show "\<forall>j < length es. ?lo + (sz - sz div 2) \<le> j \<longrightarrow> key < fst (es ! j)"
      proof (intro allI impI)
        fix j assume j: "j < length es" "?lo + (sz - sz div 2) \<le> j"
        show "key < fst (es ! j)"
        proof (cases "key < fst (es ! ?mid)")
          case True
          with j(2) have "?mid \<le> j" by (simp split: if_splits)
          then show ?thesis using True mono [of ?mid j] j(1) by (cases "?mid = j") auto
        next
          case False
          then show ?thesis using j "1.prems"(6) by simp
        qed
      qed
    qed
    then show ?thesis using False by (subst bsearch_loop.simps) (simp add: Let_def)
  qed
qed

lemma bsearch_found:
  assumes "bsearch es key = Inr i"
  shows "i < length es \<and> fst (es ! i) = key"
  using assms bsearch_loop_bounds [of "length es" 0 es key]
  by (auto simp: bsearch_def Let_def split: if_splits)

lemma bsearch_missing_le: "bsearch es key = Inl i \<Longrightarrow> i \<le> length es"
  using bsearch_loop_bounds [of "length es" 0 es key]
  by (auto simp: bsearch_def Let_def split: if_splits)

lemma bsearch_missing:
  assumes "bt_inv es" "bsearch es key = Inl i"
  shows "i \<le> length es" "\<forall>e \<in> set (take i es). fst e < key" "\<forall>e \<in> set (drop i es). key < fst e"
proof -
  have *: "(\<forall>j < i. fst (es ! j) < key) \<and> (\<forall>j < length es. i \<le> j \<longrightarrow> key < fst (es ! j))"
  proof (cases "es = []")
    case False
    let ?lo = "bsearch_loop es key 0 (length es)"
    have "let i = ?lo in (\<forall>j < i. fst (es ! j) < key) \<and> (0 < i \<longrightarrow> fst (es ! i) \<le> key) \<and>
       (\<forall>j < length es. i < j \<longrightarrow> key < fst (es ! j))"
      using assms(1) False by (intro bsearch_loop_sorted) auto
    then show ?thesis
      using assms(2) False
      by (auto simp: bsearch_def Let_def less_Suc_eq Suc_le_eq not_less order.order_iff_strict split: if_splits)
  qed (use assms in \<open>simp add: bsearch_def\<close>)
  show "i \<le> length es" by (rule bsearch_missing_le [OF assms(2)])
  then show "\<forall>e \<in> set (take i es). fst e < key" "\<forall>e \<in> set (drop i es). key < fst e"
    using * by (auto simp: in_set_conv_nth) (metis fst_conv, metis add.commute fst_conv le_add1 less_diff_conv)
qed

section \<open>The tree behind a block\<close>

datatype btree = BT (bt_ents: "entry list") (bt_kids: "btree list")

text \<open>In-order concatenation: with no lists the entries of a leaf, otherwise list, entry, list, and so on.\<close>

fun weave :: "'a list list \<Rightarrow> 'a list \<Rightarrow> 'a list" where
  "weave [] es = es"
| "weave (l # ls) [] = l"
| "weave (l # ls) (e # es) = l @ e # weave ls es"

fun binorder :: "btree \<Rightarrow> entry list" where
  "binorder (BT es ts) = weave (map binorder ts) es"

text \<open>
  A well-formed tree of height \<open>h\<close>: all leaves at the same depth, one child more than entries, at most
  eight entries in a node and at least four in every node below the root.
\<close>

fun bal :: "nat \<Rightarrow> btree \<Rightarrow> bool" where
  "bal 0 (BT es ts) \<longleftrightarrow> ts = [] \<and> length es < MAX_CHILDREN"
| "bal (Suc h) (BT es ts) \<longleftrightarrow> length ts = Suc (length es) \<and> length es < MAX_CHILDREN \<and>
     (\<forall>t \<in> set ts. bal h t \<and> MIN_KEYS \<le> length (bt_ents t))"

text \<open>Block \<open>s\<close> of the log \<open>L\<close> is the root of the tree; every child lies before its parent.\<close>

fun tree_at :: "bnode list \<Rightarrow> nat \<Rightarrow> btree \<Rightarrow> bool" where
  "tree_at L s (BT es ts) \<longleftrightarrow> s < length L \<and> bn_entries (L ! s) = es \<and>
     (\<forall>c \<in> set (bn_children (L ! s)). c < s) \<and> list_all2 (\<lambda>c t. tree_at L c t) (bn_children (L ! s)) ts"

lemma tree_at_less: "tree_at L s t \<Longrightarrow> s < length L"
  by (cases t) simp

lemma tree_at_mono: "tree_at L s t \<Longrightarrow> tree_at (L @ M) s t"
proof (induction L s t rule: tree_at.induct)
  case (1 L s es ts)
  then have "list_all2 (tree_at (L @ M)) (bn_children (L ! s)) ts"
    by (auto intro: list.rel_mono_strong)
  with 1 show ?case by (auto simp: nth_append)
qed

lemma trees_at_mono: "list_all2 (tree_at L) cs ts \<Longrightarrow> list_all2 (tree_at (L @ M)) cs ts"
  by (erule list_all2_mono) (rule tree_at_mono)

lemma trees_at_less: "list_all2 (tree_at L) cs ts \<Longrightarrow> c \<in> set cs \<Longrightarrow> c < length L"
  by (metis in_set_conv_nth list_all2_conv_all_nth tree_at_less)

lemma tree_at_new:
  "list_all2 (tree_at L) (bn_children n) ts \<Longrightarrow> tree_at (L @ [n]) (length L) (BT (bn_entries n) ts)"
  using trees_at_mono [of L "bn_children n" ts "[n]"] trees_at_less [of L "bn_children n" ts] by simp

lemma bal_height: "bal h t \<Longrightarrow> tree_at L s t \<Longrightarrow> h \<le> s"
proof (induction h arbitrary: t s)
  case (Suc h)
  obtain es ts where t: "t = BT es ts" by (cases t)
  obtain u us where ts: "ts = u # us" using Suc(2) t by (cases ts) auto
  then obtain c cs where c: "bn_children (L ! s) = c # cs" "tree_at L c u" "c < s"
    using Suc(3) t by (cases "bn_children (L ! s)") auto
  then have "h \<le> c" using Suc ts t by auto
  with c show ?case by simp
qed simp

lemma bal_leaf_iff: "bal h (BT es ts) \<Longrightarrow> ts = [] \<longleftrightarrow> h = 0"
  by (cases h) auto

subsection \<open>In-order lists\<close>

definition lefts :: "'a list list \<Rightarrow> 'a list \<Rightarrow> 'a list" where
  "lefts ls es = concat (map2 (\<lambda>l e. l @ [e]) ls es)"

definition rights :: "'a list \<Rightarrow> 'a list list \<Rightarrow> 'a list" where
  "rights es ls = concat (map2 (\<lambda>e l. e # l) es ls)"

lemma rights_simps [simp]: "rights [] ls = []" "rights (e # es) (l # ls) = e # l @ rights es ls"
  by (simp_all add: rights_def)

lemma lefts_simps [simp]: "lefts [] es = []" "lefts (l # ls) (e # es) = l @ e # lefts ls es"
  by (simp_all add: lefts_def)

lemma weave_rights: "length ls = length es \<Longrightarrow> weave (l # ls) es = l @ rights es ls"
  by (induction es arbitrary: l ls) (auto simp: length_Suc_conv)

lemma weave_mid:
  "length ls1 = length es1 \<Longrightarrow> length ls2 = length es2 \<Longrightarrow>
   weave (ls1 @ l # ls2) (es1 @ es2) = lefts ls1 es1 @ l @ rights es2 ls2"
proof (induction ls1 arbitrary: es1)
  case (Cons x ls1)
  then show ?case by (cases es1) auto
qed (simp add: weave_rights)

lemma weave_join:
  "length ls1 = Suc (length es1) \<Longrightarrow> ls2 \<noteq> [] \<Longrightarrow>
   weave (ls1 @ ls2) (es1 @ m # es2) = weave ls1 es1 @ m # weave ls2 es2"
proof (induction es1 arbitrary: ls1)
  case Nil
  then obtain l where "ls1 = [l]" by (cases ls1) auto
  then show ?case by simp
next
  case (Cons e es1)
  then obtain l ls where "ls1 = l # ls" by (cases ls1) auto
  with Cons show ?case by simp
qed

lemma set_weave: "length ls = Suc (length es) \<or> ls = [] \<Longrightarrow> set (weave ls es) = set es \<union> \<Union> (set ` set ls)"
proof (induction ls es rule: weave.induct)
  case (3 l ls e es)
  then show ?case by (cases ls) auto
qed auto

lemma binorder_BT: "binorder (BT es ts) = weave (map binorder ts) es"
  by simp

lemma binorder_mid:
  "length ts1 = length es1 \<Longrightarrow> length ts2 = length es2 \<Longrightarrow>
   binorder (BT (es1 @ es2) (ts1 @ t # ts2)) =
     lefts (map binorder ts1) es1 @ binorder t @ rights es2 (map binorder ts2)"
  by (simp add: weave_mid)

lemma set_binorder: "bal h (BT es ts) \<Longrightarrow> set (binorder (BT es ts)) = set es \<union> \<Union> (set ` binorder ` set ts)"
  by (cases h) (auto simp: set_weave)

lemma bal_ents: "bal h t \<Longrightarrow> set (bt_ents t) \<subseteq> set (binorder t)"
  by (cases t) (auto simp: set_binorder simp del: binorder.simps)

subsection \<open>Ordered lists\<close>

lemma bt_inv_append: "bt_inv (xs @ ys) \<longleftrightarrow> bt_inv xs \<and> bt_inv ys \<and> (\<forall>x \<in> set xs. \<forall>y \<in> set ys. fst x < fst y)"
  by (auto simp: bt_inv_def sorted_wrt_append)

lemma bt_inv_first: "bt_inv (x # xs) \<longleftrightarrow> (\<forall>y \<in> set xs. fst x < fst y) \<and> bt_inv xs"
  by (simp add: bt_inv_def)

lemma bt_insert_after: "\<forall>x \<in> set xs. fst x < k \<Longrightarrow> bt_insert k v (xs @ ys) = xs @ bt_insert k v ys"
  by (induction xs) auto

lemma bt_insert_before: "\<forall>y \<in> set ys. k < fst y \<Longrightarrow> bt_insert k v (xs @ ys) = bt_insert k v xs @ ys"
  by (induction xs) (cases ys, auto)

lemma bt_insert_replace: "\<forall>x \<in> set xs. fst x < k \<Longrightarrow> bt_insert k v (xs @ (k, v') # ys) = xs @ (k, v) # ys"
  by (simp add: bt_insert_after)

lemma bt_remove_append [simp]: "bt_remove k (xs @ ys) = bt_remove k xs @ bt_remove k ys"
  by (simp add: bt_remove_def)

lemma bt_remove_Cons [simp]: "bt_remove k (x # xs) = (if fst x = k then bt_remove k xs else x # bt_remove k xs)"
  by (auto simp: bt_remove_def)

lemma bt_remove_other: "\<forall>x \<in> set xs. fst x \<noteq> k \<Longrightarrow> bt_remove k xs = xs"
  by (simp add: bt_remove_def split_beta)

lemma lefts_below:
  assumes "length ls = length es" "bt_inv (lefts ls es @ r)" "\<forall>e \<in> set es. fst e < k"
  shows "\<forall>x \<in> set (lefts ls es). fst x < k"
  using assms
proof (induction ls arbitrary: es)
  case (Cons l ls)
  then obtain e es' where es: "es = e # es'" by (cases es) auto
  have "\<forall>x \<in> set (lefts ls es'). fst x < k"
    using Cons(2-4) es by (intro Cons(1)) (auto simp: bt_inv_append bt_inv_first)
  moreover have "\<forall>x \<in> set l. fst x < fst e" using Cons es by (auto simp: bt_inv_append)
  moreover have "fst e < k" using Cons es by simp
  ultimately show ?case using es by fastforce
qed simp

lemma rights_above:
  assumes "length ls = length es" "bt_inv (l @ rights es ls)" "\<forall>e \<in> set es. k < fst e"
  shows "\<forall>x \<in> set (rights es ls). k < fst x"
  using assms
proof (induction es arbitrary: l ls)
  case (Cons e es)
  then obtain l' ls' where ls: "ls = l' # ls'" by (cases ls) auto
  have "\<forall>x \<in> set (rights es ls'). k < fst x" 
    using Cons(2-4) ls by (intro Cons(1) [of ls' "[]"]) (auto simp: bt_inv_append bt_inv_first)
  moreover have "\<forall>x \<in> set l'. fst e < fst x" using Cons(3) ls by (auto simp: bt_inv_append bt_inv_first)
  ultimately show ?case using Cons ls by fastforce
qed simp

end
