(* ===== verification/Btree_Log.thy ===== *)
theory Btree_Log
  imports Btree
begin

text \<open>
  Correctness of the copy-on-write B-tree over any node log. The interface \<open>node_log\<close> is what the tree
  needs of the log: a block reads back as the node that was appended, appending puts a node at the end.
  Reads and appends may fail with the errors \<open>bad\<close>; every operation then fails with such an error and
  otherwise returns, with the effect of the operation on the sorted list of entries.
\<close>

declare tree_at.simps [simp del] binorder.simps [simp del]

lemma binorder_leaf [simp]: "binorder (BT es []) = es"
  by (simp add: binorder.simps)

section \<open>Outcomes\<close>

text \<open>The call returns, with an error among \<open>bad\<close> or with a result and a state that satisfy \<open>Q\<close>.\<close>

fun run_ok :: "('e \<Rightarrow> 'b \<Rightarrow> bool) \<Rightarrow> ('e, 'a, 'b) outcome option \<Rightarrow> ('a \<Rightarrow> 'b \<Rightarrow> bool) \<Rightarrow> bool" where
  "run_ok bad None Q = False"
| "run_ok bad (Some (Inl e, b)) Q = bad e b"
| "run_ok bad (Some (Inr x, b)) Q = Q x b"

fun read_ok :: "('e \<Rightarrow> bool) \<Rightarrow> ('e, 'a) result option \<Rightarrow> ('a \<Rightarrow> bool) \<Rightarrow> bool" where
  "read_ok bad None Q = False"
| "read_ok bad (Some (Inl e)) Q = bad e"
| "read_ok bad (Some (Inr x)) Q = Q x"

lemma run_ok_then: "run_ok bad m (\<lambda>x b. run_ok bad (f x b) Q) \<Longrightarrow> run_ok bad (then_do m f) Q"
  by (cases "(bad, m, \<lambda>x b. run_ok bad (f x b) Q)" rule: run_ok.cases) (auto simp: then_do_def)

lemma then_do_ret [simp]: "then_do (Some (Inr x, b)) f = f x b"
  by (simp add: then_do_def)

lemma run_ok_weaken: "run_ok bad m P \<Longrightarrow> (\<And>x b. P x b \<Longrightarrow> Q x b) \<Longrightarrow> run_ok bad m Q"
  by (cases "(bad, m, Q)" rule: run_ok.cases) auto

lemma run_ok_map: "read_ok (\<lambda>e. bad e b) m Q \<Longrightarrow> run_ok bad (map_option (\<lambda>r. (r, b)) m) (\<lambda>x b'. Q x \<and> b' = b)"
  by (cases "(\<lambda>e. bad e b, m, Q)" rule: read_ok.cases) auto

lemma read_ok_then: "read_ok bad m (\<lambda>x. read_ok bad (f x) Q) \<Longrightarrow> read_ok bad (then_read m f) Q"
  by (cases "(bad, m, \<lambda>x. read_ok bad (f x) Q)" rule: read_ok.cases) (auto simp: then_read_def)

lemma then_read_ret [simp]: "then_read (Some (Inr x)) f = f x"
  by (simp add: then_read_def)

lemma read_ok_weaken: "read_ok bad m P \<Longrightarrow> (\<And>x. P x \<Longrightarrow> Q x) \<Longrightarrow> read_ok bad m Q"
  by (cases "(bad, m, Q)" rule: read_ok.cases) auto

lemma option_result_cases:
  obtains (none) "m = None" | (err) e b where "m = Some (Inl e, b)" | (ok) x b where "m = Some (Inr x, b)"
  by (metis not_None_eq old.prod.exhaust old.sum.exhaust)

lemma at_index_ok [simp]: "i < length xs \<Longrightarrow> at_index xs i = Inr (xs ! i)"
  by (simp add: at_index_def)

section \<open>Nodes of a well-formed tree\<close>

text \<open>A well-formed node of height \<open>h\<close> but for the number of its entries.\<close>

definition shape :: "nat \<Rightarrow> entry list \<Rightarrow> btree list \<Rightarrow> bool" where
  "shape h es ts \<longleftrightarrow> (case h of 0 \<Rightarrow> ts = []
     | Suc h \<Rightarrow> length ts = Suc (length es) \<and> (\<forall>t \<in> set ts. bal h t \<and> MIN_KEYS \<le> length (bt_ents t)))"

lemma bal_iff: "bal h (BT es ts) \<longleftrightarrow> shape h es ts \<and> length es < MAX_CHILDREN"
  by (cases h) (auto simp: shape_def)

lemma shape_Suc: "shape (Suc h) es ts \<longleftrightarrow>
    length ts = Suc (length es) \<and> (\<forall>t \<in> set ts. bal h t \<and> MIN_KEYS \<le> length (bt_ents t))"
  by (simp add: shape_def)

lemma shape_leaf: "shape h es ts \<Longrightarrow> ts = [] \<longleftrightarrow> h = 0"
  by (auto simp: shape_def split: nat.splits)

lemma shape_length: "shape h es ts \<Longrightarrow> length ts \<le> Suc (length es)"
  by (auto simp: shape_def split: nat.splits)

lemma shape_ents: "shape h es ts \<Longrightarrow> set es \<subseteq> set (binorder (BT es ts))"
  by (auto simp: shape_def binorder.simps set_weave split: nat.splits)

lemma shape_kid: "shape (Suc h) es ts \<Longrightarrow> t \<in> set ts \<Longrightarrow> set (binorder t) \<subseteq> set (binorder (BT es ts))"
  by (auto simp: shape_def binorder.simps set_weave)

lemma weave_sorted: "length ls = Suc (length es) \<or> ls = [] \<Longrightarrow> bt_inv (weave ls es) \<Longrightarrow> bt_inv es"
proof (induction ls es rule: weave.induct)
  case (3 l ls e es)
  then have l: "length ls = Suc (length es)" "bt_inv (weave ls es)" "\<forall>y \<in> set (weave ls es). fst e < fst y"
    by (auto simp: bt_inv_append bt_inv_first)
  then have "bt_inv es" using 3(1) by blast
  with l show ?case by (auto simp: bt_inv_first set_weave)
qed auto

lemma shape_sorted: "shape h es ts \<Longrightarrow> bt_inv (binorder (BT es ts)) \<Longrightarrow> bt_inv es"
  by (rule weave_sorted [of "map binorder ts"]) (auto simp: shape_def binorder.simps split: nat.splits)

lemma shape_upd: "shape h es ts \<Longrightarrow> shape h (es[i := x]) ts"
  by (simp add: shape_def split: nat.splits)

lemma insert_at_length [simp]: "i \<le> length xs \<Longrightarrow> length (insert_at i x xs) = Suc (length xs)"
  by (simp add: insert_at_def)

lemma remove_at_length [simp]: "i < length xs \<Longrightarrow> length (remove_at i xs) = length xs - 1"
  by (simp add: remove_at_def)

lemma set_insert_at [simp]: "set (insert_at i x xs) = insert x (set xs)"
proof -
  have "set xs = set (take i xs) \<union> set (drop i xs)" by (metis append_take_drop_id set_append)
  then show ?thesis by (simp add: insert_at_def)
qed

lemma list_all_insert_at: "list_all P (insert_at i x xs) \<longleftrightarrow> P x \<and> list_all P xs"
  by (auto simp: list_all_iff)

text \<open>A node around one of its entries, and around one of its children.\<close>

lemma binorder_entry:
  assumes "shape h es ts" "i < length es"
  obtains L R where "binorder (BT es ts) = L @ es ! i # R" "\<And>x. binorder (BT (es[i := x]) ts) = L @ x # R"
proof -
  have es: "es = take i es @ es ! i # drop (Suc i) es" using assms(2) by (rule id_take_nth_drop)
  have upd: "es[i := x] = take i es @ x # drop (Suc i) es" for x using assms(2) by (rule upd_conv_take_nth_drop)
  show ?thesis
  proof (cases h)
    case 0
    then show ?thesis using that [of "take i es" "drop (Suc i) es"] assms(1) es upd by (simp add: shape_def)
  next
    case (Suc h')
    let ?ls = "map binorder ts"
    have l: "length (take (Suc i) ?ls) = Suc (length (take i es))" "drop (Suc i) ?ls \<noteq> []"
      using assms Suc by (auto simp: shape_def)
    have *: "binorder (BT (take i es @ x # drop (Suc i) es) ts) =
        weave (take (Suc i) ?ls) (take i es) @ x # weave (drop (Suc i) ?ls) (drop (Suc i) es)" for x
      using weave_join [OF l] by (simp add: binorder.simps del: take_map drop_map)
    show ?thesis using that * es upd by metis
  qed
qed

lemma insert_at_append: "length xs = i \<Longrightarrow> insert_at i x (xs @ ys) = xs @ x # ys"
  by (simp add: insert_at_def)

lemma binorder_kid:
  assumes "shape (Suc h) es ts" "i < length ts"
  defines "A \<equiv> lefts (map binorder (take i ts)) (take i es)" and "C \<equiv> rights (drop i es) (map binorder (drop (Suc i) ts))"
  shows "binorder (BT es ts) = A @ binorder (ts ! i) @ C"
    and "binorder (BT es (ts[i := t])) = A @ binorder t @ C"
    and "binorder (BT (insert_at i m es) (insert_at (Suc i) r (ts[i := l]))) = A @ binorder l @ m # binorder r @ C"
proof -
  have len: "length ts = Suc (length es)" using assms(1) by (simp add: shape_Suc)
  have ts: "ts = take i ts @ ts ! i # drop (Suc i) ts" using assms(2) by (rule id_take_nth_drop)
  have upd: "ts[i := t] = take i ts @ t # drop (Suc i) ts" for t using assms(2) by (rule upd_conv_take_nth_drop)
  have *: "binorder (BT (take i es @ drop i es) (take i ts @ t # drop (Suc i) ts)) = A @ binorder t @ C" for t
    unfolding A_def C_def using len assms(2) by (intro binorder_mid) auto
  show "binorder (BT es ts) = A @ binorder (ts ! i) @ C" using * [of "ts ! i"] ts by simp
  show "binorder (BT es (ts[i := t])) = A @ binorder t @ C" using * [of t] upd by simp
  have "insert_at (Suc i) r (ts[i := l]) = take i ts @ l # r # drop (Suc i) ts"
    using insert_at_append [of "take i ts @ [l]" "Suc i" r] assms(2) upd by simp
  moreover have "binorder (BT (take i es @ (m # drop i es)) (take i ts @ l # (r # drop (Suc i) ts))) =
      lefts (map binorder (take i ts)) (take i es) @ binorder l @ rights (m # drop i es) (map binorder (r # drop (Suc i) ts))"
    using len assms(2) by (intro binorder_mid) auto
  ultimately show "binorder (BT (insert_at i m es) (insert_at (Suc i) r (ts[i := l]))) = A @ binorder l @ m # binorder r @ C"
    by (simp add: insert_at_def A_def C_def)
qed

text \<open>A key that falls between two entries of a node belongs to the child between them.\<close>

lemma kid_bounds:
  assumes "shape (Suc h) es ts" "i \<le> length es" "bt_inv (binorder (BT es ts))"
    and "\<forall>e \<in> set (take i es). fst e < k" "\<forall>e \<in> set (drop i es). k < fst e"
  shows "\<forall>x \<in> set (lefts (map binorder (take i ts)) (take i es)). fst x < k"
    and "\<forall>x \<in> set (rights (drop i es) (map binorder (drop (Suc i) ts))). k < fst x"
    and "bt_inv (binorder (ts ! i))"
proof -
  let ?A = "lefts (map binorder (take i ts)) (take i es)" and ?C = "rights (drop i es) (map binorder (drop (Suc i) ts))"
  have len: "length ts = Suc (length es)" using assms(1) by (simp add: shape_Suc)
  have s: "bt_inv (?A @ binorder (ts ! i) @ ?C)"
    using assms(3) binorder_kid(1) [OF assms(1), of i] len assms(2) by simp
  show "\<forall>x \<in> set ?A. fst x < k"
    using s assms(2,4) len by (intro lefts_below) auto
  show "\<forall>x \<in> set ?C. k < fst x"
    using s assms(2,5) len by (intro rights_above [of _ _ "binorder (ts ! i)"]) (auto simp: bt_inv_append)
  show "bt_inv (binorder (ts ! i))" using s by (simp add: bt_inv_append)
qed

text \<open>A node around two neighbouring children, and the exchanges between them.\<close>

lemma binorder_pair:
  assumes "length ts = Suc (length es)" "j < length es"
  defines "A \<equiv> lefts (map binorder (take j ts)) (take j es)"
    and "C \<equiv> rights (drop (Suc j) es) (map binorder (drop (Suc (Suc j)) ts))"
  shows "binorder (BT es ts) = A @ (binorder (ts ! j) @ es ! j # binorder (ts ! Suc j)) @ C"
    and "binorder (BT (es[j := e]) (ts[j := l, Suc j := r])) = A @ (binorder l @ e # binorder r) @ C"
    and "binorder (BT (remove_at j es) ((remove_at (Suc j) ts)[j := t])) = A @ binorder t @ C"
proof -
  have es: "es = take j es @ es ! j # drop (Suc j) es" using assms(2) by (rule id_take_nth_drop)
  have ts: "ts = take j ts @ ts ! j # ts ! Suc j # drop (Suc (Suc j)) ts"
    using assms(1,2) by (metis Cons_nth_drop_Suc Suc_less_eq append_take_drop_id less_SucI)
  have len: "length (take j ts) = length (take j es)" "length (drop (Suc (Suc j)) ts) = length (drop (Suc j) es)"
    using assms(1,2) by auto
  have *: "binorder (BT (take j es @ e # drop (Suc j) es) (take j ts @ l # r # drop (Suc (Suc j)) ts)) =
      A @ (binorder l @ e # binorder r) @ C" for e l r
    using binorder_mid [of "take j ts" "take j es" "r # drop (Suc (Suc j)) ts" "e # drop (Suc j) es" l] len
    by (simp add: A_def C_def)
  show "binorder (BT es ts) = A @ (binorder (ts ! j) @ es ! j # binorder (ts ! Suc j)) @ C"
    using * [of "es ! j" "ts ! j" "ts ! Suc j"] es ts by simp
  have upd: "ts[j := l, Suc j := r] = take j ts @ l # r # drop (Suc (Suc j)) ts"
    using assms(1,2) by (subst ts) (simp add: list_update_append)
  show "binorder (BT (es[j := e]) (ts[j := l, Suc j := r])) = A @ (binorder l @ e # binorder r) @ C"
    unfolding upd upd_conv_take_nth_drop [OF assms(2)] by (rule *)
  have "take (Suc j) ts = take j ts @ [ts ! j]" using assms(1,2) by (simp add: take_Suc_conv_app_nth)
  then have "(remove_at (Suc j) ts)[j := t] = take j ts @ t # drop (Suc (Suc j)) ts"
    using assms(1,2) by (simp add: remove_at_def list_update_append)
  then show "binorder (BT (remove_at j es) ((remove_at (Suc j) ts)[j := t])) = A @ binorder t @ C"
    using binorder_mid [OF len, of t] by (simp add: remove_at_def A_def C_def)
qed

lemma rotate_right:
  fixes sep :: entry
  assumes "bal h (BT les lts)" "bal h (BT ces cts)" "les \<noteq> []" "length ces < MIN_KEYS"
  defines "l \<equiv> BT (butlast les) (butlast lts)" and "r \<equiv> BT (sep # ces) (if lts = [] then cts else last lts # cts)"
  shows "binorder (BT les lts) @ sep # binorder (BT ces cts) = binorder l @ last les # binorder r" "bal h l" "bal h r"
proof -
  obtain les' e where les: "les = les' @ [e]" using assms(3) by (metis rev_exhaust)
  show "binorder (BT les lts) @ sep # binorder (BT ces cts) = binorder l @ last les # binorder r"
  proof (cases h)
    case (Suc h')
    then have len: "length lts = Suc (length les)" using assms(1) by auto
    then obtain lts' u where lts: "lts = lts' @ [u]" by (metis length_0_conv nat.distinct(1) rev_exhaust)
    have "weave (map binorder lts' @ [binorder u]) (les' @ e # []) = weave (map binorder lts') les' @ e # weave [binorder u] []"
      using len les lts by (intro weave_join) auto
    then show ?thesis using les lts by (simp add: l_def r_def binorder.simps)
  qed (use assms in simp)
  show "bal h l" "bal h r"
    using assms(1-4) by (cases h; auto simp: l_def r_def dest: in_set_butlastD)+
qed

lemma rotate_left:
  fixes sep :: entry
  assumes "bal h (BT ces cts)" "bal h (BT res rts)" "res \<noteq> []" "length ces < MIN_KEYS"
  defines "l \<equiv> BT (ces @ [sep]) (if rts = [] then cts else cts @ [hd rts])" and "r \<equiv> BT (tl res) (tl rts)"
  shows "binorder (BT ces cts) @ sep # binorder (BT res rts) = binorder l @ hd res # binorder r" "bal h l" "bal h r"
proof -
  obtain e es where res: "res = e # es" using assms(3) by (cases res) auto
  show "binorder (BT ces cts) @ sep # binorder (BT res rts) = binorder l @ hd res # binorder r"
  proof (cases h)
    case (Suc h')
    then obtain u us where rts: "rts = u # us" using assms(2) by (cases rts) auto
    have "weave (map binorder cts @ [binorder u]) (ces @ sep # []) = weave (map binorder cts) ces @ sep # weave [binorder u] []"
      using assms(1) Suc by (intro weave_join) auto
    then show ?thesis using rts res by (simp add: l_def r_def binorder.simps)
  qed (use assms in simp)
  show "bal h l" "bal h r"
    using assms(1-4) res by (cases h; cases rts; auto simp: l_def r_def)+
qed

lemma merge_pair:
  fixes sep :: entry
  assumes "bal h (BT les lts)" "bal h (BT res rts)" "length les + length res < MAX_CHILDREN - 1"
  defines "t \<equiv> BT (les @ [sep] @ res) (lts @ rts)"
  shows "binorder (BT les lts) @ sep # binorder (BT res rts) = binorder t" "bal h t"
proof -
  show "binorder (BT les lts) @ sep # binorder (BT res rts) = binorder t"
  proof (cases h)
    case (Suc h')
    have "weave (map binorder lts @ map binorder rts) (les @ sep # res) = weave (map binorder lts) les @ sep # weave (map binorder rts) res"
      using assms(1,2) Suc by (intro weave_join) auto
    then show ?thesis by (simp add: t_def binorder.simps)
  qed (use assms in simp)
  show "bal h t" using assms by (cases h) auto
qed

text \<open>A node whose child \<open>i\<close> may lack one entry.\<close>

definition low_shape :: "nat \<Rightarrow> entry list \<Rightarrow> btree list \<Rightarrow> nat \<Rightarrow> bool" where
  "low_shape h es ts i \<longleftrightarrow> length ts = Suc (length es) \<and>
     (\<forall>j < length ts. bal h (ts ! j) \<and> (if j = i then MIN_KEYS \<le> Suc (length (bt_ents (ts ! j))) else MIN_KEYS \<le> length (bt_ents (ts ! j))))"

lemma low_shape_kid: "low_shape h es ts i \<Longrightarrow> t \<in> set ts \<Longrightarrow> bal h t"
  by (auto simp: low_shape_def in_set_conv_nth)

lemma low_shape_ents: "low_shape h es ts i \<Longrightarrow> set es \<subseteq> set (binorder (BT es ts))"
  by (auto simp: low_shape_def binorder.simps set_weave)

lemma low_shape_kid_ents: "low_shape h es ts i \<Longrightarrow> t \<in> set ts \<Longrightarrow> set (bt_ents t) \<subseteq> set (binorder (BT es ts))"
proof -
  assume low: "low_shape h es ts i" "t \<in> set ts"
  have "set (bt_ents t) \<subseteq> set (binorder t)" using bal_ents [OF low_shape_kid [OF low]] .
  also have "\<dots> \<subseteq> set (binorder (BT es ts))" using low by (auto simp: low_shape_def binorder.simps set_weave)
  finally show ?thesis .
qed

lemma shape_low: "shape (Suc h) es ts \<Longrightarrow> low_shape h es ts i"
  by (auto simp: shape_Suc low_shape_def le_Suc_eq)

lemma low_shape_full:
  "low_shape h es ts i \<Longrightarrow> i < length ts \<Longrightarrow> MIN_KEYS \<le> length (bt_ents (ts ! i)) \<Longrightarrow> shape (Suc h) es ts"
  by (auto simp: shape_Suc low_shape_def in_set_conv_nth split: if_splits)

lemma low_shape_upd:
  "shape (Suc h) es ts \<Longrightarrow> bal h t \<Longrightarrow> MIN_KEYS \<le> Suc (length (bt_ents t)) \<Longrightarrow> low_shape h es (ts[i := t]) i"
  by (auto simp: shape_Suc low_shape_def nth_list_update)

lemma low_shape_pair:
  assumes "low_shape h es ts i" "j < length es" "i = j \<or> i = Suc j"
    and "bal h l" "MIN_KEYS \<le> length (bt_ents l)" "bal h r" "MIN_KEYS \<le> length (bt_ents r)"
  shows "shape (Suc h) (es[j := e]) (ts[j := l, Suc j := r])"
  using assms by (fastforce simp: shape_Suc low_shape_def in_set_conv_nth nth_list_update split: if_splits)

lemma low_shape_merge:
  assumes "low_shape h es ts i" "j < length es" "i = j \<or> i = Suc j" "bal h t" "MIN_KEYS \<le> length (bt_ents t)"
  shows "shape (Suc h) (remove_at j es) ((remove_at (Suc j) ts)[j := t])"
proof -
  have len: "length ts = Suc (length es)" using assms(1) by (simp add: low_shape_def)
  have "bal h u \<and> MIN_KEYS \<le> length (bt_ents u)" if u: "u \<in> set ((remove_at (Suc j) ts)[j := t])" for u
  proof -
    obtain q where q: "q < length ts - 1" "u = ((remove_at (Suc j) ts)[j := t]) ! q"
      using u len assms(2) by (auto simp: in_set_conv_nth)
    show ?thesis
    proof (cases "q = j")
      case False
      define q' where "q' = (if q < j then q else Suc q)"
      have "u = ts ! q'" "q' < length ts" "q' \<noteq> i"
        using q False len assms(2,3) by (auto simp: q'_def remove_at_def nth_append min_def)
      then show ?thesis using assms(1) by (auto simp: low_shape_def)
    qed (use q len assms in simp)
  qed
  then show ?thesis using len assms(2) by (simp add: shape_Suc)
qed

lemma bt_get_below: "\<forall>x \<in> set A. fst x < (k :: 'k :: linorder) \<Longrightarrow> bt_get A k = None"
  by (induction A) auto

lemma bt_get_above: "\<forall>x \<in> set A. (k :: 'k :: linorder) < fst x \<Longrightarrow> bt_get A k = None"
  by (induction A) auto

section \<open>The interface to the log\<close>

text \<open>What a node must satisfy to be written: the fill of a node, entries that fit, children in range.\<close>

definition node_fits :: "nat \<Rightarrow> (entry \<Rightarrow> bool) \<Rightarrow> bnode \<Rightarrow> bool" where
  "node_fits cap small n \<longleftrightarrow> length (bn_entries n) < MAX_CHILDREN \<and> length (bn_children n) \<le> MAX_CHILDREN \<and>
     list_all small (bn_entries n) \<and> list_all (\<lambda>c. c < cap) (bn_children n)"

locale node_log =
  fixes io :: "('e, 'b) node_io" and inv :: "'b \<Rightarrow> bool" and log :: "'b \<Rightarrow> bnode list"
    and cap :: nat and small :: "entry \<Rightarrow> bool" and bad :: "'e core_error \<Rightarrow> 'b \<Rightarrow> bool"
  assumes node_law: "\<lbrakk>inv b; s < length (log b)\<rbrakk> \<Longrightarrow>
      case io_node io b s of Inl e \<Rightarrow> bad e b | Inr n \<Rightarrow> n = log b ! s"
    and append_law: "\<lbrakk>inv b; node_fits cap small n; length (log b) < cap; io_append io b n = (r, b')\<rbrakk> \<Longrightarrow>
      case r of Inl e \<Rightarrow> bad e b' | Inr s \<Rightarrow> s = length (log b) \<and> inv b' \<and> log b' = log b @ [n]"
begin

text \<open>\<open>b'\<close> follows \<open>b\<close> by at most \<open>k\<close> appends.\<close>

definition grown :: "nat \<Rightarrow> 'b \<Rightarrow> 'b \<Rightarrow> bool" where
  "grown k b b' \<longleftrightarrow> inv b' \<and> (\<exists>M. log b' = log b @ M \<and> length M \<le> k)"

lemma grown_trans: "grown k b b' \<Longrightarrow> grown l b' b'' \<Longrightarrow> grown (k + l) b b''"
  by (fastforce simp: grown_def)

lemma grown_le: "grown k b b' \<Longrightarrow> k \<le> l \<Longrightarrow> grown l b b'"
  by (fastforce simp: grown_def)

lemma grown_seq: "grown k b b1 \<Longrightarrow> grown l b1 b2 \<Longrightarrow> k + l \<le> m \<Longrightarrow> grown m b b2"
  using grown_trans grown_le by blast

lemma grown_len: "grown k b b' \<Longrightarrow> length (log b') \<le> length (log b) + k"
  by (auto simp: grown_def)

lemma grown_inv: "grown k b b' \<Longrightarrow> inv b'"
  by (simp add: grown_def)

lemma grown_tree: "grown k b b' \<Longrightarrow> tree_at (log b) s t \<Longrightarrow> tree_at (log b') s t"
  by (auto simp: grown_def intro: tree_at_mono)

lemma grown_trees: "grown k b b' \<Longrightarrow> list_all2 (tree_at (log b)) cs ts \<Longrightarrow> list_all2 (tree_at (log b')) cs ts"
  by (auto simp: grown_def intro: trees_at_mono)

lemma look_node:
  assumes "inv b" "tree_at (log b) s (BT es ts)"
    and "\<And>n. bn_entries n = es \<Longrightarrow> list_all2 (tree_at (log b)) (bn_children n) ts \<Longrightarrow> (is_leaf n \<longleftrightarrow> ts = []) \<Longrightarrow>
      \<forall>c \<in> set (bn_children n). c < s \<Longrightarrow> run_ok bad (f n b) Q"
  shows "run_ok bad (then_do (look (io_node io b s) b) f) Q"
proof (rule run_ok_then)
  have s: "s < length (log b)" using tree_at_less [OF assms(2)] .
  let ?n = "log b ! s"
  have "bn_entries ?n = es" "list_all2 (tree_at (log b)) (bn_children ?n) ts" "\<forall>c \<in> set (bn_children ?n). c < s"
    using assms(2) by (auto simp: tree_at.simps)
  moreover from this have "is_leaf ?n \<longleftrightarrow> ts = []" by (auto simp: is_leaf_def)
  ultimately show "run_ok bad (look (io_node io b s) b) (\<lambda>x b. run_ok bad (f x b) Q)"
    using node_law [OF assms(1) s] assms(3) [of ?n] by (cases "io_node io b s") auto
qed

lemma read_node:
  assumes "inv b" "tree_at (log b) s (BT es ts)"
    and "\<And>n. bn_entries n = es \<Longrightarrow> list_all2 (tree_at (log b)) (bn_children n) ts \<Longrightarrow> (is_leaf n \<longleftrightarrow> ts = []) \<Longrightarrow>
      read_ok (\<lambda>e. bad e b) (f n) Q"
  shows "read_ok (\<lambda>e. bad e b) (then_read (Some (io_node io b s)) f) Q"
proof (rule read_ok_then)
  have s: "s < length (log b)" using tree_at_less [OF assms(2)] .
  have "bn_entries (log b ! s) = es" "list_all2 (tree_at (log b)) (bn_children (log b ! s)) ts"
    using assms(2) by (auto simp: tree_at.simps)
  moreover from this have "is_leaf (log b ! s) \<longleftrightarrow> ts = []" by (auto simp: is_leaf_def)
  ultimately show "read_ok (\<lambda>e. bad e b) (Some (io_node io b s)) (\<lambda>x. read_ok (\<lambda>e. bad e b) (f x) Q)"
    using node_law [OF assms(1) s] assms(3) [of "log b ! s"] by (cases "io_node io b s") auto
qed

lemma write_node:
  assumes "inv b" "list_all2 (tree_at (log b)) (bn_children n) ts" "length (log b) < cap"
    and "length (bn_entries n) < MAX_CHILDREN" "length (bn_children n) \<le> MAX_CHILDREN" "list_all small (bn_entries n)"
    and "\<And>b'. inv b' \<Longrightarrow> log b' = log b @ [n] \<Longrightarrow> grown 1 b b' \<Longrightarrow>
      tree_at (log b') (length (log b)) (BT (bn_entries n) ts) \<Longrightarrow> run_ok bad (f (length (log b)) b') Q"
  shows "run_ok bad (then_do (put_node io n b) f) Q"
proof (rule run_ok_then)
  have "node_fits cap small n"
    using assms(3-6) trees_at_less [OF assms(2)] by (fastforce simp: node_fits_def list_all_iff)
  note law = append_law [OF assms(1) this assms(3)]
  show "run_ok bad (put_node io n b) (\<lambda>x b. run_ok bad (f x b) Q)"
  proof (cases "put_node io n b" rule: option_result_cases)
    case (ok s b')
    then have "s = length (log b)" "inv b'" "log b' = log b @ [n]" using law [of "Inr s" b'] by auto
    moreover from this have "grown 1 b b'" by (simp add: grown_def)
    ultimately show ?thesis using assms(7) [of b'] tree_at_new [OF assms(2)] ok by simp
  qed (use law in auto)
qed

subsection \<open>Lookup\<close>

lemma trees_nth: "list_all2 (tree_at L) cs ts \<Longrightarrow> i < length ts \<Longrightarrow> i < length cs \<and> tree_at L (cs ! i) (ts ! i)"
  by (simp add: list_all2_conv_all_nth)

lemma bt_get_mid:
  "\<forall>x \<in> set A. fst x < (k :: 'k :: linorder) \<Longrightarrow> \<forall>x \<in> set C. k < fst x \<Longrightarrow> bt_get (A @ X @ C) k = bt_get X k"
  using bt_get_below [of A k] bt_get_above [of C k] by (simp add: map_add_def split: option.split)

lemma bt_insert_mid:
  "\<forall>x \<in> set A. fst x < k \<Longrightarrow> \<forall>x \<in> set C. k < fst x \<Longrightarrow> bt_insert k v (A @ X @ C) = A @ bt_insert k v X @ C"
  by (simp add: bt_insert_after bt_insert_before)

lemma bsearch_leaf_missing: "bt_inv es \<Longrightarrow> bsearch es k = Inl i \<Longrightarrow> k \<notin> fst ` set es"
proof
  assume es: "bt_inv es" "bsearch es k = Inl i" and "k \<in> fst ` set es"
  then obtain e where e: "e \<in> set es" "fst e = k" by auto
  then have "e \<in> set (take i es) \<or> e \<in> set (drop i es)" by (metis UnE append_take_drop_id set_append)
  then show False using bsearch_missing(2,3) [OF es] e by auto
qed

lemma get_from_ok:
  assumes "inv b" "tree_at (log b) s t" "bal h t" "bt_inv (binorder t)"
  shows "read_ok (\<lambda>e. bad e b) (get_from io b s k) (\<lambda>r. r = bt_get (binorder t) k)"
  using assms(2-4)
proof (induction h arbitrary: s t rule: less_induct)
  case (less h)
  obtain es ts where t: "t = BT es ts" by (cases t)
  have sh: "shape h es ts" and so: "bt_inv (binorder (BT es ts))" using less(3,4) by (auto simp: t bal_iff)
  note es = shape_sorted [OF sh so]
  show ?case
  proof (subst get_from.simps, rule read_node [OF assms(1) less(2) [unfolded t]], goal_cases)
    case (1 n)
    show ?case
    proof (cases "bsearch es k")
      case (Inr i)
      have "(k, snd (es ! i)) \<in> set (binorder (BT es ts))"
        using bsearch_found [OF Inr] shape_ents [OF sh] by (metis nth_mem prod.collapse subset_iff)
      then have "bt_get (binorder t) k = Some (snd (es ! i))" using bt_get_iff [OF so] t by simp
      then show ?thesis using Inr 1(1) by simp
    next
      case (Inl i)
      note m = bsearch_missing [OF es Inl]
      show ?thesis
      proof (cases h)
        case 0
        then have ts: "ts = []" using sh by (simp add: shape_def)
        have "bt_get es k = None" using bsearch_leaf_missing [OF es Inl] by (simp add: map_of_eq_None_iff)
        then show ?thesis using Inl 1 ts t by simp
      next
        case (Suc h')
        have i: "i < length ts" using sh Suc m(1) by (simp add: shape_def)
        note c = trees_nth [OF 1(2) i] and kb = kid_bounds [OF sh [unfolded Suc] m(1) so m(2,3)]
        have "read_ok (\<lambda>e. bad e b) (get_from io b (bn_children n ! i) k) (\<lambda>r. r = bt_get (binorder (ts ! i)) k)"
          using c kb(3) sh Suc i by (intro less(1) [of h']) (auto simp: shape_def)
        moreover have "bt_get (binorder (ts ! i)) k = bt_get (binorder t) k"
          unfolding t binorder_kid(1) [OF sh [unfolded Suc] i] using bt_get_mid [OF kb(1,2)] by simp
        ultimately show ?thesis using Inl 1 c i Suc shape_leaf [OF sh] by auto
      qed
    qed
  qed
qed

subsection \<open>Traversal\<close>

lemma visit_kids_ok:
  assumes "list_all2 (\<lambda>c t. read_ok wrong (visit c) (\<lambda>l. l = binorder t)) cs ts" "length ts = Suc (length es)"
  shows "read_ok wrong (visit_kids visit cs es) (\<lambda>l. l = weave (map binorder ts) es)"
  using assms
proof (induction cs arbitrary: ts es)
  case (Cons c cs)
  then obtain t ts' where ts: "ts = t # ts'" by (cases ts) auto
  show ?case
  proof (cases es)
    case (Cons e es')
    have "read_ok wrong (visit_kids visit cs es') (\<lambda>l. l = weave (map binorder ts') es')"
      using Cons.IH [of ts' es'] Cons.prems Cons ts by auto
    then show ?thesis using Cons.prems Cons ts
      by (auto intro!: read_ok_then elim!: read_ok_weaken)
  qed (use Cons ts in auto)
qed auto

lemma collect_ok:
  assumes "inv b" "tree_at (log b) s t" "bal h t"
  shows "read_ok (\<lambda>e. bad e b) (collect io b s) (\<lambda>r. r = binorder t)"
  using assms(2,3)
proof (induction h arbitrary: s t rule: less_induct)
  case (less h)
  obtain es ts where t: "t = BT es ts" by (cases t)
  have sh: "shape h es ts" using less(3) by (simp add: t bal_iff)
  show ?case
  proof (subst collect.simps, rule read_node [OF assms(1) less(2) [unfolded t]], goal_cases)
    case (1 n)
    show ?case
    proof (cases h)
      case (Suc h')
      have "list_all2 (\<lambda>c t. read_ok (\<lambda>e. bad e b) (collect io b c) (\<lambda>l. l = binorder t)) (bn_children n) ts"
        using 1(2) sh Suc less(1) [of h'] by (auto simp: shape_def intro: list.rel_mono_strong)
      then show ?thesis using 1 sh Suc visit_kids_ok t by (auto simp: shape_def binorder.simps)
    qed (use 1 sh t in \<open>simp add: shape_def\<close>)
  qed
qed

lemma boundary_leaf_len_ok:
  assumes "inv b" "tree_at (log b) s t" "bal h t"
  shows "read_ok (\<lambda>e. bad e b) (boundary_leaf_len io b s leftmost) (\<lambda>_. True)"
  using assms(2,3)
proof (induction h arbitrary: s t rule: less_induct)
  case (less h)
  obtain es ts where t: "t = BT es ts" by (cases t)
  have sh: "shape h es ts" using less(3) by (simp add: t bal_iff)
  show ?case
  proof (subst boundary_leaf_len.simps, rule read_node [OF assms(1) less(2) [unfolded t]], goal_cases)
    case (1 n)
    show ?case
    proof (cases h)
      case (Suc h')
      have ne: "ts \<noteq> []" "bn_children n \<noteq> []" "length (bn_children n) = length ts"
        using sh Suc 1(2) by (auto simp: shape_def list_all2_lengthD)
      have "read_ok (\<lambda>e. bad e b) (boundary_leaf_len io b (bn_children n ! i) leftmost) (\<lambda>_. True)" if "i < length ts" for i
        using trees_nth [OF 1(2) that] that sh Suc by (intro less(1) [of h' _ "ts ! i"]) (auto simp: shape_def)
      then show ?thesis using 1 ne by (auto simp: last_conv_nth)
    qed (use 1 sh in \<open>simp add: shape_def\<close>)
  qed
qed

subsection \<open>Insertion\<close>

text \<open>The result of an insertion below a node of height \<open>h\<close>: its subtree lists \<open>xs\<close>.\<close>

definition ins_res :: "nat \<Rightarrow> entry list \<Rightarrow> nat \<Rightarrow> ins \<Rightarrow> 'b \<Rightarrow> bool" where
  "ins_res h xs m r b \<longleftrightarrow>
     (case r of
        Down s \<Rightarrow> \<exists>t. Suc s = length (log b) \<and> tree_at (log b) s t \<and> bal h t \<and> m \<le> length (bt_ents t) \<and> binorder t = xs
      | Split l e r \<Rightarrow> \<exists>tl tr. tree_at (log b) l tl \<and> tree_at (log b) r tr \<and> bal h tl \<and> bal h tr \<and>
          MIN_KEYS \<le> length (bt_ents tl) \<and> MIN_KEYS \<le> length (bt_ents tr) \<and> binorder tl @ e # binorder tr = xs)"

lemma write_down:
  assumes "inv b" "list_all2 (tree_at (log b)) (bn_children n) ts" "length (log b) < cap"
    and "bal h (BT (bn_entries n) ts)" "list_all small (bn_entries n)"
  shows "run_ok bad (then_do (put_node io n b) (\<lambda>s b. Some (Inr (Down s), b)))
    (\<lambda>r b'. grown 1 b b' \<and> ins_res h (binorder (BT (bn_entries n) ts)) (length (bn_entries n)) r b')"
proof -
  have "length (bn_children n) \<le> MAX_CHILDREN" "length (bn_entries n) < MAX_CHILDREN"
    using assms(4) shape_length list_all2_lengthD [OF assms(2)] by (fastforce simp: bal_iff)+
  then show ?thesis
    using assms by (intro write_node [where ts = ts]) (fastforce simp: ins_res_def)+
qed

text \<open>Splitting a full node around its median.\<close>

lemma shape_split:
  assumes "shape h es ts" "m < length es" "MIN_KEYS \<le> m" "m < MAX_CHILDREN" "MIN_KEYS + m < length es" "length es < MAX_CHILDREN + Suc m"
  defines "l \<equiv> BT (take m es) (take (Suc m) ts)" and "r \<equiv> BT (drop (Suc m) es) (drop (Suc m) ts)"
  shows "bal h l" "bal h r" "MIN_KEYS \<le> length (bt_ents l)" "MIN_KEYS \<le> length (bt_ents r)"
    and "binorder l @ es ! m # binorder r = binorder (BT es ts)"
proof -
  have es: "es = take m es @ es ! m # drop (Suc m) es" using assms(2) by (rule id_take_nth_drop)
  show "bal h l" "bal h r" "MIN_KEYS \<le> length (bt_ents l)" "MIN_KEYS \<le> length (bt_ents r)"
    using assms by (cases h; auto simp: shape_def dest: in_set_takeD in_set_dropD)+
  show "binorder l @ es ! m # binorder r = binorder (BT es ts)"
  proof (cases h)
    case (Suc h')
    have "weave (map binorder (take (Suc m) ts) @ map binorder (drop (Suc m) ts)) (take m es @ es ! m # drop (Suc m) es) =
      weave (map binorder (take (Suc m) ts)) (take m es) @ es ! m # weave (map binorder (drop (Suc m) ts)) (drop (Suc m) es)"
      using assms(1,2) Suc by (intro weave_join) (auto simp: shape_def)
    then show ?thesis unfolding map_append [symmetric] append_take_drop_id es [symmetric] by (simp add: l_def r_def binorder.simps)
  qed (use assms(1) es in \<open>simp add: shape_def l_def r_def\<close>)
qed

lemma finish_ok:
  assumes "inv b" "list_all2 (tree_at (log b)) (bn_children n) ts" "length (log b) + 2 \<le> cap"
    and "shape h (bn_entries n) ts" "length (bn_entries n) \<le> MAX_CHILDREN" "list_all small (bn_entries n)"
  shows "run_ok bad (finish io n b)
    (\<lambda>r b'. grown 2 b b' \<and> ins_res h (binorder (BT (bn_entries n) ts)) (length (bn_entries n)) r b')"
proof (cases "length (bn_entries n) < MAX_CHILDREN")
  case True
  then have "run_ok bad (then_do (put_node io n b) (\<lambda>s b. Some (Inr (Down s), b)))
    (\<lambda>r b'. grown 1 b b' \<and> ins_res h (binorder (BT (bn_entries n) ts)) (length (bn_entries n)) r b')"
    using assms by (intro write_down) (auto simp: bal_iff)
  then show ?thesis using True by (auto simp: finish_def elim!: run_ok_weaken dest: grown_le [of "Suc 0" _ _ 2])
next
  case False
  let ?es = "bn_entries n" and ?cs = "bn_children n"
  have len: "length ?es = 9" "length ?cs = length ts" using False assms(2,5) by (auto dest: list_all2_lengthD)
  let ?l = "\<lparr> bn_entries = take 4 ?es, bn_children = take 5 ?cs \<rparr>" and ?r = "\<lparr> bn_entries = drop 5 ?es, bn_children = drop 5 ?cs \<rparr>"
  note sp = shape_split [OF assms(4), of 4, simplified]
  have sz: "list_all small (take 4 ?es)" "list_all small (drop 5 ?es)" "length ?cs \<le> 10"
    using assms(6) shape_length [OF assms(4)] len by (auto simp: list_all_iff dest: in_set_takeD in_set_dropD)
  have fin: "finish io n b = then_do (put_node io ?l b) (\<lambda>l b. then_do (put_node io ?r b) (\<lambda>r b. Some (Inr (Split l (?es ! 4) r), b)))"
    using len assms(4) by (cases h; cases n) (auto simp: finish_def Let_def is_leaf_def shape_def)
  show ?thesis
    unfolding fin
  proof (rule write_node [where ts = "take 5 ts"], goal_cases)
    case (7 b1)
    show ?case
    proof (rule write_node [where ts = "drop 5 ts"], goal_cases)
      case (7 b2)
      have "grown 2 b b2" using grown_trans [OF \<open>grown 1 b b1\<close> 7(3)] by (simp add: numeral_2_eq_2)
      moreover have "tree_at (log b2) (length (log b)) (BT (take 4 ?es) (take 5 ts))"
        using grown_tree [OF 7(3)] \<open>tree_at (log b1) _ _\<close> by simp
      ultimately show ?case using 7(4) sp len by (fastforce simp: ins_res_def)
    qed (use 7 assms len sz grown_trees [OF 7(3) assms(2)] in \<open>auto simp: list_all2_dropI\<close>)
  qed (use assms len sz in \<open>auto simp: list_all2_takeI\<close>)
qed

lemma ins_res_weaken: "ins_res h xs m r b \<Longrightarrow> m' \<le> m \<Longrightarrow> ins_res h xs m' r b"
  by (auto simp: ins_res_def split: ins.splits intro: le_trans)

lemma shape_new_kid:
  "shape (Suc h) es ts \<Longrightarrow> bal h t \<Longrightarrow> MIN_KEYS \<le> length (bt_ents t) \<Longrightarrow> shape (Suc h) es (ts[i := t])"
  by (auto simp: shape_Suc dest: set_update_subset_insert [THEN subsetD])

lemma shape_split_kid:
  assumes "shape (Suc h) es ts" "i \<le> length es" "bal h l" "MIN_KEYS \<le> length (bt_ents l)" "bal h r" "MIN_KEYS \<le> length (bt_ents r)"
  shows "shape (Suc h) (insert_at i m es) (insert_at (Suc i) r (ts[i := l]))"
  using assms by (auto simp: shape_Suc dest!: set_update_subset_insert [THEN subsetD])

lemma trees_upd:
  "list_all2 (tree_at L) cs ts \<Longrightarrow> tree_at L c t \<Longrightarrow> list_all2 (tree_at L) (cs[i := c]) (ts[i := t])"
  by (rule list_all2_update_cong)

lemma trees_insert_at:
  "list_all2 (tree_at L) cs ts \<Longrightarrow> tree_at L c t \<Longrightarrow> list_all2 (tree_at L) (insert_at i c cs) (insert_at i t ts)"
  by (auto simp: insert_at_def intro!: list_all2_appendI list_all2_takeI list_all2_dropI)

lemma set_bt_insert_subset: "set (bt_insert k v m) \<subseteq> insert (k, v) (set m)"
  by (induction k v m rule: bt_insert.induct) auto

text \<open>Putting the result of an insertion below child \<open>i\<close> into the parent.\<close>

lemma insert_step:
  assumes "inv b" "bn_entries n = es" "list_all2 (tree_at (log b)) (bn_children n) ts" "length (log b) + 2 \<le> cap"
    and sh: "shape (Suc h) es ts" "length es < MAX_CHILDREN" "i \<le> length es"
    and res: "ins_res h x m r b" "MIN_KEYS \<le> m"
    and eq: "\<And>t. binorder t = x \<Longrightarrow> binorder (BT es (ts[i := t])) = y"
      "\<And>l e r. binorder l @ e # binorder r = x \<Longrightarrow> binorder (BT (insert_at i e es) (insert_at (Suc i) r (ts[i := l]))) = y"
    and sm: "list_all small es" "list_all small y"
  shows "run_ok bad (case r of
      Down c' \<Rightarrow> then_do (put_node io (n\<lparr> bn_children := (bn_children n)[i := c'] \<rparr>) b) (\<lambda>s b. Some (Inr (Down s), b))
    | Split l m r \<Rightarrow> finish io \<lparr> bn_entries = insert_at i m (bn_entries n),
        bn_children = insert_at (i + 1) r ((bn_children n)[i := l]) \<rparr> b)
    (\<lambda>r b'. grown 2 b b' \<and> ins_res (Suc h) y (length es) r b')"
proof (cases r)
  case (Down c')
  obtain t where t: "tree_at (log b) c' t" "bal h t" "m \<le> length (bt_ents t)" "binorder t = x"
    using res Down by (auto simp: ins_res_def)
  let ?n = "n\<lparr> bn_children := (bn_children n)[i := c'] \<rparr>"
  have "bal (Suc h) (BT es (ts[i := t]))"
    using shape_new_kid [OF sh(1) t(2)] t(3) res(2) sh(2) by (auto simp: bal_iff)
  then have "run_ok bad (then_do (put_node io ?n b) (\<lambda>s b. Some (Inr (Down s), b)))
    (\<lambda>r b'. grown 1 b b' \<and> ins_res (Suc h) y (length es) r b')"
    using write_down [of b ?n "ts[i := t]" "Suc h"] assms(1-4) trees_upd [OF assms(3) t(1)] sm eq(1) [OF t(4)] by simp
  then show ?thesis using Down by (auto elim!: run_ok_weaken intro: grown_le)
next
  case (Split l e r')
  obtain tl tr where t: "tree_at (log b) l tl" "tree_at (log b) r' tr" "bal h tl" "bal h tr"
      "MIN_KEYS \<le> length (bt_ents tl)" "MIN_KEYS \<le> length (bt_ents tr)" "binorder tl @ e # binorder tr = x"
    using res Split by (auto simp: ins_res_def)
  let ?n = "\<lparr> bn_entries = insert_at i e es, bn_children = insert_at (i + 1) r' ((bn_children n)[i := l]) \<rparr>"
  let ?ts = "insert_at (Suc i) tr (ts[i := tl])"
  note sh' = shape_split_kid [OF sh(1,3) t(3,5,4,6), of e]
  have "small e" using shape_ents [OF sh'] sm(2) eq(2) [OF t(7)] by (auto simp: list_all_iff)
  then have "run_ok bad (finish io ?n b) (\<lambda>r b'. grown 2 b b' \<and> ins_res (Suc h) y (Suc (length es)) r b')"
    using finish_ok [of b ?n ?ts "Suc h"] assms(1-4) trees_insert_at [OF trees_upd [OF assms(3) t(1)] t(2)]
      sm(1) sh' eq(2) [OF t(7)] sh(2,3) by (simp add: list_all_insert_at)
  then show ?thesis using Split assms(2) by (auto elim!: run_ok_weaken intro: ins_res_weaken)
qed

lemma bee_insert_ok:
  assumes "inv b" "tree_at (log b) s t" "bal h t" "bt_inv (binorder t)" "list_all small (binorder t)" "small (k, v)"
    and "length (log b) + 2 * Suc h \<le> cap"
  shows "run_ok bad (bee_insert io s k v b)
    (\<lambda>r b'. grown (2 * Suc h) b b' \<and> ins_res h (bt_insert k v (binorder t)) (length (bt_ents t)) r b')"
  using assms(2-5,7)
proof (induction h arbitrary: s t rule: less_induct)
  case (less h)
  obtain es ts where t: "t = BT es ts" by (cases t)
  have sh: "shape h es ts" "length es < MAX_CHILDREN" and so: "bt_inv (binorder (BT es ts))"
    using less(3,4) by (auto simp: t bal_iff)
  have sm: "list_all small es" using less(5) shape_ents [OF sh(1)] t by (auto simp: list_all_iff)
  note es = shape_sorted [OF sh(1) so]
  show ?case
  proof (subst bee_insert.simps, rule look_node [OF assms(1) less(2) [unfolded t]], goal_cases)
    case (1 n)
    show ?case
    proof (cases "bsearch es k")
      case (Inr i)
      note f = bsearch_found [OF Inr]
      obtain L R where LR: "binorder (BT es ts) = L @ es ! i # R" "\<And>x. binorder (BT (es[i := x]) ts) = L @ x # R"
        using binorder_entry [OF sh(1)] f by blast
      have "binorder (BT (es[i := (k, v)]) ts) = bt_insert k v (binorder (BT es ts))"
        unfolding LR using so LR(1) f bt_insert_replace [of L k v "snd (es ! i)" R]
        by (auto simp: bt_inv_append simp flip: surjective_pairing)
      moreover have "run_ok bad (then_do (put_node io (n\<lparr> bn_entries := es[i := (k, v)] \<rparr>) b) (\<lambda>s b. Some (Inr (Down s), b)))
        (\<lambda>r b'. grown 1 b b' \<and> ins_res h (binorder (BT (es[i := (k, v)]) ts)) (length es) r b')"
        using write_down [of b "n\<lparr> bn_entries := es[i := (k, v)] \<rparr>" ts h] assms(1,6) 1 less(6) sh sm shape_upd
        by (auto simp: bal_iff list_all_iff dest!: set_update_subset_insert [THEN subsetD])
      ultimately show ?thesis
        using Inr 1 f t by (auto elim!: run_ok_weaken dest: grown_le)
    next
      case (Inl i)
      note m = bsearch_missing [OF es Inl]
      show ?thesis
      proof (cases h)
        case 0
        then have ts: "ts = []" using sh by (simp add: shape_def)
        have "bt_insert k v (take i es @ drop i es) = insert_at i (k, v) es"
          using m bt_insert_mid [of "take i es" k "drop i es" v "[]"] by (simp add: insert_at_def)
        then have eq: "bt_insert k v es = insert_at i (k, v) es" by simp
        have "run_ok bad (finish io (n\<lparr> bn_entries := insert_at i (k, v) es \<rparr>) b)
          (\<lambda>r b'. grown 2 b b' \<and> ins_res 0 (insert_at i (k, v) es) (Suc (length es)) r b')"
          using finish_ok [of b "n\<lparr> bn_entries := insert_at i (k, v) es \<rparr>" "[]" 0] assms(1,6) 1 ts less(6) sh sm m(1)
          by (simp add: list_all_insert_at shape_def)
        then show ?thesis using Inl 1 ts t eq 0 by (auto elim!: run_ok_weaken intro: ins_res_weaken grown_le)
      next
        case (Suc h')
        have i: "i < length ts" using sh Suc m(1) by (simp add: shape_def)
        note c = trees_nth [OF 1(2) i] and kb = kid_bounds [OF sh(1) [unfolded Suc] m(1) so m(2,3)]
        note mid = binorder_kid [OF sh(1) [unfolded Suc] i]
        let ?t = "ts ! i"
        have kid: "bal h' ?t" "MIN_KEYS \<le> length (bt_ents ?t)" "list_all small (binorder ?t)"
          using sh Suc i less(5) shape_kid [OF sh(1) [unfolded Suc], of ?t] t by (auto simp: shape_def list_all_iff)
        have IH: "run_ok bad (bee_insert io (bn_children n ! i) k v b)
          (\<lambda>r b'. grown (2 * Suc h') b b' \<and> ins_res h' (bt_insert k v (binorder ?t)) (length (bt_ents ?t)) r b')"
          using c kb(3) kid less(6) Suc by (intro less(1) [of h']) auto
        have eq: "bt_insert k v (binorder t) = lefts (map binorder (take i ts)) (take i es) @ bt_insert k v (binorder ?t) @
            rights (drop i es) (map binorder (drop (Suc i) ts))"
          unfolding t mid(1) by (rule bt_insert_mid [OF kb(1,2)])
        have "run_ok bad (then_do (bee_insert io (bn_children n ! i) k v b) (\<lambda>r b.
            case r of
              Down c' \<Rightarrow> then_do (put_node io (n\<lparr> bn_children := (bn_children n)[i := c'] \<rparr>) b) (\<lambda>s b. Some (Inr (Down s), b))
            | Split l m r \<Rightarrow> finish io \<lparr> bn_entries = insert_at i m (bn_entries n),
                bn_children = insert_at (i + 1) r ((bn_children n)[i := l]) \<rparr> b))
            (\<lambda>r b'. grown (2 * Suc h) b b' \<and> ins_res h (bt_insert k v (binorder t)) (length (bt_ents t)) r b')"
        proof (rule run_ok_then, rule run_ok_weaken [OF IH], elim conjE, goal_cases)
          case (1 r b1)
          have "run_ok bad (case r of
              Down c' \<Rightarrow> then_do (put_node io (n\<lparr> bn_children := (bn_children n)[i := c'] \<rparr>) b1) (\<lambda>s b. Some (Inr (Down s), b))
            | Split l m r \<Rightarrow> finish io \<lparr> bn_entries = insert_at i m (bn_entries n),
                bn_children = insert_at (i + 1) r ((bn_children n)[i := l]) \<rparr> b1)
            (\<lambda>r b'. grown 2 b1 b' \<and> ins_res (Suc h') (bt_insert k v (binorder t)) (length es) r b')"
            using \<open>bn_entries n = es\<close> grown_len [OF 1(1)] grown_trees [OF 1(1) \<open>list_all2 _ _ ts\<close>] less(5,6) Suc assms(6) sh sm kid(2) m(1)
              grown_inv [OF 1(1)] eq mid(2,3) 1(2) t set_bt_insert_subset [of k v "binorder t"]
            by (intro insert_step [where ts = ts and x = "bt_insert k v (binorder ?t)" and m = "length (bt_ents ?t)"])
              (auto simp: list_all_iff)
          then show ?case using t Suc grown_seq [OF 1(1), of 2] by (auto elim!: run_ok_weaken)
        qed
        moreover have "\<not> is_leaf n" using 1(3) i by auto
        ultimately show ?thesis using Inl 1(1) c by simp
      qed
    qed
  qed
qed

subsection \<open>Deletion\<close>

text \<open>The node handed to \<open>rebalance\<close>, and the node it returns.\<close>

definition low_node :: "nat \<Rightarrow> bnode \<Rightarrow> btree list \<Rightarrow> nat \<Rightarrow> 'b \<Rightarrow> bool" where
  "low_node h n ts i b \<longleftrightarrow> inv b \<and> list_all2 (tree_at (log b)) (bn_children n) ts \<and>
     low_shape h (bn_entries n) ts i \<and> list_all small (binorder (BT (bn_entries n) ts)) \<and>
     length (bn_entries n) < MAX_CHILDREN \<and> length (log b) + 2 \<le> cap \<and> i < length ts"

definition rebalanced :: "nat \<Rightarrow> entry list \<Rightarrow> nat \<Rightarrow> bnode \<Rightarrow> 'b \<Rightarrow> bool" where
  "rebalanced h xs k n b \<longleftrightarrow> (\<exists>ts. list_all2 (tree_at (log b)) (bn_children n) ts \<and> shape (Suc h) (bn_entries n) ts \<and>
     binorder (BT (bn_entries n) ts) = xs \<and> length (bn_entries n) \<le> k \<and> k \<le> Suc (length (bn_entries n)))"

text \<open>Two neighbouring children of such a node, the low one among them.\<close>

lemma low_pair:
  assumes "low_node h n ts i b" "j < length (bn_entries n)" "i = j \<or> i = Suc j"
  obtains les lts res rts where "ts ! j = BT les lts" "ts ! Suc j = BT res rts"
    "tree_at (log b) (bn_children n ! j) (BT les lts)" "tree_at (log b) (bn_children n ! Suc j) (BT res rts)"
    "bal h (BT les lts)" "bal h (BT res rts)" "list_all small les" "list_all small res" "small (bn_entries n ! j)"
    "length ts = Suc (length (bn_entries n))" "length (bn_children n) = length ts"
    "MIN_KEYS \<le> Suc (length les)" "MIN_KEYS \<le> Suc (length res)"
    "i \<noteq> j \<longrightarrow> MIN_KEYS \<le> length les" "i = j \<longrightarrow> MIN_KEYS \<le> length res" "length les < MAX_CHILDREN" "length res < MAX_CHILDREN"
proof -
  let ?es = "bn_entries n"
  have tr: "list_all2 (tree_at (log b)) (bn_children n) ts" and low: "low_shape h ?es ts i"
    and sm: "list_all small (binorder (BT ?es ts))"
    using assms(1) by (auto simp: low_node_def)
  obtain les lts res rts where lt: "ts ! j = BT les lts" and rt: "ts ! Suc j = BT res rts" by (metis btree.exhaust)
  have len: "length ts = Suc (length ?es)" "length (bn_children n) = length ts"
    using low list_all2_lengthD [OF tr] by (auto simp: low_shape_def)
  have j: "j < length ts" "Suc j < length ts" using len assms(2) by auto
  have at: "tree_at (log b) (bn_children n ! j) (BT les lts)" "tree_at (log b) (bn_children n ! Suc j) (BT res rts)"
    using trees_nth [OF tr j(1)] trees_nth [OF tr j(2)] lt rt by auto
  have fill: "bal h (ts ! j) \<and> (if j = i then MIN_KEYS \<le> Suc (length (bt_ents (ts ! j))) else MIN_KEYS \<le> length (bt_ents (ts ! j)))"
      "bal h (ts ! Suc j) \<and> (if Suc j = i then MIN_KEYS \<le> Suc (length (bt_ents (ts ! Suc j))) else MIN_KEYS \<le> length (bt_ents (ts ! Suc j)))"
    using low j unfolding low_shape_def by blast+
  have mem: "BT les lts \<in> set ts" "BT res rts \<in> set ts" using j lt rt by (metis nth_mem)+
  have smk: "list_all small les" "list_all small res" "small (?es ! j)"
    using sm low_shape_ents [OF low] low_shape_kid_ents [OF low mem(1)] low_shape_kid_ents [OF low mem(2)] nth_mem [OF assms(2)]
    by (auto simp: list_all_iff)
  have b: "bal h (BT les lts)" "bal h (BT res rts)" "length les < MAX_CHILDREN" "length res < MAX_CHILDREN"
    using fill lt rt by (auto simp: bal_iff)
  have f: "MIN_KEYS \<le> Suc (length les)" "MIN_KEYS \<le> Suc (length res)" "i \<noteq> j \<longrightarrow> MIN_KEYS \<le> length les" "i = j \<longrightarrow> MIN_KEYS \<le> length res"
    using fill lt rt by (auto split: if_splits)
  show ?thesis
    using lt rt at b(1,2) smk len f b(3,4) by (rule that)
qed

lemma low_node_inv: "low_node h n ts i b \<Longrightarrow> inv b"
  by (simp add: low_node_def)

text \<open>Writing back two neighbours, and their node with the new pointers.\<close>

lemma write_pair:
  assumes low: "low_node h n ts i b" and j: "j < length (bn_entries n)" "i = j \<or> i = Suc j"
    and l: "list_all2 (tree_at (log b)) (bn_children l) lts" "list_all small (bn_entries l)"
      "bal h (BT (bn_entries l) lts)" "MIN_KEYS \<le> length (bn_entries l)"
    and r: "list_all2 (tree_at (log b)) (bn_children r) rts" "list_all small (bn_entries r)"
      "bal h (BT (bn_entries r) rts)" "MIN_KEYS \<le> length (bn_entries r)"
    and eq: "binorder (ts ! j) @ bn_entries n ! j # binorder (ts ! Suc j) =
      binorder (BT (bn_entries l) lts) @ e # binorder (BT (bn_entries r) rts)"
  shows "run_ok bad (then_do (put_node io l b) (\<lambda>ls b. then_do (put_node io r b) (\<lambda>rs b.
      Some (Inr (n\<lparr> bn_entries := (bn_entries n)[j := e], bn_children := (bn_children n)[j := ls, Suc j := rs] \<rparr>), b))))
    (\<lambda>n' b'. grown 2 b b' \<and> rebalanced h (binorder (BT (bn_entries n) ts)) (length (bn_entries n)) n' b')"
proof -
  let ?es = "bn_entries n" and ?l = "BT (bn_entries l) lts" and ?r = "BT (bn_entries r) rts"
  have tr: "list_all2 (tree_at (log b)) (bn_children n) ts" and ls: "low_shape h ?es ts i" and cap: "length (log b) + 2 \<le> cap"
    using low by (auto simp: low_node_def)
  have fit: "length (bn_entries l) < MAX_CHILDREN" "length (bn_children l) \<le> MAX_CHILDREN"
      "length (bn_entries r) < MAX_CHILDREN" "length (bn_children r) \<le> MAX_CHILDREN"
    using l(1,3) r(1,3) list_all2_lengthD [OF l(1)] list_all2_lengthD [OF r(1)]
    by (auto simp: bal_iff dest!: shape_length)
  note pair = binorder_pair [OF _ j(1), of ts]
  have sh: "shape (Suc h) (?es[j := e]) (ts[j := ?l, Suc j := ?r])"
    using l r by (intro low_shape_pair [OF ls j]) auto
  have eq': "binorder (BT (?es[j := e]) (ts[j := ?l, Suc j := ?r])) = binorder (BT ?es ts)"
    using ls eq pair(1,2) by (simp add: low_shape_def)
  show ?thesis
  proof (rule write_node [OF low_node_inv [OF low] l(1)], goal_cases)
    case (5 b1)
    show ?case
    proof (rule write_node [OF 5(1) grown_trees [OF 5(3) r(1)]], goal_cases)
      case (5 b2)
      have g: "grown 2 b b2" using grown_seq [OF \<open>grown 1 b b1\<close> 5(3)] by simp
      have "list_all2 (tree_at (log b2)) ((bn_children n)[j := length (log b), Suc j := length (log b1)]) (ts[j := ?l, Suc j := ?r])"
        using grown_trees [OF g tr] grown_tree [OF 5(3) \<open>tree_at (log b1) _ ?l\<close>] 5(4) by (intro trees_upd)
      then show ?case using g sh eq' by (auto simp: rebalanced_def)
    qed (use 5 cap fit r in auto)
  qed (use cap fit l in auto)
qed

lemma list_all2_ends:
  assumes "list_all2 P xs ys"
  shows "list_all2 P (butlast xs) (butlast ys)" "list_all2 P (tl xs) (tl ys)"
    and "ys \<noteq> [] \<Longrightarrow> P (last xs) (last ys)" "ys \<noteq> [] \<Longrightarrow> P (hd xs) (hd ys)"
proof -
  show "list_all2 P (butlast xs) (butlast ys)"
    using assms list_all2_lengthD [OF assms] by (simp add: butlast_conv_take list_all2_takeI)
  show "list_all2 P (tl xs) (tl ys)" "ys \<noteq> [] \<Longrightarrow> P (hd xs) (hd ys)" using assms by (cases xs; cases ys; auto)+
  show "P (last xs) (last ys)" if "ys \<noteq> []"
    using assms that list_all2_lengthD [OF assms] by (cases ys rule: rev_cases; cases xs rule: rev_cases) (auto simp: list_all2_append)
qed

lemma borrow_left_ok:
  assumes low: "low_node h n ts i b" and i: "0 < i" "length (bt_ents (ts ! i)) < MIN_KEYS"
    and left: "bn_entries left = bt_ents (ts ! (i - 1))" "list_all2 (tree_at (log b)) (bn_children left) (bt_kids (ts ! (i - 1)))"
      "MIN_KEYS < length (bn_entries left)"
  shows "run_ok bad (borrow_left io n i left b)
    (\<lambda>n' b'. grown 2 b b' \<and> rebalanced h (binorder (BT (bn_entries n) ts)) (length (bn_entries n)) n' b')"
proof -
  obtain j where j: "i = Suc j" using i(1) by (cases i) auto
  have jl: "j < length (bn_entries n)" using low j by (auto simp: low_node_def low_shape_def)
  obtain les lts res rts where p: "ts ! j = BT les lts" "ts ! Suc j = BT res rts"
    "tree_at (log b) (bn_children n ! Suc j) (BT res rts)" "bal h (BT les lts)" "bal h (BT res rts)"
    "list_all small les" "list_all small res" "small (bn_entries n ! j)"
    "length ts = Suc (length (bn_entries n))" "length (bn_children n) = length ts" "MIN_KEYS \<le> Suc (length res)"
    using low_pair [OF low jl] j by metis
  have ne: "les \<noteq> []" "length res < MIN_KEYS" "MIN_KEYS < length les" "bn_entries left = les"
    "list_all2 (tree_at (log b)) (bn_children left) lts"
    using left i(2) j p(1,2) by auto
  note rot = rotate_right(1,3) [OF p(4,5) ne(1,2), of "bn_entries n ! j"] rotate_right(2) [OF p(4,5) ne(1,2)]
  let ?l = "\<lparr> bn_entries = butlast les, bn_children = butlast (bn_children left) \<rparr>"
  show ?thesis
    unfolding borrow_left_def
  proof (simp add: j jl p(9,10), rule look_node [OF low_node_inv [OF low] p(3)], goal_cases)
    case (1 child)
    let ?r = "\<lparr> bn_entries = bn_entries n ! j # res,
      bn_children = (if lts = [] then bn_children child else last (bn_children left) # bn_children child) \<rparr>"
    have leaf: "is_leaf left \<longleftrightarrow> lts = []" using ne(5) by (auto simp: is_leaf_def)
    have "run_ok bad (then_do (put_node io ?l b) (\<lambda>ls b. then_do (put_node io ?r b) (\<lambda>rs b.
        Some (Inr (n\<lparr> bn_entries := (bn_entries n)[j := last les], bn_children := (bn_children n)[j := ls, Suc j := rs] \<rparr>), b))))
      (\<lambda>n' b'. grown 2 b b' \<and> rebalanced h (binorder (BT (bn_entries n) ts)) (length (bn_entries n)) n' b')"
      using ne p 1 rot j list_all2_ends(1,3) [OF ne(5)]
      by (intro write_pair [OF low jl, where lts = "butlast lts" and rts = "if lts = [] then rts else last lts # rts"])
        (auto simp: list_all_iff dest: in_set_butlastD)
    then show ?case using ne leaf 1 by (cases left; cases child) (auto simp: Let_def)
  qed
qed

lemma borrow_right_ok:
  assumes low: "low_node h n ts i b" and i: "Suc i < length ts" "length (bt_ents (ts ! i)) < MIN_KEYS"
    and right: "bn_entries right = bt_ents (ts ! Suc i)" "list_all2 (tree_at (log b)) (bn_children right) (bt_kids (ts ! Suc i))"
      "MIN_KEYS < length (bn_entries right)"
  shows "run_ok bad (borrow_right io n i right b)
    (\<lambda>n' b'. grown 2 b b' \<and> rebalanced h (binorder (BT (bn_entries n) ts)) (length (bn_entries n)) n' b')"
proof -
  have jl: "i < length (bn_entries n)" using low i by (auto simp: low_node_def low_shape_def)
  obtain les lts res rts where p: "ts ! i = BT les lts" "ts ! Suc i = BT res rts"
    "tree_at (log b) (bn_children n ! i) (BT les lts)" "bal h (BT les lts)" "bal h (BT res rts)"
    "list_all small les" "list_all small res" "small (bn_entries n ! i)"
    "length ts = Suc (length (bn_entries n))" "length (bn_children n) = length ts" "MIN_KEYS \<le> Suc (length les)"
    using low_pair [OF low jl] by metis
  have ne: "res \<noteq> []" "length les < MIN_KEYS" "MIN_KEYS < length res" "bn_entries right = res"
    "list_all2 (tree_at (log b)) (bn_children right) rts"
    using right i(2) p(1,2) by auto
  note rot = rotate_left(1,2) [OF p(4,5) ne(1,2), of "bn_entries n ! i"] rotate_left(3) [OF p(4,5) ne(1,2)]
  let ?r = "\<lparr> bn_entries = tl res, bn_children = tl (bn_children right) \<rparr>"
  show ?thesis
    unfolding borrow_right_def
  proof (simp add: jl p(9,10) less_SucI, rule look_node [OF low_node_inv [OF low] p(3)], goal_cases)
    case (1 child)
    let ?l = "\<lparr> bn_entries = les @ [bn_entries n ! i],
      bn_children = (if rts = [] then bn_children child else bn_children child @ [hd (bn_children right)]) \<rparr>"
    have leaf: "is_leaf right \<longleftrightarrow> rts = []" using ne(5) by (auto simp: is_leaf_def)
    have "run_ok bad (then_do (put_node io ?l b) (\<lambda>ls b. then_do (put_node io ?r b) (\<lambda>rs b.
        Some (Inr (n\<lparr> bn_entries := (bn_entries n)[i := hd res], bn_children := (bn_children n)[i := ls, Suc i := rs] \<rparr>), b))))
      (\<lambda>n' b'. grown 2 b b' \<and> rebalanced h (binorder (BT (bn_entries n) ts)) (length (bn_entries n)) n' b')"
      using ne p 1 rot list_all2_ends(2,4) [OF ne(5)]
      by (intro write_pair [OF low jl, where lts = "if rts = [] then lts else lts @ [hd rts]" and rts = "tl rts"])
        (auto simp: list_all_iff intro: list_all2_appendI dest: list.set_sel(2))
    then show ?case using ne leaf 1 by (cases right; cases child) (auto simp: Let_def)
  qed
qed

lemma trees_remove_at:
  "list_all2 (tree_at L) cs ts \<Longrightarrow> list_all2 (tree_at L) (remove_at i cs) (remove_at i ts)"
  by (auto simp: remove_at_def intro!: list_all2_appendI list_all2_takeI list_all2_dropI)

lemma merge_at_ok:
  assumes low: "low_node h n ts i b" and j: "j < length (bn_entries n)" "i = j \<or> i = Suc j"
    and few: "length (bt_ents (ts ! j)) + length (bt_ents (ts ! Suc j)) < MAX_CHILDREN - 1"
  shows "run_ok bad (then_do (look (io_node io b (bn_children n ! j)) b) (\<lambda>left b.
         then_do (look (io_node io b (bn_children n ! Suc j)) b) (\<lambda>right b.
         then_do (put_node io \<lparr> bn_entries = bn_entries left @ [bn_entries n ! j] @ bn_entries right,
                             bn_children = bn_children left @ bn_children right \<rparr> b) (\<lambda>merged b.
           Some (Inr \<lparr> bn_entries = remove_at j (bn_entries n),
                       bn_children = (remove_at (Suc j) (bn_children n))[j := merged] \<rparr>, b)))))
    (\<lambda>n' b'. grown 2 b b' \<and> rebalanced h (binorder (BT (bn_entries n) ts)) (length (bn_entries n)) n' b')"
proof -
  let ?es = "bn_entries n"
  obtain les lts res rts where p: "ts ! j = BT les lts" "ts ! Suc j = BT res rts"
    "tree_at (log b) (bn_children n ! j) (BT les lts)" "tree_at (log b) (bn_children n ! Suc j) (BT res rts)"
    "bal h (BT les lts)" "bal h (BT res rts)" "list_all small les" "list_all small res" "small (?es ! j)"
    "length ts = Suc (length ?es)" "length (bn_children n) = length ts" "MIN_KEYS \<le> Suc (length les)"
    using low_pair [OF low j] by metis
  have tr: "list_all2 (tree_at (log b)) (bn_children n) ts" and ls: "low_shape h ?es ts i" and cap: "length (log b) + 2 \<le> cap"
    using low by (auto simp: low_node_def)
  let ?t = "BT (les @ [?es ! j] @ res) (lts @ rts)"
  have few': "length les + length res < MAX_CHILDREN - 1" using few p(1,2) by simp
  have m: "binorder (BT les lts) @ ?es ! j # binorder (BT res rts) = binorder ?t" "bal h ?t"
    using merge_pair [OF p(5,6) few'] by auto
  have sh: "shape (Suc h) (remove_at j ?es) ((remove_at (Suc j) ts)[j := ?t])"
    using m(2) p(12) by (intro low_shape_merge [OF ls j]) auto
  have eq: "binorder (BT (remove_at j ?es) ((remove_at (Suc j) ts)[j := ?t])) = binorder (BT ?es ts)"
    unfolding binorder_pair(1,3) [OF p(10) j(1)] using m(1) p(1,2) by simp
  show ?thesis
  proof (rule look_node [OF low_node_inv [OF low] p(3)], goal_cases)
    case (1 left)
    show ?case
    proof (rule look_node [OF low_node_inv [OF low] p(4)], goal_cases)
      case (1 right)
      let ?m = "\<lparr> bn_entries = les @ [?es ! j] @ res, bn_children = bn_children left @ bn_children right \<rparr>"
      have c: "list_all2 (tree_at (log b)) (bn_children ?m) (lts @ rts)"
        using 1(2) \<open>list_all2 _ (bn_children left) lts\<close> by (simp add: list_all2_appendI)
      have len: "length (lts @ rts) \<le> MAX_CHILDREN" using m(2) few' shape_length by (fastforce simp: bal_iff)
      have "run_ok bad (then_do (put_node io ?m b) (\<lambda>merged b.
           Some (Inr \<lparr> bn_entries = remove_at j ?es, bn_children = (remove_at (Suc j) (bn_children n))[j := merged] \<rparr>, b)))
        (\<lambda>n' b'. grown 2 b b' \<and> rebalanced h (binorder (BT ?es ts)) (length ?es) n' b')"
      proof (rule write_node [OF low_node_inv [OF low] c], goal_cases)
        case (5 b1)
        have "list_all2 (tree_at (log b1)) ((remove_at (Suc j) (bn_children n))[j := length (log b)]) ((remove_at (Suc j) ts)[j := ?t])"
          using grown_trees [OF 5(3) tr] 5(4) by (intro trees_upd trees_remove_at) auto
        moreover have "grown 2 b b1" using 5(3) by (rule grown_le) simp
        ultimately show ?case using sh eq j by (auto simp: rebalanced_def)
      qed (use cap few' list_all2_lengthD [OF c] len p in auto)
      then show ?case using 1(1) \<open>bn_entries left = les\<close> by simp
    qed
  qed
qed

lemma merge_kids_ok:
  assumes low: "low_node h n ts i b" and es: "bn_entries n \<noteq> []" and i: "length (bt_ents (ts ! i)) < MIN_KEYS"
    and few: "if 0 < i then length (bt_ents (ts ! (i - 1))) \<le> MIN_KEYS else length (bt_ents (ts ! Suc i)) \<le> MIN_KEYS"
  shows "run_ok bad (merge_kids io n i b)
    (\<lambda>n' b'. grown 2 b b' \<and> rebalanced h (binorder (BT (bn_entries n) ts)) (length (bn_entries n)) n' b')"
proof -
  define j where "j = (if 0 < i then i - 1 else i)"
  have len: "length ts = Suc (length (bn_entries n))" "length (bn_children n) = length ts" "i < length ts"
    using low by (auto simp: low_node_def low_shape_def dest: list_all2_lengthD)
  have j: "j < length (bn_entries n)" "i = j \<or> i = Suc j" using len(1,3) es by (auto simp: j_def)
  have "length (bt_ents (ts ! j)) + length (bt_ents (ts ! Suc j)) < MAX_CHILDREN - 1"
    using i few by (auto simp: j_def split: if_splits)
  note m = merge_at_ok [OF low j this]
  have "merge_kids io n i b = then_do (look (io_node io b (bn_children n ! j)) b) (\<lambda>left b.
         then_do (look (io_node io b (bn_children n ! Suc j)) b) (\<lambda>right b.
         then_do (put_node io \<lparr> bn_entries = bn_entries left @ [bn_entries n ! j] @ bn_entries right,
                             bn_children = bn_children left @ bn_children right \<rparr> b) (\<lambda>merged b.
           Some (Inr \<lparr> bn_entries = remove_at j (bn_entries n),
                       bn_children = (remove_at (Suc j) (bn_children n))[j := merged] \<rparr>, b))))"
    using len j by (auto simp: merge_kids_def j_def)
  then show ?thesis using m by simp
qed

lemma try_right_ok:
  assumes low: "low_node h n ts i b" and es: "bn_entries n \<noteq> []" and i: "length (bt_ents (ts ! i)) < MIN_KEYS"
    and few: "0 < i \<Longrightarrow> length (bt_ents (ts ! (i - 1))) \<le> MIN_KEYS"
  shows "run_ok bad (try_right io n i b)
    (\<lambda>n' b'. grown 2 b b' \<and> rebalanced h (binorder (BT (bn_entries n) ts)) (length (bn_entries n)) n' b')"
proof -
  have tr: "list_all2 (tree_at (log b)) (bn_children n) ts" and len: "length ts = Suc (length (bn_entries n))" "i < length ts"
    using low by (auto simp: low_node_def low_shape_def)
  note clen = list_all2_lengthD [OF tr]
  have mk: "run_ok bad (merge_kids io n i b)
    (\<lambda>n' b'. grown 2 b b' \<and> rebalanced h (binorder (BT (bn_entries n) ts)) (length (bn_entries n)) n' b')"
    if "0 < i \<or> length (bt_ents (ts ! Suc i)) \<le> MIN_KEYS"
    using merge_kids_ok [OF low es i] few that by (cases "0 < i") auto
  show ?thesis
  proof (cases "Suc i < length ts")
    case True
    obtain res rts where rt: "ts ! Suc i = BT res rts" by (cases "ts ! Suc i")
    have "run_ok bad (then_do (look (io_node io b (bn_children n ! Suc i)) b) (\<lambda>right b.
        if MIN_KEYS < length (bn_entries right) then borrow_right io n i right b else merge_kids io n i b))
      (\<lambda>n' b'. grown 2 b b' \<and> rebalanced h (binorder (BT (bn_entries n) ts)) (length (bn_entries n)) n' b')"
    proof (rule look_node [OF low_node_inv [OF low]])
      show "tree_at (log b) (bn_children n ! Suc i) (BT res rts)" using trees_nth [OF tr True] rt by simp
    qed (use borrow_right_ok [OF low True i] mk rt in auto)
    then show ?thesis using True clen by (simp add: try_right_def)
  next
    case False
    then have "0 < i" using len es by (cases i) auto
    then show ?thesis using False clen mk by (simp add: try_right_def)
  qed
qed

lemma rebalance_ok:
  assumes low: "low_node h n ts i b" and es: "bn_entries n \<noteq> []" and i: "length (bt_ents (ts ! i)) < MIN_KEYS"
  shows "run_ok bad (rebalance io n i b)
    (\<lambda>n' b'. grown 2 b b' \<and> rebalanced h (binorder (BT (bn_entries n) ts)) (length (bn_entries n)) n' b')"
proof (cases "0 < i")
  case True
  have tr: "list_all2 (tree_at (log b)) (bn_children n) ts" and len: "i - 1 < length ts"
    using low by (auto simp: low_node_def)
  obtain les lts where lt: "ts ! (i - 1) = BT les lts" by (cases "ts ! (i - 1)")
  have "run_ok bad (then_do (look (io_node io b (bn_children n ! (i - 1))) b) (\<lambda>left b.
      if MIN_KEYS < length (bn_entries left) then borrow_left io n i left b else try_right io n i b))
    (\<lambda>n' b'. grown 2 b b' \<and> rebalanced h (binorder (BT (bn_entries n) ts)) (length (bn_entries n)) n' b')"
  proof (rule look_node [OF low_node_inv [OF low]])
    show "tree_at (log b) (bn_children n ! (i - 1)) (BT les lts)" using trees_nth [OF tr len] lt by simp
  qed (use borrow_left_ok [OF low True i] try_right_ok [OF low es i] lt in auto)
  then show ?thesis using True trees_nth [OF tr len] by (simp add: rebalance_def)
qed (use try_right_ok [OF low es i] in \<open>simp add: rebalance_def\<close>)

text \<open>The result of a deletion below a node: the subtree rewritten at the end of the log lists \<open>xs\<close>.\<close>

definition del_res :: "nat \<Rightarrow> entry list \<Rightarrow> nat \<Rightarrow> nat \<Rightarrow> bool \<Rightarrow> 'b \<Rightarrow> bool" where
  "del_res h xs k s u b \<longleftrightarrow> (\<exists>t. Suc s = length (log b) \<and> tree_at (log b) s t \<and> bal h t \<and> binorder t = xs \<and>
     k \<le> Suc (length (bt_ents t)) \<and> (u \<longleftrightarrow> length (bt_ents t) < MIN_KEYS))"

lemma write_del:
  assumes "inv b" "list_all2 (tree_at (log b)) (bn_children n) ts" "length (log b) < cap"
    and "bal h (BT (bn_entries n) ts)" "list_all small (bn_entries n)" "k \<le> Suc (length (bn_entries n))"
    and "\<And>s b'. grown 1 b b' \<Longrightarrow> del_res h (binorder (BT (bn_entries n) ts)) k s (length (bn_entries n) < MIN_KEYS) b' \<Longrightarrow> run_ok bad (f s b') Q"
  shows "run_ok bad (then_do (put_node io n b) f) Q"
proof -
  have "length (bn_children n) \<le> MAX_CHILDREN" "length (bn_entries n) < MAX_CHILDREN"
    using assms(4) shape_length list_all2_lengthD [OF assms(2)] by (fastforce simp: bal_iff)+
  then show ?thesis
    using assms by (intro write_node [where ts = ts]) (fastforce simp: del_res_def)+
qed

lemma fix_child_ok:
  assumes low: "low_node h n ts i b" and es: "bn_entries n \<noteq> []" and u: "u \<longleftrightarrow> length (bt_ents (ts ! i)) < MIN_KEYS"
    and cap: "length (log b) + 3 \<le> cap"
  shows "run_ok bad (fix_child io n i u b)
    (\<lambda>(s, u') b'. grown 3 b b' \<and> del_res (Suc h) (binorder (BT (bn_entries n) ts)) (length (bn_entries n)) s u' b')"
proof -
  have sm: "list_all small (binorder (BT (bn_entries n) ts))" and tr: "list_all2 (tree_at (log b)) (bn_children n) ts"
    and i: "i < length ts" and len: "length (bn_entries n) < MAX_CHILDREN" and ls: "low_shape h (bn_entries n) ts i"
    using low by (auto simp: low_node_def)
  have reb: "run_ok bad (if u then rebalance io n i b else Some (Inr n, b))
    (\<lambda>n' b'. grown 2 b b' \<and> rebalanced h (binorder (BT (bn_entries n) ts)) (length (bn_entries n)) n' b')"
  proof (cases u)
    case False
    then have "shape (Suc h) (bn_entries n) ts" using low_shape_full [OF ls i] u by simp
    then show ?thesis using False tr low_node_inv [OF low] by (auto simp: rebalanced_def grown_def)
  qed (use rebalance_ok [OF low es] u in simp)
  show ?thesis
    unfolding fix_child_def
  proof (rule run_ok_then, rule run_ok_weaken [OF reb], elim conjE, goal_cases)
    case (1 n' b1)
    obtain ts' where t: "list_all2 (tree_at (log b1)) (bn_children n') ts'" "shape (Suc h) (bn_entries n') ts'"
      "binorder (BT (bn_entries n') ts') = binorder (BT (bn_entries n) ts)" "length (bn_entries n') \<le> length (bn_entries n)"
      "length (bn_entries n) \<le> Suc (length (bn_entries n'))"
      using 1(2) by (auto simp: rebalanced_def)
    have "list_all small (bn_entries n')" using shape_ents [OF t(2)] t(3) sm by (auto simp: list_all_iff)
    then show ?case
      using t len grown_len [OF 1(1)] cap grown_inv [OF 1(1)] grown_seq [OF 1(1), of 1]
      by (intro write_del [where ts = ts' and h = "Suc h" and k = "length (bn_entries n)"]) (auto simp: bal_iff)
  qed
qed

text \<open>After a deletion below child \<open>i\<close>, the parent with the new pointer goes through \<open>fix_child\<close>.\<close>

lemma fix_kid:
  assumes g: "grown k b b1" and tr: "list_all2 (tree_at (log b)) (bn_children n) ts" and sh: "shape (Suc h) (bn_entries n) ts"
    and len: "length (bn_entries n) < MAX_CHILDREN" "bn_entries n \<noteq> []" and i: "i < length ts"
    and res: "del_res h x m s u b1" "MIN_KEYS \<le> m"
    and eq: "\<And>t. binorder t = x \<Longrightarrow> binorder (BT (bn_entries n) (ts[i := t])) = y" "list_all small y"
    and cap: "length (log b) + k + 3 \<le> cap" "k + 3 \<le> l"
  shows "run_ok bad (fix_child io (n\<lparr> bn_children := (bn_children n)[i := s] \<rparr>) i u b1)
    (\<lambda>(s, u') b'. grown l b b' \<and> del_res (Suc h) y (length (bn_entries n)) s u' b')"
proof -
  obtain t where t: "tree_at (log b1) s t" "bal h t" "binorder t = x" "m \<le> Suc (length (bt_ents t))" "u \<longleftrightarrow> length (bt_ents t) < MIN_KEYS"
    using res by (auto simp: del_res_def)
  let ?n = "n\<lparr> bn_children := (bn_children n)[i := s] \<rparr>"
  have "low_node h ?n (ts[i := t]) i b1"
    using grown_inv [OF g] grown_len [OF g] cap trees_upd [OF grown_trees [OF g tr] t(1)] low_shape_upd [OF sh t(2)] t(4) res(2)
      eq(1) [OF t(3)] eq(2) len i by (auto simp: low_node_def)
  from fix_child_ok [OF this _ _] show ?thesis
    using len t(5) i grown_len [OF g] cap eq(1) [OF t(3)] grown_seq [OF g, of 3] by (auto elim!: run_ok_weaken)
qed

lemma delete_min_ok:
  assumes "inv b" "tree_at (log b) s t" "bal h t" "list_all small (binorder t)" "MIN_KEYS \<le> length (bt_ents t)"
    and "length (log b) + 3 * Suc h \<le> cap"
  shows "run_ok bad (delete_min io s b)
    (\<lambda>(e, s', u) b'. grown (3 * Suc h) b b' \<and> (\<exists>xs. binorder t = e # xs \<and> del_res h xs (length (bt_ents t)) s' u b'))"
  using assms(2-6)
proof (induction h arbitrary: s t rule: less_induct)
  case (less h)
  obtain es ts where t: "t = BT es ts" by (cases t)
  have sh: "shape h es ts" "length es < MAX_CHILDREN" "es \<noteq> []" using less(3,5) by (auto simp: t bal_iff)
  have sm: "list_all small es" using less(4) shape_ents [OF sh(1)] t by (auto simp: list_all_iff)
  show ?case
  proof (subst delete_min.simps, rule look_node [OF assms(1) less(2) [unfolded t]], goal_cases)
    case (1 n)
    show ?case
    proof (cases h)
      case 0
      obtain e es' where es: "es = e # es'" using sh(3) by (cases es) auto
      have ts: "ts = []" using sh 0 by (simp add: shape_def)
      have "run_ok bad (then_do (put_node io (n\<lparr> bn_entries := es' \<rparr>) b) (\<lambda>s b. Some (Inr (e, s, length es' < MIN_KEYS), b)))
        (\<lambda>(e, s', u) b'. grown 3 b b' \<and> (\<exists>xs. es = e # xs \<and> del_res 0 xs (length es) s' u b'))"
        using assms(1) 1 ts es sm less(6) sh(2) grown_le [of 1 b _ 3]
        by (intro write_del [where ts = "[]" and h = 0 and k = "length es"]) auto
      then show ?thesis using 1 ts es t 0 by simp
    next
      case (Suc h')
      have i: "0 < length ts" using sh Suc by (auto simp: shape_def)
      have kid: "bal h' (ts ! 0)" "MIN_KEYS \<le> length (bt_ents (ts ! 0))" "list_all small (binorder (ts ! 0))"
        using sh(1) Suc i less(4) shape_kid [OF sh(1) [unfolded Suc], of "ts ! 0"] t by (auto simp: shape_def list_all_iff)
      note mid = binorder_kid [OF sh(1) [unfolded Suc] i, simplified]
      have IH: "run_ok bad (delete_min io (bn_children n ! 0) b) (\<lambda>(e, s', u) b'. grown (3 * Suc h') b b' \<and>
          (\<exists>xs. binorder (ts ! 0) = e # xs \<and> del_res h' xs (length (bt_ents (ts ! 0))) s' u b'))"
        using trees_nth [OF 1(2) i] kid less(6) Suc by (intro less(1)) auto
      have "run_ok bad (then_do (delete_min io (bn_children n ! 0) b) (\<lambda>(e, c, low) b.
          then_do (fix_child io (n\<lparr> bn_children := (bn_children n)[0 := c] \<rparr>) 0 low b) (\<lambda>(s, u) b. Some (Inr (e, s, u), b))))
        (\<lambda>(e, s', u) b'. grown (3 * Suc h) b b' \<and> (\<exists>xs. binorder t = e # xs \<and> del_res h xs (length (bt_ents t)) s' u b'))"
      proof (rule run_ok_then, rule run_ok_weaken [OF IH], goal_cases)
        case (1 x b1)
        obtain e c u where x: "x = (e, c, u)" by (cases x) auto
        then obtain xs where g: "grown (3 * Suc h') b b1" and xs: "binorder (ts ! 0) = e # xs"
            "del_res h' xs (length (bt_ents (ts ! 0))) c u b1"
          using 1 by auto
        have eq: "binorder t = e # (xs @ rights es (map binorder (tl ts)))" using mid(1) xs t by (simp add: drop_Suc)
        have "run_ok bad (fix_child io (n\<lparr> bn_children := (bn_children n)[0 := c] \<rparr>) 0 u b1)
          (\<lambda>(s, u') b'. grown (3 * Suc h) b b' \<and> del_res (Suc h') (xs @ rights es (map binorder (tl ts))) (length (bn_entries n)) s u' b')"
          using \<open>bn_entries n = es\<close> \<open>list_all2 _ _ ts\<close> sh i kid(2) mid(2) less(4,6) eq Suc xs(2)
          by (intro fix_kid [OF g, where ts = ts and m = "length (bt_ents (ts ! 0))" and x = xs]) (auto simp: drop_Suc)
        then show ?case using eq Suc \<open>bn_entries n = es\<close> t x by (auto intro!: run_ok_then elim!: run_ok_weaken)
      qed
      then show ?thesis using 1 i by auto
    qed
  qed
qed

lemma delete_max_ok:
  assumes "inv b" "tree_at (log b) s t" "bal h t" "list_all small (binorder t)" "MIN_KEYS \<le> length (bt_ents t)"
    and "length (log b) + 3 * Suc h \<le> cap"
  shows "run_ok bad (delete_max io s b)
    (\<lambda>(e, s', u) b'. grown (3 * Suc h) b b' \<and> (\<exists>xs. binorder t = xs @ [e] \<and> del_res h xs (length (bt_ents t)) s' u b'))"
  using assms(2-6)
proof (induction h arbitrary: s t rule: less_induct)
  case (less h)
  obtain es ts where t: "t = BT es ts" by (cases t)
  have sh: "shape h es ts" "length es < MAX_CHILDREN" "es \<noteq> []" using less(3,5) by (auto simp: t bal_iff)
  have sm: "list_all small es" using less(4) shape_ents [OF sh(1)] t by (auto simp: list_all_iff)
  show ?case
  proof (subst delete_max.simps, rule look_node [OF assms(1) less(2) [unfolded t]], goal_cases)
    case (1 n)
    show ?case
    proof (cases h)
      case 0
      obtain e es' where es: "es = es' @ [e]" using sh(3) by (metis rev_exhaust)
      have ts: "ts = []" using sh 0 by (simp add: shape_def)
      have "run_ok bad (then_do (put_node io (n\<lparr> bn_entries := es' \<rparr>) b) (\<lambda>s b. Some (Inr (e, s, length es' < MIN_KEYS), b)))
        (\<lambda>(e, s', u) b'. grown 3 b b' \<and> (\<exists>xs. es = xs @ [e] \<and> del_res 0 xs (length es) s' u b'))"
        using assms(1) 1 ts es sm less(6) sh(2) grown_le [of 1 b _ 3]
        by (intro write_del [where ts = "[]" and h = 0 and k = "length es"]) auto
      then show ?thesis using 1 ts es t 0 by simp
    next
      case (Suc h')
      let ?i = "length es"
      have i: "?i < length ts" "length (bn_children n) - 1 = ?i"
        using sh Suc list_all2_lengthD [OF 1(2)] by (auto simp: shape_def)
      have kid: "bal h' (ts ! ?i)" "MIN_KEYS \<le> length (bt_ents (ts ! ?i))" "list_all small (binorder (ts ! ?i))"
        using sh(1) Suc i less(4) shape_kid [OF sh(1) [unfolded Suc], of "ts ! ?i"] t by (auto simp: shape_def list_all_iff)
      note mid = binorder_kid(1,2) [OF sh(1) [unfolded Suc] i(1), simplified]
      have IH: "run_ok bad (delete_max io (bn_children n ! ?i) b) (\<lambda>(e, s', u) b'. grown (3 * Suc h') b b' \<and>
          (\<exists>xs. binorder (ts ! ?i) = xs @ [e] \<and> del_res h' xs (length (bt_ents (ts ! ?i))) s' u b'))"
        using trees_nth [OF 1(2) i(1)] kid less(6) Suc by (intro less(1)) auto
      have "run_ok bad (then_do (delete_max io (bn_children n ! ?i) b) (\<lambda>(e, c, low) b.
          then_do (fix_child io (n\<lparr> bn_children := (bn_children n)[?i := c] \<rparr>) ?i low b) (\<lambda>(s, u) b. Some (Inr (e, s, u), b))))
        (\<lambda>(e, s', u) b'. grown (3 * Suc h) b b' \<and> (\<exists>xs. binorder t = xs @ [e] \<and> del_res h xs (length (bt_ents t)) s' u b'))"
      proof (rule run_ok_then, rule run_ok_weaken [OF IH], goal_cases)
        case (1 x b1)
        obtain e c u where x: "x = (e, c, u)" by (cases x) auto
        then obtain xs where g: "grown (3 * Suc h') b b1" and xs: "binorder (ts ! ?i) = xs @ [e]"
            "del_res h' xs (length (bt_ents (ts ! ?i))) c u b1"
          using 1 by auto
        let ?A = "lefts (map binorder (take ?i ts)) es"
        have eq: "binorder t = (?A @ xs) @ [e]" using mid(1) xs t by simp
        have "run_ok bad (fix_child io (n\<lparr> bn_children := (bn_children n)[?i := c] \<rparr>) ?i u b1)
          (\<lambda>(s, u') b'. grown (3 * Suc h) b b' \<and> del_res (Suc h') (?A @ xs) (length (bn_entries n)) s u' b')"
          using \<open>bn_entries n = es\<close> \<open>list_all2 _ _ ts\<close> sh i kid(2) mid(2) less(4,6) eq Suc xs(2)
          by (intro fix_kid [OF g, where ts = ts and m = "length (bt_ents (ts ! ?i))" and x = xs]) auto
        then show ?case using eq Suc \<open>bn_entries n = es\<close> t x by (auto intro!: run_ok_then elim!: run_ok_weaken)
      qed
      then show ?thesis using 1 i by (auto simp: Let_def)
    qed
  qed
qed

lemma bt_remove_below: "\<forall>x \<in> set A. fst x < (k :: 'k :: linorder) \<Longrightarrow> bt_remove k A = A"
  by (induction A) (auto simp: bt_remove_def [of _ "[]"])

lemma bt_remove_above: "\<forall>x \<in> set A. (k :: 'k :: linorder) < fst x \<Longrightarrow> bt_remove k A = A"
  by (induction A) (auto simp: bt_remove_def [of _ "[]"])

lemma bt_remove_entry: "bt_inv (L @ x # R) \<Longrightarrow> bt_remove (fst x) (L @ x # R) = L @ R"
  by (simp add: bt_inv_append bt_inv_first bt_remove_below bt_remove_above)

lemma bt_remove_mid:
  "\<forall>x \<in> set A. fst x < (k :: 'k :: linorder) \<Longrightarrow> \<forall>x \<in> set C. k < fst x \<Longrightarrow> bt_remove k (A @ X @ C) = A @ bt_remove k X @ C"
  by (simp add: bt_remove_below bt_remove_above)

lemma replace_sep_ok:
  assumes inv: "inv b" and tr: "list_all2 (tree_at (log b)) (bn_children n) ts" and sh: "shape (Suc h) (bn_entries n) ts"
    and len: "length (bn_entries n) < MAX_CHILDREN" and i: "i < length (bn_entries n)"
    and so: "bt_inv (binorder (BT (bn_entries n) ts))" and sm: "list_all small (binorder (BT (bn_entries n) ts))"
    and cap: "length (log b) + 3 * Suc (Suc h) \<le> cap"
  shows "run_ok bad (replace_sep io n i b) (\<lambda>(s, u) b'. grown (3 * Suc (Suc h)) b b' \<and>
    del_res (Suc h) (bt_remove (fst (bn_entries n ! i)) (binorder (BT (bn_entries n) ts))) (length (bn_entries n)) s u b')"
proof -
  let ?es = "bn_entries n"
  let ?A = "lefts (map binorder (take i ts)) (take i ?es)" and ?C = "rights (drop (Suc i) ?es) (map binorder (drop (Suc (Suc i)) ts))"
  let ?y = "?A @ binorder (ts ! i) @ binorder (ts ! Suc i) @ ?C"
  let ?Q = "\<lambda>(s, u) b'. grown (3 * Suc (Suc h)) b b' \<and> del_res (Suc h) ?y (length ?es) s u b'"
  have tl: "length ts = Suc (length ?es)" and ne: "?es \<noteq> []" using sh i by (auto simp: shape_Suc)
  have ti: "i < length ts" "Suc i < length ts" using i tl by auto
  note pair = binorder_pair [OF tl i]
  have y: "bt_remove (fst (?es ! i)) (binorder (BT ?es ts)) = ?y"
    using bt_remove_entry [of "?A @ binorder (ts ! i)" "?es ! i" "binorder (ts ! Suc i) @ ?C"] so pair(1) by simp
  have smy: "list_all small ?y" using sm pair(1) by simp
  have kid: "bal h (ts ! j)" "MIN_KEYS \<le> length (bt_ents (ts ! j))" "list_all small (binorder (ts ! j))" if "j < length ts" for j
    using that sh shape_kid [OF sh, of "ts ! j"] sm by (auto simp: shape_Suc list_all_iff)
  note c = trees_nth [OF tr ti(1)] trees_nth [OF tr ti(2)]
  have right: "run_ok bad (then_do (delete_min io (bn_children n ! Suc i) b) (\<lambda>(e, c, low) b.
      fix_child io \<lparr> bn_entries = ?es[i := e], bn_children = (bn_children n)[i + 1 := c] \<rparr> (i + 1) low b)) ?Q"
  proof (rule run_ok_then, rule run_ok_weaken [OF delete_min_ok [OF inv conjunct2 [OF c(2)] kid(1,3,2) [OF ti(2)]]], goal_cases)
    case (2 x b1)
    then obtain e s u xs where x: "x = (e, s, u)" and g: "grown (3 * Suc h) b b1" and xs: "binorder (ts ! Suc i) = e # xs"
        "del_res h xs (length (bt_ents (ts ! Suc i))) s u b1" by auto
    show ?case
      using fix_kid [OF g, of "n\<lparr> bn_entries := ?es[i := e] \<rparr>" ts h "Suc i" xs "length (bt_ents (ts ! Suc i))" s u ?y "3 * Suc (Suc h)"]
        tr shape_upd [OF sh] len ne i ti xs kid(2) [OF ti(2)] smy cap pair(2) [of e "ts ! i"] x
      by (cases n) auto
  qed (use cap in simp)
  have left: "run_ok bad (then_do (delete_max io (bn_children n ! i) b) (\<lambda>(e, c, low) b.
      fix_child io \<lparr> bn_entries = ?es[i := e], bn_children = (bn_children n)[i := c] \<rparr> i low b)) ?Q"
  proof (rule run_ok_then, rule run_ok_weaken [OF delete_max_ok [OF inv conjunct2 [OF c(1)] kid(1,3,2) [OF ti(1)]]], goal_cases)
    case (2 x b1)
    then obtain e s u xs where x: "x = (e, s, u)" and g: "grown (3 * Suc h) b b1" and xs: "binorder (ts ! i) = xs @ [e]"
        "del_res h xs (length (bt_ents (ts ! i))) s u b1" by auto
    have p: "binorder (BT (?es[i := e]) (ts[i := t])) = ?A @ (binorder t @ e # binorder (ts ! Suc i)) @ ?C" for t
      using pair(2) [of e t "ts ! Suc i"] by (metis list_update_id list_update_swap n_not_Suc_n)
    show ?case
      using fix_kid [OF g, of "n\<lparr> bn_entries := ?es[i := e] \<rparr>" ts h i xs "length (bt_ents (ts ! i))" s u ?y "3 * Suc (Suc h)"]
        tr shape_upd [OF sh] len ne i ti xs kid(2) [OF ti(1)] smy cap p x
      by (cases n) auto
  qed (use cap in simp)
  note bl = run_ok_map [where bad = bad, OF boundary_leaf_len_ok [OF inv conjunct2 [OF c(1)] kid(1) [OF ti(1)]]]
    run_ok_map [where bad = bad, OF boundary_leaf_len_ok [OF inv conjunct2 [OF c(2)] kid(1) [OF ti(2)]]]
  show ?thesis
    unfolding replace_sep_def y using c left right
    by (auto intro!: run_ok_then [OF run_ok_weaken [OF bl(1)]] run_ok_then [OF run_ok_weaken [OF bl(2)]])
qed

lemma bee_delete_ok:
  assumes "inv b" "tree_at (log b) s t" "bal h t" "bt_inv (binorder t)" "list_all small (binorder t)"
    and "0 < h \<longrightarrow> bt_ents t \<noteq> []" "length (log b) + 3 * Suc h \<le> cap"
  shows "run_ok bad (bee_delete io s k b)
    (\<lambda>r b'. case r of NotFound \<Rightarrow> b' = b \<and> bt_get (binorder t) k = None
       | Removed s' u \<Rightarrow> bt_get (binorder t) k \<noteq> None \<and> grown (3 * Suc h) b b' \<and>
           del_res h (bt_remove k (binorder t)) (length (bt_ents t)) s' u b')"
  using assms(2-7)
proof (induction h arbitrary: s t rule: less_induct)
  case (less h)
  obtain es ts where t: "t = BT es ts" by (cases t)
  have sh: "shape h es ts" "length es < MAX_CHILDREN" and so: "bt_inv (binorder (BT es ts))"
    using less(3,4) by (auto simp: t bal_iff)
  have sm: "list_all small es" using less(5) shape_ents [OF sh(1)] t by (auto simp: list_all_iff)
  note es = shape_sorted [OF sh(1) so]
  show ?case
  proof (subst bee_delete.simps, rule look_node [OF assms(1) less(2) [unfolded t]], goal_cases)
    case (1 n)
    show ?case
    proof (cases "bsearch es k")
      case (Inr i)
      note f = bsearch_found [OF Inr]
      have "es ! i \<in> set (binorder (BT es ts))" using f shape_ents [OF sh(1)] by (meson nth_mem subsetD)
      then have present: "bt_get (binorder (BT es ts)) k \<noteq> None"
        using f by (simp add: map_of_eq_None_iff) (metis imageI)
      show ?thesis
      proof (cases h)
        case 0
        then have ts: "ts = []" using sh by (simp add: shape_def)
        have eq: "bt_remove k es = remove_at i es"
          using bt_remove_entry [of "take i es" "es ! i" "drop (Suc i) es"] es f
          by (simp add: remove_at_def flip: id_take_nth_drop)
        have "set (remove_at i es) \<subseteq> set es" by (auto simp: remove_at_def dest: in_set_takeD in_set_dropD)
        then have "run_ok bad (then_do (put_node io (n\<lparr> bn_entries := remove_at i es \<rparr>) b)
            (\<lambda>s b. Some (Inr (Removed s (length (remove_at i es) < MIN_KEYS)), b)))
          (\<lambda>r b'. case r of NotFound \<Rightarrow> b' = b \<and> bt_get (binorder t) k = None
             | Removed s' u \<Rightarrow> bt_get (binorder t) k \<noteq> None \<and> grown (3 * Suc h) b b' \<and>
                 del_res h (bt_remove k (binorder t)) (length (bt_ents t)) s' u b')"
          using assms(1) 1 ts f sm less(7) sh(2) eq present t 0
          by (intro write_del [where ts = "[]" and h = 0 and k = "length es"])
            (auto simp: list_all_iff intro: grown_le)
        then show ?thesis using Inr 1 ts by (simp add: Let_def)
      next
        case (Suc h')
        have "run_ok bad (replace_sep io n i b) (\<lambda>(s, u) b'. grown (3 * Suc (Suc h')) b b' \<and>
          del_res (Suc h') (bt_remove (fst (bn_entries n ! i)) (binorder (BT (bn_entries n) ts))) (length (bn_entries n)) s u b')"
          using assms(1) 1 sh f so less(5,7) t Suc by (intro replace_sep_ok) auto
        moreover have "\<not> is_leaf n" using 1(3) sh Suc by (auto simp: shape_def)
        ultimately show ?thesis
          using Inr 1(1) f present t Suc by (auto intro!: run_ok_then elim!: run_ok_weaken)
      qed
    next
      case (Inl i)
      note m = bsearch_missing [OF es Inl]
      show ?thesis
      proof (cases h)
        case 0
        then have "ts = []" using sh by (simp add: shape_def)
        then show ?thesis
          using Inl 1 t bsearch_leaf_missing [OF es Inl] by (simp add: map_of_eq_None_iff)
      next
        case (Suc h')
        have i: "i < length ts" using sh Suc m(1) by (simp add: shape_def)
        note c = trees_nth [OF 1(2) i] and kb = kid_bounds [OF sh(1) [unfolded Suc] m(1) so m(2,3)]
        note mid = binorder_kid(1,2) [OF sh(1) [unfolded Suc] i]
        let ?t = "ts ! i"
        have kid: "bal h' ?t" "MIN_KEYS \<le> length (bt_ents ?t)" "list_all small (binorder ?t)"
          using sh Suc i less(5) shape_kid [OF sh(1) [unfolded Suc], of ?t] t by (auto simp: shape_def list_all_iff)
        have get: "bt_get (binorder t) k = bt_get (binorder ?t) k"
          unfolding t mid(1) by (rule bt_get_mid [OF kb(1,2)])
        have eq: "bt_remove k (binorder t) = lefts (map binorder (take i ts)) (take i es) @ bt_remove k (binorder ?t) @
            rights (drop i es) (map binorder (drop (Suc i) ts))"
          unfolding t mid(1) by (rule bt_remove_mid [OF kb(1,2)])
        have smr: "list_all small (bt_remove k (binorder t))" using less(5) by (auto simp: list_all_iff bt_remove_def)
        have IH: "run_ok bad (bee_delete io (bn_children n ! i) k b)
          (\<lambda>r b'. case r of NotFound \<Rightarrow> b' = b \<and> bt_get (binorder ?t) k = None
           | Removed s' u \<Rightarrow> bt_get (binorder ?t) k \<noteq> None \<and> grown (3 * Suc h') b b' \<and>
               del_res h' (bt_remove k (binorder ?t)) (length (bt_ents ?t)) s' u b')"
          using c kb(3) kid less(7) Suc by (intro less(1) [of h']) auto
        have "run_ok bad (then_do (bee_delete io (bn_children n ! i) k b) (\<lambda>r b.
            case r of
              NotFound \<Rightarrow> Some (Inr NotFound, b)
            | Removed c' low \<Rightarrow> then_do (fix_child io (n\<lparr> bn_children := (bn_children n)[i := c'] \<rparr>) i low b)
                (\<lambda>(s, u) b. Some (Inr (Removed s u), b))))
          (\<lambda>r b'. case r of NotFound \<Rightarrow> b' = b \<and> bt_get (binorder t) k = None
           | Removed s' u \<Rightarrow> bt_get (binorder t) k \<noteq> None \<and> grown (3 * Suc h) b b' \<and>
               del_res h (bt_remove k (binorder t)) (length (bt_ents t)) s' u b')"
        proof (rule run_ok_then, rule run_ok_weaken [OF IH], goal_cases)
          case (1 r b1)
          show ?case
          proof (cases r)
            case (Removed c' u)
            with 1 have g: "grown (3 * Suc h') b b1" and res: "bt_get (binorder ?t) k \<noteq> None"
              "del_res h' (bt_remove k (binorder ?t)) (length (bt_ents ?t)) c' u b1" by auto
            have "run_ok bad (fix_child io (n\<lparr> bn_children := (bn_children n)[i := c'] \<rparr>) i u b1)
              (\<lambda>(s, u') b'. grown (3 * Suc h) b b' \<and> del_res (Suc h') (bt_remove k (binorder t)) (length (bn_entries n)) s u' b')"
              using \<open>bn_entries n = es\<close> \<open>list_all2 _ _ ts\<close> sh i kid(2) mid(2) less(6,7) eq smr Suc res(2) t
              by (intro fix_kid [OF g, where ts = ts and m = "length (bt_ents ?t)" and x = "bt_remove k (binorder ?t)"]) auto
            then show ?thesis
              using Removed res(1) get Suc \<open>bn_entries n = es\<close> t by (auto intro!: run_ok_then elim!: run_ok_weaken)
          qed (use 1 get in simp)
        qed
        moreover have "\<not> is_leaf n" using 1(3) i by auto
        ultimately show ?thesis using Inl 1(1) c by simp
      qed
    qed
  qed
qed

end

end
