(* ===== verification/Hyperbee.thy ===== *)
theory Hyperbee
  imports Btree_Log Hypercore_Log
begin

text \<open>
  The ordered key/value store of crate \<open>hyperbee\<close>: the B-tree of theory \<open>Btree\<close> on the blocks of a
  \<open>Hypercore\<close>, with compare-and-swap, range reads, checkouts of past versions, diffs, history,
  sub-databases, atomic batches and the lazy iterator (\<open>crates/hyperbee/src/btree.rs\<close>).
\<close>

section \<open>The tree and its log\<close>

record 's hyperbee =
  bee_core :: "(bnode, 's) hypercore"
  pending :: "batch option"

definition bee_new :: "crypto \<Rightarrow> bytes \<Rightarrow> 's \<Rightarrow> 's hyperbee" where
  "bee_new E sk s = \<lparr> bee_core = hc_new E sk node_codec s, pending = None \<rparr>"

definition bee_version :: "'s hyperbee \<Rightarrow> nat" where
  "bee_version b = hc_len (bee_core b)"

definition bee_is_empty :: "'s hyperbee \<Rightarrow> bool" where
  "bee_is_empty b \<longleftrightarrow> hc_len (bee_core b) = 0"

text \<open>\<open>ok_or(Corrupt)\<close>.\<close>

definition or_corrupt :: "('e core_error, 'a option) result \<Rightarrow> ('e core_error, 'a) result" where
  "or_corrupt r = bind_res r (\<lambda>v. case v of Some x \<Rightarrow> Inr x | None \<Rightarrow> Inl Corrupt)"

definition bee_node :: "('e, 's) store \<Rightarrow> 's hyperbee \<Rightarrow> nat \<Rightarrow> ('e core_error, bnode) result" where
  "bee_node S b seq =
     (case pending b of
        Some p \<Rightarrow> if base p \<le> seq then or_corrupt (batch_get S (bee_core b) p seq) else or_corrupt (hc_get S (bee_core b) seq)
      | None \<Rightarrow> or_corrupt (hc_get S (bee_core b) seq))"

text \<open>\<open>checked_sub(1)\<close>.\<close>

definition before :: "nat \<Rightarrow> nat option" where
  "before n = (if n = 0 then None else Some (n - 1))"

definition root_seq :: "'s hyperbee \<Rightarrow> nat option" where
  "root_seq b =
     (case pending b of
        Some p \<Rightarrow> if 0 < length (encoded p) then Some (base p + length (encoded p) - 1) else before (hc_len (bee_core b))
      | None \<Rightarrow> before (hc_len (bee_core b)))"

definition append_node :: "crypto \<Rightarrow> hashfun \<Rightarrow> ('e, 's) store \<Rightarrow> 's hyperbee \<Rightarrow> bnode \<Rightarrow>
    ('e core_error, nat, 's hyperbee) outcome" where
  "append_node E H S b n =
     (case pending b of
        Some p \<Rightarrow> let p = stage (bee_core b) p n
                  in (Inr (base p + length (encoded p) - 1), b\<lparr> pending := Some p \<rparr>)
      | None \<Rightarrow> let (r, c) = hc_append E H S (bee_core b) n in (r, b\<lparr> bee_core := c \<rparr>))"

definition bee_io :: "crypto \<Rightarrow> hashfun \<Rightarrow> ('e, 's) store \<Rightarrow> ('e, 's hyperbee) node_io" where
  "bee_io E H S = \<lparr> io_node = bee_node S, io_append = append_node E H S \<rparr>"

section \<open>Lookups and updates\<close>

definition bee_get_root :: "crypto \<Rightarrow> hashfun \<Rightarrow> ('e, 's) store \<Rightarrow> 's hyperbee \<Rightarrow> nat option \<Rightarrow> bytes \<Rightarrow>
    ('e core_error, bytes option) result option" where
  "bee_get_root E H S b root key =
     (case root of Some r \<Rightarrow> get_from (bee_io E H S) b r key | None \<Rightarrow> Some (Inr None))"

definition bee_get :: "crypto \<Rightarrow> hashfun \<Rightarrow> ('e, 's) store \<Rightarrow> 's hyperbee \<Rightarrow> bytes \<Rightarrow>
    ('e core_error, bytes option) result option" where
  "bee_get E H S b key = bee_get_root E H S b (root_seq b) key"

definition root_at :: "'s hyperbee \<Rightarrow> nat \<Rightarrow> nat option" where
  "root_at b version = before (min version (bee_version b))"

definition get_at :: "crypto \<Rightarrow> hashfun \<Rightarrow> ('e, 's) store \<Rightarrow> 's hyperbee \<Rightarrow> nat \<Rightarrow> bytes \<Rightarrow>
    ('e core_error, bytes option) result option" where
  "get_at E H S b version key = bee_get_root E H S b (root_at b version) key"

definition bee_put :: "crypto \<Rightarrow> hashfun \<Rightarrow> ('e, 's) store \<Rightarrow> bytes \<Rightarrow> bytes \<Rightarrow> 's hyperbee \<Rightarrow>
    ('e core_error, unit, 's hyperbee) outcome option" where
  "bee_put E H S key val b =
     (let io = bee_io E H S
      in case root_seq b of
           None \<Rightarrow> then_do (put_node io \<lparr> bn_entries = [(key, val)], bn_children = [] \<rparr> b) (\<lambda>_ b. Some (Inr (), b))
         | Some root \<Rightarrow>
             then_do (bee_insert io root key val b) (\<lambda>r b.
               case r of
                 Split l m r \<Rightarrow>
                   then_do (put_node io \<lparr> bn_entries = [m], bn_children = [l, r] \<rparr> b) (\<lambda>_ b. Some (Inr (), b))
               | Down _ \<Rightarrow> Some (Inr (), b)))"

definition bee_del :: "crypto \<Rightarrow> hashfun \<Rightarrow> ('e, 's) store \<Rightarrow> bytes \<Rightarrow> 's hyperbee \<Rightarrow>
    ('e core_error, bool, 's hyperbee) outcome option" where
  "bee_del E H S key b =
     (let io = bee_io E H S
      in case root_seq b of
           None \<Rightarrow> Some (Inr False, b)
         | Some root \<Rightarrow>
             then_do (bee_delete io root key b) (\<lambda>r b.
               case r of
                 NotFound \<Rightarrow> Some (Inr False, b)
               | Removed seq _ \<Rightarrow>
                   then_do (look (io_node io b seq) b) (\<lambda>n b.
                     if bn_entries n = [] \<and> \<not> is_leaf n
                     then then_do (look (io_node io b (bn_children n ! 0)) b) (\<lambda>child b.
                          then_do (put_node io child b) (\<lambda>_ b. Some (Inr True, b)))
                     else Some (Inr True, b))))"

definition put_cas :: "crypto \<Rightarrow> hashfun \<Rightarrow> ('e, 's) store \<Rightarrow> bytes \<Rightarrow> bytes \<Rightarrow> bytes option \<Rightarrow> 's hyperbee \<Rightarrow>
    ('e core_error, bool, 's hyperbee) outcome option" where
  "put_cas E H S key val expected b =
     then_do (map_option (\<lambda>r. (r, b)) (bee_get E H S b key)) (\<lambda>cur b.
       if cur \<noteq> expected then Some (Inr False, b)
       else then_do (bee_put E H S key val b) (\<lambda>_ b. Some (Inr True, b)))"

definition del_cas :: "crypto \<Rightarrow> hashfun \<Rightarrow> ('e, 's) store \<Rightarrow> bytes \<Rightarrow> bytes option \<Rightarrow> 's hyperbee \<Rightarrow>
    ('e core_error, bool, 's hyperbee) outcome option" where
  "del_cas E H S key expected b =
     then_do (map_option (\<lambda>r. (r, b)) (bee_get E H S b key)) (\<lambda>cur b.
       if cur \<noteq> expected then Some (Inr False, b) else bee_del E H S key b)"

section \<open>Ranges and checkouts\<close>

record bee_range =
  r_gt :: "bytes option"
  r_gte :: "bytes option"
  r_lt :: "bytes option"
  r_lte :: "bytes option"
  r_reverse :: bool
  r_limit :: "nat option"

definition full_range :: bee_range where
  "full_range = \<lparr> r_gt = None, r_gte = None, r_lt = None, r_lte = None, r_reverse = False, r_limit = None \<rparr>"

definition in_bounds :: "bee_range \<Rightarrow> bytes \<Rightarrow> bool" where
  "in_bounds r k \<longleftrightarrow>
     (case r_gt r of Some g \<Rightarrow> g < k | None \<Rightarrow> True) \<and> (case r_gte r of Some g \<Rightarrow> g \<le> k | None \<Rightarrow> True) \<and>
     (case r_lt r of Some l \<Rightarrow> k < l | None \<Rightarrow> True) \<and> (case r_lte r of Some l \<Rightarrow> k \<le> l | None \<Rightarrow> True)"

text \<open>\<open>retain\<close>, \<open>reverse\<close> and \<open>truncate\<close> on the collected entries.\<close>

definition select_range :: "bee_range \<Rightarrow> entry list \<Rightarrow> entry list" where
  "select_range r out =
     (let out = filter (\<lambda>(k, _). in_bounds r k) out;
          out = (if r_reverse r then rev out else out)
      in case r_limit r of Some n \<Rightarrow> take n out | None \<Rightarrow> out)"

definition range_from :: "crypto \<Rightarrow> hashfun \<Rightarrow> ('e, 's) store \<Rightarrow> 's hyperbee \<Rightarrow> nat option \<Rightarrow> bee_range \<Rightarrow>
    ('e core_error, entry list) result option" where
  "range_from E H S b root r =
     then_read (case root of Some s \<Rightarrow> collect (bee_io E H S) b s | None \<Rightarrow> Some (Inr []))
       (\<lambda>out. Some (Inr (select_range r out)))"

definition bee_range_of :: "crypto \<Rightarrow> hashfun \<Rightarrow> ('e, 's) store \<Rightarrow> 's hyperbee \<Rightarrow> bee_range \<Rightarrow>
    ('e core_error, entry list) result option" where
  "bee_range_of E H S b r = range_from E H S b (root_seq b) r"

definition range_at :: "crypto \<Rightarrow> hashfun \<Rightarrow> ('e, 's) store \<Rightarrow> 's hyperbee \<Rightarrow> nat \<Rightarrow> bee_range \<Rightarrow>
    ('e core_error, entry list) result option" where
  "range_at E H S b version r = range_from E H S b (root_at b version) r"

definition bee_peek :: "crypto \<Rightarrow> hashfun \<Rightarrow> ('e, 's) store \<Rightarrow> 's hyperbee \<Rightarrow> bee_range \<Rightarrow>
    ('e core_error, entry option) result option" where
  "bee_peek E H S b r =
     then_read (range_from E H S b (root_seq b) (r\<lparr> r_limit := Some 1 \<rparr>))
       (\<lambda>out. Some (Inr (case out of [] \<Rightarrow> None | e # _ \<Rightarrow> Some e)))"

record checkout =
  co_root :: "nat option"
  co_version :: nat

definition bee_checkout :: "'s hyperbee \<Rightarrow> nat \<Rightarrow> checkout" where
  "bee_checkout b version =
     (let version = min version (bee_version b) in \<lparr> co_root = before version, co_version = version \<rparr>)"

definition co_get :: "crypto \<Rightarrow> hashfun \<Rightarrow> ('e, 's) store \<Rightarrow> 's hyperbee \<Rightarrow> checkout \<Rightarrow> bytes \<Rightarrow>
    ('e core_error, bytes option) result option" where
  "co_get E H S b co key = bee_get_root E H S b (co_root co) key"

definition co_range :: "crypto \<Rightarrow> hashfun \<Rightarrow> ('e, 's) store \<Rightarrow> 's hyperbee \<Rightarrow> checkout \<Rightarrow> bee_range \<Rightarrow>
    ('e core_error, entry list) result option" where
  "co_range E H S b co r = range_from E H S b (co_root co) r"

section \<open>Differences and history\<close>

type_synonym change = "bytes \<times> bytes option \<times> bytes option"

text \<open>The merge loop of \<open>diff\<close>, on what is left of the two lists.\<close>

fun diff_loop :: "entry list \<Rightarrow> entry list \<Rightarrow> change list" where
  "diff_loop [] [] = []"
| "diff_loop ((ka, va) # xs) [] = (ka, Some va, None) # diff_loop xs []"
| "diff_loop [] ((kb, vb) # ys) = (kb, None, Some vb) # diff_loop [] ys"
| "diff_loop ((ka, va) # xs) ((kb, vb) # ys) =
     (if ka < kb then (ka, Some va, None) # diff_loop xs ((kb, vb) # ys)
      else if kb < ka then (kb, None, Some vb) # diff_loop ((ka, va) # xs) ys
      else if va \<noteq> vb then (ka, Some va, Some vb) # diff_loop xs ys
      else diff_loop xs ys)"

definition bee_diff :: "crypto \<Rightarrow> hashfun \<Rightarrow> ('e, 's) store \<Rightarrow> 's hyperbee \<Rightarrow> nat \<Rightarrow> nat \<Rightarrow>
    ('e core_error, change list) result option" where
  "bee_diff E H S b old new =
     then_read (range_at E H S b old full_range) (\<lambda>xs.
     then_read (range_at E H S b new full_range) (\<lambda>ys. Some (Inr (diff_loop xs ys))))"

text \<open>The loop of \<open>history\<close> that collects the blocks some node points to.\<close>

fun referenced :: "('e, 's) store \<Rightarrow> 's hyperbee \<Rightarrow> nat list \<Rightarrow> nat btset \<Rightarrow> ('e core_error, nat btset) result" where
  "referenced S b [] acc = Inr acc"
| "referenced S b (seq # seqs) acc =
     bind_res (bee_node S b seq) (\<lambda>n. referenced S b seqs (fold bs_insert (bn_children n) acc))"

fun history_loop :: "crypto \<Rightarrow> hashfun \<Rightarrow> ('e, 's) store \<Rightarrow> 's hyperbee \<Rightarrow> nat \<Rightarrow> nat list \<Rightarrow>
    ('e core_error, (bytes \<times> bytes option) list) result option" where
  "history_loop E H S b prev [] = Some (Inr [])"
| "history_loop E H S b prev (r # rs) =
     then_read (bee_diff E H S b prev (r + 1)) (\<lambda>cs.
     then_read (history_loop E H S b (r + 1) rs) (\<lambda>out.
       Some (Inr (map (\<lambda>(key, old, new). (key, new)) cs @ out))))"

definition bee_history :: "crypto \<Rightarrow> hashfun \<Rightarrow> ('e, 's) store \<Rightarrow> 's hyperbee \<Rightarrow>
    ('e core_error, (bytes \<times> bytes option) list) result option" where
  "bee_history E H S b =
     (let len = bee_version b
      in if len = 0 then Some (Inr [])
         else then_read (Some (referenced S b [0..<len] [])) (\<lambda>refs.
              history_loop E H S b 0 (filter (\<lambda>s. s \<notin> set refs) [0..<len])))"

section \<open>Sub-databases\<close>

text \<open>The loop of \<open>prefix_successor\<close> on the reversed prefix.\<close>

fun successor_loop :: "bytes \<Rightarrow> bytes option" where
  "successor_loop [] = None"
| "successor_loop (x # p) = (if x < 0xff then Some (rev ((x + 1) # p)) else successor_loop p)"

definition prefix_successor :: "bytes \<Rightarrow> bytes option" where
  "prefix_successor p = successor_loop (rev p)"

definition sub_put :: "crypto \<Rightarrow> hashfun \<Rightarrow> ('e, 's) store \<Rightarrow> bytes \<Rightarrow> bytes \<Rightarrow> bytes \<Rightarrow> 's hyperbee \<Rightarrow>
    ('e core_error, unit, 's hyperbee) outcome option" where
  "sub_put E H S pre key val b = bee_put E H S (pre @ key) val b"

definition sub_get :: "crypto \<Rightarrow> hashfun \<Rightarrow> ('e, 's) store \<Rightarrow> bytes \<Rightarrow> 's hyperbee \<Rightarrow> bytes \<Rightarrow>
    ('e core_error, bytes option) result option" where
  "sub_get E H S pre b key = bee_get E H S b (pre @ key)"

definition sub_del :: "crypto \<Rightarrow> hashfun \<Rightarrow> ('e, 's) store \<Rightarrow> bytes \<Rightarrow> bytes \<Rightarrow> 's hyperbee \<Rightarrow>
    ('e core_error, bool, 's hyperbee) outcome option" where
  "sub_del E H S pre key b = bee_del E H S (pre @ key) b"

definition sub_bounds :: "bytes \<Rightarrow> bee_range \<Rightarrow> bee_range" where
  "sub_bounds pre r =
     (let lower_given = r_gt r \<noteq> None \<or> r_gte r \<noteq> None;
          upper_given = r_lt r \<noteq> None \<or> r_lte r \<noteq> None
      in \<lparr> r_gt = map_option (\<lambda>x. pre @ x) (r_gt r),
           r_gte = (case map_option (\<lambda>x. pre @ x) (r_gte r) of Some x \<Rightarrow> Some x
                    | None \<Rightarrow> if lower_given then None else Some pre),
           r_lt = (case map_option (\<lambda>x. pre @ x) (r_lt r) of Some x \<Rightarrow> Some x
                   | None \<Rightarrow> if upper_given then None else prefix_successor pre),
           r_lte = map_option (\<lambda>x. pre @ x) (r_lte r),
           r_reverse = r_reverse r, r_limit = r_limit r \<rparr>)"

definition sub_range :: "crypto \<Rightarrow> hashfun \<Rightarrow> ('e, 's) store \<Rightarrow> bytes \<Rightarrow> 's hyperbee \<Rightarrow> bee_range \<Rightarrow>
    ('e core_error, entry list) result option" where
  "sub_range E H S pre b r =
     then_read (bee_range_of E H S b (sub_bounds pre r))
       (\<lambda>out. Some (Inr (map (\<lambda>(k, v). (drop (length pre) k, v)) out)))"

section \<open>Atomic batches\<close>

definition bee_batch :: "'s hyperbee \<Rightarrow> 's hyperbee" where
  "bee_batch b = b\<lparr> pending := Some (hc_batch (bee_core b)) \<rparr>"

text \<open>\<open>BeeBatch::commit\<close> consumes the batch, so \<open>drop\<close> runs behind it.\<close>

definition bee_drop :: "'s hyperbee \<Rightarrow> 's hyperbee" where
  "bee_drop b = b\<lparr> pending := None \<rparr>"

definition bee_commit :: "crypto \<Rightarrow> hashfun \<Rightarrow> ('e, 's) store \<Rightarrow> 's hyperbee \<Rightarrow>
    ('e core_error, unit, 's hyperbee) outcome" where
  "bee_commit E H S b =
     (case pending b of
        None \<Rightarrow> (Inr (), bee_drop b)
      | Some p \<Rightarrow> let (r, c) = commit E H S (bee_core b) p
                  in (bind_res r (\<lambda>_. Inr ()), bee_drop (b\<lparr> bee_core := c \<rparr>)))"

section \<open>The lazy iterator\<close>

text \<open>The traversal stack has its top at the head of the list.\<close>

record range_iter =
  it_stack :: "(bnode \<times> nat) list"
  it_start :: "nat option"
  it_bounds :: bee_range
  it_remaining :: "nat option"
  it_done :: bool

definition bee_iter :: "'s hyperbee \<Rightarrow> bee_range \<Rightarrow> range_iter" where
  "bee_iter b r = \<lparr> it_stack = [], it_start = root_seq b, it_bounds = r, it_remaining = r_limit r, it_done = False \<rparr>"

definition dec_limit :: "range_iter \<Rightarrow> range_iter" where
  "dec_limit it =
     (case it_remaining it of
        None \<Rightarrow> it
      | Some r \<Rightarrow> it\<lparr> it_remaining := Some (r - 1), it_done := (it_done it \<or> r - 1 = 0) \<rparr>)"

partial_function (option) iter_loop :: "('e, 'b) node_io \<Rightarrow> 'b \<Rightarrow> range_iter \<Rightarrow>
    (('e core_error, entry) result option \<times> range_iter) option" where
  "iter_loop io b it =
     (case it_stack it of
        [] \<Rightarrow> Some (None, it\<lparr> it_done := True \<rparr>)
      | (n, slot) # stack \<Rightarrow>
          let rv = r_reverse (it_bounds it); len = length (bn_entries n);
              it' = it\<lparr> it_stack := (n, slot + 1) # stack \<rparr>
          in if is_leaf n then
               if len \<le> slot then iter_loop io b (it\<lparr> it_stack := stack \<rparr>)
               else let kv = bn_entries n ! (if rv then len - 1 - slot else slot)
                    in if in_bounds (it_bounds it) (fst kv) then Some (Some (Inr kv), dec_limit it')
                       else iter_loop io b it'
             else if 2 * len < slot then iter_loop io b (it\<lparr> it_stack := stack \<rparr>)
             else if slot mod 2 = 0 then
               (let i = (if rv then len - slot div 2 else slot div 2)
                in case at_index (bn_children n) i of
                     Inl e \<Rightarrow> Some (Some (Inl e), it')
                   | Inr cs \<Rightarrow>
                       (case io_node io b cs of
                          Inl e \<Rightarrow> Some (Some (Inl e), it'\<lparr> it_done := True \<rparr>)
                        | Inr child \<Rightarrow> iter_loop io b (it'\<lparr> it_stack := (child, 0) # it_stack it' \<rparr>)))
             else let kv = bn_entries n ! (if rv then len - 1 - slot div 2 else slot div 2)
                  in if in_bounds (it_bounds it) (fst kv) then Some (Some (Inr kv), dec_limit it')
                     else iter_loop io b it')"

declare iter_loop.simps [code]

definition iter_next :: "('e, 'b) node_io \<Rightarrow> 'b \<Rightarrow> range_iter \<Rightarrow>
    (('e core_error, entry) result option \<times> range_iter) option" where
  "iter_next io b it =
     (if it_done it then Some (None, it)
      else if it_remaining it = Some 0 then Some (None, it\<lparr> it_done := True \<rparr>)
      else case it_start it of
             None \<Rightarrow> iter_loop io b it
           | Some root \<Rightarrow>
               (case io_node io b root of
                  Inl e \<Rightarrow> Some (Some (Inl e), it\<lparr> it_start := None, it_done := True \<rparr>)
                | Inr n \<Rightarrow> iter_loop io b (it\<lparr> it_start := None, it_stack := (n, 0) # it_stack it \<rparr>)))"

end
