(* ===== verification/Hyperbee_Map.thy ===== *)
theory Hyperbee_Map
  imports Hyperbee
begin

text \<open>
  A hyperbee is a sorted map with all its past versions: the log of nodes behind a \<open>Hyperbee\<close> over any
  backend that meets the storage contract, the B-tree invariant of its root, and the effect of every
  operation on the sorted list of entries.
\<close>

section \<open>The node log of a hyperbee\<close>

definition node_of :: "bytes \<Rightarrow> bnode" where
  "node_of bs = (case decode_node bs of Inr n \<Rightarrow> n | Inl _ \<Rightarrow> \<lparr> bn_entries = [], bn_children = [] \<rparr>)"

text \<open>The nodes in the committed blocks and, in a batch, the staged ones.\<close>

definition bee_log :: "('s \<Rightarrow> nat \<Rightarrow> bytes option) \<Rightarrow> 's hyperbee \<Rightarrow> bnode list" where
  "bee_log content b =
     map (\<lambda>i. node_of (the (content (hc_store (bee_core b)) i))) [0..<hc_len (bee_core b)] @
     (case pending b of None \<Rightarrow> [] | Some p \<Rightarrow> map node_of (encoded p))"

definition bee_is :: "crypto \<Rightarrow> hashfun \<Rightarrow> ('s \<Rightarrow> bool) \<Rightarrow> ('s \<Rightarrow> nat \<Rightarrow> bytes option) \<Rightarrow> 's hyperbee \<Rightarrow>
    bnode list \<Rightarrow> bnode list \<Rightarrow> bool" where
  "bee_is E H ok content b L1 L2 \<longleftrightarrow>
     core_inv E H ok content (bee_core b) (map (encode node_codec) L1) \<and> list_all node_sized (L1 @ L2) \<and>
     (\<forall>i < length L1. hc_has (bee_core b) i) \<and> hc_codec (bee_core b) = node_codec \<and>
     (case pending b of None \<Rightarrow> L2 = []
      | Some p \<Rightarrow> base p = length L1 \<and> encoded p = map (encode node_codec) L2)"

definition bee_inv :: "crypto \<Rightarrow> hashfun \<Rightarrow> ('s \<Rightarrow> bool) \<Rightarrow> ('s \<Rightarrow> nat \<Rightarrow> bytes option) \<Rightarrow> 's hyperbee \<Rightarrow> bool" where
  "bee_inv E H ok content b \<longleftrightarrow> (\<exists>L1 L2. bee_is E H ok content b L1 L2)"

lemma node_of_encode: "node_sized n \<Longrightarrow> node_of (encode node_codec n) = n"
  using decode_node_codec [of n] by (simp add: node_of_def node_codec_def)

lemma map_node_of: "list_all node_sized L \<Longrightarrow> map node_of (map (encode node_codec) L) = L"
  by (induction L) (auto simp: node_of_encode)

lemma bee_is_len: "bee_is E H ok content b L1 L2 \<Longrightarrow> hc_len (bee_core b) = length L1"
  using core_inv_len by (fastforce simp: bee_is_def hc_len_def)

lemma bee_is_log:
  assumes "bee_is E H ok content b L1 L2"
  shows "bee_log content b = L1 @ L2"
proof -
  have "map (\<lambda>i. node_of (the (content (hc_store (bee_core b)) i))) [0..<length L1] = L1"
  proof (rule nth_equalityI)
    fix i assume "i < length (map (\<lambda>i. node_of (the (content (hc_store (bee_core b)) i))) [0..<length L1])"
    then have i: "i < length L1" by simp
    then have "content (hc_store (bee_core b)) i = Some (encode node_codec (L1 ! i))"
      using assms by (auto simp: bee_is_def core_inv_def hc_has_def)
    then show "map (\<lambda>i. node_of (the (content (hc_store (bee_core b)) i))) [0..<length L1] ! i = L1 ! i"
      using i assms by (simp add: node_of_encode bee_is_def list_all_iff)
  qed simp
  moreover have "(case pending b of None \<Rightarrow> [] | Some p \<Rightarrow> map node_of (encoded p)) = L2"
    using assms map_node_of [of L2] by (auto simp: bee_is_def split: option.splits)
  ultimately show ?thesis using bee_is_len [OF assms] by (simp add: bee_log_def)
qed

section \<open>It meets the contract of the B-tree\<close>

lemma node_fits_sized:
  assumes "node_fits KEY_USERDATA small n" "\<And>k v. small (k, v) \<Longrightarrow> length k < 2 ^ 64 \<and> length v < 2 ^ 64"
  shows "node_sized n"
proof -
  have "KEY_USERDATA < 2 ^ 64" by (simp add: KEY_USERDATA_def)
  then show ?thesis
    using assms by (fastforce simp: node_fits_def node_sized_def list_all_iff)
qed

locale bee_store = byte_store S ok content fits
  for S :: "('e, 's) store" and ok :: "'s \<Rightarrow> bool" and content :: "'s \<Rightarrow> nat \<Rightarrow> bytes option" and fits :: "bytes \<Rightarrow> bool" +
  fixes E :: crypto and H :: hashfun and small :: "entry \<Rightarrow> bool"
  assumes sigs: "sig_correct E"
    and small_sized: "small (k, v) \<Longrightarrow> length k < 2 ^ 64 \<and> length v < 2 ^ 64"
    and small_fits: "node_fits KEY_USERDATA small n \<Longrightarrow> fits (encode node_codec n)"
begin

lemma hc_get_node:
  assumes "core_inv E H ok content c (map (encode node_codec) L)" "list_all node_sized L" "hc_has c s" "hc_codec c = node_codec"
    and "s < length L"
  shows "case or_corrupt (hc_get S c s) of Inl e \<Rightarrow> \<exists>x. e = Storage x | Inr n \<Rightarrow> n = L ! s"
proof (cases "st_get S (hc_store c) s")
  case (Inr r)
  have "ok (hc_store c)" "content (hc_store c) s = Some (encode node_codec (L ! s))"
    using assms by (auto simp: core_inv_def hc_has_def)
  then have "r = Some (encode node_codec (L ! s))" using get_law Inr by metis
  moreover have "decode node_codec (encode node_codec (L ! s)) = Inr (L ! s)"
    using assms(2,5) by (intro decode_node_codec) (simp add: list_all_iff)
  ultimately show ?thesis using Inr assms(3,4) by (simp add: hc_get_def hc_has_def or_corrupt_def)
qed (use assms(3) in \<open>simp add: hc_get_def hc_has_def or_corrupt_def\<close>)

lemma bee_node_law:
  assumes "bee_is E H ok content b L1 L2" "s < length (L1 @ L2)"
  shows "case bee_node S b s of Inl e \<Rightarrow> \<exists>x. e = Storage x | Inr n \<Rightarrow> n = (L1 @ L2) ! s"
proof (cases "s < length L1")
  case True
  have c: "core_inv E H ok content (bee_core b) (map (encode node_codec) L1)" "list_all node_sized L1"
      "hc_has (bee_core b) s" "hc_codec (bee_core b) = node_codec"
    using assms(1) True by (auto simp: bee_is_def)
  have "bee_node S b s = or_corrupt (hc_get S (bee_core b) s)"
    using assms(1) True by (auto simp: bee_node_def bee_is_def split: option.splits)
  then show ?thesis using hc_get_node [OF c True] True by (simp add: nth_append split: sum.splits)
next
  case False
  then obtain p where p: "pending b = Some p" "base p = length L1" "encoded p = map (encode node_codec) L2"
    using assms by (cases "pending b") (auto simp: bee_is_def)
  moreover have "decode node_codec (encode node_codec (L2 ! (s - length L1))) = Inr (L2 ! (s - length L1))"
    using assms False by (intro decode_node_codec) (auto simp: bee_is_def list_all_iff)
  moreover have "hc_codec (bee_core b) = node_codec" using assms(1) by (simp add: bee_is_def)
  ultimately show ?thesis
    using False assms(2) by (auto simp: bee_node_def batch_get_def or_corrupt_def nth_append)
qed

lemma append_node_law:
  assumes bi: "bee_is E H ok content b L1 L2" and fit: "node_fits KEY_USERDATA small n" and cap: "length (L1 @ L2) < KEY_USERDATA"
    and run: "append_node E H S b n = (r, b')"
  shows "case r of Inl e \<Rightarrow> \<exists>x. e = Storage x
     | Inr s \<Rightarrow> s = length (L1 @ L2) \<and> (\<exists>L1' L2'. bee_is E H ok content b' L1' L2' \<and> L1' @ L2' = (L1 @ L2) @ [n])"
proof (cases "pending b")
  case None
  have L2: "L2 = []" and c: "hc_codec (bee_core b) = node_codec"
    and inv: "core_inv E H ok content (bee_core b) (map (encode node_codec) L1)" using bi None by (auto simp: bee_is_def)
  obtain c' where a: "hc_append E H S (bee_core b) n = (r, c')" and b': "b' = b\<lparr> bee_core := c' \<rparr>"
    using run None by (auto simp: append_node_def split: prod.splits)
  show ?thesis
  proof (cases r)
    case (Inl e)
    then show ?thesis using hc_append_Inl [OF inv] a by fastforce
  next
    case (Inr s)
    have k: "log_keys (Suc (length (map (encode node_codec) L1)))" using cap L2 by (simp add: log_keys_def)
    note h = hc_append_ok [OF inv sigs k _ a [unfolded Inr]]
    have "bee_is E H ok content b' (L1 @ [n]) []"
      using h small_fits [OF fit] c bi None b' node_fits_sized [OF fit small_sized]
      by (auto simp: bee_is_def same_writer_def less_Suc_eq)
    then show ?thesis using h small_fits [OF fit] c Inr L2 by fastforce
  qed
next
  case (Some p)
  have c: "hc_codec (bee_core b) = node_codec" using bi by (simp add: bee_is_def)
  have "bee_is E H ok content b' L1 (L2 @ [n])" "r = Inr (length (L1 @ L2))"
    using run Some bi c node_fits_sized [OF fit small_sized]
    by (auto simp: append_node_def Let_def stage_def bee_is_def)
  then show ?thesis by fastforce
qed

end

text \<open>
  The operations of a hyperbee over such a log; \<open>bad\<close> are the errors of the backend and \<open>keep\<close> is a property of
  the state that appending a node keeps.
\<close>

locale bee_ops = node_log "bee_io E H S" "\<lambda>b. bee_inv E H ok content b \<and> keep b" "bee_log content" KEY_USERDATA small bad
  for S :: "('e, 's) store" and ok :: "'s \<Rightarrow> bool" and content :: "'s \<Rightarrow> nat \<Rightarrow> bytes option"
    and E :: crypto and H :: hashfun and small :: "entry \<Rightarrow> bool" and keep :: "'s hyperbee \<Rightarrow> bool"
    and bad :: "'e core_error \<Rightarrow> 's hyperbee \<Rightarrow> bool"

context bee_store
begin

lemma bee_ops_store:
  assumes keep: "\<And>b n r b'. keep b \<Longrightarrow> node_fits KEY_USERDATA small n \<Longrightarrow> append_node E H S b n = (r, b') \<Longrightarrow> keep b'"
  shows "bee_ops S ok content E H small keep (\<lambda>e b. (\<exists>x. e = Storage x) \<and> keep b)"
proof
  fix b s
  assume "bee_inv E H ok content b \<and> keep b" and s: "s < length (bee_log content b)"
  then obtain L1 L2 where bi: "bee_is E H ok content b L1 L2" by (auto simp: bee_inv_def)
  then show "case io_node (bee_io E H S) b s of Inl e \<Rightarrow> (\<exists>x. e = Storage x) \<and> keep b | Inr n \<Rightarrow> n = bee_log content b ! s"
    using bee_node_law [OF bi, of s] bee_is_log [OF bi] s \<open>_ \<and> keep b\<close> by (simp add: bee_io_def split: sum.splits)
next
  fix b n r b'
  assume inv: "bee_inv E H ok content b \<and> keep b" and n: "node_fits KEY_USERDATA small n" "length (bee_log content b) < KEY_USERDATA"
    and run: "io_append (bee_io E H S) b n = (r, b')"
  then obtain L1 L2 where bi: "bee_is E H ok content b L1 L2" by (auto simp: bee_inv_def)
  have run': "append_node E H S b n = (r, b')" "length (L1 @ L2) < KEY_USERDATA"
    using run n bee_is_log [OF bi] by (simp_all add: bee_io_def)
  from append_node_law [OF bi n(1) run'(2,1)]
  show "case r of Inl e \<Rightarrow> (\<exists>x. e = Storage x) \<and> keep b'
     | Inr s \<Rightarrow> s = length (bee_log content b) \<and> (bee_inv E H ok content b' \<and> keep b') \<and> bee_log content b' = bee_log content b @ [n]"
    using bee_is_log [OF bi] bee_is_log keep [OF _ n(1) run'(1)] inv by (fastforce simp: bee_inv_def split: sum.splits)
qed

end

sublocale bee_store \<subseteq> bee: bee_ops S ok content E H small "\<lambda>_. True" "\<lambda>e _. \<exists>x. e = Storage x"
  using bee_ops_store [of "\<lambda>_. True"] by simp

text \<open>Over a backend that does not fail no operation of the tree fails.\<close>

locale bee_total = bee_store S ok content fits E H small + total_store S ok content fits
  for S :: "('e, 's) store" and ok :: "'s \<Rightarrow> bool" and content :: "'s \<Rightarrow> nat \<Rightarrow> bytes option" and fits :: "bytes \<Rightarrow> bool"
    and E :: crypto and H :: hashfun and small :: "entry \<Rightarrow> bool"
begin

lemma bee_node_total: "ok (hc_store (bee_core b)) \<Longrightarrow> bee_node S b s \<noteq> Inl (Storage e)"
proof -
  assume "ok (hc_store (bee_core b))"
  then have "hc_get S (bee_core b) s \<noteq> Inl (Storage e)" for s
    using get_eq by (auto simp: hc_get_def bind_res_Inl_iff map_err_Inl_iff split: option.splits)
  then show ?thesis
    by (auto simp: bee_node_def or_corrupt_def batch_get_def bind_res_Inl_iff map_err_Inl_iff split: option.splits if_splits)
qed

lemma append_node_total:
  assumes "bee_is E H ok content b L1 L2" "node_fits KEY_USERDATA small n" "length (L1 @ L2) < KEY_USERDATA"
  shows "\<exists>s b'. append_node E H S b n = (Inr s, b')"
proof (cases "pending b")
  case None
  then have "core_inv E H ok content (bee_core b) (map (encode node_codec) L1)" "hc_codec (bee_core b) = node_codec"
    using assms(1) by (auto simp: bee_is_def)
  moreover from this have "\<exists>c'. hc_append E H S (bee_core b) n = (Inr (length (map (encode node_codec) L1)), c')"
    using assms(3) small_fits [OF assms(2)] by (intro hc_append_total) (auto simp: log_keys_def)
  ultimately show ?thesis using None by (auto simp: append_node_def)
qed (simp add: append_node_def Let_def)

end

context bee_total
begin

lemma bee_ops_total:
  assumes keep: "\<And>b n r b'. keep b \<Longrightarrow> node_fits KEY_USERDATA small n \<Longrightarrow> append_node E H S b n = (r, b') \<Longrightarrow> keep b'"
  shows "bee_ops S ok content E H small keep (\<lambda>_ _. False)"
proof
  fix b s
  assume inv: "bee_inv E H ok content b \<and> keep b" and s: "s < length (bee_log content b)"
  then have "ok (hc_store (bee_core b))" by (auto simp: bee_inv_def bee_is_def core_inv_def)
  then show "case io_node (bee_io E H S) b s of Inl e \<Rightarrow> False | Inr n \<Rightarrow> n = bee_log content b ! s"
    using bee.node_law [of b s] inv s bee_node_total by (auto simp: bee_io_def split: sum.splits)
next
  fix b n r b'
  assume inv: "bee_inv E H ok content b \<and> keep b" and n: "node_fits KEY_USERDATA small n" "length (bee_log content b) < KEY_USERDATA"
    and run: "io_append (bee_io E H S) b n = (r, b')"
  obtain L1 L2 where bi: "bee_is E H ok content b L1 L2" using inv by (auto simp: bee_inv_def)
  have "\<exists>s b'. append_node E H S b n = (Inr s, b')"
    using append_node_total [OF bi n(1)] n(2) bee_is_log [OF bi] by simp
  then show "case r of Inl e \<Rightarrow> False
     | Inr s \<Rightarrow> s = length (bee_log content b) \<and> (bee_inv E H ok content b' \<and> keep b') \<and> bee_log content b' = bee_log content b @ [n]"
    using bee.append_law [OF _ n run] inv run keep n(1) by (auto simp: bee_io_def split: sum.splits)
qed

end

sublocale bee_total \<subseteq> tot: bee_ops S ok content E H small "\<lambda>_. True" "\<lambda>_ _. False"
  by (rule bee_ops_total)

section \<open>The root of the tree\<close>

text \<open>The last block of the log is the root of a well-formed tree with the entries \<open>xs\<close>.\<close>

definition bee_root :: "bnode list \<Rightarrow> entry list \<Rightarrow> bool" where
  "bee_root L xs \<longleftrightarrow>
     (if L = [] then xs = []
      else \<exists>h t. tree_at L (length L - 1) t \<and> bal h t \<and> (0 < h \<longrightarrow> bt_ents t \<noteq> []) \<and> binorder t = xs)"

definition bee_rep :: "crypto \<Rightarrow> hashfun \<Rightarrow> ('s \<Rightarrow> bool) \<Rightarrow> ('s \<Rightarrow> nat \<Rightarrow> bytes option) \<Rightarrow> (entry \<Rightarrow> bool) \<Rightarrow>
    's hyperbee \<Rightarrow> entry list \<Rightarrow> bool" where
  "bee_rep E H ok content small b xs \<longleftrightarrow>
     bee_inv E H ok content b \<and> bee_root (bee_log content b) xs \<and> bt_inv xs \<and> list_all small xs"

lemma root_seq_log: "bee_inv E H ok content b \<Longrightarrow> root_seq b = before (length (bee_log content b))"
proof -
  assume "bee_inv E H ok content b"
  then obtain L1 L2 where bi: "bee_is E H ok content b L1 L2" by (auto simp: bee_inv_def)
  then show ?thesis
    using bee_is_log [OF bi] bee_is_len [OF bi] by (auto simp: root_seq_def before_def bee_is_def split: option.splits)
qed

text \<open>A tree of height \<open>h\<close> has at least \<open>5 ^ h\<close> entries, so fewer than \<open>2 ^ 62\<close> entries mean a height below 27.\<close>

lemma weave_length: "length ls = Suc (length es) \<Longrightarrow> length (weave ls es) = length es + sum_list (map length ls)"
proof (induction ls es rule: weave.induct)
  case (3 l ls e es)
  then show ?case by simp
qed auto

lemma sum_list_ge: "\<forall>x \<in> set xs. c \<le> f x \<Longrightarrow> length xs * c \<le> sum_list (map f xs)" for f :: "'a \<Rightarrow> nat"
  by (induction xs) auto

lemma bal_size: "bal h t \<Longrightarrow> MIN_KEYS \<le> length (bt_ents t) \<Longrightarrow> 5 ^ Suc h \<le> Suc (length (binorder t))"
proof (induction h arbitrary: t)
  case 0
  then show ?case by (cases t) auto
next
  case (Suc h)
  obtain es ts where t: "t = BT es ts" by (cases t)
  have len: "length ts = Suc (length es)" using Suc(2) t by simp
  have "\<forall>u \<in> set ts. 5 ^ Suc h \<le> Suc (length (binorder u))" using Suc(1,2) t by fastforce
  then have "length ts * 5 ^ Suc h \<le> sum_list (map (\<lambda>u. Suc (length (binorder u))) ts)" by (rule sum_list_ge)
  also have "\<dots> = length ts + sum_list (map (\<lambda>u. length (binorder u)) ts)" by (induction ts) auto
  also have "\<dots> = Suc (length (binorder t))"
    using weave_length [of "map binorder ts" es] len by (simp add: t binorder.simps comp_def)
  finally have *: "length ts * 5 ^ Suc h \<le> Suc (length (binorder t))" .
  have "5 * 5 ^ Suc h \<le> length ts * 5 ^ Suc h" using Suc(3) t len by (intro mult_le_mono1) simp
  with * show ?case by (metis le_trans power_Suc)
qed

lemma bee_height:
  assumes "bal h t" "0 < h \<longrightarrow> bt_ents t \<noteq> []" "length (binorder t) < 2 ^ 62"
  shows "h < 27"
proof (rule ccontr)
  assume "\<not> h < 27"
  then obtain h' where h: "h = Suc h'" "26 \<le> h'" by (cases h) auto
  obtain es ts where t: "t = BT es ts" by (cases t)
  obtain u us where ts: "ts = u # us" using assms(1) h t by (cases ts) auto
  have "5 ^ Suc h' \<le> Suc (length (binorder u))" using assms(1) h t ts by (intro bal_size) auto
  moreover have "length (binorder u) < length (binorder t)"
    using assms(1,2) h t ts weave_length [of "map binorder ts" es] by (simp add: binorder.simps)
  moreover have "(5 :: nat) ^ 27 \<le> 5 ^ Suc h'" using h(2) by (intro power_increasing) auto
  ultimately show False using assms(3) by simp
qed

section \<open>The operations\<close>

text \<open>Sequences of updates, and the same on the sorted list of entries.\<close>

datatype bee_op = PutOp bytes bytes | DelOp bytes

fun bee_step :: "crypto \<Rightarrow> hashfun \<Rightarrow> ('e, 's) store \<Rightarrow> bee_op \<Rightarrow> 's hyperbee \<Rightarrow> ('e core_error, unit, 's hyperbee) outcome option" where
  "bee_step E H S (PutOp k v) b = bee_put E H S k v b"
| "bee_step E H S (DelOp k) b = then_do (bee_del E H S k b) (\<lambda>_ b. Some (Inr (), b))"

fun bee_run :: "crypto \<Rightarrow> hashfun \<Rightarrow> ('e, 's) store \<Rightarrow> bee_op list \<Rightarrow> 's hyperbee \<Rightarrow> ('e core_error, unit, 's hyperbee) outcome option" where
  "bee_run E H S [] b = Some (Inr (), b)"
| "bee_run E H S (op # ops) b = then_do (bee_step E H S op b) (\<lambda>_ b. bee_run E H S ops b)"

fun apply_op :: "bee_op \<Rightarrow> entry list \<Rightarrow> entry list" where
  "apply_op (PutOp k v) xs = bt_insert k v xs"
| "apply_op (DelOp k) xs = bt_remove k xs"

definition apply_ops :: "bee_op list \<Rightarrow> entry list \<Rightarrow> entry list" where
  "apply_ops ops xs = fold apply_op ops xs"

lemma apply_ops_simps [simp]: "apply_ops [] xs = xs" "apply_ops (op # ops) xs = apply_ops ops (apply_op op xs)"
  by (simp_all add: apply_ops_def)

lemma length_bt_insert: "length (bt_insert k v xs) \<le> Suc (length xs)"
  by (induction k v xs rule: bt_insert.induct) auto

lemma length_apply_op: "length (apply_op op xs) \<le> Suc (length xs)"
  using length_bt_insert by (cases op) (auto simp: bt_remove_def intro: le_SucI)

context bee_ops
begin

abbreviation rep :: "'s hyperbee \<Rightarrow> entry list \<Rightarrow> bool" where
  "rep b xs \<equiv> bee_rep E H ok content small b xs \<and> keep b"

lemma rep_root:
  assumes "rep b xs"
  obtains (empty) "root_seq b = None" "bee_log content b = []" "xs = []"
  | (tree) s h t where "root_seq b = Some s" "Suc s = length (bee_log content b)" "tree_at (bee_log content b) s t" "bal h t"
      "0 < h \<longrightarrow> bt_ents t \<noteq> []" "binorder t = xs"
proof (cases "bee_log content b")
  case Nil
  then show ?thesis using assms empty root_seq_log by (fastforce simp: bee_rep_def bee_root_def before_def)
next
  case (Cons n L)
  then have "root_seq b = Some (length (bee_log content b) - 1)"
    using assms root_seq_log by (fastforce simp: bee_rep_def before_def)
  then show ?thesis using assms tree Cons by (auto simp: bee_rep_def bee_root_def)
qed

lemma rep_parts: "rep b xs \<Longrightarrow> (bee_inv E H ok content b \<and> keep b) \<and> bt_inv xs \<and> list_all small xs"
  by (simp add: bee_rep_def)

lemma repI:
  assumes "bee_inv E H ok content b \<and> keep b" "Suc s = length (bee_log content b)" "tree_at (bee_log content b) s t" "bal h t"
    "0 < h \<longrightarrow> bt_ents t \<noteq> []" "binorder t = xs" "bt_inv xs" "list_all small xs"
  shows "rep b xs"
proof -
  have "length (bee_log content b) - 1 = s" "bee_log content b \<noteq> []" using assms(2) by auto
  then show ?thesis using assms by (auto simp: bee_rep_def bee_root_def)
qed

lemma bee_get_ok:
  assumes "rep b xs"
  shows "read_ok (\<lambda>e. bad e b) (bee_get E H S b k) (\<lambda>v. v = bt_get xs k)"
  using assms
proof (cases rule: rep_root)
  case (tree s h t)
  then show ?thesis
    using get_from_ok [of b s t h k] rep_parts [OF assms] by (auto simp: bee_get_def bee_get_root_def)
qed (simp add: bee_get_def bee_get_root_def)

lemma bee_range_ok:
  assumes "rep b xs"
  shows "read_ok (\<lambda>e. bad e b) (bee_range_of E H S b r) (\<lambda>out. out = select_range r xs)"
  using assms
proof (cases rule: rep_root)
  case (tree s h t)
  then show ?thesis
    using collect_ok [of b s t h] rep_parts [OF assms]
    by (auto simp: bee_range_of_def range_from_def intro!: read_ok_then elim!: read_ok_weaken)
qed (simp add: bee_range_of_def range_from_def)

lemma list_all_bt_insert: "list_all small xs \<Longrightarrow> small (k, v) \<Longrightarrow> list_all small (bt_insert k v xs)"
  using set_bt_insert_subset [of k v xs] by (auto simp: list_all_iff)

lemma bee_put_ok:
  assumes "rep b xs" "small (k, v)" "length xs < 2 ^ 62" "length (bee_log content b) + 90 \<le> KEY_USERDATA"
  shows "run_ok bad (bee_put E H S k v b) (\<lambda>_ b'. rep b' (bt_insert k v xs) \<and> grown 90 b b')"
  using assms(1)
proof (cases rule: rep_root)
  case empty
  have "run_ok bad (then_do (put_node (bee_io E H S) \<lparr> bn_entries = [(k, v)], bn_children = [] \<rparr> b) (\<lambda>_ b. Some (Inr (), b)))
    (\<lambda>_ b'. rep b' (bt_insert k v xs) \<and> grown 90 b b')"
    using rep_parts [OF assms(1)] assms(2,4) empty
    by (intro write_node [where ts = "[]"]) (auto intro!: repI [where h = 0, THEN conjunct1] intro: grown_le simp: bt_inv_Cons)
  then show ?thesis using empty by (simp add: bee_put_def)
next
  case (tree s h t)
  note p = rep_parts [OF assms(1)]
  have h: "h < 27" using bee_height [OF tree(4,5)] tree(6) assms(3) by simp
  have so: "bt_inv (bt_insert k v xs)" "list_all small (bt_insert k v xs)" using p list_all_bt_insert assms(2) by auto
  have ins: "run_ok bad (bee_insert (bee_io E H S) s k v b)
    (\<lambda>r b'. grown (2 * Suc h) b b' \<and> ins_res h (bt_insert k v xs) (length (bt_ents t)) r b')"
    using bee_insert_ok [OF _ tree(3,4), of k v] p tree(6) assms(2,4) h by simp
  have "run_ok bad (then_do (bee_insert (bee_io E H S) s k v b) (\<lambda>r b.
      case r of
        Split l m r \<Rightarrow> then_do (put_node (bee_io E H S) \<lparr> bn_entries = [m], bn_children = [l, r] \<rparr> b) (\<lambda>_ b. Some (Inr (), b))
      | Down _ \<Rightarrow> Some (Inr (), b))) (\<lambda>_ b'. rep b' (bt_insert k v xs) \<and> grown 90 b b')"
  proof (rule run_ok_then, rule run_ok_weaken [OF ins], elim conjE, goal_cases)
    case (1 r b1)
    show ?case
    proof (cases r)
      case (Down s')
      obtain t' where t': "Suc s' = length (bee_log content b1)" "tree_at (bee_log content b1) s' t'" "bal h t'"
          "length (bt_ents t) \<le> length (bt_ents t')" "binorder t' = bt_insert k v xs"
        using 1(2) Down by (auto simp: ins_res_def)
      have "0 < h \<longrightarrow> bt_ents t' \<noteq> []" using t'(4) tree(5) by auto
      then have "rep b1 (bt_insert k v xs)" using repI [OF grown_inv [OF 1(1)] t'(1-3) _ t'(5) so] by simp
      then show ?thesis using Down grown_le [OF 1(1), of 90] h by simp
    next
      case (Split l m r')
      obtain tl tr where t': "tree_at (bee_log content b1) l tl" "tree_at (bee_log content b1) r' tr" "bal h tl" "bal h tr"
          "MIN_KEYS \<le> length (bt_ents tl)" "MIN_KEYS \<le> length (bt_ents tr)" "binorder tl @ m # binorder tr = bt_insert k v xs"
        using 1(2) Split by (auto simp: ins_res_def)
      have m: "small m" using so(2) by (simp add: t'(7) [symmetric])
      have "run_ok bad (then_do (put_node (bee_io E H S) \<lparr> bn_entries = [m], bn_children = [l, r'] \<rparr> b1) (\<lambda>_ b. Some (Inr (), b)))
        (\<lambda>_ b'. rep b' (bt_insert k v xs) \<and> grown 90 b b')"
        using t' m so grown_inv [OF 1(1)] grown_len [OF 1(1)] h assms(4) grown_seq [OF 1(1), of 1 _ 90]
        by (intro write_node [where ts = "[tl, tr]"]) (auto intro!: repI [where h = "Suc h", THEN conjunct1] simp: binorder.simps)
      then show ?thesis using Split by simp
    qed
  qed
  then show ?thesis using tree(1) by (simp add: bee_put_def Let_def)
qed

lemma shrink_ok:
  assumes g: "grown k b b1" "k + 1 \<le> 90" "length (bee_log content b) + 90 \<le> KEY_USERDATA"
    and res: "del_res h xs m s u b1" and so: "bt_inv xs" "list_all small xs"
  shows "run_ok bad (then_do (look (io_node (bee_io E H S) b1 s) b1) (\<lambda>n b.
      if bn_entries n = [] \<and> \<not> is_leaf n
      then then_do (look (io_node (bee_io E H S) b (bn_children n ! 0)) b) (\<lambda>child b.
           then_do (put_node (bee_io E H S) child b) (\<lambda>_ b. Some (Inr True, b)))
      else Some (Inr True, b))) (\<lambda>r b'. r \<and> rep b' xs \<and> grown 90 b b')"
proof -
  obtain es ts where t: "Suc s = length (bee_log content b1)" "tree_at (bee_log content b1) s (BT es ts)" "bal h (BT es ts)"
      "binorder (BT es ts) = xs"
    using res unfolding del_res_def by (metis btree.exhaust)
  note inv = grown_inv [OF g(1)]
  show ?thesis
  proof (rule look_node [OF inv t(2)], goal_cases)
    case (1 n)
    show ?case
    proof (cases "es = [] \<and> ts \<noteq> []")
      case True
      then obtain h' u where h: "h = Suc h'" "ts = [u]" using t(3) by (cases h; cases ts) auto
      obtain ues uts where u: "u = BT ues uts" by (cases u)
      have b: "bal h' (BT ues uts)" "MIN_KEYS \<le> length ues" "xs = binorder (BT ues uts)"
        using t(3,4) h u True by (auto simp: binorder.simps)
      have sm: "list_all small ues" using bal_ents [OF b(1)] so(2) b(3) by (auto simp: list_all_iff)
      have at: "tree_at (bee_log content b1) (bn_children n ! 0) (BT ues uts)"
        using trees_nth [OF 1(2), of 0] h u by simp
      have "run_ok bad (then_do (look (io_node (bee_io E H S) b1 (bn_children n ! 0)) b1) (\<lambda>child b.
           then_do (put_node (bee_io E H S) child b) (\<lambda>_ b. Some (Inr True, b)))) (\<lambda>r b'. r \<and> rep b' xs \<and> grown 90 b b')"
      proof (rule look_node [OF inv at], goal_cases)
        case (1 child)
        have "length (bn_children child) \<le> MAX_CHILDREN" "length ues < MAX_CHILDREN"
          using b(1) shape_length list_all2_lengthD [OF 1(2)] by (fastforce simp: bal_iff)+
        then show ?case
          using 1 b so sm inv g grown_len [OF g(1)] grown_seq [OF g(1), of 1 _ 90]
          by (intro write_node [where ts = uts]) (auto intro!: repI [where h = h', THEN conjunct1])
      qed
      then show ?thesis using 1 True by simp
    next
      case False
      have "rep b1 xs" using repI [OF inv t(1-3) _ t(4) so] False bal_leaf_iff [OF t(3)] by auto
      then show ?thesis using False 1 g grown_le [OF g(1), of 90] by auto
    qed
  qed
qed

lemma bee_del_ok:
  assumes "rep b xs" "length xs < 2 ^ 62" "length (bee_log content b) + 90 \<le> KEY_USERDATA"
  shows "run_ok bad (bee_del E H S k b) (\<lambda>r b'. (r \<longleftrightarrow> bt_get xs k \<noteq> None) \<and> rep b' (bt_remove k xs) \<and> grown 90 b b' \<and>
    (\<not> r \<longrightarrow> b' = b))"
  using assms(1)
proof (cases rule: rep_root)
  case empty
  then show ?thesis using assms(1) rep_parts [OF assms(1)] by (simp add: bee_del_def bt_remove_def grown_def)
next
  case (tree s h t)
  note p = rep_parts [OF assms(1)]
  have h: "h < 27" using bee_height [OF tree(4,5)] tree(6) assms(2) by simp
  have so: "bt_inv (bt_remove k xs)" "list_all small (bt_remove k xs)" using p by (auto simp: list_all_iff bt_remove_def intro: bt_inv_filter)
  have same: "bt_remove k xs = xs" if "bt_get xs k = None"
    using that by (intro bt_remove_other) (auto simp: map_of_eq_None_iff)
  have del: "run_ok bad (bee_delete (bee_io E H S) s k b)
    (\<lambda>r b'. case r of NotFound \<Rightarrow> b' = b \<and> bt_get xs k = None
       | Removed s' u \<Rightarrow> bt_get xs k \<noteq> None \<and> grown (3 * Suc h) b b' \<and> del_res h (bt_remove k xs) (length (bt_ents t)) s' u b')"
    using bee_delete_ok [OF _ tree(3,4), of k, unfolded tree(6)] p tree(5) assms(3) h by simp
  show ?thesis
    unfolding bee_del_def Let_def tree(1) option.case
  proof (rule run_ok_then, rule run_ok_weaken [OF del], goal_cases)
    case (1 r b1)
    show ?case
    proof (cases r)
      case NotFound
      then show ?thesis using 1 assms(1) same p by (auto simp: grown_def)
    next
      case (Removed s' u)
      with 1 have g: "grown (3 * Suc h) b b1" and res: "del_res h (bt_remove k xs) (length (bt_ents t)) s' u b1"
        and pr: "bt_get xs k \<noteq> None" by auto
      have "3 * Suc h + 1 \<le> 90" using h by simp
      from shrink_ok [OF g this assms(3) res so] show ?thesis using Removed pr by (auto elim!: run_ok_weaken)
    qed
  qed
qed

lemma bee_run_ok:
  assumes "rep b xs" "\<forall>k v. PutOp k v \<in> set ops \<longrightarrow> small (k, v)" "length xs + length ops \<le> 2 ^ 62"
    and "length (bee_log content b) + 90 * length ops \<le> KEY_USERDATA"
  shows "run_ok bad (bee_run E H S ops b) (\<lambda>_ b'. rep b' (apply_ops ops xs) \<and> grown (90 * length ops) b b')"
  using assms
proof (induction ops arbitrary: b xs)
  case Nil
  then show ?case using rep_parts [OF Nil(1)] by (simp add: grown_def)
next
  case (Cons op ops)
  note len = length_apply_op [of op xs]
  have st: "run_ok bad (bee_step E H S op b) (\<lambda>_ b'. rep b' (apply_op op xs) \<and> grown 90 b b')"
  proof (cases op)
    case (PutOp k v)
    then show ?thesis using bee_put_ok [OF Cons(2), of k v] Cons(3-5) by simp
  next
    case (DelOp k)
    then show ?thesis
      using bee_del_ok [OF Cons(2), of k] Cons(4,5) by (auto intro!: run_ok_then elim!: run_ok_weaken)
  qed
  show ?case
    unfolding bee_run.simps
  proof (rule run_ok_then, rule run_ok_weaken [OF st], elim conjE, goal_cases)
    case (1 u b1)
    have r: "run_ok bad (bee_run E H S ops b1) (\<lambda>_ b'. rep b' (apply_ops ops (apply_op op xs)) \<and> grown (90 * length ops) b1 b')"
      using 1 Cons(3-5) len grown_len [OF 1(1)] by (intro Cons(1)) auto
    show ?case using grown_seq [OF 1(1), of "90 * length ops"] by (intro run_ok_weaken [OF r]) simp
  qed
qed

end

end
