(* ===== verification/Hyperbee_Iter.thy ===== *)
theory Hyperbee_Iter
  imports Hyperbee_Map
begin

text \<open>
  The lazy iterator of a hyperbee yields what an eager range read returns: the slots of a node in traversal
  order, what is left to visit below a stack of frames, and one step of the loop.
\<close>

section \<open>The slots of a node\<close>

text \<open>What the slots of a node hold, in key order: a leaf has an entry in each, an inner node a child in every even one.\<close>

fun slots :: "btree list \<Rightarrow> entry list \<Rightarrow> (entry + btree) list" where
  "slots [] es = map Inl es"
| "slots (t # ts) [] = [Inr t]"
| "slots (t # ts) (e # es) = Inr t # Inl e # slots ts es"

definition visits :: "bool \<Rightarrow> btree \<Rightarrow> (entry + btree) list" where
  "visits rv t = (let xs = slots (bt_kids t) (bt_ents t) in if rv then rev xs else xs)"

definition traverse :: "bool \<Rightarrow> btree \<Rightarrow> entry list" where
  "traverse rv t = (if rv then rev (binorder t) else binorder t)"

fun slot_out :: "bool \<Rightarrow> entry + btree \<Rightarrow> entry list" where
  "slot_out rv (Inl e) = [e]"
| "slot_out rv (Inr t) = traverse rv t"

lemma slots_length: "length ts = Suc (length es) \<Longrightarrow> length (slots ts es) = Suc (2 * length es)"
proof (induction ts es rule: slots.induct)
  case (3 t ts e es)
  then show ?case by (cases ts) auto
qed auto

lemma slots_nth:
  assumes "length ts = Suc (length es)" "s \<le> 2 * length es"
  shows "slots ts es ! s = (if s mod 2 = 0 then Inr (ts ! (s div 2)) else Inl (es ! (s div 2)))"
  using assms
proof (induction ts es arbitrary: s rule: slots.induct)
  case (3 t ts e es)
  show ?case
  proof (cases s)
    case (Suc s')
    then show ?thesis using 3(1) [of "s' - 1"] 3(2,3) by (cases s') (auto simp: nth_Cons split: nat.splits)
  qed simp
qed auto

lemma slots_concat: "length ts = Suc (length es) \<or> ts = [] \<Longrightarrow> concat (map (slot_out False) (slots ts es)) = weave (map binorder ts) es"
proof (induction ts es rule: slots.induct)
  case (3 t ts e es)
  then show ?case by (cases ts) (auto simp: traverse_def)
qed (auto simp: traverse_def comp_def)

lemma slot_out_rev: "slot_out True x = rev (slot_out False x)"
  by (cases x) (auto simp: traverse_def)

lemma visits_out:
  assumes "bal h t"
  shows "concat (map (slot_out rv) (visits rv t)) = traverse rv t"
proof -
  obtain es ts where t: "t = BT es ts" by (cases t)
  have *: "concat (map (slot_out False) (slots ts es)) = binorder t"
    using assms t slots_concat [of ts es] by (cases h) (auto simp: binorder.simps)
  have "concat (map (slot_out True) (rev xs)) = rev (concat (map (slot_out False) xs))" for xs
    by (induction xs) (auto simp: slot_out_rev)
  then show ?thesis using * t by (cases rv) (simp_all add: visits_def traverse_def)
qed

text \<open>The slot that the iterator looks at.\<close>

lemma visits_leaf:
  "length (visits rv (BT es [])) = length es"
  "slot < length es \<Longrightarrow> visits rv (BT es []) ! slot = Inl (es ! (if rv then length es - 1 - slot else slot))"
  by (auto simp: visits_def Let_def rev_nth)

lemma visits_inner:
  assumes "length ts = Suc (length es)"
  shows "length (visits rv (BT es ts)) = Suc (2 * length es)"
    and "slot \<le> 2 * length es \<Longrightarrow> visits rv (BT es ts) ! slot =
      (if slot mod 2 = 0 then Inr (ts ! (if rv then length es - slot div 2 else slot div 2))
       else Inl (es ! (if rv then length es - 1 - slot div 2 else slot div 2)))"
proof -
  show "length (visits rv (BT es ts)) = Suc (2 * length es)" using slots_length [OF assms] by (simp add: visits_def Let_def)
  assume s: "slot \<le> 2 * length es"
  have v: "visits rv (BT es ts) ! slot = slots ts es ! (if rv then 2 * length es - slot else slot)"
    using s slots_length [OF assms] by (simp add: visits_def Let_def rev_nth)
  consider (child) q where "slot = 2 * q" | (entry) q where "slot = Suc (2 * q)" by (metis evenE oddE Suc_eq_plus1)
  then show "visits rv (BT es ts) ! slot =
      (if slot mod 2 = 0 then Inr (ts ! (if rv then length es - slot div 2 else slot div 2))
       else Inl (es ! (if rv then length es - 1 - slot div 2 else slot div 2)))"
  proof cases
    case child
    then have "2 * length es - slot = 2 * (length es - q)" using s by simp
    then show ?thesis using v slots_nth [OF assms, of slot] slots_nth [OF assms, of "2 * (length es - q)"] s child by simp
  next
    case entry
    then have m: "2 * length es - slot = Suc (2 * (length es - 1 - q))" using s by simp
    show ?thesis unfolding v m using slots_nth [OF assms, of slot] slots_nth [OF assms, of "Suc (2 * (length es - 1 - q))"] s entry by simp
  qed
qed

section \<open>What is left to visit\<close>

definition frame_out :: "bool \<Rightarrow> btree \<Rightarrow> nat \<Rightarrow> entry list" where
  "frame_out rv t slot = concat (map (slot_out rv) (drop slot (visits rv t)))"

text \<open>The trees behind the frames of a stack, top first, and the entries that are left in them.\<close>

fun stack_out :: "bool \<Rightarrow> btree list \<Rightarrow> (bnode \<times> nat) list \<Rightarrow> entry list" where
  "stack_out rv (t # ts) ((n, slot) # st) = frame_out rv t slot @ stack_out rv ts st"
| "stack_out rv _ _ = []"

text \<open>Bounds the number of turns of the loop.\<close>

fun btsize :: "btree \<Rightarrow> nat" where
  "btsize (BT es ts) = Suc (length es + sum_list (map (\<lambda>t. Suc (btsize t)) ts))"

fun slot_size :: "entry + btree \<Rightarrow> nat" where
  "slot_size (Inl e) = 1"
| "slot_size (Inr t) = Suc (btsize t)"

definition frame_size :: "bool \<Rightarrow> btree \<Rightarrow> nat \<Rightarrow> nat" where
  "frame_size rv t slot = Suc (sum_list (map slot_size (drop slot (visits rv t))))"

fun stack_size :: "bool \<Rightarrow> btree list \<Rightarrow> (bnode \<times> nat) list \<Rightarrow> nat" where
  "stack_size rv (t # ts) ((n, slot) # st) = frame_size rv t slot + stack_size rv ts st"
| "stack_size rv _ _ = 0"

lemma slots_size: "length ts = Suc (length es) \<or> ts = [] \<Longrightarrow>
    sum_list (map slot_size (slots ts es)) = length es + sum_list (map (\<lambda>t. Suc (btsize t)) ts)"
proof (induction ts es rule: slots.induct)
  case (1 es)
  then show ?case by (induction es) auto
next
  case (3 t ts e es)
  then show ?case by (cases ts) auto
qed auto

lemma frame_size_start:
  assumes "bal h t"
  shows "frame_size rv t 0 = btsize t"
proof -
  obtain es ts where t: "t = BT es ts" by (cases t)
  have "sum_list (map slot_size (slots ts es)) = length es + sum_list (map (\<lambda>t. Suc (btsize t)) ts)"
    using assms t by (intro slots_size) (cases h, auto)
  then show ?thesis by (cases rv) (simp_all add: t frame_size_def visits_def rev_map [symmetric])
qed

lemma frame_step:
  assumes "slot < length (visits rv t)"
  shows "frame_out rv t slot = slot_out rv (visits rv t ! slot) @ frame_out rv t (Suc slot)"
    "frame_size rv t slot = slot_size (visits rv t ! slot) + frame_size rv t (Suc slot)"
  using Cons_nth_drop_Suc [OF assms, symmetric] by (simp_all add: frame_out_def frame_size_def)

lemma frame_end: "length (visits rv t) \<le> slot \<Longrightarrow> frame_out rv t slot = [] \<and> frame_size rv t slot = 1"
  by (simp add: frame_out_def frame_size_def)

section \<open>The loop\<close>

definition node_holds :: "bnode list \<Rightarrow> bnode \<Rightarrow> btree \<Rightarrow> bool" where
  "node_holds L n t \<longleftrightarrow> bn_entries n = bt_ents t \<and> list_all2 (tree_at L) (bn_children n) (bt_kids t) \<and> (\<exists>h. bal h t)"

definition frames_ok :: "bnode list \<Rightarrow> (bnode \<times> nat) list \<Rightarrow> btree list \<Rightarrow> bool" where
  "frames_ok L st ts \<longleftrightarrow> list_all2 (\<lambda>(n, slot) t. node_holds L n t) st ts"

lemma frames_ok_Cons: "frames_ok L ((n, slot) # st) us \<longleftrightarrow> (\<exists>t ts. us = t # ts \<and> node_holds L n t \<and> frames_ok L st ts)"
  by (auto simp: frames_ok_def list_all2_Cons1)

text \<open>The entries that a stack still yields under the bounds of the iterator.\<close>

definition left_over :: "range_iter \<Rightarrow> btree list \<Rightarrow> (bnode \<times> nat) list \<Rightarrow> entry list" where
  "left_over it ts st = filter (\<lambda>(k, _). in_bounds (it_bounds it) k) (stack_out (r_reverse (it_bounds it)) ts st)"

lemma left_over_stack [simp]: "left_over (it\<lparr> it_stack := st \<rparr>) = left_over it"
  by (simp add: left_over_def fun_eq_iff)

text \<open>What one call gives when the entries \<open>out\<close> are left: an error, the end, or the first entry with the rest still to come.\<close>

definition iter_result :: "('e core_error \<Rightarrow> bool) \<Rightarrow> bnode list \<Rightarrow> range_iter \<Rightarrow> entry list \<Rightarrow>
    (('e core_error, entry) result option \<times> range_iter) option \<Rightarrow> bool" where
  "iter_result wrong L it out res \<longleftrightarrow>
     (\<exists>e it'. res = Some (Some (Inl e), it') \<and> wrong e) \<or>
     (out = [] \<and> (\<exists>it'. res = Some (None, it') \<and> it_done it')) \<or>
     (\<exists>x xs st ts. out = x # xs \<and> res = Some (Some (Inr x), dec_limit (it\<lparr> it_stack := st \<rparr>)) \<and>
        frames_ok L st ts \<and> left_over it ts st = xs)"

lemma iter_result_stack [simp]: "iter_result wrong L (it\<lparr> it_stack := st \<rparr>) out res \<longleftrightarrow> iter_result wrong L it out res"
  by (simp add: iter_result_def)

lemma left_over_entry:
  assumes "slot < length (visits (r_reverse (it_bounds it)) t)" "visits (r_reverse (it_bounds it)) t ! slot = Inl kv"
  shows "left_over it (t # ts) ((n, slot) # st) =
    (if in_bounds (it_bounds it) (fst kv) then [kv] else []) @ left_over it (t # ts) ((n, Suc slot) # st)"
  using frame_step(1) [OF assms(1)] assms(2) by (simp add: left_over_def split_beta)

lemma left_over_child:
  assumes "slot < length (visits (r_reverse (it_bounds it)) t)" "visits (r_reverse (it_bounds it)) t ! slot = Inr u" "bal g u"
  shows "left_over it (t # ts) ((n, slot) # st) = left_over it (u # t # ts) ((c, 0) # (n, Suc slot) # st)"
  using frame_step(1) [OF assms(1)] assms(2) visits_out [OF assms(3)] by (simp add: left_over_def frame_out_def)

text \<open>The limit of the iterator.\<close>

definition limited :: "range_iter \<Rightarrow> entry list \<Rightarrow> entry list" where
  "limited it xs = (case it_remaining it of None \<Rightarrow> xs | Some m \<Rightarrow> take m xs)"

context node_log
begin

abbreviation iter_ok :: "'b \<Rightarrow> range_iter \<Rightarrow> entry list \<Rightarrow> (('e core_error, entry) result option \<times> range_iter) option \<Rightarrow> bool" where
  "iter_ok b \<equiv> iter_result (\<lambda>e. bad e b) (log b)"

lemma iter_entry:
  assumes "slot < length (visits (r_reverse (it_bounds it)) t)" "visits (r_reverse (it_bounds it)) t ! slot = Inl kv"
    and "frames_ok (log b) ((n, Suc slot) # st) (t # ts)"
    and "iter_ok b it (left_over it (t # ts) ((n, Suc slot) # st)) (iter_loop io b (it\<lparr> it_stack := (n, Suc slot) # st \<rparr>))"
  shows "iter_ok b it (left_over it (t # ts) ((n, slot) # st))
    (if in_bounds (it_bounds it) (fst kv) then Some (Some (Inr kv), dec_limit (it\<lparr> it_stack := (n, Suc slot) # st \<rparr>))
     else iter_loop io b (it\<lparr> it_stack := (n, Suc slot) # st \<rparr>))"
proof (cases "in_bounds (it_bounds it) (fst kv)")
  case True
  then show ?thesis
    using left_over_entry [OF assms(1,2), of ts n st] assms(3)
    unfolding iter_result_def by (intro disjI2) auto
qed (use left_over_entry [OF assms(1,2), of ts n st] assms(4) in simp)

lemma iter_child:
  assumes "slot < length (visits (r_reverse (it_bounds it)) t)" "visits (r_reverse (it_bounds it)) t ! slot = Inr u"
    and "inv b" "tree_at (log b) cs u" "bal g u" and "frames_ok (log b) ((n, Suc slot) # st) (t # ts)"
    and "\<And>c. frames_ok (log b) ((c, 0) # (n, Suc slot) # st) (u # t # ts) \<Longrightarrow>
      iter_ok b it (left_over it (u # t # ts) ((c, 0) # (n, Suc slot) # st)) (iter_loop io b (it\<lparr> it_stack := (c, 0) # (n, Suc slot) # st \<rparr>))"
  shows "iter_ok b it (left_over it (t # ts) ((n, slot) # st))
     (case io_node io b cs of
        Inl e \<Rightarrow> Some (Some (Inl e), it\<lparr> it_stack := (n, Suc slot) # st, it_done := True \<rparr>)
      | Inr c \<Rightarrow> iter_loop io b (it\<lparr> it_stack := (c, 0) # (n, Suc slot) # st \<rparr>))"
proof (cases "io_node io b cs")
  case (Inl e)
  then show ?thesis using node_law [OF assms(3) tree_at_less [OF assms(4)]] by (auto simp: iter_result_def)
next
  case (Inr c)
  then have c: "c = log b ! cs" using node_law [OF assms(3) tree_at_less [OF assms(4)]] by simp
  have "node_holds (log b) c u" using assms(4,5) c by (cases u) (auto simp: node_holds_def tree_at.simps)
  then have "frames_ok (log b) ((c, 0) # (n, Suc slot) # st) (u # t # ts)" using assms(6) by (simp add: frames_ok_Cons)
  then show ?thesis using assms(7) [of c] left_over_child [OF assms(1,2,5), of ts n st c] Inr by simp
qed

lemma iter_loop_ok:
  assumes "inv b" "frames_ok (log b) (it_stack it) ts"
  shows "iter_ok b it (left_over it ts (it_stack it)) (iter_loop io b it)"
  using assms(2)
proof (induction "stack_size (r_reverse (it_bounds it)) ts (it_stack it)" arbitrary: it ts rule: less_induct)
  case less
  let ?rv = "r_reverse (it_bounds it)"
  show ?case
  proof (cases "it_stack it")
    case Nil
    then show ?thesis by (subst iter_loop.simps) (cases ts, auto simp: iter_result_def left_over_def)
  next
    case (Cons f st)
    obtain n slot where f: "f = (n, slot)" by (cases f)
    obtain t us where ts: "ts = t # us" and n: "node_holds (log b) n t" and us: "frames_ok (log b) st us"
      using less(2) Cons f by (auto simp: frames_ok_Cons)
    obtain es ks where t: "t = BT es ks" by (cases t)
    obtain h where sh: "shape h es ks" using n t by (auto simp: node_holds_def bal_iff)
    have ne: "bn_entries n = es" and nc: "list_all2 (tree_at (log b)) (bn_children n) ks" using n t by (auto simp: node_holds_def)
    have leaf: "is_leaf n \<longleftrightarrow> ks = []" using nc by (auto simp: is_leaf_def)
    have next_ok: "frames_ok (log b) ((n, Suc slot) # st) (t # us)" using us n by (simp add: frames_ok_Cons)
    have pop: "iter_ok b it (left_over it ts (it_stack it)) (iter_loop io b (it\<lparr> it_stack := st \<rparr>))"
      if "length (visits ?rv t) \<le> slot"
      using less(1) [of "it\<lparr> it_stack := st \<rparr>" us] us frame_end [OF that] ts Cons f by (simp add: left_over_def)
    have skip: "iter_ok b it (left_over it (t # us) ((n, Suc slot) # st)) (iter_loop io b (it\<lparr> it_stack := (n, Suc slot) # st \<rparr>))"
      if "slot < length (visits ?rv t)" "visits ?rv t ! slot = Inl kv" for kv
      using less(1) [of "it\<lparr> it_stack := (n, Suc slot) # st \<rparr>" "t # us"] next_ok frame_step(2) [OF that(1)] that(2) ts Cons f by simp
    note entry = iter_entry [OF _ _ next_ok skip]
    have enter: "iter_ok b it (left_over it (u # t # us) ((c, 0) # (n, Suc slot) # st))
        (iter_loop io b (it\<lparr> it_stack := (c, 0) # (n, Suc slot) # st \<rparr>))"
      if "slot < length (visits ?rv t)" "visits ?rv t ! slot = Inr u" "bal g u"
        "frames_ok (log b) ((c, 0) # (n, Suc slot) # st) (u # t # us)" for u g c
      using less(1) [of "it\<lparr> it_stack := (c, 0) # (n, Suc slot) # st \<rparr>" "u # t # us"] that frame_step(2) [OF that(1)]
        frame_size_start [OF that(3)] ts Cons f by simp
    note child = iter_child [OF _ _ assms(1) _ _ next_ok enter]
    show ?thesis
    proof (cases "ks = []")
      case True
      then show ?thesis
        using pop entry visits_leaf(1) [of ?rv es] visits_leaf(2) [of slot es ?rv] ne leaf Cons f t ts
        by (subst iter_loop.simps) (auto simp: Let_def)
    next
      case False
      then obtain g where g: "h = Suc g" using sh by (cases h) (auto simp: shape_def)
      have lk: "length ks = Suc (length es)" using sh g by (simp add: shape_Suc)
      have kid: "i < length (bn_children n)" "tree_at (log b) (bn_children n ! i) (ks ! i)" "bal g (ks ! i)" if "i \<le> length es" for i
        using that trees_nth [OF nc, of i] lk sh g by (auto simp: shape_Suc)
      note v = visits_inner [OF lk, where rv = ?rv]
      consider "2 * length es < slot" | "slot \<le> 2 * length es" "slot mod 2 = 0" | "slot \<le> 2 * length es" "slot mod 2 \<noteq> 0" by linarith
      then show ?thesis
      proof cases
        case 1
        then show ?thesis using pop v(1) ne leaf False Cons f t by (subst iter_loop.simps) (simp add: Let_def)
      next
        case 2
        let ?i = "if ?rv then length es - slot div 2 else slot div 2"
        have i: "?i \<le> length es" and l: "slot < length (visits ?rv t)" "visits ?rv t ! slot = Inr (ks ! ?i)"
          using 2 v t by auto
        from child [OF l kid(2,3) [OF i] l kid(3) [OF i]]
        show ?thesis using 2 ne leaf False Cons f ts kid(1) [OF i]
          by (subst iter_loop.simps) (cases ?rv; simp add: Let_def cong: sum.case_cong)
      next
        case 3
        then have l: "slot < length (visits ?rv t)"
            "visits ?rv t ! slot = Inl (es ! (if ?rv then length es - 1 - slot div 2 else slot div 2))" using v t by auto
        from entry [OF l l] show ?thesis using 3 ne leaf False Cons f ts
          by (subst iter_loop.simps) (cases ?rv; simp add: Let_def cong: if_cong)
      qed
    qed
  qed
qed

text \<open>The iterator has the entries \<open>out\<close> left.\<close>

definition iter_left :: "'b \<Rightarrow> range_iter \<Rightarrow> entry list \<Rightarrow> bool" where
  "iter_left b it out \<longleftrightarrow>
     (if it_done it then out = []
      else \<exists>xs. out = limited it xs \<and>
        (case it_start it of
           None \<Rightarrow> \<exists>ts. frames_ok (log b) (it_stack it) ts \<and> xs = left_over it ts (it_stack it)
         | Some root \<Rightarrow> it_stack it = [] \<and> (\<exists>h t. tree_at (log b) root t \<and> bal h t \<and>
             xs = filter (\<lambda>(k, _). in_bounds (it_bounds it) k) (traverse (r_reverse (it_bounds it)) t))))"

lemma iter_loop_left:
  assumes "inv b" "frames_ok (log b) (it_stack it) ts" "it_start it = None" "\<not> it_done it" "it_remaining it \<noteq> Some 0"
    and "out = limited it (left_over it ts (it_stack it))"
  shows "\<exists>r it'. iter_loop io b it = Some (r, it') \<and>
    ((\<exists>e. r = Some (Inl e) \<and> bad e b) \<or>
     (case out of [] \<Rightarrow> r = None \<and> iter_left b it' [] | x # xs \<Rightarrow> r = Some (Inr x) \<and> iter_left b it' xs))"
  using iter_loop_ok [OF assms(1,2)] unfolding iter_result_def
proof (elim disjE exE conjE, goal_cases)
  case (2 it')
  then show ?case using assms(6) by (auto simp: iter_left_def limited_def split: option.splits)
next
  case (3 x xs st ts')
  then show ?case using assms(3-6)
    by (cases "it_remaining it") (auto simp: iter_left_def limited_def dec_limit_def take_Cons' left_over_def intro!: exI [of _ xs] exI [of _ ts'])
qed auto

lemma iter_next_left:
  assumes "inv b" "iter_left b it out"
  shows "\<exists>r it'. iter_next io b it = Some (r, it') \<and>
    ((\<exists>e. r = Some (Inl e) \<and> bad e b) \<or>
     (case out of [] \<Rightarrow> r = None \<and> iter_left b it' [] | x # xs \<Rightarrow> r = Some (Inr x) \<and> iter_left b it' xs))"
proof (cases "it_done it \<or> it_remaining it = Some 0")
  case True
  then show ?thesis using assms(2) by (auto simp: iter_next_def iter_left_def limited_def split: if_splits option.splits)
next
  case False
  show ?thesis
  proof (cases "it_start it")
    case None
    then show ?thesis
      using assms False iter_loop_left [OF assms(1), of it _ out] by (auto simp: iter_left_def iter_next_def)
  next
    case (Some root)
    then obtain h t where t: "it_stack it = []" "tree_at (log b) root t" "bal h t"
        "out = limited it (filter (\<lambda>(k, _). in_bounds (it_bounds it) k) (traverse (r_reverse (it_bounds it)) t))"
      using assms(2) False by (auto simp: iter_left_def)
    show ?thesis
    proof (cases "io_node io b root")
      case (Inl e)
      then show ?thesis using node_law [OF assms(1) tree_at_less [OF t(2)]] Some False by (auto simp: iter_next_def)
    next
      case (Inr n)
      then have n: "n = log b ! root" using node_law [OF assms(1) tree_at_less [OF t(2)]] by simp
      let ?it = "it\<lparr> it_start := None, it_stack := [(n, 0)] \<rparr>"
      have "node_holds (log b) n t" using t(2,3) n by (cases t) (auto simp: node_holds_def tree_at.simps)
      then have "frames_ok (log b) (it_stack ?it) [t]" by (simp add: frames_ok_def)
      moreover have "left_over ?it [t] (it_stack ?it) = filter (\<lambda>(k, _). in_bounds (it_bounds it) k) (traverse (r_reverse (it_bounds it)) t)"
        using visits_out [OF t(3)] by (simp add: left_over_def frame_out_def)
      ultimately show ?thesis
        using iter_loop_left [OF assms(1), of ?it "[t]" out] False Some Inr t(1,4) by (simp add: iter_next_def limited_def)
    qed
  qed
qed

end

section \<open>Pulling entries\<close>

text \<open>The results of the first \<open>n\<close> calls of \<open>next\<close>.\<close>

fun pull :: "('e, 'b) node_io \<Rightarrow> 'b \<Rightarrow> nat \<Rightarrow> range_iter \<Rightarrow> ('e core_error, entry) result option list option" where
  "pull io b 0 it = Some []"
| "pull io b (Suc n) it =
     (case iter_next io b it of
        None \<Rightarrow> None
      | Some (r, it) \<Rightarrow> map_option (\<lambda>rs. r # rs) (pull io b n it))"

context node_log
begin

lemma pull_ok:
  assumes "inv b" "\<And>e. \<not> bad e b" "iter_left b it out"
  shows "pull io b n it = Some (map (\<lambda>i. if i < length out then Some (Inr (out ! i)) else None) [0..<n])"
  using assms(3)
proof (induction n arbitrary: it out)
  case (Suc n)
  obtain r it' where r: "iter_next io b it = Some (r, it')"
      "case out of [] \<Rightarrow> r = None \<and> iter_left b it' [] | x # xs \<Rightarrow> r = Some (Inr x) \<and> iter_left b it' xs"
    using iter_next_left [OF assms(1) Suc(2)] assms(2) by blast
  have "[0..<Suc n] = 0 # map Suc [0..<n]" by (simp add: map_Suc_upt upt_conv_Cons)
  then show ?case using r Suc(1) by (cases out) auto
qed simp

end

context bee_ops
begin

lemma bee_iter_left:
  assumes "rep b xs"
  shows "iter_left b (bee_iter b r) (select_range r xs)"
  using assms
proof (cases rule: rep_root)
  case empty
  then show ?thesis
    by (auto simp: iter_left_def limited_def bee_iter_def select_range_def frames_ok_def left_over_def intro!: exI [of _ "[]"] split: option.splits)
next
  case (tree s h t)
  then show ?thesis
    by (auto simp: iter_left_def limited_def bee_iter_def select_range_def Let_def traverse_def rev_filter split: option.splits)
qed

end

end
