(* ===== verification/Hyperbee_Views.thy ===== *)
theory Hyperbee_Views
  imports Hyperbee_Iter
begin

text \<open>
  Past versions, differences, sub-databases, batches and the lazy iterator of a hyperbee, and the
  properties of the tree as a whole.
\<close>

section \<open>Compare-and-swap\<close>

context bee_ops
begin

lemma put_cas_ok:
  assumes "rep b xs" "small (k, v)" "length xs < 2 ^ 62" "length (bee_log content b) + 90 \<le> KEY_USERDATA"
  shows "run_ok bad (put_cas E H S k v expected b)
    (\<lambda>r b'. (r \<longleftrightarrow> bt_get xs k = expected) \<and> (if r then rep b' (bt_insert k v xs) else b' = b))"
  unfolding put_cas_def
  by (rule run_ok_then, rule run_ok_weaken [OF run_ok_map [where bad = bad, OF bee_get_ok [OF assms(1)]]])
    (use bee_put_ok [OF assms] in \<open>auto intro!: run_ok_then elim!: run_ok_weaken\<close>)

lemma del_cas_ok:
  assumes "rep b xs" "length xs < 2 ^ 62" "length (bee_log content b) + 90 \<le> KEY_USERDATA"
  shows "run_ok bad (del_cas E H S k expected b)
    (\<lambda>r b'. (r \<longleftrightarrow> bt_get xs k = expected \<and> expected \<noteq> None) \<and> (if r then rep b' (bt_remove k xs) else b' = b))"
  unfolding del_cas_def
  by (rule run_ok_then, rule run_ok_weaken [OF run_ok_map [where bad = bad, OF bee_get_ok [OF assms(1)]]])
    (use bee_del_ok [OF assms, of k] in \<open>auto intro!: run_ok_then elim!: run_ok_weaken\<close>)

end

section \<open>Past versions\<close>

lemma bee_root_take:
  assumes "bee_root (take v L) xs" "v \<le> length L"
  obtains (empty) "v = 0" "xs = []"
  | (tree) h t where "before v = Some (v - 1)" "tree_at L (v - 1) t" "bal h t" "binorder t = xs"
proof (cases "v = 0")
  case True
  then show ?thesis using assms empty by (simp add: bee_root_def)
next
  case False
  then have "take v L \<noteq> []" "length (take v L) = v" using assms(2) by auto
  then obtain h t where "tree_at (take v L) (v - 1) t" "bal h t" "binorder t = xs" using assms(1) by (auto simp: bee_root_def)
  then show ?thesis using tree [of t h] tree_at_mono [of "take v L" "v - 1" t "drop v L"] False by (simp add: before_def)
qed

context bee_ops
begin

lemma get_version_ok:
  assumes "bee_inv E H ok content b \<and> keep b" "bee_root (take v (bee_log content b)) xs" "v \<le> length (bee_log content b)" "bt_inv xs"
  shows "read_ok (\<lambda>e. bad e b) (bee_get_root E H S b (before v) k) (\<lambda>r. r = bt_get xs k)"
  using assms(2,3)
proof (cases rule: bee_root_take)
  case (tree h t)
  then show ?thesis using get_from_ok [OF assms(1) tree(2,3)] assms(4) by (simp add: bee_get_root_def)
qed (simp add: bee_get_root_def before_def)

lemma range_version_ok:
  assumes "bee_inv E H ok content b \<and> keep b" "bee_root (take v (bee_log content b)) xs" "v \<le> length (bee_log content b)"
  shows "read_ok (\<lambda>e. bad e b) (range_from E H S b (before v) r) (\<lambda>out. out = select_range r xs)"
  using assms(2,3)
proof (cases rule: bee_root_take)
  case (tree h t)
  then show ?thesis using collect_ok [OF assms(1) tree(2,3)]
    by (auto simp: range_from_def intro!: read_ok_then elim!: read_ok_weaken)
qed (simp add: range_from_def before_def)

end

lemma bee_version_log:
  assumes "bee_inv E H ok content b" "pending b = None"
  shows "bee_version b = length (bee_log content b)"
proof -
  obtain L1 L2 where bi: "bee_is E H ok content b L1 L2" using assms(1) by (auto simp: bee_inv_def)
  then have "L2 = []" using assms(2) by (simp add: bee_is_def)
  then show ?thesis using bee_is_len [OF bi] bee_is_log [OF bi] by (simp add: bee_version_def)
qed

section \<open>Differences\<close>

lemma diff_loop_left: "diff_loop xs [] = map (\<lambda>(k, v). (k, Some v, None)) xs"
  by (induction xs) auto

lemma diff_loop_right: "diff_loop [] ys = map (\<lambda>(k, v). (k, None, Some v)) ys"
  by (induction ys) auto

lemma diff_loop_keys: "c \<in> set (diff_loop xs ys) \<Longrightarrow> fst c \<in> fst ` set xs \<union> fst ` set ys"
  by (induction xs ys rule: diff_loop.induct) (auto split: if_splits)

lemma bt_get_below_first: "bt_inv ((k', v) # m) \<Longrightarrow> k \<le> k' \<Longrightarrow> bt_get m k = None"
  by (auto simp: bt_inv_Cons map_of_eq_None_iff)

lemma diff_loop_set:
  assumes "bt_inv xs" "bt_inv ys"
  shows "(k, p, q) \<in> set (diff_loop xs ys) \<longleftrightarrow> p = bt_get xs k \<and> q = bt_get ys k \<and> p \<noteq> q"
  using assms
proof (induction xs ys rule: diff_loop.induct)
  case (4 ka va xs kb vb ys)
  note inv = "4.prems"[unfolded bt_inv_Cons]
  consider "ka < kb" | "kb < ka" | "ka = kb" "va \<noteq> vb" | "ka = kb" "va = vb" by force
  then show ?case
  proof cases
    case 1
    then show ?thesis
      using 4(1) [OF 1 _ "4.prems"(2)] inv bt_get_below_first [OF "4.prems"(1), of k] bt_get_below_first [OF "4.prems"(2), of k]
      by (auto simp: bt_get_below_first [OF "4.prems"(1)] bt_get_below_first [OF "4.prems"(2)])
  next
    case 2
    then show ?thesis
      using 4(2) [OF _ 2 "4.prems"(1)] inv bt_get_below_first [OF "4.prems"(1), of k] bt_get_below_first [OF "4.prems"(2), of k]
      by (auto simp: bt_get_below_first [OF "4.prems"(1)] bt_get_below_first [OF "4.prems"(2)])
  next
    case 3
    then show ?thesis
      using 4(3) inv bt_get_below_first [OF "4.prems"(1), of k] bt_get_below_first [OF "4.prems"(2), of k]
      by (auto simp: bt_get_below_first [OF "4.prems"(1)] bt_get_below_first [OF "4.prems"(2)])
  next
    case 4
    then show ?thesis
      using "4.IH"(4) inv bt_get_below_first [OF "4.prems"(1), of k] bt_get_below_first [OF "4.prems"(2), of k]
      by (auto simp: bt_get_below_first [OF "4.prems"(1)] bt_get_below_first [OF "4.prems"(2)])
  qed
qed (cases p; cases q; auto simp: diff_loop_left diff_loop_right bt_inv_Cons bt_get_iff map_of_eq_None_iff)+

lemma diff_loop_sorted:
  assumes "bt_inv xs" "bt_inv ys"
  shows "sorted_wrt (<) (map fst (diff_loop xs ys))"
  using assms
proof (induction xs ys rule: diff_loop.induct)
  case (4 ka va xs kb vb ys)
  have "\<forall>c \<in> set (diff_loop xs ((kb, vb) # ys)). ka < fst c" if "ka < kb"
    using diff_loop_keys [of _ xs "(kb, vb) # ys"] 4(5,6) that by (fastforce simp: bt_inv_Cons)
  moreover have "\<forall>c \<in> set (diff_loop ((ka, va) # xs) ys). kb < fst c" if "kb < ka"
    using diff_loop_keys [of _ "(ka, va) # xs" ys] 4(5,6) that by (fastforce simp: bt_inv_Cons)
  moreover have "\<forall>c \<in> set (diff_loop xs ys). ka < fst c" if "ka = kb"
    using diff_loop_keys [of _ xs ys] 4(5,6) that by (fastforce simp: bt_inv_Cons)
  ultimately show ?case using 4 by (auto simp: bt_inv_Cons)
qed (auto simp: diff_loop_left diff_loop_right bt_inv_Cons bt_inv_def comp_def split_beta)

section \<open>Sub-databases\<close>

lemma append_less_append [simp]: "p @ x < p @ y \<longleftrightarrow> x < (y :: bytes)" "p @ x \<le> p @ y \<longleftrightarrow> x \<le> (y :: bytes)"
    "\<not> p @ c # x \<le> (p :: bytes)"
  by (induction p) auto

lemma byte_max: "(x :: 8 word) \<le> 0xff"
  using unat_byte_less [of x] by (simp add: word_le_nat_alt del: unat_byte_less)

lemma byte_next:
  assumes "(x :: 8 word) < 0xff"
  shows "unat (x + 1) = Suc (unat x)"
proof -
  have "x + 1 \<noteq> 0" using assms by (auto simp: add_eq_0_iff2)
  then show ?thesis using unatSuc [of x] by (simp add: add.commute)
qed

lemma between_prefix: "p \<le> k \<Longrightarrow> k < p @ z \<Longrightarrow> prefix p (k :: bytes)"
proof (induction p arbitrary: k)
  case (Cons x p)
  then show ?case by (cases k) auto
qed simp

text \<open>Keys from the prefix up to its successor are the ones that start with the prefix.\<close>

lemma successor_loop_bound:
  assumes "rev r \<le> k"
  shows "(case successor_loop r of None \<Rightarrow> True | Some u \<Rightarrow> k < u) \<longleftrightarrow> prefix (rev r) k"
  using assms
proof (induction r arbitrary: k)
  case (Cons x r)
  have le: "rev r \<le> k" using append_less_append(2) [of "rev r" "[]" "[x]"] Cons(2) by simp
  show ?case
  proof (cases "x < 0xff")
    case True
    have inc: "x < x + 1" "\<And>c. c < x + 1 \<Longrightarrow> c \<le> x"
      using byte_next [OF True] by (simp_all add: word_less_nat_alt word_le_nat_alt)
    have "k < rev r @ [x + 1] \<longleftrightarrow> prefix (rev r @ [x]) k"
    proof
      assume lt: "k < rev r @ [x + 1]"
      then obtain z where "k = rev r @ z" using between_prefix [OF le] by (auto simp: prefix_def)
      then show "prefix (rev r @ [x]) k" using lt Cons(2) inc(2) by (cases z) (auto simp: not_less dest: leD)
    qed (use inc(1) in \<open>auto simp: prefix_def\<close>)
    then show ?thesis using True by simp
  next
    case False
    then have x: "x = 0xff" using byte_max [of x] by simp
    have "prefix (rev r @ [x]) k" if "prefix (rev r) k"
    proof -
      obtain z where "k = rev r @ z" using \<open>prefix (rev r) k\<close> by (auto simp: prefix_def)
      then show ?thesis using Cons(2) x byte_max by (cases z) (auto simp: less_le_not_le)
    qed
    then show ?thesis using Cons(1) [OF le] False by (auto dest: append_prefixD)
  qed
qed simp

lemma sub_bounds_iff:
  "in_bounds (sub_bounds pre r) k \<longleftrightarrow> prefix pre k \<and> in_bounds r (drop (length pre) k)"
proof (cases "prefix pre k")
  case True
  then obtain x where k: "k = pre @ x" by (auto simp: prefix_def)
  have "case prefix_successor pre of None \<Rightarrow> True | Some u \<Rightarrow> k < u" "pre \<le> k"
    using successor_loop_bound [of "rev pre" k] append_less_append(2) [of pre "[]" x] k by (auto simp: prefix_successor_def)
  then show ?thesis using k by (auto simp: sub_bounds_def Let_def in_bounds_def split: option.splits)
next
  case False
  have "\<not> in_bounds (sub_bounds pre r) k"
  proof
    assume b: "in_bounds (sub_bounds pre r) k"
    have le: "pre \<le> k"
      using b append_less_append(2) [of pre "[]"]
      by (auto simp: sub_bounds_def Let_def in_bounds_def split: option.splits if_splits intro: order_trans less_imp_le)
    show False
    proof (cases "r_lt r = None \<and> r_lte r = None")
      case True
      then have "case prefix_successor pre of None \<Rightarrow> True | Some u \<Rightarrow> k < u"
        using b by (auto simp: sub_bounds_def Let_def in_bounds_def split: option.splits if_splits)
      then show False using successor_loop_bound [of "rev pre" k] le False by (simp add: prefix_successor_def)
    next
      case upper: False
      then obtain z where "k \<le> pre @ z"
        using b by (auto intro: less_imp_le simp: sub_bounds_def Let_def in_bounds_def split: option.splits if_splits)
      then show False using between_prefix [OF le, of z] False by (auto simp: order.order_iff_strict)
    qed
  qed
  then show ?thesis using False by simp
qed

lemma select_sub:
  "map (\<lambda>(k, v). (drop (length pre) k, v)) (select_range (sub_bounds pre r) xs) =
   select_range r (map (\<lambda>(k, v). (drop (length pre) k, v)) (filter (\<lambda>(k, _). prefix pre k) xs))"
proof -
  have *: "map f (filter (\<lambda>(k, _). in_bounds (sub_bounds pre r) k) xs) =
    filter (\<lambda>(k, _). in_bounds r k) (map f (filter (\<lambda>(k, _). prefix pre k) xs))"
    if "f = (\<lambda>(k, v). (drop (length pre) k, v))" for f :: "entry \<Rightarrow> entry"
    by (induction xs) (auto simp: that sub_bounds_iff)
  show ?thesis
    unfolding select_range_def Let_def * [OF refl, symmetric]
    by (cases "r_limit r") (auto simp: sub_bounds_def Let_def take_map rev_map)
qed

section \<open>Batches\<close>

lemma bee_batch_parts:
  "bee_core (bee_batch b) = bee_core b" "pending (bee_batch b) = Some \<lparr> base = hc_len (bee_core b), encoded = [] \<rparr>"
  by (simp_all add: bee_batch_def hc_batch_def hc_len_def)

lemma bee_batch_is: "bee_is E H ok content b L [] \<Longrightarrow> bee_is E H ok content (bee_batch b) L []"
  using bee_is_len [of E H ok content b L "[]"] by (simp add: bee_is_def bee_batch_parts split: option.splits)

lemma bee_batch_rep:
  assumes "bee_rep E H ok content small b xs" "pending b = None"
  shows "bee_rep E H ok content small (bee_batch b) xs" "bee_log content (bee_batch b) = bee_log content b"
proof -
  obtain L1 L2 where bi: "bee_is E H ok content b L1 L2" using assms(1) by (auto simp: bee_rep_def bee_inv_def)
  then have "L2 = []" using assms(2) by (simp add: bee_is_def)
  note bi = bi [unfolded this]
  show "bee_log content (bee_batch b) = bee_log content b"
    using bee_is_log [OF bi] bee_is_log [OF bee_batch_is [OF bi]] by simp
  then show "bee_rep E H ok content small (bee_batch b) xs"
    using assms(1) bee_batch_is [OF bi] by (auto simp: bee_rep_def bee_inv_def)
qed

text \<open>What stays fixed while a batch is open.\<close>

definition in_batch :: "(bytes \<Rightarrow> bool) \<Rightarrow> 's hyperbee \<Rightarrow> 's hyperbee \<Rightarrow> bool" where
  "in_batch fits b0 b \<longleftrightarrow> bee_core b = bee_core b0 \<and> hc_codec (bee_core b0) = node_codec \<and>
     (\<exists>p. pending b = Some p \<and> base p = hc_len (bee_core b0) \<and> list_all fits (encoded p))"

lemma in_batch_drop: "in_batch fits b0 b \<Longrightarrow> pending b0 = None \<Longrightarrow> bee_drop b = b0"
  by (cases b0; cases b) (auto simp: in_batch_def bee_drop_def)

lemma append_direct: "pending b = None \<Longrightarrow> append_node E H S b n = (r, b') \<Longrightarrow> pending b' = None"
  by (auto simp: append_node_def split: prod.splits)

context bee_store
begin

lemma append_in_batch:
  "in_batch fits b0 b \<Longrightarrow> node_fits KEY_USERDATA small n \<Longrightarrow> append_node E H S b n = (r, b') \<Longrightarrow> in_batch fits b0 b'"
  using small_fits by (auto simp: in_batch_def append_node_def Let_def stage_def)

lemma batch_ops: "bee_ops S ok content E H small (in_batch fits b0) (\<lambda>e b. (\<exists>x. e = Storage x) \<and> in_batch fits b0 b)"
  by (rule bee_ops_store) (rule append_in_batch)

lemma bee_commit_ok:
  assumes "bee_rep E H ok content small b xs" "in_batch fits b0 b" "length (bee_log content b) \<le> KEY_USERDATA"
    and "bee_commit E H S b = (r, b')"
  shows "pending b' = None \<and>
    (case r of
       Inl e \<Rightarrow> (\<exists>x s. e = Storage x \<and> b' = bee_drop (b\<lparr> bee_core := (bee_core b0)\<lparr> hc_store := s \<rparr> \<rparr>))
     | Inr _ \<Rightarrow> bee_rep E H ok content small b' xs \<and> bee_log content b' = bee_log content b)"
proof -
  obtain L1 L2 where bi: "bee_is E H ok content b L1 L2" using assms(1) by (auto simp: bee_rep_def bee_inv_def)
  obtain p where p: "pending b = Some p" "bee_core b = bee_core b0" "list_all fits (encoded p)"
    using assms(2) by (auto simp: in_batch_def)
  have e: "encoded p = map (encode node_codec) L2" "base p = length L1" using bi p by (auto simp: bee_is_def)
  have inv: "core_inv E H ok content (bee_core b) (map (encode node_codec) L1)" using bi by (simp add: bee_is_def)
  have len: "length (map (encode node_codec) L1) + length (encoded p) \<le> KEY_USERDATA"
    using assms(3) bee_is_log [OF bi] e by simp
  obtain q c where c: "commit E H S (bee_core b) p = (q, c)" by fastforce
  have r: "r = bind_res q (\<lambda>_. Inr ())" "b' = bee_drop (b\<lparr> bee_core := c \<rparr>)" using assms(4) p c by (auto simp: bee_commit_def)
  show ?thesis
  proof (cases q)
    case (Inl err)
    then show ?thesis using commit_Inl [OF inv c [unfolded Inl]] r p by (auto simp: bee_drop_def)
  next
    case (Inr n)
    have k: "log_keys (length (map (encode node_codec) L1) + length (encoded p))" using len by (simp add: log_keys_def)
    note ok = commit_ok [OF inv sigs k p(3) _ c [unfolded Inr]]
    have bi': "bee_is E H ok content b' (L1 @ L2) []"
      using ok bi e r by (auto simp: bee_is_def bee_drop_def same_writer_def)
    have "bee_inv E H ok content b'" "bee_log content b' = bee_log content b" "pending b' = None"
      using bi' bee_is_log [OF bi] bee_is_log [OF bi'] r by (auto simp: bee_inv_def bee_drop_def)
    then show ?thesis using r(1) Inr assms(1) by (simp add: bee_rep_def)
  qed
qed

end

section \<open>The map that a hyperbee implements\<close>

fun op_map :: "bee_op \<Rightarrow> (bytes \<rightharpoonup> bytes) \<Rightarrow> (bytes \<rightharpoonup> bytes)" where
  "op_map (PutOp k v) m = m(k \<mapsto> v)"
| "op_map (DelOp k) m = m(k := None)"

definition map_run :: "bee_op list \<Rightarrow> (bytes \<rightharpoonup> bytes)" where
  "map_run ops = fold op_map ops Map.empty"

lemma bt_get_apply_op: "bt_get (apply_op op xs) = op_map op (bt_get xs)"
  by (cases op) auto

lemma bt_get_apply_ops: "bt_get (apply_ops ops xs) = fold op_map ops (bt_get xs)"
  by (induction ops arbitrary: xs) (auto simp: bt_get_apply_op)

lemma bt_get_run: "bt_get (apply_ops ops []) = map_run ops"
  by (simp add: bt_get_apply_ops map_run_def fun_eq_iff [symmetric] map_of.simps(1) [abs_def])

lemma apply_ops_append: "apply_ops (ops1 @ ops2) xs = apply_ops ops2 (apply_ops ops1 xs)"
  by (simp add: apply_ops_def)

lemma length_apply_ops: "length (apply_ops ops xs) \<le> length xs + length ops"
proof (induction ops arbitrary: xs)
  case (Cons op ops)
  show ?case using Cons [of "apply_op op xs"] length_apply_op [of op xs] by simp
qed simp

lemma bee_new_rep:
  assumes "ok s"
  shows "bee_rep E H ok content small (bee_new E sk s) []" "bee_log content (bee_new E sk s) = []" "pending (bee_new E sk s) = None"
proof -
  have "bee_is E H ok content (bee_new E sk s) [] []"
    using core_inv_new [of ok s E H content sk node_codec] assms by (simp add: bee_is_def bee_new_def hc_new_def)
  then show "bee_rep E H ok content small (bee_new E sk s) []" "bee_log content (bee_new E sk s) = []"
    using bee_is_log by (force simp: bee_rep_def bee_inv_def bee_root_def)+
  show "pending (bee_new E sk s) = None" by (simp add: bee_new_def)
qed

text \<open>Calls that cannot fail return.\<close>

lemma run_ok_total: "run_ok (\<lambda>_ _. False) m Q \<longleftrightarrow> (\<exists>x b. m = Some (Inr x, b) \<and> Q x b)"
  by (cases m rule: option_result_cases) auto

lemma read_ok_total: "read_ok (\<lambda>_. False) m Q \<longleftrightarrow> (\<exists>x. m = Some (Inr x) \<and> Q x)"
  by (cases m) (auto split: sum.splits elim: read_ok.elims)

text \<open>A bound on the number of updates that leaves the addresses of all blocks in range.\<close>

lemma ops_capacity: "n \<le> 2 ^ 56 \<Longrightarrow> n \<le> 2 ^ 62 \<and> 90 * n \<le> KEY_USERDATA"
  by (simp add: KEY_USERDATA_def)

lemma select_full [simp]: "select_range full_range xs = xs"
  by (simp add: select_range_def full_range_def in_bounds_def split_beta)

sublocale bee_total \<subseteq> direct: bee_ops S ok content E H small "\<lambda>b. pending b = None" "\<lambda>_ _. False"
  by (rule bee_ops_total) (rule append_direct)

context bee_total
begin

lemma run_total:
  assumes "bee_rep E H ok content small b xs" "pending b = None" "\<forall>k v. PutOp k v \<in> set ops \<longrightarrow> small (k, v)"
    and "length xs + length ops \<le> 2 ^ 62" "length (bee_log content b) + 90 * length ops \<le> KEY_USERDATA"
  obtains b' M where "bee_run E H S ops b = Some (Inr (), b')" "bee_rep E H ok content small b' (apply_ops ops xs)" "pending b' = None"
    "bee_log content b' = bee_log content b @ M" "length M \<le> 90 * length ops"
  using direct.bee_run_ok [OF conjI [OF assms(1,2)] assms(3-5)] by (auto simp: run_ok_total direct.grown_def)

text \<open>The version reached by the first updates, read after more updates.\<close>

lemma run_twice:
  assumes "ok s" "\<forall>k v. PutOp k v \<in> set (ops1 @ ops2) \<longrightarrow> small (k, v)" "length (ops1 @ ops2) \<le> 2 ^ 56"
  obtains b1 b2 where "bee_run E H S ops1 (bee_new E sk s) = Some (Inr (), b1)" "bee_run E H S ops2 b1 = Some (Inr (), b2)"
    "bee_rep E H ok content small b1 (apply_ops ops1 [])" "pending b1 = None"
    "bee_rep E H ok content small b2 (apply_ops (ops1 @ ops2) [])" "pending b2 = None"
    "bee_root (take (bee_version b1) (bee_log content b2)) (apply_ops ops1 [])" "bee_version b1 \<le> bee_version b2"
proof -
  let ?b = "bee_new E sk s"
  have new: "bee_rep E H ok content small ?b []" "bee_log content ?b = []" "pending ?b = None"
    using bee_new_rep(1,2,3) [of ok s] assms(1) by auto
  note cap = ops_capacity [OF assms(3)]
  obtain b1 M1 where 1: "bee_run E H S ops1 (bee_new E sk s) = Some (Inr (), b1)" "bee_rep E H ok content small b1 (apply_ops ops1 [])"
      "pending b1 = None" "bee_log content b1 = M1" "length M1 \<le> 90 * length ops1"
    using run_total [OF new(1,3), of ops1] assms(2) cap new(2) by auto
  obtain b2 M2 where 2: "bee_run E H S ops2 b1 = Some (Inr (), b2)" "bee_rep E H ok content small b2 (apply_ops ops2 (apply_ops ops1 []))"
      "pending b2 = None" "bee_log content b2 = M1 @ M2"
    by (rule run_total [OF 1(2,3), of ops2]) (use assms(2) cap 1(4,5) length_apply_ops [of ops1 "[]"] in auto)
  have v: "bee_version b1 = length M1" "bee_version b2 = length (M1 @ M2)"
    using bee_version_log [of E H ok content] 1(2-4) 2(2-4) by (auto simp: bee_rep_def)
  show thesis
    using that [OF 1(1) 2(1)] 1 2 v by (simp add: apply_ops_append bee_rep_def)
qed

lemma read_version:
  assumes "bee_rep E H ok content small b xs" "pending b = None" "bee_root (take v (bee_log content b)) ys" "v \<le> bee_version b" "bt_inv ys"
  shows "get_at E H S b v k = Some (Inr (bt_get ys k))" "range_at E H S b v r = Some (Inr (select_range r ys))"
    "co_get E H S b (bee_checkout b v) k = Some (Inr (bt_get ys k))"
    "co_range E H S b (bee_checkout b v) r = Some (Inr (select_range r ys))"
proof -
  have inv: "bee_inv E H ok content b \<and> True" "v \<le> length (bee_log content b)"
    using assms(1,2,4) bee_version_log [of E H ok content b] by (auto simp: bee_rep_def)
  have g: "bee_get_root E H S b (before v) k = Some (Inr (bt_get ys k))"
    using tot.get_version_ok [OF inv(1) assms(3) inv(2) assms(5)] by (auto simp: read_ok_total)
  have r: "range_from E H S b (before v) r = Some (Inr (select_range r ys))"
    using tot.range_version_ok [OF inv(1) assms(3) inv(2)] by (auto simp: read_ok_total)
  have m: "min v (bee_version b) = v" using assms(4) by simp
  show "get_at E H S b v k = Some (Inr (bt_get ys k))" "range_at E H S b v r = Some (Inr (select_range r ys))"
    "co_get E H S b (bee_checkout b v) k = Some (Inr (bt_get ys k))"
    "co_range E H S b (bee_checkout b v) r = Some (Inr (select_range r ys))"
    using g r by (simp_all add: get_at_def range_at_def root_at_def co_get_def co_range_def bee_checkout_def Let_def m)
qed

end

section \<open>An example tree\<close>

definition short_entry :: "entry \<Rightarrow> bool" where
  "short_entry e \<longleftrightarrow> length (fst e) < 2 ^ 64 \<and> length (snd e) < 2 ^ 64"

interpretation demo_bee: bee_total demo_store bt_inv bt_get "\<lambda>_. True" toy_crypto squeeze32 short_entry
  by unfold_locales (auto simp: short_entry_def sig_correct_toy)

definition demo_bee :: "memory_store hyperbee" where
  "demo_bee = bee_new toy_crypto [1] []"

lemma demo_bee_rep:
  "bee_rep toy_crypto squeeze32 bt_inv bt_get short_entry demo_bee []" "bee_log bt_get demo_bee = []" "pending demo_bee = None"
  using bee_new_rep [of bt_inv "[]"] by (simp_all add: demo_bee_def)

lemma demo_bee_put:
  obtains b where "bee_put toy_crypto squeeze32 demo_store [1, 2] [10] demo_bee = Some (Inr (), b)"
    "bee_rep toy_crypto squeeze32 bt_inv bt_get short_entry b [([1, 2], [10])]"
  using demo_bee.tot.bee_put_ok [of demo_bee "[]" "[1, 2]" "[10]"] demo_bee_rep
  by (auto simp: run_ok_total short_entry_def KEY_USERDATA_def)

section \<open>Properties\<close>

text \<open>
  Property C12. A hyperbee is a sorted map. Over a backend that does not fail, any sequence of puts and deletes on a
  fresh tree returns, and afterwards a lookup gives exactly what the same updates of a finite map
  give, and a range read the entries of that map in key order, cut down to the bounds, the direction and
  the limit that were asked for.
\<close>

theorem hyperbee_refines_map:
  assumes "bee_total S ok content fits E small" "ok s" "\<forall>k v. PutOp k v \<in> set ops \<longrightarrow> small (k, v)" "length ops \<le> 2 ^ 56"
  shows "\<exists>b xs. bee_run E H S ops (bee_new E sk s) = Some (Inr (), b) \<and> bt_inv xs \<and> map_of xs = map_run ops \<and>
    (\<forall>k. bee_get E H S b k = Some (Inr (map_run ops k))) \<and>
    (\<forall>r. bee_range_of E H S b r = Some (Inr (select_range r xs)))"
proof -
  obtain b where b: "bee_run E H S ops (bee_new E sk s) = Some (Inr (), b)" "bee_rep E H ok content small b (apply_ops ops [])"
    by (rule bee_total.run_twice [OF assms(1,2), where ?ops1.0 = ops and ?ops2.0 = "[]" and H = H and sk = sk]) (use assms(3,4) in auto)
  have ops: "bee_ops S ok content E H small (\<lambda>_. True) (\<lambda>_ _. False)" using bee_total.bee_ops_total [OF assms(1)] by auto
  have "bee_get E H S b k = Some (Inr (map_run ops k))" for k
    using bee_ops.bee_get_ok [OF ops] b(2) by (auto simp: read_ok_total bt_get_run)
  moreover have "bee_range_of E H S b r = Some (Inr (select_range r (apply_ops ops [])))" for r
    using bee_ops.bee_range_ok [OF ops] b(2) by (auto simp: read_ok_total)
  ultimately show ?thesis using b bt_get_run [of ops] by (auto simp: bee_rep_def)
qed

theorem hyperbee_refines_map_witness:
  "\<exists>b. bee_run toy_crypto squeeze32 demo_store [PutOp [2] [20], PutOp [1] [10], DelOp [2]] (bee_new toy_crypto [1] []) = Some (Inr (), b) \<and>
     bee_get toy_crypto squeeze32 demo_store b [1] = Some (Inr (Some [10])) \<and>
     bee_get toy_crypto squeeze32 demo_store b [2] = Some (Inr None)"
proof -
  let ?ops = "[PutOp [2] [20], PutOp [1] [10], DelOp [2]]"
  have "\<exists>b xs. bee_run toy_crypto squeeze32 demo_store ?ops (bee_new toy_crypto [1] []) = Some (Inr (), b) \<and> bt_inv xs \<and>
    map_of xs = map_run ?ops \<and> (\<forall>k. bee_get toy_crypto squeeze32 demo_store b k = Some (Inr (map_run ?ops k))) \<and>
    (\<forall>r. bee_range_of toy_crypto squeeze32 demo_store b r = Some (Inr (select_range r xs)))"
    by (rule hyperbee_refines_map [OF demo_bee.bee_total_axioms]) (auto simp: short_entry_def)
  then show ?thesis by (auto simp: map_run_def)
qed

text \<open>
  Property C13. Every update keeps the B-tree well formed: all leaves at one depth, between four and eight entries in
  every node below the root, keys in order. Over any backend, a put, a delete and the
  compare-and-swap variants either fail with an error of the backend or leave a well-formed tree with
  exactly the intended entries; a swap whose expectation fails changes nothing, and a delete
  tells whether the key was there.
\<close>

theorem hyperbee_keeps_tree:
  assumes "bee_store S ok content fits E small" "bee_rep E H ok content small b xs" "small (k, v)"
    and "length xs < 2 ^ 62" "length (bee_log content b) + 90 \<le> KEY_USERDATA"
  shows "run_ok (\<lambda>e _. \<exists>x. e = Storage x) (bee_put E H S k v b) (\<lambda>_ b'. bee_rep E H ok content small b' (bt_insert k v xs)) \<and>
    run_ok (\<lambda>e _. \<exists>x. e = Storage x) (bee_del E H S k b) (\<lambda>r b'. bee_rep E H ok content small b' (bt_remove k xs) \<and>
      (r \<longleftrightarrow> bt_get xs k \<noteq> None)) \<and>
    run_ok (\<lambda>e _. \<exists>x. e = Storage x) (put_cas E H S k v expected b) (\<lambda>r b'. (r \<longleftrightarrow> bt_get xs k = expected) \<and>
      (if r then bee_rep E H ok content small b' (bt_insert k v xs) else b' = b)) \<and>
    run_ok (\<lambda>e _. \<exists>x. e = Storage x) (del_cas E H S k expected b) (\<lambda>r b'. (r \<longleftrightarrow> bt_get xs k = expected \<and> expected \<noteq> None) \<and>
      (if r then bee_rep E H ok content small b' (bt_remove k xs) else b' = b))"
proof -
  have ops: "bee_ops S ok content E H small (\<lambda>_. True) (\<lambda>e _. \<exists>x. e = Storage x)"
    using bee_store.bee_ops_store [OF assms(1), of "\<lambda>_. True"] by simp
  have rep: "bee_rep E H ok content small b xs \<and> True" using assms(2) by simp
  show ?thesis
    using bee_ops.bee_put_ok [OF ops rep assms(3-5)] bee_ops.bee_del_ok [OF ops rep assms(4,5), of k]
      bee_ops.put_cas_ok [OF ops rep assms(3-5), of expected] bee_ops.del_cas_ok [OF ops rep assms(4,5), of k expected]
    by (auto elim!: run_ok_weaken)
qed

theorem hyperbee_keeps_tree_witness:
  "\<exists>b. bee_put toy_crypto squeeze32 demo_store [1, 2] [10] demo_bee = Some (Inr (), b) \<and>
     bee_rep toy_crypto squeeze32 bt_inv bt_get short_entry b [([1, 2], [10])]"
proof -
  obtain b where b: "bee_put toy_crypto squeeze32 demo_store [1, 2] [10] demo_bee = Some (Inr (), b)" by (rule demo_bee_put)
  have "short_entry ([1, 2], [10])" "length (bee_log bt_get demo_bee) + 90 \<le> KEY_USERDATA"
    by (simp_all add: short_entry_def demo_bee_rep(2) KEY_USERDATA_def)
  from hyperbee_keeps_tree [OF demo_bee.bee_store_axioms demo_bee_rep(1) this(1) _ this(2)] b show ?thesis by simp
qed

text \<open>
  Property C28. Old versions do not change. What a tree held after the first updates can be read back after any further
  updates, by \<open>get_at\<close>, by \<open>range_at\<close> and through a checkout of that version.
\<close>

theorem hyperbee_versions:
  assumes "bee_total S ok content fits E small" "ok s" "\<forall>k v. PutOp k v \<in> set (ops1 @ ops2) \<longrightarrow> small (k, v)"
    and "length (ops1 @ ops2) \<le> 2 ^ 56"
  shows "\<exists>b1 b2. bee_run E H S ops1 (bee_new E sk s) = Some (Inr (), b1) \<and> bee_run E H S ops2 b1 = Some (Inr (), b2) \<and>
    (\<forall>k. get_at E H S b2 (bee_version b1) k = Some (Inr (map_run ops1 k)) \<and>
       co_get E H S b2 (bee_checkout b2 (bee_version b1)) k = Some (Inr (map_run ops1 k))) \<and>
    (\<forall>r. range_at E H S b2 (bee_version b1) r = bee_range_of E H S b1 r \<and>
       co_range E H S b2 (bee_checkout b2 (bee_version b1)) r = bee_range_of E H S b1 r)"
proof -
  obtain b1 b2 where b: "bee_run E H S ops1 (bee_new E sk s) = Some (Inr (), b1)" "bee_run E H S ops2 b1 = Some (Inr (), b2)"
    and b1: "bee_rep E H ok content small b1 (apply_ops ops1 [])"
    and b2: "bee_rep E H ok content small b2 (apply_ops (ops1 @ ops2) [])" "pending b2 = None"
      "bee_root (take (bee_version b1) (bee_log content b2)) (apply_ops ops1 [])" "bee_version b1 \<le> bee_version b2"
    by (rule bee_total.run_twice [OF assms])
  have so: "bt_inv (apply_ops ops1 [])" using b1 by (simp add: bee_rep_def)
  note v = bee_total.read_version [OF assms(1) b2 so]
  have ops: "bee_ops S ok content E H small (\<lambda>_. True) (\<lambda>_ _. False)" using bee_total.bee_ops_total [OF assms(1)] by auto
  have "bee_range_of E H S b1 r = Some (Inr (select_range r (apply_ops ops1 [])))" for r
    using bee_ops.bee_range_ok [OF ops] b1 by (auto simp: read_ok_total)
  then show ?thesis using b v by (auto simp: bt_get_run)
qed

theorem hyperbee_versions_witness:
  "\<exists>b1 b2. bee_run toy_crypto squeeze32 demo_store [PutOp [1] [10]] (bee_new toy_crypto [1] []) = Some (Inr (), b1) \<and>
     bee_run toy_crypto squeeze32 demo_store [PutOp [1] [11]] b1 = Some (Inr (), b2) \<and>
     get_at toy_crypto squeeze32 demo_store b2 (bee_version b1) [1] = Some (Inr (Some [10]))"
proof -
  let ?x = "[PutOp [1] [10]]" and ?y = "[PutOp [1] [11]]"
  have "\<exists>b1 b2. bee_run toy_crypto squeeze32 demo_store ?x (bee_new toy_crypto [1] []) = Some (Inr (), b1) \<and>
    bee_run toy_crypto squeeze32 demo_store ?y b1 = Some (Inr (), b2) \<and>
    (\<forall>k. get_at toy_crypto squeeze32 demo_store b2 (bee_version b1) k = Some (Inr (map_run ?x k)) \<and>
       co_get toy_crypto squeeze32 demo_store b2 (bee_checkout b2 (bee_version b1)) k = Some (Inr (map_run ?x k))) \<and>
    (\<forall>r. range_at toy_crypto squeeze32 demo_store b2 (bee_version b1) r = bee_range_of toy_crypto squeeze32 demo_store b1 r \<and>
       co_range toy_crypto squeeze32 demo_store b2 (bee_checkout b2 (bee_version b1)) r = bee_range_of toy_crypto squeeze32 demo_store b1 r)"
    by (rule hyperbee_versions [OF demo_bee.bee_total_axioms]) (auto simp: short_entry_def)
  then show ?thesis by (fastforce simp: map_run_def)
qed

text \<open>
  The difference of two versions lists, in key order and once each, exactly the keys whose value differs,
  with the value before and after.
\<close>

theorem hyperbee_diff_exact:
  assumes "bee_total S ok content fits E small" "ok s" "\<forall>k v. PutOp k v \<in> set (ops1 @ ops2) \<longrightarrow> small (k, v)"
    and "length (ops1 @ ops2) \<le> 2 ^ 56"
  shows "\<exists>b1 b2 cs. bee_run E H S ops1 (bee_new E sk s) = Some (Inr (), b1) \<and> bee_run E H S ops2 b1 = Some (Inr (), b2) \<and>
    bee_diff E H S b2 (bee_version b1) (bee_version b2) = Some (Inr cs) \<and> sorted_wrt (<) (map fst cs) \<and>
    (\<forall>k p q. (k, p, q) \<in> set cs \<longleftrightarrow> p = map_run ops1 k \<and> q = map_run (ops1 @ ops2) k \<and> p \<noteq> q)"
proof -
  obtain b1 b2 where b: "bee_run E H S ops1 (bee_new E sk s) = Some (Inr (), b1)" "bee_run E H S ops2 b1 = Some (Inr (), b2)"
    and b1: "bee_rep E H ok content small b1 (apply_ops ops1 [])"
    and b2: "bee_rep E H ok content small b2 (apply_ops (ops1 @ ops2) [])" "pending b2 = None"
      "bee_root (take (bee_version b1) (bee_log content b2)) (apply_ops ops1 [])" "bee_version b1 \<le> bee_version b2"
    by (rule bee_total.run_twice [OF assms])
  have so: "bt_inv (apply_ops ops1 [])" "bt_inv (apply_ops (ops1 @ ops2) [])" using b1 b2(1) by (simp_all add: bee_rep_def)
  have "bee_version b2 = length (bee_log content b2)" using b2(1,2) bee_version_log [of E H ok content b2] by (simp add: bee_rep_def)
  then have "bee_root (take (bee_version b2) (bee_log content b2)) (apply_ops (ops1 @ ops2) [])" using b2(1) by (simp add: bee_rep_def)
  note v = bee_total.read_version(2) [OF assms(1) b2 so(1), of full_range]
    bee_total.read_version(2) [OF assms(1) b2(1,2) this order_refl so(2), of full_range]
  let ?cs = "diff_loop (apply_ops ops1 []) (apply_ops (ops1 @ ops2) [])"
  have "bee_diff E H S b2 (bee_version b1) (bee_version b2) = Some (Inr ?cs)"
    using v by (simp add: bee_diff_def select_full)
  then show ?thesis
    using b diff_loop_sorted [OF so] diff_loop_set [OF so] by (auto simp: bt_get_run)
qed

theorem hyperbee_diff_exact_witness:
  "\<exists>b1 b2 cs. bee_run toy_crypto squeeze32 demo_store [PutOp [1] [10]] (bee_new toy_crypto [1] []) = Some (Inr (), b1) \<and>
     bee_run toy_crypto squeeze32 demo_store [PutOp [1] [11]] b1 = Some (Inr (), b2) \<and>
     bee_diff toy_crypto squeeze32 demo_store b2 (bee_version b1) (bee_version b2) = Some (Inr cs) \<and>
     ([1], Some [10], Some [11]) \<in> set cs"
proof -
  let ?x = "[PutOp [1] [10]]" and ?y = "[PutOp [1] [11]]"
  have "\<exists>b1 b2 cs. bee_run toy_crypto squeeze32 demo_store ?x (bee_new toy_crypto [1] []) = Some (Inr (), b1) \<and>
    bee_run toy_crypto squeeze32 demo_store ?y b1 = Some (Inr (), b2) \<and>
    bee_diff toy_crypto squeeze32 demo_store b2 (bee_version b1) (bee_version b2) = Some (Inr cs) \<and> sorted_wrt (<) (map fst cs) \<and>
    (\<forall>k p q. (k, p, q) \<in> set cs \<longleftrightarrow> p = map_run ?x k \<and> q = map_run (?x @ ?y) k \<and> p \<noteq> q)"
    by (rule hyperbee_diff_exact [OF demo_bee.bee_total_axioms]) (auto simp: short_entry_def)
  then show ?thesis by (fastforce simp: map_run_def)
qed

text \<open>
  Property C27. A batch is atomic. While it is open nothing but the staged blocks changes, so dropping it, also after an
  error, gives back the tree as it was. Updates inside the batch see the staged ones. A commit that succeeds gives
  a tree with all updates and all staged blocks behind the old ones, so that every old version stays; one
  that fails leaves everything but the backend as it was before the batch.
\<close>

theorem bee_batch_atomic:
  assumes "bee_store S ok content fits E small" "bee_rep E H ok content small b xs" "pending b = None"
    and "\<forall>k v. PutOp k v \<in> set ops \<longrightarrow> small (k, v)" "length xs + length ops \<le> 2 ^ 62"
    and "length (bee_log content b) + 90 * length ops \<le> KEY_USERDATA"
  shows "case bee_run E H S ops (bee_batch b) of
      None \<Rightarrow> False
    | Some (Inl e, b1) \<Rightarrow> (\<exists>x. e = Storage x) \<and> bee_drop b1 = b
    | Some (Inr _, b1) \<Rightarrow> bee_drop b1 = b \<and>
        (\<forall>k. read_ok (\<lambda>e. \<exists>x. e = Storage x) (bee_get E H S b1 k) (\<lambda>v. v = bt_get (apply_ops ops xs) k)) \<and>
        (case bee_commit E H S b1 of
           (Inl e, b2) \<Rightarrow> \<exists>x s. e = Storage x \<and> b2 = b\<lparr> bee_core := (bee_core b)\<lparr> hc_store := s \<rparr> \<rparr>
         | (Inr _, b2) \<Rightarrow> bee_rep E H ok content small b2 (apply_ops ops xs) \<and> pending b2 = None \<and>
             prefix (bee_log content b) (bee_log content b2))"
proof -
  note rep = bee_batch_rep [OF assms(2,3)] and ops = bee_store.batch_ops [OF assms(1), of H b]
  have "in_batch fits b (bee_batch b)"
    using assms(2) by (auto simp: in_batch_def bee_batch_parts bee_rep_def bee_inv_def bee_is_def)
  then have r: "bee_rep E H ok content small (bee_batch b) xs \<and> in_batch fits b (bee_batch b)" using rep(1) by simp
  note run = bee_ops.bee_run_ok [OF ops r assms(4,5), unfolded rep(2), OF assms(6)]
  have drop: "bee_drop b1 = b" if "in_batch fits b b1" for b1 using in_batch_drop [OF that assms(3)] .
  show ?thesis
  proof (cases "bee_run E H S ops (bee_batch b)" rule: option_result_cases)
    case (ok u b1)
    then have b1: "bee_rep E H ok content small b1 (apply_ops ops xs)" "in_batch fits b b1"
      and g: "node_log.grown (\<lambda>a. bee_inv E H ok content a \<and> in_batch fits b a) (bee_log content) (90 * length ops) (bee_batch b) b1"
      using run by auto
    from g obtain M where M: "bee_log content b1 = bee_log content b @ M" "length M \<le> 90 * length ops"
      using rep(2) by (auto simp: node_log.grown_def [OF bee_ops.axioms [OF ops]])
    obtain q b2 where c: "bee_commit E H S b1 = (q, b2)" by fastforce
    note cm = bee_store.bee_commit_ok [OF assms(1) b1 _ c]
    have "bee_core b1 = bee_core b" using b1(2) by (simp add: in_batch_def)
    moreover have "bee_drop (b1\<lparr> bee_core := (bee_core b)\<lparr> hc_store := s \<rparr> \<rparr>) = b\<lparr> bee_core := (bee_core b)\<lparr> hc_store := s \<rparr> \<rparr>" for s
      using drop [OF b1(2)] by (cases b1; cases b) (simp add: bee_drop_def)
    ultimately show ?thesis
      using ok c cm M assms(6) drop [OF b1(2)] bee_ops.bee_get_ok [OF ops, of b1 "apply_ops ops xs"] b1
      by (auto split: sum.splits elim!: read_ok_weaken)
  qed (use run drop in auto)
qed

theorem bee_batch_atomic_witness:
  "\<exists>b1. bee_run toy_crypto squeeze32 demo_store [PutOp [1] [10], PutOp [2] [20]] (bee_batch demo_bee) = Some (Inr (), b1) \<and>
     bee_drop b1 = demo_bee"
proof -
  let ?ops = "[PutOp [1] [10], PutOp [2] [20]]"
  have sm: "\<forall>k v. PutOp k v \<in> set ?ops \<longrightarrow> short_entry (k, v)" by (auto simp: short_entry_def)
  have len: "length (bee_log bt_get demo_bee) + 90 * length ?ops \<le> KEY_USERDATA" by (simp add: demo_bee_rep(2) KEY_USERDATA_def)
  note rep = bee_batch_rep [OF demo_bee_rep(1,3)]
  have "run_ok (\<lambda>_ _. False) (bee_run toy_crypto squeeze32 demo_store ?ops (bee_batch demo_bee)) (\<lambda>_ _. True)"
    by (rule run_ok_weaken [OF demo_bee.tot.bee_run_ok [OF conjI [OF rep(1) TrueI] sm, unfolded rep(2), OF _ len]]) simp_all
  then show ?thesis
    using bee_batch_atomic [OF demo_bee.bee_store_axioms demo_bee_rep(1,3) sm _ len] by (auto simp: run_ok_total)
qed

text \<open>
  Sub-databases do not see each other: whatever bounds it is given, a range read of a sub-database returns the
  entries whose key starts with the prefix, with the prefix taken off, under those bounds; also when the prefix
  has no successor because it is all \<open>0xff\<close>. Lookups and updates act on the prefixed key.
\<close>

theorem sub_database_isolated:
  assumes "bee_total S ok content fits E small" "bee_rep E H ok content small b xs"
  shows "sub_range E H S pre b r =
      Some (Inr (select_range r (map (\<lambda>(k, v). (drop (length pre) k, v)) (filter (\<lambda>(k, _). prefix pre k) xs)))) \<and>
    sub_get E H S pre b k = Some (Inr (bt_get xs (pre @ k)))"
proof -
  have ops: "bee_ops S ok content E H small (\<lambda>_. True) (\<lambda>_ _. False)" using bee_total.bee_ops_total [OF assms(1)] by auto
  have rep: "bee_rep E H ok content small b xs \<and> True" using assms(2) by simp
  have "bee_range_of E H S b (sub_bounds pre r) = Some (Inr (select_range (sub_bounds pre r) xs))"
    using bee_ops.bee_range_ok [OF ops rep] by (auto simp: read_ok_total)
  moreover have "bee_get E H S b (pre @ k) = Some (Inr (bt_get xs (pre @ k)))"
    using bee_ops.bee_get_ok [OF ops rep] by (auto simp: read_ok_total)
  ultimately show ?thesis by (simp add: sub_range_def sub_get_def select_sub)
qed

theorem sub_database_isolated_witness:
  "\<exists>b. bee_put toy_crypto squeeze32 demo_store [1, 2] [10] demo_bee = Some (Inr (), b) \<and>
     sub_range toy_crypto squeeze32 demo_store [1] b full_range = Some (Inr [([2], [10])]) \<and>
     sub_range toy_crypto squeeze32 demo_store [3] b full_range = Some (Inr [])"
proof -
  obtain b where b: "bee_put toy_crypto squeeze32 demo_store [1, 2] [10] demo_bee = Some (Inr (), b)"
    "bee_rep toy_crypto squeeze32 bt_inv bt_get short_entry b [([1, 2], [10])]" by (rule demo_bee_put)
  show ?thesis
    using sub_database_isolated [OF demo_bee.bee_total_axioms b(2), of "[1]" full_range]
      sub_database_isolated [OF demo_bee.bee_total_axioms b(2), of "[3]" full_range] b(1) by simp
qed

text \<open>
  The lazy iterator and the eager read agree: the calls of \<open>next\<close> return, one after the other, the entries that
  \<open>range\<close> lists for the same bounds, and then \<open>None\<close> for ever.
\<close>

theorem iterator_is_range:
  assumes "bee_total S ok content fits E small" "bee_rep E H ok content small b xs"
  shows "\<exists>out. bee_range_of E H S b r = Some (Inr out) \<and>
    pull (bee_io E H S) b n (bee_iter b r) = Some (map (\<lambda>i. if i < length out then Some (Inr (out ! i)) else None) [0..<n])"
proof -
  have ops: "bee_ops S ok content E H small (\<lambda>_. True) (\<lambda>_ _. False)" using bee_total.bee_ops_total [OF assms(1)] by auto
  have rep: "bee_rep E H ok content small b xs \<and> True" "bee_inv E H ok content b \<and> True"
    using assms(2) by (simp_all add: bee_rep_def)
  have "bee_range_of E H S b r = Some (Inr (select_range r xs))"
    using bee_ops.bee_range_ok [OF ops rep(1)] by (auto simp: read_ok_total)
  moreover note node_log.pull_ok [OF bee_ops.axioms [OF ops] rep(2) _ bee_ops.bee_iter_left [OF ops rep(1)], of n r]
  ultimately show ?thesis by simp
qed

theorem iterator_is_range_witness:
  "\<exists>b. bee_put toy_crypto squeeze32 demo_store [1, 2] [10] demo_bee = Some (Inr (), b) \<and>
     pull (bee_io toy_crypto squeeze32 demo_store) b 2 (bee_iter b full_range) = Some [Some (Inr ([1, 2], [10])), None]"
proof -
  obtain b where b: "bee_put toy_crypto squeeze32 demo_store [1, 2] [10] demo_bee = Some (Inr (), b)"
    "bee_rep toy_crypto squeeze32 bt_inv bt_get short_entry b [([1, 2], [10])]" by (rule demo_bee_put)
  have "bee_range_of toy_crypto squeeze32 demo_store b full_range = Some (Inr [([1, 2], [10])])"
    using demo_bee.tot.bee_range_ok [OF conjI [OF b(2) TrueI], of full_range] by (auto simp: read_ok_total)
  moreover have "[0..<2] = [0, 1 :: nat]" by (simp add: upt_rec)
  ultimately show ?thesis using iterator_is_range [OF demo_bee.bee_total_axioms b(2), of full_range 2] b(1) by simp
qed

end
