(* ===== verification/Wire.thy ===== *)
theory Wire
  imports Hypercore_Log Linearizer
begin

text \<open>
  What a room puts into a block and on the wire: the entry codec (\<open>crates/roomnet/src/entry.rs\<close>), the messages
  of the sync protocol (\<open>sync.rs\<close>) and their byte encoding (\<open>wire.rs\<close>).
\<close>

section \<open>Log entries\<close>

record entry =
  ent_heads :: "node_id list"
  ent_payload :: bytes

definition ENTRY_V1 :: u64 where "ENTRY_V1 = 1"

definition encode_head_id :: "bytes \<Rightarrow> node_id \<Rightarrow> bytes" where
  "encode_head_id out h = varint_write (out @ key h) (word_of_nat (seq h))"

definition encode_log_entry :: "entry \<Rightarrow> bytes \<Rightarrow> bytes" where
  "encode_log_entry e out =
     (let out = varint_write out ENTRY_V1;
          out = varint_write out (word_of_nat (length (ent_heads e)));
          out = foldl encode_head_id out (ent_heads e);
          out = varint_write out (word_of_nat (length (ent_payload e)))
      in out @ ent_payload e)"

fun decode_heads :: "nat \<Rightarrow> bytes \<Rightarrow> (codec_error, node_id list \<times> bytes) result" where
  "decode_heads 0 b = Inr ([], b)"
| "decode_heads (Suc n) b =
     (if length b < 32 then Inl Eof
      else bind_res (varint_read (drop 32 b)) (\<lambda>(sq, r).
           bind_res (decode_heads n r) (\<lambda>(hs, r). Inr (NodeId (take 32 b) (unat sq) # hs, r))))"

definition decode_log_entry :: "bytes \<Rightarrow> (codec_error, entry) result" where
  "decode_log_entry bytes =
     bind_res (varint_read bytes) (\<lambda>(version, b).
     bind_res (varint_read b) (\<lambda>(n, b).
     bind_res (with_capacity 40 (unat n)) (\<lambda>_.
     bind_res (decode_heads (unat n) b) (\<lambda>(hs, b).
     bind_res (varint_read b) (\<lambda>(len, b).
       if length b < unat len then Inl Eof
       else Inr \<lparr> ent_heads = hs, ent_payload = take (unat len) b \<rparr>)))))"

definition entry_codec :: "entry codec" where
  "entry_codec = \<lparr> encode_into = encode_log_entry, decode = decode_log_entry \<rparr>"

section \<open>Messages\<close>

datatype sync_message =
    Head bytes signed_head
  | Have bytes nat
  | Want bytes nat nat
  | Block bytes signed_head nat bytes inclusion_proof

text \<open>\<open>WirePanic\<close> stands for the panic of \<open>Vec::with_capacity\<close>.\<close>

datatype wire_error = WireEof | WireVarint | BadTag nat | WirePanic

definition wr_head :: "bytes \<Rightarrow> signed_head \<Rightarrow> bytes" where
  "wr_head out h =
     (let out = varint_write out (word_of_nat (sh_fork h));
          out = varint_write out (word_of_nat (sh_length h))
      in out @ sh_root h @ sh_sig h)"

definition wr_node :: "bytes \<Rightarrow> node \<Rightarrow> bytes" where
  "wr_node out n =
     (let out = varint_write out (word_of_nat (node_index n)) @ node_hash n
      in varint_write out (word_of_nat (node_size n)))"

definition wr_nodes :: "bytes \<Rightarrow> node list \<Rightarrow> bytes" where
  "wr_nodes out ns = foldl wr_node (varint_write out (word_of_nat (length ns))) ns"

definition wr_proof :: "bytes \<Rightarrow> inclusion_proof \<Rightarrow> bytes" where
  "wr_proof out p =
     (let out = varint_write out (word_of_nat (block p));
          out = varint_write out (word_of_nat (leaf_size p));
          out = wr_nodes out (siblings p)
      in wr_nodes out (proof_roots p))"

definition T_HEAD :: nat where "T_HEAD = 0"
definition T_HAVE :: nat where "T_HAVE = 1"
definition T_WANT :: nat where "T_WANT = 2"
definition T_BLOCK :: nat where "T_BLOCK = 3"

fun wire_encode :: "sync_message \<Rightarrow> bytes" where
  "wire_encode (Head w h) = wr_head (varint_write [] (word_of_nat T_HEAD) @ w) h"
| "wire_encode (Have w len) = varint_write (varint_write [] (word_of_nat T_HAVE) @ w) (word_of_nat len)"
| "wire_encode (Want w st en) =
     varint_write (varint_write (varint_write [] (word_of_nat T_WANT) @ w) (word_of_nat st)) (word_of_nat en)"
| "wire_encode (Block w h i bytes p) =
     (let out = wr_head (varint_write [] (word_of_nat T_BLOCK) @ w) h;
          out = varint_write out (word_of_nat i);
          out = varint_write out (word_of_nat (length bytes)) @ bytes
      in wr_proof out p)"

text \<open>The primitive readers; every error of a varint becomes \<open>Varint\<close>.\<close>

definition wire_take :: "nat \<Rightarrow> bytes \<Rightarrow> (wire_error, bytes \<times> bytes) result" where
  "wire_take n b = (if length b < n then Inl WireEof else Inr (take n b, drop n b))"

definition rd_u64 :: "bytes \<Rightarrow> (wire_error, nat \<times> bytes) result" where
  "rd_u64 b = bind_res (map_err (\<lambda>_. WireVarint) (varint_read b)) (\<lambda>(v, b). Inr (unat v, b))"

definition rd_head :: "bytes \<Rightarrow> (wire_error, signed_head \<times> bytes) result" where
  "rd_head b =
     bind_res (rd_u64 b) (\<lambda>(fk, b).
     bind_res (rd_u64 b) (\<lambda>(len, b).
     bind_res (wire_take 32 b) (\<lambda>(root, b).
     bind_res (wire_take 64 b) (\<lambda>(sig, b).
       Inr (\<lparr> sh_fork = fk, sh_length = len, sh_root = root, sh_sig = sig \<rparr>, b)))))"

definition rd_node :: "bytes \<Rightarrow> (wire_error, node \<times> bytes) result" where
  "rd_node b =
     bind_res (rd_u64 b) (\<lambda>(i, b).
     bind_res (wire_take 32 b) (\<lambda>(h, b).
     bind_res (rd_u64 b) (\<lambda>(sz, b).
       Inr (\<lparr> node_index = i, node_hash = h, node_size = sz \<rparr>, b))))"

fun rd_node_loop :: "nat \<Rightarrow> bytes \<Rightarrow> (wire_error, node list \<times> bytes) result" where
  "rd_node_loop 0 b = Inr ([], b)"
| "rd_node_loop (Suc k) b =
     bind_res (rd_node b) (\<lambda>(n, b). bind_res (rd_node_loop k b) (\<lambda>(ns, b). Inr (n # ns, b)))"

definition rd_nodes :: "bytes \<Rightarrow> (wire_error, node list \<times> bytes) result" where
  "rd_nodes b =
     bind_res (rd_u64 b) (\<lambda>(k, b).
     bind_res (map_err (\<lambda>_. WirePanic) (with_capacity 48 k)) (\<lambda>_. rd_node_loop k b))"

definition rd_proof :: "bytes \<Rightarrow> (wire_error, inclusion_proof \<times> bytes) result" where
  "rd_proof b =
     bind_res (rd_u64 b) (\<lambda>(blk, b).
     bind_res (rd_u64 b) (\<lambda>(sz, b).
     bind_res (rd_nodes b) (\<lambda>(sibs, b).
     bind_res (rd_nodes b) (\<lambda>(rts, b).
       Inr (\<lparr> block = blk, leaf_size = sz, siblings = sibs, proof_roots = rts \<rparr>, b)))))"

definition wire_decode :: "bytes \<Rightarrow> (wire_error, sync_message) result" where
  "wire_decode b =
     bind_res (rd_u64 b) (\<lambda>(tag, b).
     bind_res (wire_take 32 b) (\<lambda>(w, b).
       if tag = T_HEAD then bind_res (rd_head b) (\<lambda>(h, b). Inr (Head w h))
       else if tag = T_HAVE then bind_res (rd_u64 b) (\<lambda>(len, b). Inr (Have w len))
       else if tag = T_WANT then
         bind_res (rd_u64 b) (\<lambda>(st, b). bind_res (rd_u64 b) (\<lambda>(en, b). Inr (Want w st en)))
       else if tag = T_BLOCK then
         bind_res (rd_head b) (\<lambda>(h, b).
         bind_res (rd_u64 b) (\<lambda>(i, b).
         bind_res (rd_u64 b) (\<lambda>(blen, b).
         bind_res (wire_take blen b) (\<lambda>(bytes, b).
         bind_res (rd_proof b) (\<lambda>(p, b). Inr (Block w h i bytes p))))))
       else Inl (BadTag tag)))"

section \<open>Entries are read back\<close>

definition wf_id :: "node_id \<Rightarrow> bool" where
  "wf_id h \<longleftrightarrow> length (key h) = 32 \<and> seq h < 2 ^ 64"

definition wf_entry :: "entry \<Rightarrow> bool" where
  "wf_entry e \<longleftrightarrow> length (ent_heads e) * 40 < 2 ^ 63 \<and> list_all wf_id (ent_heads e) \<and> length (ent_payload e) < 2 ^ 64"

lemma foldl_writer:
  assumes "\<And>out x. f out x = out @ f [] x"
  shows "foldl f out xs = out @ concat (map (f []) xs)"
proof (induction xs arbitrary: out)
  case (Cons x xs)
  show ?case using Cons [of "f out x"] assms [of out x] by simp
qed simp

lemma encode_head_id_append: "encode_head_id out h = out @ encode_head_id [] h"
  unfolding encode_head_id_def by (metis append.assoc append_Nil varint_write_append)

lemma encode_log_entry_eq:
  "encode_log_entry e out = out @ varint_write [] ENTRY_V1 @ varint_write [] (word_of_nat (length (ent_heads e))) @
     concat (map (encode_head_id []) (ent_heads e)) @ varint_write [] (word_of_nat (length (ent_payload e))) @ ent_payload e"
  unfolding encode_log_entry_def Let_def
  by (subst varint_write_append, subst foldl_writer [where f = encode_head_id], rule encode_head_id_append,
      subst varint_write_append, subst (2) varint_write_append, simp)

lemma decode_heads_encode:
  "list_all wf_id hs \<Longrightarrow> decode_heads (length hs) (concat (map (encode_head_id []) hs) @ rest) = Inr (hs, rest)"
proof (induction hs)
  case (Cons h hs)
  have "encode_head_id [] h = key h @ varint_write [] (word_of_nat (seq h))"
    unfolding encode_head_id_def by (subst varint_write_append) simp
  then show ?case using Cons by (simp add: wf_id_def unat_of_nat)
qed simp

lemma decode_encode_log_entry: "wf_entry e \<Longrightarrow> decode_log_entry (encode_log_entry e [] @ junk) = Inr e"
  using decode_heads_encode [of "ent_heads e"]
  by (simp add: decode_log_entry_def encode_log_entry_eq wf_entry_def with_capacity_def)

interpretation entryc: tolerant_codec entry_codec wf_entry
proof
  show "encode_into entry_codec e out = out @ encode entry_codec e" for e out
    by (simp add: entry_codec_def encode_def encode_log_entry_eq)
  show "wf_entry e \<Longrightarrow> decode entry_codec (encode entry_codec e @ junk) = Inr e" for e junk
    by (simp add: entry_codec_def encode_def decode_encode_log_entry)
qed

section \<open>Messages are read back\<close>

lemma rd_u64_write [simp]: "n < 2 ^ 64 \<Longrightarrow> rd_u64 (varint_write [] (word_of_nat n) @ rest) = Inr (n, rest)"
  by (simp add: rd_u64_def unat_of_nat)

lemma rd_u64_write_end [simp]: "n < 2 ^ 64 \<Longrightarrow> rd_u64 (varint_write [] (word_of_nat n)) = Inr (n, [])"
  using rd_u64_write [of n "[]"] by simp

lemma wire_take_append [simp]: "length a = n \<Longrightarrow> wire_take n (a @ rest) = Inr (a, rest)"
  by (simp add: wire_take_def)

lemma wr_head_eq:
  "wr_head out h = out @ varint_write [] (word_of_nat (sh_fork h)) @ varint_write [] (word_of_nat (sh_length h)) @ sh_root h @ sh_sig h"
  unfolding wr_head_def Let_def by (subst varint_write_append, subst (2) varint_write_append) simp

lemma wr_node_eq:
  "wr_node out n = out @ varint_write [] (word_of_nat (node_index n)) @ node_hash n @ varint_write [] (word_of_nat (node_size n))"
  unfolding wr_node_def Let_def by (subst varint_write_append, subst (2) varint_write_append) simp

lemma wr_nodes_eq: "wr_nodes out ns = out @ varint_write [] (word_of_nat (length ns)) @ concat (map (wr_node []) ns)"
  unfolding wr_nodes_def
  by (subst foldl_writer [where f = wr_node], subst (1 2) wr_node_eq, simp, subst varint_write_append, simp)

lemma wr_proof_eq:
  "wr_proof out p = out @ varint_write [] (word_of_nat (block p)) @ varint_write [] (word_of_nat (leaf_size p)) @
     wr_nodes [] (siblings p) @ wr_nodes [] (proof_roots p)"
  unfolding wr_proof_def Let_def
  by (subst wr_nodes_eq, subst (2) wr_nodes_eq, subst varint_write_append, subst (2) varint_write_append, simp add: wr_nodes_eq)

lemma rd_head_write [simp]: "wf_head h \<Longrightarrow> rd_head (wr_head [] h @ rest) = Inr (h, rest)"
  by (simp add: rd_head_def wr_head_eq wf_head_def)

lemma rd_node_write: "wf_node n \<Longrightarrow> rd_node (wr_node [] n @ rest) = Inr (n, rest)"
  by (simp add: rd_node_def wr_node_eq wf_node_def)

lemma rd_node_loop_write: "list_all wf_node ns \<Longrightarrow> rd_node_loop (length ns) (concat (map (wr_node []) ns) @ rest) = Inr (ns, rest)"
  by (induction ns) (simp_all add: rd_node_write)

text \<open>The bounds of a proof that fits the wire.\<close>

definition fits_wire :: "node list \<Rightarrow> bool" where
  "fits_wire ns \<longleftrightarrow> list_all wf_node ns \<and> length ns * 48 < 2 ^ 63"

lemma rd_nodes_write [simp]: "fits_wire ns \<Longrightarrow> rd_nodes (wr_nodes [] ns @ rest) = Inr (ns, rest)"
  by (simp add: rd_nodes_def wr_nodes_eq fits_wire_def with_capacity_def rd_node_loop_write)

lemma rd_proof_write [simp]:
  "block p < 2 ^ 64 \<Longrightarrow> leaf_size p < 2 ^ 64 \<Longrightarrow> fits_wire (siblings p) \<Longrightarrow> fits_wire (proof_roots p) \<Longrightarrow>
   rd_proof (wr_proof [] p @ rest) = Inr (p, rest)"
  by (simp add: rd_proof_def wr_proof_eq)

fun wf_message :: "sync_message \<Rightarrow> bool" where
  "wf_message (Head w h) \<longleftrightarrow> length w = 32 \<and> wf_head h"
| "wf_message (Have w len) \<longleftrightarrow> length w = 32 \<and> len < 2 ^ 64"
| "wf_message (Want w st en) \<longleftrightarrow> length w = 32 \<and> st < 2 ^ 64 \<and> en < 2 ^ 64"
| "wf_message (Block w h i bytes p) \<longleftrightarrow> length w = 32 \<and> wf_head h \<and> i < 2 ^ 64 \<and> length bytes < 2 ^ 64 \<and>
     block p < 2 ^ 64 \<and> leaf_size p < 2 ^ 64 \<and> fits_wire (siblings p) \<and> fits_wire (proof_roots p)"

lemma wire_encode_eq:
  "wire_encode (Head w h) = varint_write [] (word_of_nat T_HEAD) @ w @ wr_head [] h"
  "wire_encode (Have w len) = varint_write [] (word_of_nat T_HAVE) @ w @ varint_write [] (word_of_nat len)"
  "wire_encode (Want w st en) = varint_write [] (word_of_nat T_WANT) @ w @ varint_write [] (word_of_nat st) @ varint_write [] (word_of_nat en)"
  "wire_encode (Block w h i bytes p) = varint_write [] (word_of_nat T_BLOCK) @ w @ wr_head [] h @ varint_write [] (word_of_nat i) @
     varint_write [] (word_of_nat (length bytes)) @ bytes @ wr_proof [] p"
proof -
  note a = varint_write_append
  show "wire_encode (Head w h) = varint_write [] (word_of_nat T_HEAD) @ w @ wr_head [] h" by (simp add: wr_head_eq)
  show "wire_encode (Have w len) = varint_write [] (word_of_nat T_HAVE) @ w @ varint_write [] (word_of_nat len)"
    by (simp add: a [of "_ @ _"])
  show "wire_encode (Want w st en) = varint_write [] (word_of_nat T_WANT) @ w @ varint_write [] (word_of_nat st) @ varint_write [] (word_of_nat en)"
    by (simp add: a [of "_ @ _"] a [of "varint_write (_ @ _) _"])
  show "wire_encode (Block w h i bytes p) = varint_write [] (word_of_nat T_BLOCK) @ w @ wr_head [] h @ varint_write [] (word_of_nat i) @
     varint_write [] (word_of_nat (length bytes)) @ bytes @ wr_proof [] p"
    unfolding wire_encode.simps Let_def
    by (subst wr_proof_eq, subst a, subst (2) a, simp add: wr_head_eq wr_proof_eq)
qed

lemma tags:
  "T_HEAD < 18446744073709551616" "T_HAVE < 18446744073709551616" "T_WANT < 18446744073709551616" "T_BLOCK < 18446744073709551616"
  "T_HAVE \<noteq> T_HEAD" "T_WANT \<noteq> T_HEAD" "T_WANT \<noteq> T_HAVE" "T_BLOCK \<noteq> T_HEAD" "T_BLOCK \<noteq> T_HAVE" "T_BLOCK \<noteq> T_WANT"
  by (simp_all add: T_HEAD_def T_HAVE_def T_WANT_def T_BLOCK_def)

text \<open>Decoding the encoding of a message gives the message, whatever follows it.\<close>

lemma wire_decode_encode:
  assumes "wf_message m"
  shows "wire_decode (wire_encode m @ junk) = Inr m"
  using assms
  by (cases m) (simp_all add: wire_decode_def wire_encode_eq tags del: wire_encode.simps)

text \<open>
  Property C37. A frame of a few hundred bytes can stop the process: a block message whose proof announces \<open>2 ^ 62\<close> nodes makes the
  decoder reserve a buffer for them before it has read one, and the reservation panics.
\<close>

theorem wire_decode_panics:
  assumes "length w = 32" "wf_head h" "i < 2 ^ 64" "length bytes < 2 ^ 64" "b < 2 ^ 64" "sz < 2 ^ 64"
  shows "wire_decode (varint_write [] (word_of_nat T_BLOCK) @ w @ wr_head [] h @ varint_write [] (word_of_nat i) @
     varint_write [] (word_of_nat (length bytes)) @ bytes @ varint_write [] (word_of_nat b) @ varint_write [] (word_of_nat sz) @
     varint_write [] (word_of_nat (2 ^ 62))) = Inl WirePanic"
  using assms rd_u64_write_end [of "2 ^ 62"]
  by (simp add: wire_decode_def tags rd_proof_def rd_nodes_def with_capacity_def)

theorem wire_decode_panics_witness:
  "wire_decode (varint_write [] (word_of_nat T_BLOCK) @ replicate 32 1 @
     wr_head [] \<lparr> sh_fork = 0, sh_length = 1, sh_root = replicate 32 2, sh_sig = replicate 64 3 \<rparr> @ varint_write [] (word_of_nat 0) @
     varint_write [] (word_of_nat (length [5 :: byte])) @ [5] @ varint_write [] (word_of_nat 0) @ varint_write [] (word_of_nat 1) @
     varint_write [] (word_of_nat (2 ^ 62))) = Inl WirePanic"
  by (rule wire_decode_panics) (simp_all add: wf_head_def)

end
