(* ===== verification/Room.thy ===== *)
theory Room
  imports Wire Replica Consensus
begin

text \<open>
  A room of crate \<open>roomnet\<close> (\<open>room.rs\<close>, \<open>config.rs\<close>, \<open>projection.rs\<close> and the traits of \<open>store.rs\<close>): one log
  per writer, the causal order of their entries, the projections folded over that order, and the block
  synchronization with peers. A room is a state machine without I/O.
\<close>

section \<open>The parameters of a room\<close>

text \<open>\<open>StoreFactory\<close>: opening the backend of a writer, and the persisted writers (\<open>None\<close> is a panic of the listing).\<close>

record ('oe, 's, 'f) store_factory =
  sf_open :: "'f \<Rightarrow> bytes \<Rightarrow> ('oe, 's, 'f) outcome"
  sf_writers :: "'f \<Rightarrow> bytes list option"

record ('pe, 'p, 'st) projection =
  pj_apply :: "'p \<Rightarrow> node_id \<Rightarrow> bytes \<Rightarrow> ('pe, unit, 'p) outcome"
  pj_snapshot :: "'p \<Rightarrow> 'st"
  pj_reset :: "'p \<Rightarrow> 'st \<Rightarrow> 'p"

text \<open>
  The identities, the hash, the backend of a writer, the factory of backends and the projection.
  \<open>good_key\<close> tells which byte strings are public keys.
\<close>

record ('e, 's, 'oe, 'f, 'pe, 'p, 'st) room_env =
  en_crypto :: crypto
  en_hash :: hashfun
  en_store :: "('e, 's) store"
  en_factory :: "('oe, 's, 'f) store_factory"
  en_proj :: "('pe, 'p, 'st) projection"
  good_key :: "bytes \<Rightarrow> bool"

text \<open>\<open>MemStoreFactory\<close>: a fresh memory store per writer, nothing persisted.\<close>

definition mem_store_factory :: "('oe, memory_store, unit) store_factory" where
  "mem_store_factory = \<lparr> sf_open = (\<lambda>f w. (Inr [], f)), sf_writers = (\<lambda>f. Some []) \<rparr>"

section \<open>The state\<close>

datatype origin = Original | Replicated "nat option"

datatype fanout = Gossip | Peer bytes | Clients

record outbound =
  ob_msg :: sync_message
  ob_to :: fanout

record finalized_op =
  fz_node :: node_id
  fz_payload :: bytes
  fz_version :: nat

record feed_snapshot =
  fs_writer :: bytes
  fs_head :: signed_head
  fs_blocks :: "bytes list"

text \<open>
  \<open>RoomPanic\<close> is a panic of the room itself; \<open>RoomStuck\<close> stands for a linearization that does not return.
\<close>

datatype ('e, 'oe) room_error =
    CoreError "'e core_error"
  | EntryError codec_error
  | BadWriterKey
  | RecoveringOwnFeed
  | OwnFeedPending
  | StoreOpen 'oe
  | ReconfigureError reconfigure_error
  | RoomPanic
  | RoomStuck

record reconfigured =
  rc_kept :: nat
  rc_dropped :: nat

record ('s, 'f, 'p) room =
  local_key :: bytes
  rm_origin :: origin
  local :: "(entry, 's) hypercore"
  own_recovery :: "(signed_head \<times> (nat, bytes) btmap) option"
  remotes :: "(bytes, (entry, 's) replica) btmap"
  factory :: 'f
  lin :: linearizer
  payloads :: "(node_id, bytes) btmap"
  backlog :: "(node_id \<times> entry) list"
  finalized_proj :: 'p
  live_proj :: 'p
  finalized_len :: nat
  finalized_since_poll :: "finalized_op list"
  genesis_proj :: 'p
  last_activity :: nat

section \<open>Reading the state\<close>

definition room_indexers :: "('s, 'f, 'p) room \<Rightarrow> bytes list" where
  "room_indexers r = (case indexers (lin r) of None \<Rightarrow> [] | Some ix \<Rightarrow> ix)"

definition writer_lengths :: "('s, 'f, 'p) room \<Rightarrow> (bytes, nat) btmap" where
  "writer_lengths r = bt_collect ((local_key r, hc_len (local r)) # map (\<lambda>(k, rep). (k, rp_len rep)) (remotes r))"

definition checkpoint_count :: "('s, 'f, 'p) room \<Rightarrow> nat" where
  "checkpoint_count r = length (filter (\<lambda>(n, p). p = []) (payloads r))"

definition writer_len :: "('s, 'f, 'p) room \<Rightarrow> bytes \<Rightarrow> nat" where
  "writer_len r w =
     (if w = local_key r then hc_len (local r)
      else case bt_get (remotes r) w of None \<Rightarrow> 0 | Some rep \<Rightarrow> rp_len rep)"

definition room_payload :: "('s, 'f, 'p) room \<Rightarrow> node_id \<Rightarrow> bytes option" where
  "room_payload r n = bt_get (payloads r) n"

text \<open>\<open>payloads.get(node).cloned().unwrap_or_default()\<close>.\<close>

definition payload_of :: "('s, 'f, 'p) room \<Rightarrow> node_id \<Rightarrow> bytes" where
  "payload_of r n = (case bt_get (payloads r) n of None \<Rightarrow> [] | Some p \<Rightarrow> p)"

definition touch :: "('s, 'f, 'p) room \<Rightarrow> ('s, 'f, 'p) room" where
  "touch r = r\<lparr> last_activity := add64 (last_activity r) 1 \<rparr>"

section \<open>Delivery\<close>

definition try_add_node :: "node_id \<Rightarrow> entry \<Rightarrow> ('s, 'f, 'p) room \<Rightarrow> ('s, 'f, 'p) room" where
  "try_add_node n e r =
     (case add (lin r) n (ent_heads e) of
        Inr L \<Rightarrow> r\<lparr> lin := L, payloads := bt_insert n (ent_payload e) (payloads r) \<rparr>
      | Inl (Duplicate _) \<Rightarrow> r
      | Inl _ \<Rightarrow> r\<lparr> backlog := backlog r @ [(n, e)] \<rparr>)"

text \<open>One pass over the buffered blocks: whether any was taken off the buffer, and those still waiting.\<close>

fun drain_pass :: "(node_id \<times> entry) list \<Rightarrow> linearizer \<Rightarrow> (node_id, bytes) btmap \<Rightarrow> bool \<Rightarrow> (node_id \<times> entry) list \<Rightarrow>
    linearizer \<times> (node_id, bytes) btmap \<times> bool \<times> (node_id \<times> entry) list" where
  "drain_pass [] L pl progressed still = (L, pl, progressed, still)"
| "drain_pass ((n, e) # es) L pl progressed still =
     (case add L n (ent_heads e) of
        Inr L \<Rightarrow> drain_pass es L (bt_insert n (ent_payload e) pl) True still
      | Inl (Duplicate _) \<Rightarrow> drain_pass es L pl True still
      | Inl _ \<Rightarrow> drain_pass es L pl progressed (still @ [(n, e)]))"

lemma drain_pass_length:
  "drain_pass es L pl pr still = (L', pl', pr', still') \<Longrightarrow>
   length still' \<le> length still + length es \<and> (pr' \<and> \<not> pr \<longrightarrow> length still' < length still + length es)"
proof (induction es L pl pr still arbitrary: L' pl' pr' still' rule: drain_pass.induct)
  case (2 n e es L pl progressed still)
  show ?case
  proof (cases "add L n (ent_heads e)")
    case (Inl x)
    then show ?thesis using 2 by (cases x) fastforce+
  next
    case (Inr L1)
    then show ?thesis using "2.IH"(4) [OF Inr] "2.prems" by fastforce
  qed
qed simp

function drain_loop :: "(node_id \<times> entry) list \<Rightarrow> linearizer \<Rightarrow> (node_id, bytes) btmap \<Rightarrow>
    linearizer \<times> (node_id, bytes) btmap \<times> (node_id \<times> entry) list" where
  "drain_loop es L pl =
     (case drain_pass es L pl False [] of
        (L, pl, progressed, still) \<Rightarrow> if progressed then drain_loop still L pl else (L, pl, still))"
  by pat_completeness auto

termination drain_loop
  by (relation "measure (\<lambda>(es, L, pl). length es)") (auto dest!: drain_pass_length [OF sym])

declare drain_loop.simps [simp del]

definition drain_pending :: "('s, 'f, 'p) room \<Rightarrow> ('s, 'f, 'p) room" where
  "drain_pending r =
     (case drain_loop (backlog r) (lin r) (payloads r) of
        (L, pl, still) \<Rightarrow> r\<lparr> lin := L, payloads := pl, backlog := still \<rparr>)"

section \<open>The projections\<close>

text \<open>Folding one op: an empty payload is skipped, and an op the domain refuses leaves whatever \<open>apply\<close> left.\<close>

definition fold_op :: "('pe, 'p, 'st) projection \<Rightarrow> ('s, 'f, 'p) room \<Rightarrow> node_id \<Rightarrow> 'p \<Rightarrow> 'p" where
  "fold_op P r n p = (if payload_of r n = [] then p else snd (pj_apply P p n (payload_of r n)))"

definition advance_finalized :: "('pe, 'p, 'st) projection \<Rightarrow> node_id list \<Rightarrow> ('s, 'f, 'p) room \<Rightarrow> ('s, 'f, 'p) room" where
  "advance_finalized P fin r =
     (if finalized_len r < length fin
      then r\<lparr> finalized_proj := fold (fold_op P r) (drop (finalized_len r) fin) (finalized_proj r),
              finalized_since_poll := finalized_since_poll r @
                map (\<lambda>i. \<lparr> fz_node = fin ! i, fz_payload = payload_of r (fin ! i), fz_version = i + 1 \<rparr>)
                  [finalized_len r..<length fin],
              finalized_len := length fin \<rparr>
      else r)"

definition advance :: "('e, 's, 'oe, 'f, 'pe, 'p, 'st) room_env \<Rightarrow> ('s, 'f, 'p) room \<Rightarrow>
    (('e, 'oe) room_error, unit, ('s, 'f, 'p) room) outcome" where
  "advance V r =
     (case finalized (lin r) of
        None \<Rightarrow> (Inl RoomStuck, r)
      | Some fin \<Rightarrow>
          let P = en_proj V;
              r = advance_finalized P fin r;
              r = r\<lparr> live_proj := pj_reset P (live_proj r) (pj_snapshot P (finalized_proj r)) \<rparr>
          in case order (lin r) of
               None \<Rightarrow> (Inl RoomStuck, r)
             | Some ord \<Rightarrow>
                 if length ord < finalized_len r then (Inl RoomPanic, r)
                 else (Inr (), r\<lparr> live_proj := fold (fold_op P r) (drop (finalized_len r) ord) (live_proj r) \<rparr>))"

definition poll_finalized :: "('s, 'f, 'p) room \<Rightarrow> finalized_op list \<times> ('s, 'f, 'p) room" where
  "poll_finalized r = (finalized_since_poll r, r\<lparr> finalized_since_poll := [] \<rparr>)"

section \<open>Local entries\<close>

definition core_res :: "('e core_error, 'a) result \<Rightarrow> (('e, 'oe) room_error, 'a) result" where
  "core_res x = map_err CoreError x"

text \<open>The messages for a new entry: its head for the peers, the block for the clients.\<close>

definition new_entry_messages :: "('e, 's) store \<Rightarrow> ('s, 'f, 'p) room \<Rightarrow> nat \<Rightarrow> (('e, 'oe) room_error, outbound list) result" where
  "new_entry_messages S r i =
     (case head (local r) of
        None \<Rightarrow> Inl RoomPanic
      | Some h \<Rightarrow>
          (case hc_block S (local r) i of
             Inl e \<Rightarrow> Inl (CoreError e)
           | Inr None \<Rightarrow> Inl RoomPanic
           | Inr (Some bytes) \<Rightarrow>
               (case hc_proof (local r) i of
                  Some (Some p) \<Rightarrow> Inr [\<lparr> ob_msg = Head (local_key r) h, ob_to = Gossip \<rparr>,
                                        \<lparr> ob_msg = Block (local_key r) h i bytes p, ob_to = Clients \<rparr>]
                | _ \<Rightarrow> Inl RoomPanic)))"

text \<open>\<open>debug_assert!(false)\<close> is the panic of a debug build.\<close>

definition local_append :: "('e, 's, 'oe, 'f, 'pe, 'p, 'st) room_env \<Rightarrow> ('s, 'f, 'p) room \<Rightarrow> bytes \<Rightarrow>
    (('e, 'oe) room_error, outbound list, ('s, 'f, 'p) room) outcome" where
  "local_append V r op =
     (if own_recovery r \<noteq> None then (Inl RecoveringOwnFeed, r)
      else let seq = hc_len (local r)
           in if 0 < seq \<and> \<not> contains (lin r) (NodeId (local_key r) (seq - 1)) then (Inl OwnFeedPending, r)
              else let hs = heads (lin r); e = \<lparr> ent_heads = hs, ent_payload = op \<rparr>
                   in and_then (map_fst CoreError (hc_append (en_crypto V) (en_hash V) (en_store V) (local r) e)) (\<lambda>_ c.
                      and_then (map_fst CoreError (hc_persist (en_store V) c)) (\<lambda>_ c.
                        let r = r\<lparr> local := c \<rparr>; node = NodeId (local_key r) seq
                        in and_then (case add (lin r) node hs of
                                       Inr L \<Rightarrow> (Inr (), r\<lparr> lin := L \<rparr>)
                                     | Inl (Duplicate _) \<Rightarrow> (Inr (), r)
                                     | Inl _ \<Rightarrow> (Inl RoomPanic, r)) (\<lambda>_ r.
                           and_then (advance V (touch (r\<lparr> payloads := bt_insert node op (payloads r) \<rparr>))) (\<lambda>_ r.
                             (new_entry_messages (en_store V) r seq, r)) id) id)
                        (\<lambda>c. r\<lparr> local := c \<rparr>)) (\<lambda>c. r\<lparr> local := c \<rparr>))"

section \<open>Recovering the own feed\<close>

definition begin_own_recovery :: "crypto \<Rightarrow> ('s, 'f, 'p) room \<Rightarrow> signed_head \<Rightarrow>
    (('e, 'oe) room_error, unit, ('s, 'f, 'p) room) outcome" where
  "begin_own_recovery E r h =
     (if \<not> verify_signed_head E (public (local r)) h \<or> sh_fork h \<noteq> fork (local r) then (Inl (CoreError Corrupt), r)
      else let fresh = (Inr (), r\<lparr> own_recovery := Some (h, []) \<rparr>)
           in case own_recovery r of
                None \<Rightarrow> fresh
              | Some (target, _) \<Rightarrow>
                  if sh_length h < sh_length target then (Inr (), r)
                  else if sh_length h = sh_length target
                       then (if h = target then (Inr (), r) else (Inl (CoreError Corrupt), r))
                  else fresh)"

fun redeliver_own :: "('e, 's) store \<Rightarrow> nat list \<Rightarrow> ('s, 'f, 'p) room \<Rightarrow>
    (('e, 'oe) room_error, unit, ('s, 'f, 'p) room) outcome" where
  "redeliver_own S [] r = (Inr (), r)"
| "redeliver_own S (i # is) r =
     (case hc_get S (local r) i of
        Inl e \<Rightarrow> (Inl (CoreError e), r)
      | Inr None \<Rightarrow> (Inl (CoreError Corrupt), r)
      | Inr (Some e) \<Rightarrow> redeliver_own S is (try_add_node (NodeId (local_key r) i) e r))"

text \<open>All blocks up to the target have arrived.\<close>

definition finish_own_recovery :: "('e, 's, 'oe, 'f, 'pe, 'p, 'st) room_env \<Rightarrow> ('s, 'f, 'p) room \<Rightarrow> signed_head \<Rightarrow>
    (nat, bytes) btmap \<Rightarrow> (('e, 'oe) room_error, unit, ('s, 'f, 'p) room) outcome" where
  "finish_own_recovery V r target blocks =
     (let start = hc_len (local r);
          suf = map (\<lambda>j. the (bt_get blocks j)) [start..<sh_length target]
      in and_then (map_fst CoreError (recover_signed_suffix (en_crypto V) (en_hash V) (en_store V) (local r) target suf)) (\<lambda>_ c.
         and_then (redeliver_own (en_store V) [start..<hc_len c] (r\<lparr> local := c, own_recovery := None \<rparr>)) (\<lambda>_ r.
           advance V (touch (drain_pending r))) id) (\<lambda>c. r\<lparr> local := c \<rparr>))"

definition recover_own_block :: "('e, 's, 'oe, 'f, 'pe, 'p, 'st) room_env \<Rightarrow> ('s, 'f, 'p) room \<Rightarrow> signed_head \<Rightarrow> nat \<Rightarrow>
    bytes \<Rightarrow> inclusion_proof \<Rightarrow> (('e, 'oe) room_error, unit, ('s, 'f, 'p) room) outcome" where
  "recover_own_block V r h i bytes p =
     (if sh_length h \<le> hc_len (local r) then (Inr (), r)
      else if sh_length h \<le> i \<or> \<not> verify_block (en_crypto V) (en_hash V) (public (local r)) h i bytes p
      then (Inl (CoreError Corrupt), r)
      else and_then (begin_own_recovery (en_crypto V) r h) (\<lambda>_ r.
             case own_recovery r of
               None \<Rightarrow> (Inl RoomPanic, r)
             | Some (target, blocks) \<Rightarrow>
                 if h \<noteq> target \<or> i < hc_len (local r) then (Inr (), r)
                 else let blocks = bt_insert i bytes blocks;
                          r = r\<lparr> own_recovery := Some (target, blocks) \<rparr>
                      in if \<exists>j \<in> set [hc_len (local r)..<sh_length target]. \<not> bt_contains blocks j then (Inr (), r)
                         else finish_own_recovery V r target blocks) id)"

section \<open>Blocks of other writers\<close>

text \<open>The replica of a writer, created with a fresh store for a writer not seen before.\<close>

definition replica_of :: "('e, 's, 'oe, 'f, 'pe, 'p, 'st) room_env \<Rightarrow> ('s, 'f, 'p) room \<Rightarrow> bytes \<Rightarrow>
    (('e, 'oe) room_error, (entry, 's) replica, ('s, 'f, 'p) room) outcome" where
  "replica_of V r w =
     (case bt_get (remotes r) w of
        Some rep \<Rightarrow> (Inr rep, r)
      | None \<Rightarrow>
          if \<not> good_key V w then (Inl BadWriterKey, r)
          else (case sf_open (en_factory V) (factory r) w of
                  (Inl e, f) \<Rightarrow> (Inl (StoreOpen e), r\<lparr> factory := f \<rparr>)
                | (Inr s, f) \<Rightarrow>
                    let rep = rp_new w entry_codec s
                    in (Inr rep, r\<lparr> factory := f, remotes := bt_insert w rep (remotes r) \<rparr>)))"

definition set_replica :: "bytes \<Rightarrow> ('s, 'f, 'p) room \<Rightarrow> (entry, 's) replica \<Rightarrow> ('s, 'f, 'p) room" where
  "set_replica w r rep = r\<lparr> remotes := bt_insert w rep (remotes r) \<rparr>"

text \<open>Whether the replica accepted the block.\<close>

definition ingest_remote_block :: "('e, 's, 'oe, 'f, 'pe, 'p, 'st) room_env \<Rightarrow> ('s, 'f, 'p) room \<Rightarrow> bytes \<Rightarrow> signed_head \<Rightarrow>
    nat \<Rightarrow> bytes \<Rightarrow> inclusion_proof \<Rightarrow> (('e, 'oe) room_error, bool, ('s, 'f, 'p) room) outcome" where
  "ingest_remote_block V r w h i bytes p =
     and_then (replica_of V r w) (\<lambda>rep r.
     and_then (map_fst CoreError (rp_add_block (en_crypto V) (en_hash V) (en_store V) rep h i bytes p)) (\<lambda>ok rep.
       if \<not> ok then (Inr False, set_replica w r rep)
       else and_then (map_fst CoreError (rp_persist (en_store V) rep)) (\<lambda>_ rep.
              case decode entry_codec bytes of
                Inl e \<Rightarrow> (Inl (EntryError e), set_replica w r rep)
              | Inr e \<Rightarrow> (Inr True, touch (try_add_node (NodeId w i) e (set_replica w r rep)))) (set_replica w r)) (set_replica w r)) id"

section \<open>Messages\<close>

definition want_from :: "('s, 'f, 'p) room \<Rightarrow> bytes \<Rightarrow> bytes \<Rightarrow> nat \<Rightarrow> outbound list" where
  "want_from r from w len =
     (if writer_len r w < len then [\<lparr> ob_msg = Want w (writer_len r w) len, ob_to = Peer from \<rparr>] else [])"

text \<open>
  The loop that serves blocks, given how a block is read and its proof built: both are present, or the
  block is skipped.
\<close>

fun serve_loop :: "(nat \<Rightarrow> ('e core_error, bytes option) result) \<Rightarrow> (nat \<Rightarrow> inclusion_proof option option) \<Rightarrow> bytes \<Rightarrow>
    bytes \<Rightarrow> signed_head \<Rightarrow> nat list \<Rightarrow> (('e, 'oe) room_error, outbound list) result" where
  "serve_loop blk prf from w h [] = Inr []"
| "serve_loop blk prf from w h (i # is) =
     (case blk i of
        Inl e \<Rightarrow> Inl (CoreError e)
      | Inr x \<Rightarrow>
          (case prf i of
             None \<Rightarrow> Inl (CoreError Panic)
           | Some y \<Rightarrow>
               (case (x, y) of
                  (Some bytes, Some p) \<Rightarrow>
                    bind_res (serve_loop blk prf from w h is) (\<lambda>out.
                      Inr (\<lparr> ob_msg = Block w h i bytes p, ob_to = Peer from \<rparr> # out))
                | _ \<Rightarrow> serve_loop blk prf from w h is)))"

definition serve_want :: "('e, 's) store \<Rightarrow> ('s, 'f, 'p) room \<Rightarrow> bytes \<Rightarrow> bytes \<Rightarrow> nat \<Rightarrow> nat \<Rightarrow>
    (('e, 'oe) room_error, outbound list) result" where
  "serve_want S r from w start stop =
     (if w = local_key r
      then (case head (local r) of
              None \<Rightarrow> Inr []
            | Some h \<Rightarrow> serve_loop (hc_block S (local r)) (hc_proof (local r)) from w h [start..<min stop (hc_len (local r))])
      else (case bt_get (remotes r) w of
              None \<Rightarrow> Inr []
            | Some rep \<Rightarrow>
                (case rp_head rep of
                   None \<Rightarrow> Inr []
                 | Some h \<Rightarrow> serve_loop (rp_block S rep) (rp_proof rep) from w h [start..<min stop (sh_length h)])))"

definition on_inbound :: "('e, 's, 'oe, 'f, 'pe, 'p, 'st) room_env \<Rightarrow> ('s, 'f, 'p) room \<Rightarrow> bytes \<Rightarrow> sync_message \<Rightarrow>
    (('e, 'oe) room_error, outbound list, ('s, 'f, 'p) room) outcome" where
  "on_inbound V r from msg =
     (case msg of
        Head w h \<Rightarrow>
          and_then (if w = local_key r
                    then if hc_len (local r) < sh_length h then begin_own_recovery (en_crypto V) r h
                         else if sh_length h = hc_len (local r) \<and>
                                 (case head (local r) of None \<Rightarrow> False | Some l \<Rightarrow> l \<noteq> h) \<and>
                                 verify_signed_head (en_crypto V) (public (local r)) h
                         then (Inl (CoreError Corrupt), r)
                         else (Inr (), r)
                    else (Inr (), r)) (\<lambda>_ r. (Inr (want_from r from w (sh_length h)), r)) id
      | Have w len \<Rightarrow> (Inr (want_from r from w len), r)
      | Want w start stop \<Rightarrow> (serve_want (en_store V) r from w start stop, r)
      | Block w h i bytes p \<Rightarrow>
          if w = local_key r
          then and_then (recover_own_block V r h i bytes p) (\<lambda>_ r. (Inr [], r)) id
          else and_then (ingest_remote_block V r w h i bytes p) (\<lambda>ok r.
                 if ok
                 then and_then (advance V (drain_pending r)) (\<lambda>_ r.
                        (Inr [\<lparr> ob_msg = Block w h i bytes p, ob_to = Clients \<rparr>], r)) id
                 else (Inr [], r)) id)"

definition announce :: "('s, 'f, 'p) room \<Rightarrow> outbound list" where
  "announce r =
     (case head (local r) of
        Some h \<Rightarrow> \<lparr> ob_msg = Head (local_key r) h, ob_to = Gossip \<rparr>
      | None \<Rightarrow> \<lparr> ob_msg = Have (local_key r) 0, ob_to = Gossip \<rparr>) #
     concat (map (\<lambda>(w, rep).
       case rp_head rep of
         Some h \<Rightarrow> if 0 < sh_length h then [\<lparr> ob_msg = Have w (sh_length h), ob_to = Gossip \<rparr>] else []
       | None \<Rightarrow> []) (remotes r))"

section \<open>Changing the indexers\<close>

definition common_prefix_len :: "node_id list \<Rightarrow> node_id list \<Rightarrow> nat" where
  "common_prefix_len xs ys = length (takeWhile (\<lambda>(a, b). a = b) (zip xs ys))"

definition room_reconfigure :: "('e, 's, 'oe, 'f, 'pe, 'p, 'st) room_env \<Rightarrow> ('s, 'f, 'p) room \<Rightarrow> nat \<Rightarrow> bytes list \<Rightarrow>
    (('e, 'oe) room_error, reconfigured, ('s, 'f, 'p) room) outcome" where
  "room_reconfigure V r through ix =
     (case (finalized (lin r), reconfigure (lin r) through ix) of
        (Some before, Some res) \<Rightarrow>
          (case res of
             Inl e \<Rightarrow> (Inl (ReconfigureError e), r)
           | Inr L \<Rightarrow>
               (case finalized L of
                  None \<Rightarrow> (Inl RoomStuck, r\<lparr> lin := L \<rparr>)
                | Some after \<Rightarrow>
                    let r = r\<lparr> lin := L \<rparr>;
                        kept = common_prefix_len before after;
                        dropped = finalized_len r - kept;
                        r = (if 0 < dropped
                             then r\<lparr> finalized_proj := fold (fold_op (en_proj V) r) (take kept after) (genesis_proj r),
                                     finalized_len := kept \<rparr>
                             else r)
                    in and_then (advance V r) (\<lambda>_ r. (Inr \<lparr> rc_kept = kept, rc_dropped = dropped \<rparr>, r)) id))
      | _ \<Rightarrow> (Inl RoomStuck, r))"

section \<open>Checkpoints\<close>

text \<open>\<open>None\<close> stands for an order that does not return; it is computed only when the other conditions hold.\<close>

definition needs_checkpoint :: "('s, 'f, 'p) room \<Rightarrow> bool option" where
  "needs_checkpoint r =
     (let indexing = (case indexers (lin r) of Some ix \<Rightarrow> local_key r \<in> set ix | None \<Rightarrow> rm_origin r = Original);
          hs = heads (lin r);
          referenced = (0 < hc_len (local r) \<and> hs = [NodeId (local_key r) (hc_len (local r) - 1)])
      in if own_recovery r = None \<and> indexing \<and> \<not> referenced
         then map_option (\<lambda>ord. \<exists>n \<in> set (drop (finalized_len r) ord).
                key n \<noteq> local_key r \<and> (case bt_get (payloads r) n of None \<Rightarrow> False | Some p \<Rightarrow> p \<noteq> []))
                (order (lin r))
         else Some False)"

definition checkpoint :: "('e, 's, 'oe, 'f, 'pe, 'p, 'st) room_env \<Rightarrow> ('s, 'f, 'p) room \<Rightarrow>
    (('e, 'oe) room_error, outbound list, ('s, 'f, 'p) room) outcome" where
  "checkpoint V r =
     (case needs_checkpoint r of
        None \<Rightarrow> (Inl RoomStuck, r)
      | Some b \<Rightarrow> if b then local_append V r [] else (Inr [], r))"

section \<open>Queries\<close>

fun collect_some :: "(nat \<Rightarrow> ('x, 'a option) result) \<Rightarrow> nat list \<Rightarrow> ('x, 'a list) result" where
  "collect_some f [] = Inr []"
| "collect_some f (i # is) =
     bind_res (f i) (\<lambda>x. bind_res (collect_some f is) (\<lambda>xs. Inr (case x of None \<Rightarrow> xs | Some y \<Rightarrow> y # xs)))"

definition logs :: "('e, 's) store \<Rightarrow> ('s, 'f, 'p) room \<Rightarrow> bytes \<Rightarrow> nat \<Rightarrow> nat \<Rightarrow> (('e, 'oe) room_error, entry list) result" where
  "logs S r w start stop =
     collect_some (\<lambda>i. core_res (if w = local_key r then hc_get S (local r) i
                                 else case bt_get (remotes r) w of Some rep \<Rightarrow> rp_get S rep i | None \<Rightarrow> Inr None))
       [start..<min stop (writer_len r w)]"

fun snapshot_remotes :: "('e, 's) store \<Rightarrow> (bytes \<times> (entry, 's) replica) list \<Rightarrow>
    (('e, 'oe) room_error, feed_snapshot list) result" where
  "snapshot_remotes S [] = Inr []"
| "snapshot_remotes S ((w, rep) # reps) =
     (case rp_head rep of
        None \<Rightarrow> snapshot_remotes S reps
      | Some h \<Rightarrow>
          bind_res (core_res (collect_some (rp_block S rep) [0..<rp_len rep])) (\<lambda>bs.
          bind_res (snapshot_remotes S reps) (\<lambda>out. Inr (\<lparr> fs_writer = w, fs_head = h, fs_blocks = bs \<rparr> # out))))"

definition snapshot_feeds :: "('e, 's) store \<Rightarrow> ('s, 'f, 'p) room \<Rightarrow> (('e, 'oe) room_error, feed_snapshot list) result" where
  "snapshot_feeds S r =
     bind_res (case head (local r) of
                 None \<Rightarrow> Inr []
               | Some h \<Rightarrow>
                   bind_res (core_res (collect_some (hc_block S (local r)) [0..<hc_len (local r)])) (\<lambda>bs.
                     Inr [\<lparr> fs_writer = local_key r, fs_head = h, fs_blocks = bs \<rparr>])) (\<lambda>own.
     bind_res (snapshot_remotes S (remotes r)) (\<lambda>out. Inr (own @ out)))"

section \<open>Opening a room\<close>

text \<open>One writer's entries, read one after the other and given to the causal order.\<close>

fun replay_writer :: "(nat \<Rightarrow> ('e core_error, entry option) result) \<Rightarrow> bytes \<Rightarrow> nat list \<Rightarrow> ('s, 'f, 'p) room \<Rightarrow>
    (('e, 'oe) room_error, unit, ('s, 'f, 'p) room) outcome" where
  "replay_writer f w [] r = (Inr (), r)"
| "replay_writer f w (i # is) r =
     (case f i of
        Inl e \<Rightarrow> (Inl (CoreError e), r)
      | Inr x \<Rightarrow> replay_writer f w is (case x of None \<Rightarrow> r | Some e \<Rightarrow> try_add_node (NodeId w i) e r))"

fun replay_remotes :: "('e, 's) store \<Rightarrow> (bytes \<times> (entry, 's) replica) list \<Rightarrow> ('s, 'f, 'p) room \<Rightarrow>
    (('e, 'oe) room_error, unit, ('s, 'f, 'p) room) outcome" where
  "replay_remotes S [] r = (Inr (), r)"
| "replay_remotes S ((w, rep) # reps) r =
     and_then (replay_writer (rp_get S rep) w [0..<rp_len rep] r) (\<lambda>_ r. replay_remotes S reps r) id"

definition replay :: "('e, 's, 'oe, 'f, 'pe, 'p, 'st) room_env \<Rightarrow> ('s, 'f, 'p) room \<Rightarrow>
    (('e, 'oe) room_error, unit, ('s, 'f, 'p) room) outcome" where
  "replay V r =
     and_then (replay_writer (hc_get (en_store V) (local r)) (local_key r) [0..<hc_len (local r)] r) (\<lambda>_ r.
     and_then (replay_remotes (en_store V) (remotes r) r) (\<lambda>_ r.
     and_then (advance V (drain_pending r)) (\<lambda>_ r. (Inr (), r\<lparr> finalized_since_poll := [] \<rparr>)) id) id) id"

fun open_writers :: "('e, 's, 'oe, 'f, 'pe, 'p, 'st) room_env \<Rightarrow> bytes list \<Rightarrow> ('s, 'f, 'p) room \<Rightarrow>
    (('e, 'oe) room_error, ('s, 'f, 'p) room) result" where
  "open_writers V [] r = Inr r"
| "open_writers V (w # ws) r =
     (if w = local_key r then open_writers V ws r
      else if \<not> good_key V w then Inl BadWriterKey
      else case sf_open (en_factory V) (factory r) w of
             (Inl e, f) \<Rightarrow> Inl (StoreOpen e)
           | (Inr s, f) \<Rightarrow>
               (case rp_open (en_crypto V) (en_hash V) (en_store V) w entry_codec s of
                  Inr rep \<Rightarrow> open_writers V ws (r\<lparr> factory := f, remotes := bt_insert w rep (remotes r) \<rparr>)
                | Inl NotPersisted \<Rightarrow> open_writers V ws (r\<lparr> factory := f \<rparr>)
                | Inl e \<Rightarrow> Inl (CoreError e)))"

record room_config =
  rc_identity :: bytes
  rc_indexers :: "bytes list"
  rc_origin :: origin

definition open_local :: "('e, 's, 'oe, 'f, 'pe, 'p, 'st) room_env \<Rightarrow> bytes \<Rightarrow> 'f \<Rightarrow>
    (('e, 'oe) room_error, (entry, 's) hypercore \<times> 'f) result" where
  "open_local V sk f =
     (case sf_open (en_factory V) f (public_of (en_crypto V) sk) of
        (Inl e, f) \<Rightarrow> Inl (StoreOpen e)
      | (Inr s, f) \<Rightarrow>
          (case hc_open (en_crypto V) (en_hash V) (en_store V) sk entry_codec s of
             Inr c \<Rightarrow> Inr (c, f)
           | Inl NotPersisted \<Rightarrow>
               (case sf_open (en_factory V) f (public_of (en_crypto V) sk) of
                  (Inl e, f) \<Rightarrow> Inl (StoreOpen e)
                | (Inr s, f) \<Rightarrow> Inr (hc_new (en_crypto V) sk entry_codec s, f))
           | Inl e \<Rightarrow> Inl (CoreError e)))"

definition room_start :: "crypto \<Rightarrow> room_config \<Rightarrow> (entry, 's) hypercore \<Rightarrow> 'f \<Rightarrow> 'p \<Rightarrow> ('s, 'f, 'p) room" where
  "room_start E cfg c f P =
     \<lparr> local_key = public_of E (rc_identity cfg), rm_origin = rc_origin cfg, local = c, own_recovery = None,
       remotes = [], factory = f,
       lin = (if rc_indexers cfg = [] then new_linearizer else with_indexers (rc_indexers cfg)),
       payloads = [], backlog = [], finalized_proj = P, live_proj = P, finalized_len = 0,
       finalized_since_poll = [], genesis_proj = P, last_activity = 0 \<rparr>"

definition room_open :: "('e, 's, 'oe, 'f, 'pe, 'p, 'st) room_env \<Rightarrow> room_config \<Rightarrow> 'f \<Rightarrow> 'p \<Rightarrow>
    (('e, 'oe) room_error, ('s, 'f, 'p) room) result" where
  "room_open V cfg f P =
     bind_res (open_local V (rc_identity cfg) f) (\<lambda>(c, f).
     bind_res (case sf_writers (en_factory V) f of
                 None \<Rightarrow> Inl RoomPanic
               | Some ws \<Rightarrow> open_writers V ws (room_start (en_crypto V) cfg c f P)) (\<lambda>r.
       case replay V r of (Inl e, _) \<Rightarrow> Inl e | (Inr _, r) \<Rightarrow> Inr r))"

end
