(* ===== verification/Room_Delivery.thy ===== *)
theory Room_Delivery
  imports Room
begin

text \<open>
  Delivery in a room: what the causal order, the decoded payloads and the buffer of waiting blocks have
  to do with each other, that draining the buffer delivers all that can be delivered, and that the
  outcome does not depend on the order in which the blocks arrived.
\<close>

section \<open>Delivered and waiting entries\<close>

text \<open>The payload map holds exactly the delivered nodes.\<close>

definition delivery_ok :: "linearizer \<Rightarrow> (node_id, bytes) btmap \<Rightarrow> bool" where
  "delivery_ok L pl \<longleftrightarrow> dag_ok L \<and> causal L (base L) \<and> bt_inv pl \<and> (\<forall>n. contains L n \<longleftrightarrow> bt_contains pl n)"

definition full_deps :: "node_id \<Rightarrow> entry \<Rightarrow> node_id set" where
  "full_deps n e = set (ent_heads e) \<union> (if 0 < seq n then {NodeId (key n) (seq n - 1)} else {})"

text \<open>What was accepted of every node: its dependencies and its payload, delivered or waiting.\<close>

definition delivered_set :: "linearizer \<Rightarrow> (node_id, bytes) btmap \<Rightarrow> (node_id \<times> node_id set \<times> bytes) set" where
  "delivered_set L pl = {(n, dep_of L n, p) | n p. contains L n \<and> bt_get pl n = Some p}"

definition waiting_set :: "(node_id \<times> entry) list \<Rightarrow> (node_id \<times> node_id set \<times> bytes) set" where
  "waiting_set es = (\<lambda>(n, e). (n, full_deps n e, ent_payload e)) ` set es"

definition accepted :: "('s, 'f, 'p) room \<Rightarrow> (node_id \<times> node_id set \<times> bytes) set" where
  "accepted r = delivered_set (lin r) (payloads r) \<union> waiting_set (backlog r)"

text \<open>A waiting entry that cannot be delivered yet.\<close>

definition blocked :: "linearizer \<Rightarrow> node_id \<times> entry \<Rightarrow> bool" where
  "blocked L x \<longleftrightarrow> \<not> contains L (fst x) \<and> (\<exists>err. add L (fst x) (ent_heads (snd x)) = Inl err)"

lemma waiting_set_simps [simp]:
  "waiting_set [] = {}" "waiting_set (x # es) = insert (fst x, full_deps (fst x) (snd x), ent_payload (snd x)) (waiting_set es)"
  "waiting_set (xs @ ys) = waiting_set xs \<union> waiting_set ys"
  by (auto simp: waiting_set_def case_prod_beta)

lemma mem_delivered_set:
  "(n, D, p) \<in> delivered_set L pl \<longleftrightarrow> contains L n \<and> D = dep_of L n \<and> bt_get pl n = Some p"
  by (auto simp: delivered_set_def)

lemma delivery_okD:
  assumes "delivery_ok L pl"
  shows "dag_ok L" "causal L (base L)" "bt_inv pl" "contains L n \<longleftrightarrow> bt_contains pl n"
  using assms by (auto simp: delivery_ok_def)

lemma causal_mono:
  assumes "causal L xs" "\<And>n. contains L n \<Longrightarrow> contains L' n \<and> dep_of L' n = dep_of L n"
  shows "causal L' xs"
proof -
  have sub: "set xs \<subseteq> nodes_of L'" using assms by (auto simp: causal_def nodes_of_def)
  have "contains L (xs ! i)" if "i < length xs" for i
    using assms(1) nth_mem [OF that] by (auto simp: causal_def nodes_of_def)
  then have "dep_of L' (xs ! i) = dep_of L (xs ! i)" if "i < length xs" for i using assms(2) that by blast
  then show ?thesis using assms(1) sub by (simp add: causal_def)
qed

lemma full_deps_not_self: "dag_ok L \<Longrightarrow> add L n (ent_heads e) = Inr L' \<Longrightarrow> full_deps n e = dep_set n (ent_heads e)"
  by (cases n) (auto simp: full_deps_def dep_set_def elim!: add_Inr)

text \<open>Taking one node into the order.\<close>

lemma deliver_one:
  assumes ok: "delivery_ok L pl" and add: "add L n (ent_heads e) = Inr L'"
  shows "delivery_ok L' (bt_insert n (ent_payload e) pl)"
    "delivered_set L' (bt_insert n (ent_payload e) pl) = insert (n, full_deps n e, ent_payload e) (delivered_set L pl)"
proof -
  note d = delivery_okD [OF ok] and eff = add_effect [OF add] and dd = add_deps_delivered [OF delivery_okD(1) [OF ok] add]
  have keep: "contains L m \<Longrightarrow> contains L' m \<and> dep_of L' m = dep_of L m" for m using dd(1) by (auto simp: eff(1,2))
  have "causal L' (base L')" using causal_mono [OF d(2) keep] by (simp add: eff)
  then show "delivery_ok L' (bt_insert n (ent_payload e) pl)"
    using add_ok [OF d(1) add] d(3,4) by (auto simp: delivery_ok_def eff(1) bt_contains_def)
  show "delivered_set L' (bt_insert n (ent_payload e) pl) = insert (n, full_deps n e, ent_payload e) (delivered_set L pl)"
    using dd(1) full_deps_not_self [OF d(1) add] by (auto simp: delivered_set_def eff(1,2))
qed

text \<open>A node whose dependencies are all delivered can be delivered.\<close>

lemma add_succeeds:
  assumes "dag_ok L" "\<not> contains L n" "full_deps n e \<subseteq> nodes_of L"
  shows "\<exists>L'. add L n (ent_heads e) = Inr L'"
proof (rule ccontr)
  assume "\<not> ?thesis"
  then obtain err where err: "add L n (ent_heads e) = Inl err" by (cases "add L n (ent_heads e)") auto
  have "seq n \<le> clk_get (next_seq L) (key n)"
    using assms(3) dag_okD(6) [OF assms(1), of "key n" "seq n - 1"]
    by (cases "seq n") (auto simp: full_deps_def nodes_of_def)
  moreover have "\<not> seq n < clk_get (next_seq L) (key n)" using assms(2) dag_okD(6) [OF assms(1), of "key n" "seq n"] by (cases n) auto
  moreover have "find (\<lambda>h. \<not> contains L h) (ent_heads e) = None"
    using assms(3) by (auto simp: find_None_iff full_deps_def nodes_of_def)
  ultimately show False using err assms(2) by (auto simp: add_Inl)
qed

section \<open>Draining the buffer\<close>

text \<open>What deliveries leave alone.\<close>

definition same_config :: "linearizer \<Rightarrow> linearizer \<Rightarrow> bool" where
  "same_config L L' \<longleftrightarrow> indexers L' = indexers L \<and> base L' = base L \<and> base_clock L' = base_clock L \<and> nodes_of L \<subseteq> nodes_of L'"

lemma same_config_refl [simp]: "same_config L L"
  by (simp add: same_config_def)

lemma same_config_trans: "same_config L L' \<Longrightarrow> same_config L' L'' \<Longrightarrow> same_config L L''"
  by (auto simp: same_config_def)

lemma same_config_add: "add L n hs = Inr L' \<Longrightarrow> same_config L L'"
  by (auto simp: same_config_def nodes_of_def add_effect)

text \<open>One description of a node per writer and index: no writer has forked.\<close>

definition consistent :: "(node_id \<times> node_id set \<times> bytes) set \<Rightarrow> bool" where
  "consistent A \<longleftrightarrow> (\<forall>n x y. (n, x) \<in> A \<longrightarrow> (n, y) \<in> A \<longrightarrow> x = y)"

lemma delivered_setI: "delivery_ok L pl \<Longrightarrow> contains L n \<Longrightarrow> \<exists>p. (n, dep_of L n, p) \<in> delivered_set L pl"
  using delivery_okD(4) [of L pl n] by (auto simp: delivered_set_def bt_contains_def split: option.splits)

lemma drain_pass_ok:
  assumes "drain_pass es L pl pr still = (L', pl', pr', still')" "delivery_ok L pl"
  shows "delivery_ok L' pl' \<and> same_config L L' \<and> set still' \<subseteq> set still \<union> set es \<and>
    (consistent (delivered_set L pl \<union> waiting_set still \<union> waiting_set es) \<longrightarrow>
     delivered_set L' pl' \<union> waiting_set still' = delivered_set L pl \<union> waiting_set still \<union> waiting_set es)"
  using assms
proof (induction es L pl pr still arbitrary: L' pl' pr' still' rule: drain_pass.induct)
  case (2 n e es L pl pr still)
  show ?case
  proof (cases "add L n (ent_heads e)")
    case (Inl x)
    show ?thesis
    proof (cases x)
      case (Duplicate m)
      then have c: "contains L n" using Inl by (auto simp: add_Inl)
      have run: "drain_pass es L pl True still = (L', pl', pr', still')" using "2.prems"(1) Inl Duplicate by simp
      obtain p where p: "(n, dep_of L n, p) \<in> delivered_set L pl" using delivered_setI [OF "2.prems"(2) c] by blast
      have ih: "delivery_ok L' pl' \<and> same_config L L' \<and> set still' \<subseteq> set still \<union> set es \<and>
        (consistent (delivered_set L pl \<union> waiting_set still \<union> waiting_set es) \<longrightarrow>
         delivered_set L' pl' \<union> waiting_set still' = delivered_set L pl \<union> waiting_set still \<union> waiting_set es)"
        using "2.IH"(1) [OF Inl Duplicate run "2.prems"(2)] .
      have "(n, full_deps n e, ent_payload e) \<in> delivered_set L pl"
        if "consistent (delivered_set L pl \<union> waiting_set still \<union> waiting_set ((n, e) # es))"
        using that p unfolding consistent_def by simp metis
      then show ?thesis using ih by (auto simp: insert_absorb)
    next
      case (Gap a b c)
      then have run: "drain_pass es L pl pr (still @ [(n, e)]) = (L', pl', pr', still')" using "2.prems"(1) Inl by simp
      from "2.IH"(2) [OF Inl Gap run "2.prems"(2)] show ?thesis by auto
    next
      case (MissingHead h)
      then have run: "drain_pass es L pl pr (still @ [(n, e)]) = (L', pl', pr', still')" using "2.prems"(1) Inl by simp
      from "2.IH"(3) [OF Inl MissingHead run "2.prems"(2)] show ?thesis by auto
    qed
  next
    case (Inr L1)
    note one = deliver_one [OF "2.prems"(2) Inr]
    have run: "drain_pass es L1 (bt_insert n (ent_payload e) pl) True still = (L', pl', pr', still')"
      using "2.prems"(1) Inr by simp
    from "2.IH"(4) [OF Inr run one(1)] show ?thesis
      using same_config_trans [OF same_config_add [OF Inr]] one(2) by auto
  qed
qed simp

lemma drain_pass_delivered:
  "drain_pass es L pl pr still = (L', pl', pr', still') \<Longrightarrow> delivery_ok L pl \<Longrightarrow> delivered_set L pl \<subseteq> delivered_set L' pl'"
proof (induction es L pl pr still arbitrary: L' pl' pr' still' rule: drain_pass.induct)
  case (2 m e es L pl pr still)
  show ?case
  proof (cases "add L m (ent_heads e)")
    case (Inl x)
    then show ?thesis using 2 by (cases x) auto
  next
    case (Inr L1)
    note one = deliver_one [OF "2.prems"(2) Inr]
    have "delivered_set L1 (bt_insert m (ent_payload e) pl) \<subseteq> delivered_set L' pl'"
      using "2.IH"(4) [OF Inr _ one(1)] "2.prems"(1) Inr by simp
    then show ?thesis using one(2) by auto
  qed
qed simp

lemma drain_loop_delivered:
  "drain_loop es L pl = (L', pl', still) \<Longrightarrow> delivery_ok L pl \<Longrightarrow> delivered_set L pl \<subseteq> delivered_set L' pl'"
proof (induction es L pl arbitrary: L' pl' still rule: drain_loop.induct)
  case (1 es L pl)
  obtain L1 pl1 pr st where p: "drain_pass es L pl False [] = (L1, pl1, pr, st)" by (metis prod_cases4)
  note ok = drain_pass_ok [OF p "1.prems"(2)] and mono = drain_pass_delivered [OF p "1.prems"(2)]
  show ?case
  proof (cases pr)
    case True
    then have "drain_loop st L1 pl1 = (L', pl', still)" using "1.prems"(1) p by (simp add: drain_loop.simps)
    from "1.IH" [OF p [symmetric] refl refl True this] ok mono show ?thesis by blast
  next
    case False
    then show ?thesis using mono "1.prems"(1) p by (simp add: drain_loop.simps)
  qed
qed

lemma drain_pass_nodes:
  "drain_pass es L pl pr still = (L', pl', pr', still') \<Longrightarrow> contains L' n \<Longrightarrow> contains L n \<or> n \<in> fst ` (set still \<union> set es)"
proof (induction es L pl pr still arbitrary: L' pl' pr' still' rule: drain_pass.induct)
  case (2 m e es L pl pr still)
  show ?case
  proof (cases "add L m (ent_heads e)")
    case (Inl x)
    then show ?thesis using 2 by (cases x) auto
  next
    case (Inr L1)
    then have "contains L1 n \<or> n \<in> fst ` (set still \<union> set es)" using "2.IH"(4) [OF Inr] "2.prems" by simp
    then show ?thesis using add_effect(1) [OF Inr] by auto
  qed
qed simp

lemma drain_loop_nodes:
  "drain_loop es L pl = (L', pl', still) \<Longrightarrow> delivery_ok L pl \<Longrightarrow> contains L' n \<Longrightarrow> contains L n \<or> n \<in> fst ` set es"
proof (induction es L pl arbitrary: L' pl' still rule: drain_loop.induct)
  case (1 es L pl)
  obtain L1 pl1 pr st where p: "drain_pass es L pl False [] = (L1, pl1, pr, st)" by (metis prod_cases4)
  note ok = drain_pass_ok [OF p "1.prems"(2), simplified] and nd = drain_pass_nodes [OF p, of n]
  show ?case
  proof (cases pr)
    case True
    then have "drain_loop st L1 pl1 = (L', pl', still)" using "1.prems"(1) p by (simp add: drain_loop.simps)
    from "1.IH" [OF p [symmetric] refl refl True this _ "1.prems"(3)] ok nd show ?thesis by auto
  next
    case False
    then have "L' = L1" using "1.prems"(1) p by (simp add: drain_loop.simps)
    then show ?thesis using nd "1.prems"(3) by simp
  qed
qed

lemma drain_pass_stuck:
  "drain_pass es L pl False still = (L', pl', False, still') \<Longrightarrow>
   L' = L \<and> pl' = pl \<and> still' = still @ es \<and> (\<forall>x \<in> set es. blocked L x)"
proof (induction es arbitrary: still)
  case (Cons x es)
  obtain n e where x: "x = (n, e)" by (cases x)
  have np: "drain_pass es M q True st \<noteq> (L', pl', False, still')" for M q st
  proof (induction es arbitrary: M q st)
    case (Cons y ys)
    then show ?case by (cases y) (auto split: sum.splits add_error.splits)
  qed simp
  then obtain err where err: "add L n (ent_heads e) = Inl err" "\<forall>m. err \<noteq> Duplicate m"
      "drain_pass es L pl False (still @ [(n, e)]) = (L', pl', False, still')"
    using Cons.prems x by (auto split: sum.splits add_error.splits)
  then have "blocked L x" using x by (auto simp: blocked_def add_Inl)
  then show ?case using Cons.IH [OF err(3)] x by simp
qed simp

lemma drain_loop_ok:
  assumes "drain_loop es L pl = (L', pl', still)" "delivery_ok L pl"
  shows "delivery_ok L' pl' \<and> same_config L L' \<and> set still \<subseteq> set es \<and> (\<forall>x \<in> set still. blocked L' x) \<and>
    (consistent (delivered_set L pl \<union> waiting_set es) \<longrightarrow>
     delivered_set L' pl' \<union> waiting_set still = delivered_set L pl \<union> waiting_set es)"
  using assms
proof (induction es L pl arbitrary: L' pl' still rule: drain_loop.induct)
  case (1 es L pl)
  obtain L1 pl1 pr st where p: "drain_pass es L pl False [] = (L1, pl1, pr, st)" by (metis prod_cases4)
  note ok = drain_pass_ok [OF p "1.prems"(2), simplified]
  show ?case
  proof (cases pr)
    case True
    then have run: "drain_loop st L1 pl1 = (L', pl', still)" using "1.prems"(1) p by (simp add: drain_loop.simps)
    have "delivery_ok L1 pl1" using ok by simp
    from "1.IH" [OF p [symmetric] refl refl True run this] show ?thesis
      using ok same_config_trans by auto
  next
    case False
    then have run: "(L', pl', still) = (L1, pl1, st)" using "1.prems"(1) p by (simp add: drain_loop.simps)
    then show ?thesis using ok drain_pass_stuck [of es L pl "[]" L1 pl1 st] p False by auto
  qed
qed

text \<open>A room whose waiting entries are all blocked.\<close>

lemma drain_pending_simps [simp]:
  "local (drain_pending r) = local r" "local_key (drain_pending r) = local_key r" "finalized_len (drain_pending r) = finalized_len r"
  "own_recovery (drain_pending r) = own_recovery r" "remotes (drain_pending r) = remotes r" "factory (drain_pending r) = factory r"
  "finalized_proj (drain_pending r) = finalized_proj r" "genesis_proj (drain_pending r) = genesis_proj r"
  by (simp_all add: drain_pending_def split: prod.split)

lemma drain_pending_ok:
  assumes "delivery_ok (lin r) (payloads r)"
  shows "delivery_ok (lin (drain_pending r)) (payloads (drain_pending r))" "same_config (lin r) (lin (drain_pending r))"
    "set (backlog (drain_pending r)) \<subseteq> set (backlog r)" "\<forall>x \<in> set (backlog (drain_pending r)). blocked (lin (drain_pending r)) x"
    "consistent (accepted r) \<Longrightarrow> accepted (drain_pending r) = accepted r"
proof -
  obtain L pl still where d: "drain_loop (backlog r) (lin r) (payloads r) = (L, pl, still)" by (metis prod_cases3)
  then show "delivery_ok (lin (drain_pending r)) (payloads (drain_pending r))" "same_config (lin r) (lin (drain_pending r))"
    "set (backlog (drain_pending r)) \<subseteq> set (backlog r)" "\<forall>x \<in> set (backlog (drain_pending r)). blocked (lin (drain_pending r)) x"
    "consistent (accepted r) \<Longrightarrow> accepted (drain_pending r) = accepted r"
    using drain_loop_ok [OF d assms] by (simp_all add: drain_pending_def accepted_def)
qed

lemma drain_pending_delivered:
  "delivery_ok (lin r) (payloads r) \<Longrightarrow>
   delivered_set (lin r) (payloads r) \<subseteq> delivered_set (lin (drain_pending r)) (payloads (drain_pending r))"
  using drain_loop_delivered [of "backlog r" "lin r" "payloads r"] by (auto simp: drain_pending_def split: prod.splits)

lemma drain_pending_nodes:
  "delivery_ok (lin r) (payloads r) \<Longrightarrow> contains (lin (drain_pending r)) n \<Longrightarrow> contains (lin r) n \<or> n \<in> fst ` set (backlog r)"
  using drain_loop_nodes [of "backlog r" "lin r" "payloads r"] by (auto simp: drain_pending_def split: prod.splits)

section \<open>Convergence\<close>

text \<open>With the same accepted entries, whatever one room has delivered a settled room has delivered too.\<close>

lemma wf_edges: "dag_ok L \<Longrightarrow> wf ((edges L)\<inverse>)"
proof (rule finite_acyclic_wf_converse)
  assume ok: "dag_ok L"
  show "acyclic (edges L)" by (rule dag_okD(9) [OF ok])
  have "edges L \<subseteq> nodes_of L \<times> nodes_of L"
    using dag_okD(5) [OF ok] by (auto simp: edges_def nodes_of_def dest: dep_of_contains)
  then show "finite (edges L)" by (rule finite_subset) simp
qed

lemma settled_contains:
  assumes ok: "delivery_ok (lin r1) (payloads r1)" "delivery_ok (lin r2) (payloads r2)"
    and acc: "accepted r1 \<subseteq> accepted r2" and settled: "\<forall>x \<in> set (backlog r2). blocked (lin r2) x"
    and n: "(n, D, p) \<in> delivered_set (lin r1) (payloads r1)"
  shows "(n, D, p) \<in> delivered_set (lin r2) (payloads r2)"
proof -
  note ok1 = delivery_okD(1) [OF ok(1)] and ok2 = delivery_okD(1) [OF ok(2)]
  have "\<forall>D p. (n, D, p) \<in> delivered_set (lin r1) (payloads r1) \<longrightarrow> (n, D, p) \<in> delivered_set (lin r2) (payloads r2)"
  proof (induction n rule: wf_induct_rule [OF wf_edges [OF ok1]])
    case (1 n)
    show ?case
    proof (intro allI impI)
      fix D p assume np: "(n, D, p) \<in> delivered_set (lin r1) (payloads r1)"
      then have D: "D = dep_of (lin r1) n" by (auto simp: delivered_set_def)
      have below: "contains (lin r2) d" if "d \<in> D" for d
      proof -
        have "(d, n) \<in> (edges (lin r1))\<inverse>" using that D by (simp add: edges_def)
        moreover have "\<exists>q. (d, dep_of (lin r1) d, q) \<in> delivered_set (lin r1) (payloads r1)"
          using dag_okD(5) [OF ok1] that D by (intro delivered_setI [OF ok(1)]) blast
        ultimately have "\<exists>q. (d, dep_of (lin r1) d, q) \<in> delivered_set (lin r2) (payloads r2)" using 1 by blast
        then show ?thesis by (auto simp: delivered_set_def)
      qed
      show "(n, D, p) \<in> delivered_set (lin r2) (payloads r2)"
      proof (rule ccontr)
        assume "(n, D, p) \<notin> delivered_set (lin r2) (payloads r2)"
        moreover have "(n, D, p) \<in> accepted r2" using np acc by (auto simp: accepted_def)
        ultimately obtain e where e: "(n, e) \<in> set (backlog r2)" "full_deps n e = D"
          by (auto simp: accepted_def waiting_set_def)
        have b: "\<not> contains (lin r2) n" "\<exists>err. add (lin r2) n (ent_heads e) = Inl err"
          using settled e(1) by (auto simp: blocked_def)
        have "full_deps n e \<subseteq> nodes_of (lin r2)" using below e(2) by (auto simp: nodes_of_def)
        from add_succeeds [OF ok2 b(1) this] b(2) show False by auto
      qed
    qed
  qed
  then show ?thesis using n by blast
qed

lemma delivered_set_determines:
  assumes ok: "delivery_ok L pl" "delivery_ok L' pl'" and eq: "delivered_set L pl = delivered_set L' pl'"
    and conf: "indexers L' = indexers L" "base L' = base L" "base_clock L' = base_clock L"
  shows "L' = L \<and> pl' = pl"
proof -
  have c: "contains L n \<longleftrightarrow> (\<exists>D p. (n, D, p) \<in> delivered_set L pl)" "contains L' n \<longleftrightarrow> (\<exists>D p. (n, D, p) \<in> delivered_set L' pl')" for n
    using delivered_setI [OF ok(1), of n] delivered_setI [OF ok(2), of n] by (auto simp: mem_delivered_set)
  have con: "contains L n \<longleftrightarrow> contains L' n" for n using c eq by simp
  have dep: "dep_of L n = dep_of L' n" for n
  proof (cases "contains L' n")
    case True
    then show ?thesis using delivered_setI [OF ok(2) True] unfolding eq [symmetric] by (auto simp: mem_delivered_set)
  next
    case False
    then show ?thesis using con dep_of_contains by blast
  qed
  have "L = L'" by (rule dag_ok_ext [OF delivery_okD(1) [OF ok(1)] delivery_okD(1) [OF ok(2)]]) (simp_all add: con dep conf)
  moreover have "bt_get pl n = bt_get pl' n" for n
  proof (cases "contains L n")
    case True
    then have "bt_contains pl n" using delivery_okD(4) [OF ok(1), of n] by simp
    then obtain p where p: "bt_get pl n = Some p" by (auto simp: bt_contains_def split: option.splits)
    then have "(n, dep_of L n, p) \<in> delivered_set L' pl'" using True unfolding eq [symmetric] by (simp add: mem_delivered_set)
    then show ?thesis using p by (simp add: mem_delivered_set)
  next
    case False
    then have "\<not> bt_contains pl n" "\<not> bt_contains pl' n"
      using delivery_okD(4) [OF ok(1), of n] delivery_okD(4) [OF ok(2), of n] con by simp_all
    then show ?thesis by (auto simp: bt_contains_def split: option.splits)
  qed
  then have "pl = pl'" using delivery_okD(3) [OF ok(1)] delivery_okD(3) [OF ok(2)] by (intro bt_ext) auto
  ultimately show ?thesis by simp
qed

lemma drain_converges:
  assumes ok: "delivery_ok (lin r1) (payloads r1)" "delivery_ok (lin r2) (payloads r2)"
    and acc: "accepted r1 = accepted r2" "consistent (accepted r1)"
    and conf: "indexers (lin r1) = indexers (lin r2)" "base (lin r1) = base (lin r2)" "base_clock (lin r1) = base_clock (lin r2)"
  shows "lin (drain_pending r1) = lin (drain_pending r2) \<and> payloads (drain_pending r1) = payloads (drain_pending r2)"
proof -
  let ?a = "drain_pending r1" and ?b = "drain_pending r2"
  note a = drain_pending_ok [OF ok(1)] and b = drain_pending_ok [OF ok(2)]
  have eq: "accepted ?a = accepted ?b" using a(5) b(5) acc by simp
  have "delivered_set (lin ?a) (payloads ?a) = delivered_set (lin ?b) (payloads ?b)"
    using settled_contains [OF a(1) b(1) _ b(4)] settled_contains [OF b(1) a(1) _ a(4)] eq by auto
  from delivered_set_determines [OF a(1) b(1) this] a(2) b(2) conf show ?thesis by (simp add: same_config_def)
qed

end
