(* ===== verification/Room_Invariant.thy ===== *)
theory Room_Invariant
  imports Room_Delivery
begin

text \<open>
  The invariant of a room and that every operation keeps it, whatever it returns; in particular the
  recomputation of the projections always returns and never indexes out of range.
\<close>

section \<open>The invariant\<close>

definition room_ok :: "('s, 'f, 'p) room \<Rightarrow> bool" where
  "room_ok r \<longleftrightarrow>
     delivery_ok (lin r) (payloads r) \<and> finalized_len r \<le> lin_len (lin r) \<and>
     (\<forall>i. contains (lin r) (NodeId (local_key r) i) \<longrightarrow> i < hc_len (local r)) \<and>
     (\<forall>x \<in> set (backlog r). key (fst x) = local_key r \<longrightarrow> seq (fst x) < hc_len (local r))"

lemma room_ok_fields [simp]:
  "room_ok (r\<lparr> finalized_proj := a \<rparr>) = room_ok r" "room_ok (r\<lparr> live_proj := a \<rparr>) = room_ok r"
  "room_ok (r\<lparr> finalized_since_poll := b \<rparr>) = room_ok r" "room_ok (r\<lparr> own_recovery := c \<rparr>) = room_ok r"
  "room_ok (r\<lparr> remotes := d \<rparr>) = room_ok r" "room_ok (r\<lparr> factory := f \<rparr>) = room_ok r"
  "room_ok (r\<lparr> last_activity := g \<rparr>) = room_ok r" "room_ok (touch r) = room_ok r"
  by (simp_all add: room_ok_def touch_def)

lemma room_ok_delivery: "room_ok r \<Longrightarrow> delivery_ok (lin r) (payloads r)"
  by (simp add: room_ok_def)

lemma room_ok_local: "room_ok r \<Longrightarrow> hc_len (local r) \<le> hc_len c \<Longrightarrow> room_ok (r\<lparr> local := c \<rparr>)"
  unfolding room_ok_def by (auto intro: less_le_trans)

lemma lin_len_mono: "dag_ok L \<Longrightarrow> dag_ok L' \<Longrightarrow> nodes_of L \<subseteq> nodes_of L' \<Longrightarrow> lin_len L \<le> lin_len L'"
  by (simp add: lin_len_card card_mono)

section \<open>Projections\<close>

lemma fold_op_fields [simp]:
  "fold_op P (r\<lparr> finalized_proj := a \<rparr>) = fold_op P r" "fold_op P (r\<lparr> live_proj := a \<rparr>) = fold_op P r"
  "fold_op P (r\<lparr> finalized_since_poll := b \<rparr>) = fold_op P r" "fold_op P (r\<lparr> finalized_len := c \<rparr>) = fold_op P r"
  "fold_op P (r\<lparr> lin := L \<rparr>) = fold_op P r"
  by (intro ext; simp add: fold_op_def payload_of_def)+

lemma advance_finalized_eq:
  "\<exists>po. advance_finalized P fin r =
     r\<lparr> finalized_proj := fold (fold_op P r) (drop (finalized_len r) fin) (finalized_proj r),
        finalized_since_poll := po, finalized_len := max (finalized_len r) (length fin) \<rparr>"
proof (cases "finalized_len r < length fin")
  case True
  then have m: "max (finalized_len r) (length fin) = length fin" by simp
  show ?thesis unfolding advance_finalized_def m using True by (simp del: upt_Suc) blast
next
  case False
  then have m: "max (finalized_len r) (length fin) = finalized_len r" "drop (finalized_len r) fin = []" by simp_all
  show ?thesis
    unfolding advance_finalized_def m using False by (intro exI [of _ "finalized_since_poll r"]) (cases r, simp)
qed

lemma advance_ok:
  assumes "room_ok r"
  shows "\<exists>fin ord fp lp po. finalized (lin r) = Some fin \<and> order (lin r) = Some ord \<and> prefix fin ord \<and> set ord = nodes_of (lin r) \<and>
    advance V r = (Inr (), r\<lparr> finalized_proj := fp, live_proj := lp, finalized_since_poll := po,
      finalized_len := max (finalized_len r) (length fin) \<rparr>) \<and>
    fp = fold (fold_op (en_proj V) r) (drop (finalized_len r) fin) (finalized_proj r) \<and>
    lp = fold (fold_op (en_proj V) r) (drop (max (finalized_len r) (length fin)) ord)
      (pj_reset (en_proj V) (live_proj r) (pj_snapshot (en_proj V) fp)) \<and>
    room_ok (snd (advance V r))"
proof -
  note d = delivery_okD [OF room_ok_delivery [OF assms]]
  obtain ord fin where o: "order (lin r) = Some ord" "finalized (lin r) = Some fin" "prefix fin ord"
      "causal (lin r) ord" "set ord = nodes_of (lin r)"
    using order_ok [OF d(1,2)] by blast
  have len: "length ord = lin_len (lin r)"
    using o(4,5) lin_len_card [OF d(1)] distinct_card [of ord] by (simp add: causal_def)
  have fl: "finalized_len r \<le> length ord" "length fin \<le> length ord"
    using assms len prefix_length_le [OF o(3)] by (simp_all add: room_ok_def)
  let ?P = "en_proj V"
  define m where "m = max (finalized_len r) (length fin)"
  define fp where "fp = fold (fold_op ?P r) (drop (finalized_len r) fin) (finalized_proj r)"
  define lp where "lp = fold (fold_op ?P r) (drop m ord) (pj_reset ?P (live_proj r) (pj_snapshot ?P fp))"
  have "\<exists>po. advance V r = (Inr (), r\<lparr> finalized_proj := fp, live_proj := lp, finalized_since_poll := po, finalized_len := m \<rparr>)"
  proof -
    obtain po where af: "advance_finalized ?P fin r = r\<lparr> finalized_proj := fp, finalized_since_poll := po, finalized_len := m \<rparr>"
      using advance_finalized_eq [of ?P fin r] unfolding fp_def m_def by blast
    have "\<not> length ord < m" using fl by (simp add: m_def)
    then have "advance V r = (Inr (), r\<lparr> finalized_proj := fp, finalized_since_poll := po, finalized_len := m, live_proj := lp \<rparr>)"
      unfolding advance_def o(2) option.case Let_def af by (simp add: o(1) lp_def)
    moreover have "r\<lparr> finalized_proj := fp, finalized_since_poll := po, finalized_len := m, live_proj := lp \<rparr> =
        r\<lparr> finalized_proj := fp, live_proj := lp, finalized_since_poll := po, finalized_len := m \<rparr>" by simp
    ultimately show ?thesis by metis
  qed
  then obtain po where a: "advance V r = (Inr (), r\<lparr> finalized_proj := fp, live_proj := lp, finalized_since_poll := po, finalized_len := m \<rparr>)"
    by blast
  have "m \<le> lin_len (lin r)" using fl len by (simp add: m_def)
  then have "room_ok (snd (advance V r))" using assms by (simp add: a room_ok_def)
  then show ?thesis using o a unfolding m_def fp_def lp_def by blast
qed

section \<open>The length of the own feed\<close>

lemma and_then_iff: "and_then m f fail = (x, t) \<longleftrightarrow>
    (\<exists>e s. m = (Inl e, s) \<and> x = Inl e \<and> t = fail s) \<or> (\<exists>y s. m = (Inr y, s) \<and> f y s = (x, t))"
  by (cases "(m, f, fail)" rule: and_then.cases) auto

lemma map_fst_iff: "map_fst g m = (x, t) \<longleftrightarrow> (\<exists>y. m = (y, t) \<and> x = map_err g y)"
  by (cases m) (auto simp: map_fst_def)

lemma core_put_frame: "core_put S c k v = (x, c') \<Longrightarrow> \<exists>s. c' = c\<lparr> hc_store := s \<rparr>"
  by (auto simp: core_put_def split: prod.splits)

lemma put_blocks_frame: "put_blocks S i bs c = (x, c') \<Longrightarrow> \<exists>s. c' = c\<lparr> hc_store := s \<rparr>"
proof (induction bs arbitrary: i c)
  case Nil
  then show ?case by (auto intro!: exI [of _ "hc_store c"])
next
  case (Cons b bs)
  then show ?case by (auto simp: and_then_iff dest!: core_put_frame) (metis hypercore.surjective hypercore.update_convs(4))
qed

lemma hc_append_len: "hc_append E H S c v = (x, c') \<Longrightarrow> hc_len c \<le> hc_len c'"
  by (auto simp: hc_append_def Let_def and_then_iff hc_len_def resign_and_def resign_def append_def
      split: option.splits dest!: core_put_frame)

lemma hc_persist_len: "hc_persist S c = (x, c') \<Longrightarrow> \<exists>s. c' = c\<lparr> hc_store := s \<rparr>"
  by (auto simp: hc_persist_def Let_def and_then_iff dest!: core_put_frame)

lemma read_blocks_length: "read_blocks S c is = Inr bs \<Longrightarrow> length bs = length is"
  by (induction "is" arbitrary: bs) (auto split: option.splits)

lemma recover_len:
  assumes "recover_signed_suffix E H S c h suf = (x, c')"
  shows "hc_len c \<le> hc_len c'"
proof -
  have "hc_len c \<le> tree_len t" if "read_blocks S c [0..<hc_len c] = Inr pre" "fold_blocks H 0 (pre @ suf) empty_tree bf_new = (t, p)" for pre t p
    using fold_blocks_ok [OF tree_ok_empty bf_ok_new(1), of H "pre @ suf" t p] that read_blocks_length [OF that(1)] by auto
  then show ?thesis
    using assms unfolding recover_signed_suffix_def Let_def
    by (auto simp: and_then_iff hc_len_def split: if_splits sum.splits prod.splits
        dest!: core_put_frame put_blocks_frame)
qed

section \<open>Operations keep the invariant\<close>

lemma try_add_node_simps [simp]:
  "local (try_add_node n e r) = local r" "local_key (try_add_node n e r) = local_key r"
  "finalized_len (try_add_node n e r) = finalized_len r" "remotes (try_add_node n e r) = remotes r"
  by (simp_all add: try_add_node_def split: sum.split add_error.split)

lemma room_ok_deliver:
  assumes "room_ok r" "delivery_ok L pl" "same_config (lin r) L" "set es \<subseteq> set (backlog r) \<union> {x. key (fst x) = local_key r \<longrightarrow> seq (fst x) < hc_len (local r)}"
    "\<forall>i. contains L (NodeId (local_key r) i) \<longrightarrow> i < hc_len (local r)"
  shows "room_ok (r\<lparr> lin := L, payloads := pl, backlog := es \<rparr>)"
proof -
  have "lin_len (lin r) \<le> lin_len L"
    using assms(1-3) by (intro lin_len_mono) (auto simp: room_ok_def delivery_ok_def same_config_def)
  then show ?thesis using assms unfolding room_ok_def by auto
qed

lemma room_ok_try_add:
  assumes ok: "room_ok r" and own: "key n = local_key r \<longrightarrow> seq n < hc_len (local r)"
  shows "room_ok (try_add_node n e r)"
proof (cases "add (lin r) n (ent_heads e)")
  case (Inl err)
  have "room_ok (r\<lparr> backlog := backlog r @ [(n, e)] \<rparr>)" using ok own by (auto simp: room_ok_def)
  then show ?thesis using ok Inl by (cases err) (simp_all add: try_add_node_def)
next
  case (Inr L)
  let ?pl = "bt_insert n (ent_payload e) (payloads r)"
  have eq: "try_add_node n e r = r\<lparr> lin := L, payloads := ?pl, backlog := backlog r \<rparr>" using Inr by (simp add: try_add_node_def)
  have "\<forall>i. contains L (NodeId (local_key r) i) \<longrightarrow> i < hc_len (local r)"
    using ok own add_effect(1) [OF Inr] by (auto simp: room_ok_def)
  then show ?thesis
    unfolding eq using deliver_one(1) [OF room_ok_delivery [OF ok] Inr] same_config_add [OF Inr] ok
    by (intro room_ok_deliver) auto
qed

lemma room_ok_drain:
  assumes ok: "room_ok r"
  shows "room_ok (drain_pending r)"
proof -
  let ?d = "drain_pending r"
  note d = drain_pending_ok [OF room_ok_delivery [OF ok]]
  have "?d = r\<lparr> lin := lin ?d, payloads := payloads ?d, backlog := backlog ?d \<rparr>"
    by (simp add: drain_pending_def split: prod.split)
  moreover have "\<forall>i. contains (lin ?d) (NodeId (local_key r) i) \<longrightarrow> i < hc_len (local r)"
    using drain_pending_nodes [OF room_ok_delivery [OF ok]] ok by (fastforce simp: room_ok_def)
  ultimately show ?thesis using d(1-3) ok room_ok_deliver [of r "lin ?d" "payloads ?d" "backlog ?d"] by auto
qed

lemma room_ok_advance: "room_ok r \<Longrightarrow> advance V r = (x, r') \<Longrightarrow> x = Inr () \<and> room_ok r'"
  using advance_ok [of r V] by auto

lemma advance_frame:
  "advance V r = (x, r') \<Longrightarrow> local r' = local r \<and> local_key r' = local_key r \<and> lin r' = lin r \<and> payloads r' = payloads r \<and>
     backlog r' = backlog r \<and> remotes r' = remotes r \<and> own_recovery r' = own_recovery r \<and> genesis_proj r' = genesis_proj r"
  by (auto simp: advance_def advance_finalized_def Let_def split: option.splits if_splits)

text \<open>A new local entry is always the next one of the own feed.\<close>

lemma own_add:
  assumes ok: "room_ok r" and len: "0 < hc_len (local r) \<longrightarrow> contains (lin r) (NodeId (local_key r) (hc_len (local r) - 1))"
  shows "\<exists>L. add (lin r) (NodeId (local_key r) (hc_len (local r))) (heads (lin r)) = Inr L"
proof -
  have dag: "dag_ok (lin r)" using delivery_okD(1) [OF room_ok_delivery [OF ok]] .
  have "\<not> contains (lin r) (NodeId (local_key r) (hc_len (local r)))" using ok by (auto simp: room_ok_def)
  moreover have "set (heads (lin r)) \<subseteq> nodes_of (lin r)"
    by (auto simp: heads_def nodes_of_def contains_def bt_contains_iff)
  ultimately show ?thesis
    using add_succeeds [OF dag, of "NodeId (local_key r) (hc_len (local r))" "\<lparr> ent_heads = heads (lin r), ent_payload = [] \<rparr>"] len
    by (auto simp: full_deps_def nodes_of_def)
qed

lemma room_ok_appended:
  assumes ok: "room_ok r" and L: "add (lin r) (NodeId (local_key r) (hc_len (local r))) hs = Inr L"
    and len: "hc_len c = Suc (hc_len (local r))"
  shows "room_ok (r\<lparr> local := c, lin := L, payloads := bt_insert (NodeId (local_key r) (hc_len (local r))) op (payloads r) \<rparr>)"
proof -
  let ?n = "NodeId (local_key r) (hc_len (local r))" and ?e = "\<lparr> ent_heads = hs, ent_payload = op \<rparr>"
  let ?pl = "bt_insert ?n op (payloads r)"
  have r1: "room_ok (r\<lparr> local := c \<rparr>)" using room_ok_local [OF ok, of c] len by simp
  have dl: "delivery_ok L ?pl" using deliver_one(1) [OF room_ok_delivery [OF ok], of ?n ?e L] L by simp
  have own: "\<forall>i. contains L (NodeId (local_key r) i) \<longrightarrow> i < hc_len c" using ok add_effect(1) [OF L] len by (auto simp: room_ok_def)
  have "r\<lparr> local := c, lin := L, payloads := ?pl \<rparr> = (r\<lparr> local := c \<rparr>)\<lparr> lin := L, payloads := ?pl, backlog := backlog r \<rparr>" by simp
  then show ?thesis using room_ok_deliver [OF r1, of L ?pl "backlog r"] dl same_config_add [OF L] own by simp
qed

definition never_stuck :: "(('e, 'oe) room_error, 'a) result \<Rightarrow> bool" where
  "never_stuck x \<longleftrightarrow> x \<noteq> Inl RoomStuck"

lemma never_stuck_simps [simp]:
  "never_stuck (Inr a)" "never_stuck (Inl e) \<longleftrightarrow> e \<noteq> RoomStuck" "never_stuck (map_err CoreError y)"
  by (cases y; simp add: never_stuck_def)+

lemma keeps_and_then:
  assumes "and_then m f fail = (x, t)" "\<And>e s. m = (Inl e, s) \<Longrightarrow> Q (fail s) \<and> e \<noteq> RoomStuck"
    "\<And>y s. m = (Inr y, s) \<Longrightarrow> f y s = (x, t) \<Longrightarrow> Q t \<and> never_stuck x"
  shows "Q t \<and> never_stuck x"
  using assms by (auto simp: and_then_iff)

lemma core_never_stuck [simp]:
  fixes y :: "('e core_error, 'd) result" and m :: "('e core_error, 'd, 's) outcome"
  shows
  "map_err CoreError y \<noteq> Inl RoomStuck" "Inl RoomStuck \<noteq> map_err CoreError y" "map_fst CoreError m \<noteq> (Inl RoomStuck, s)"
proof -
  show ne: "map_err CoreError y \<noteq> Inl RoomStuck" for y :: "('e core_error, 'd) result" by (cases y) simp_all
  show "Inl RoomStuck \<noteq> map_err CoreError y" using ne by metis
  show "map_fst CoreError m \<noteq> (Inl RoomStuck, s)" by (cases "fst m") (auto simp: map_fst_def)
qed

lemma never_stuck_messages [simp]: "never_stuck (new_entry_messages S r n)"
  by (simp add: new_entry_messages_def split: option.split sum.split)

lemma local_append_keeps:
  assumes ok: "room_ok r" and run: "local_append V r op = (x, r')"
  shows "room_ok r' \<and> never_stuck x"
proof -
  let ?n = "NodeId (local_key r) (hc_len (local r))" and ?hs = "heads (lin r)"
  let ?e = "\<lparr> ent_heads = ?hs, ent_payload = op \<rparr>"
  show ?thesis
  proof (cases "own_recovery r \<noteq> None \<or> 0 < hc_len (local r) \<and> \<not> contains (lin r) (NodeId (local_key r) (hc_len (local r) - 1))")
    case True
    then show ?thesis using ok run by (auto simp: local_append_def split: if_splits)
  next
    case False
    then obtain L where L: "add (lin r) ?n ?hs = Inr L" using own_add [OF ok] by blast
    have g: "(own_recovery r \<noteq> None) = False"
      "(0 < hc_len (local r) \<and> \<not> contains (lin r) (NodeId (local_key r) (hc_len (local r) - 1))) = False" using False by blast+
    note run = run [unfolded local_append_def Let_def g if_False]
    obtain y c where a: "hc_append (en_crypto V) (en_hash V) (en_store V) (local r) ?e = (y, c)" by fastforce
    have c: "room_ok (r\<lparr> local := c \<rparr>)" using room_ok_local [OF ok hc_append_len [OF a]] .
    show ?thesis
    proof (cases y)
      case (Inl e)
      then have "x = Inl (CoreError e) \<and> r' = r\<lparr> local := c \<rparr>" using run a by (simp add: map_fst_def)
      then show ?thesis using c by simp
    next
      case (Inr j)
      obtain z c' where p: "hc_persist (en_store V) c = (z, c')" by fastforce
      have len: "hc_len c = Suc (hc_len (local r))"
        using a Inr by (auto simp: hc_append_def Let_def core_put_Inr resign_and_Inr resign_def hc_len_def append_def split: option.splits)
      have l: "hc_len c' = hc_len c" using hc_persist_len [OF p] by (auto simp: hc_len_def)
      have r1: "room_ok (r\<lparr> local := c' \<rparr>)" using room_ok_local [OF ok, of c'] len l by simp
      show ?thesis
      proof (cases z)
        case (Inl e)
        then have "x = Inl (CoreError e) \<and> r' = r\<lparr> local := c' \<rparr>"
          using run a Inr p \<open>y = Inr j\<close> by (simp add: map_fst_def)
        then show ?thesis using r1 by simp
      next
        case (Inr u)
        let ?r = "r\<lparr> local := c', lin := L, payloads := bt_insert ?n op (payloads r) \<rparr>"
        have "room_ok ?r" using room_ok_appended [OF ok L] len l by simp
        moreover obtain w r2 where w: "advance V (touch ?r) = (w, r2)" by fastforce
        ultimately have r2: "w = Inr ()" "room_ok r2" using room_ok_advance [of "touch ?r" V] by auto
        have "x = new_entry_messages (en_store V) r2 (hc_len (local r)) \<and> r' = r2"
          using run a \<open>y = Inr j\<close> p Inr L w r2(1) by (auto simp: map_fst_def)
        then show ?thesis using r2(2) by simp
      qed
    qed
  qed
qed

lemma begin_own_recovery_frame:
  "begin_own_recovery E r h = (x, r') \<Longrightarrow>
     (r' = r \<or> r' = r\<lparr> own_recovery := Some (h, []) \<rparr>) \<and> (x = Inr () \<or> x = Inl (CoreError Corrupt))"
  by (auto simp: begin_own_recovery_def Let_def split: if_splits option.splits)

lemma redeliver_own_keeps:
  "room_ok r \<Longrightarrow> \<forall>i \<in> set is. i < hc_len (local r) \<Longrightarrow> redeliver_own S is r = (x, r') \<Longrightarrow> room_ok r' \<and> never_stuck x"
proof (induction "is" arbitrary: r)
  case (Cons i "is")
  have "room_ok (try_add_node (NodeId (local_key r) i) e r)" for e using Cons.prems by (intro room_ok_try_add) auto
  then have "redeliver_own S is (try_add_node (NodeId (local_key r) i) e r) = (x, r') \<Longrightarrow> room_ok r' \<and> never_stuck x" for e
    using Cons.prems(2) by (intro Cons.IH) auto
  then show ?case using Cons.prems by (auto split: sum.splits option.splits)
qed auto

lemma finish_own_recovery_keeps:
  fixes V :: "('e, 's, 'oe, 'f, 'pe, 'p, 'st) room_env"
  assumes ok: "room_ok r" and run: "finish_own_recovery V r h blocks = (x, r')"
  shows "room_ok r' \<and> never_stuck x"
proof -
  let ?suf = "map (\<lambda>j. the (bt_get blocks j)) [hc_len (local r)..<sh_length h]"
  obtain z c where z: "recover_signed_suffix (en_crypto V) (en_hash V) (en_store V) (local r) h ?suf = (z, c)" by fastforce
  have c: "room_ok (r\<lparr> local := c \<rparr>)" using room_ok_local [OF ok recover_len [OF z]] .
  show ?thesis
  proof (rule keeps_and_then [OF run [unfolded finish_own_recovery_def Let_def z]])
    fix e s assume "map_fst CoreError (z, c) = (Inl e, s)"
    then show "room_ok (r\<lparr> local := s \<rparr>) \<and> e \<noteq> RoomStuck" using c by (auto simp: map_fst_iff)
  next
    fix y s
    assume m: "map_fst CoreError (z, c) = (Inr y, s)"
      and go: "and_then (redeliver_own (en_store V) [hc_len (local r)..<hc_len s] (r\<lparr> local := s, own_recovery := None \<rparr>))
        (\<lambda>_ r. advance V (touch (drain_pending r))) id = (x, r')"
    have s: "room_ok (r\<lparr> local := s, own_recovery := None \<rparr>)" using m c by (auto simp: map_fst_iff)
    note red = redeliver_own_keeps [OF s, of "[hc_len (local r)..<hc_len s]" "en_store V", simplified]
    show "room_ok r' \<and> never_stuck x"
    proof (rule keeps_and_then [OF go])
      fix q t
      assume "redeliver_own (en_store V) [hc_len (local r)..<hc_len s] (r\<lparr> local := s, own_recovery := None \<rparr>) = (Inr q, t)"
      then have "room_ok (touch (drain_pending t))" using red room_ok_drain by auto
      moreover assume "advance V (touch (drain_pending t)) = (x, r')"
      ultimately show "room_ok r' \<and> never_stuck x" using room_ok_advance by fastforce
    qed (use red in fastforce)
  qed
qed

lemma recover_own_block_keeps:
  fixes V :: "('e, 's, 'oe, 'f, 'pe, 'p, 'st) room_env"
  assumes ok: "room_ok r" and run: "recover_own_block V r h i bs p = (x, r')"
  shows "room_ok r' \<and> never_stuck x"
proof (cases "sh_length h \<le> hc_len (local r) \<or> sh_length h \<le> i \<or> \<not> verify_block (en_crypto V) (en_hash V) (public (local r)) h i bs p")
  case True
  then show ?thesis using ok run by (auto simp: recover_own_block_def split: if_splits)
next
  case False
  obtain y :: "(('e, 'oe) room_error, unit) result" and r1 where b: "begin_own_recovery (en_crypto V) r h = (y, r1)" by fastforce
  have ok1: "room_ok r1" "y = Inr () \<or> y = Inl (CoreError Corrupt)" using begin_own_recovery_frame [OF b] ok by auto
  then show ?thesis
  proof (cases "own_recovery r1")
    case (Some tb)
    obtain target blocks where tb: "tb = (target, blocks)" by fastforce
    let ?r = "r1\<lparr> own_recovery := Some (target, bt_insert i bs blocks) \<rparr>"
    have "room_ok ?r" using ok1(1) by simp
    note fin = finish_own_recovery_keeps [OF this]
    show ?thesis
      using run False b ok1 Some tb fin [of V target "bt_insert i bs blocks" x r']
      by (auto simp: recover_own_block_def Let_def split: if_splits)
  qed (use run False b ok1 in \<open>auto simp: recover_own_block_def\<close>)
qed

lemma room_ok_set_replica [simp]: "room_ok (set_replica w r rep) = room_ok r" "local_key (set_replica w r rep) = local_key r"
  by (simp_all add: set_replica_def)

lemma replica_of_keeps:
  "room_ok r \<Longrightarrow> replica_of V r w = (x, r') \<Longrightarrow> room_ok r' \<and> never_stuck x \<and> local_key r' = local_key r"
  by (auto simp: replica_of_def Let_def split: option.splits if_splits prod.splits sum.splits)

lemma ingest_remote_block_keeps:
  assumes ok: "room_ok r" and w: "w \<noteq> local_key r" and run: "ingest_remote_block V r w h i bs p = (x, r')"
  shows "room_ok r' \<and> never_stuck x"
proof -
  show ?thesis
  proof (rule keeps_and_then [OF run [unfolded ingest_remote_block_def]])
    fix rep r1
    assume "replica_of V r w = (Inr rep, r1)"
    then have r1: "room_ok r1" "local_key r1 = local_key r" using replica_of_keeps [OF ok] by auto
    then have add: "room_ok (try_add_node (NodeId w i) e (set_replica w r1 q))" for e q
      using room_ok_try_add [of "set_replica w r1 q" "NodeId w i" e] w by simp
    assume go: "and_then (map_fst CoreError (rp_add_block (en_crypto V) (en_hash V) (en_store V) rep h i bs p)) (\<lambda>ok rep.
       if \<not> ok then (Inr False, set_replica w r1 rep)
       else and_then (map_fst CoreError (rp_persist (en_store V) rep)) (\<lambda>_ rep.
              case decode entry_codec bs of
                Inl e \<Rightarrow> (Inl (EntryError e), set_replica w r1 rep)
              | Inr e \<Rightarrow> (Inr True, touch (try_add_node (NodeId w i) e (set_replica w r1 rep)))) (set_replica w r1)) (set_replica w r1) = (x, r')"
    show "room_ok r' \<and> never_stuck x"
    proof (rule keeps_and_then [OF go])
      fix taken rep1
      assume go: "(if \<not> taken then (Inr False, set_replica w r1 rep1)
       else and_then (map_fst CoreError (rp_persist (en_store V) rep1)) (\<lambda>_ rep.
              case decode entry_codec bs of
                Inl e \<Rightarrow> (Inl (EntryError e), set_replica w r1 rep)
              | Inr e \<Rightarrow> (Inr True, touch (try_add_node (NodeId w i) e (set_replica w r1 rep)))) (set_replica w r1)) = (x, r')"
      show "room_ok r' \<and> never_stuck x"
      proof (cases taken)
        case True
        show ?thesis
          by (rule keeps_and_then [OF go [simplified True simp_thms if_False]])
            (use r1(1) add in \<open>auto split: sum.splits\<close>)
      qed (use go r1 in auto)
    qed (use r1 in auto)
  qed (use replica_of_keeps [OF ok] in fastforce)
qed

lemma want_served_keeps: "never_stuck (serve_loop blk prf from w h is)"
  by (induction "is") (auto simp: bind_res_Inl_iff never_stuck_def split: sum.splits option.splits)

lemma serve_want_keeps [simp]: "never_stuck (serve_want S r from w a b)"
  by (auto simp: serve_want_def want_served_keeps split: option.split)

lemma on_inbound_keeps:
  assumes ok: "room_ok r" and run: "on_inbound V r from msg = (x, r')"
  shows "room_ok r' \<and> never_stuck x"
proof (cases msg)
  case (Head w h)
  then show ?thesis
    using run ok unfolding on_inbound_def
    by (auto simp: and_then_iff dest!: begin_own_recovery_frame split: if_splits option.splits)
next
  case (Block w h i bs p)
  show ?thesis
  proof (cases "w = local_key r")
    case True
    then show ?thesis
      using run Block unfolding on_inbound_def by (auto simp: and_then_iff dest!: recover_own_block_keeps [OF ok])
  next
    case False
    then have run1: "and_then (ingest_remote_block V r w h i bs p) (\<lambda>ok r.
        if ok then and_then (advance V (drain_pending r)) (\<lambda>_ r. (Inr [\<lparr> ob_msg = Block w h i bs p, ob_to = Clients \<rparr>], r)) id
        else (Inr [], r)) id = (x, r')"
      using run Block by (simp add: on_inbound_def)
    note ing = ingest_remote_block_keeps [OF ok False]
    show ?thesis
    proof (rule keeps_and_then [OF run1])
      fix taken r1
      assume "ingest_remote_block V r w h i bs p = (Inr taken, r1)"
      then have r1: "room_ok r1" using ing by blast
      assume go: "(if taken then and_then (advance V (drain_pending r1)) (\<lambda>_ r. (Inr [\<lparr> ob_msg = Block w h i bs p, ob_to = Clients \<rparr>], r)) id
              else (Inr [], r1)) = (x, r')"
      obtain a r2 where "advance V (drain_pending r1) = (a, r2)" by fastforce
      moreover from this have "a = Inr () \<and> room_ok r2" using room_ok_advance [OF room_ok_drain [OF r1]] by blast
      ultimately show "room_ok r' \<and> never_stuck x" using go r1 by (auto split: if_splits)
    qed (use ing in \<open>fastforce\<close>)
  qed
qed (use run ok in \<open>auto simp: on_inbound_def\<close>)

lemma reconfigure_delivery:
  assumes ok: "delivery_ok L pl" and r: "reconfigure L through ix = Some (Inr L')"
  shows "delivery_ok L' pl" "nodes_of L' = nodes_of L" "dep_of L' n = dep_of L n"
proof -
  note d = delivery_okD [OF ok]
  obtain fin where fin: "confirmed_view L = Some fin" "causal L fin" using confirmed_view_ok [OF d(1,2)] by blast
  then have at: "reconfigure_at L (take through fin) ix = Inr L'" using r by (auto simp: reconfigure_def split: if_splits)
  note R = reconfigure_at_ok [OF at]
  show "nodes_of L' = nodes_of L" "dep_of L' n = dep_of L n" by (rule R(7), rule R(6))
  have "causal L' (base L')" using causal_take [OF fin(2), of through] R(1,6,7) by (simp add: causal_def)
  then show "delivery_ok L' pl" using d R(5,7) by (auto simp: delivery_ok_def nodes_of_def)
qed

lemma reconfigure_returns: "dag_ok L \<Longrightarrow> causal L (base L) \<Longrightarrow> \<exists>x. reconfigure L through ix = Some x"
  using confirmed_view_ok [of L] by (auto simp: reconfigure_def)

lemma common_prefix_len_le: "common_prefix_len xs ys \<le> length ys"
  unfolding common_prefix_len_def by (rule le_trans [OF length_takeWhile_le]) simp

lemma room_ok_reconfigured:
  assumes ok: "room_ok r" and r: "reconfigure (lin r) through ix = Some (Inr L)" and k: "k \<le> lin_len L"
  shows "room_ok (r\<lparr> lin := L, finalized_len := k \<rparr>)" "room_ok (r\<lparr> lin := L \<rparr>)"
proof -
  note d = reconfigure_delivery [OF room_ok_delivery [OF ok] r]
  have "contains L n \<longleftrightarrow> contains (lin r) n" for n using d(2) by (auto simp: nodes_of_def)
  moreover have "lin_len L = lin_len (lin r)"
    using d(2) lin_len_card delivery_okD(1) [OF room_ok_delivery [OF ok]] delivery_okD(1) [OF d(1)] by metis
  ultimately show "room_ok (r\<lparr> lin := L, finalized_len := k \<rparr>)" "room_ok (r\<lparr> lin := L \<rparr>)"
    using ok d(1) k by (simp_all add: room_ok_def)
qed

text \<open>What a reconfiguration hands to \<open>advance\<close>.\<close>

definition refolded :: "('pe, 'p, 'st) projection \<Rightarrow> ('s, 'f, 'p) room \<Rightarrow> linearizer \<Rightarrow> node_id list \<Rightarrow> nat \<Rightarrow> ('s, 'f, 'p) room" where
  "refolded P r L after kept =
     (if kept < finalized_len r
      then r\<lparr> lin := L, finalized_proj := fold (fold_op P r) (take kept after) (genesis_proj r), finalized_len := kept \<rparr>
      else r\<lparr> lin := L \<rparr>)"

lemma room_reconfigure_cases:
  assumes ok: "room_ok r"
  obtains (refused) e where "reconfigure (lin r) through ix = Some (Inl e)"
      "room_reconfigure V r through ix = (Inl (ReconfigureError e), r)"
  | (changed) L before after kept r' where "reconfigure (lin r) through ix = Some (Inr L)" "finalized (lin r) = Some before"
      "finalized L = Some after" "kept = common_prefix_len before after"
      "room_ok (refolded (en_proj V) r L after kept)"
      "advance V (refolded (en_proj V) r L after kept) = (Inr (), r')" "room_ok r'"
      "room_reconfigure V r through ix = (Inr \<lparr> rc_kept = kept, rc_dropped = finalized_len r - kept \<rparr>, r')"
proof -
  note d = delivery_okD [OF room_ok_delivery [OF ok]]
  obtain fin where fin: "finalized (lin r) = Some fin" using order_ok [OF d(1,2)] by blast
  obtain res where res: "reconfigure (lin r) through ix = Some res" using reconfigure_returns [OF d(1,2)] by blast
  show ?thesis
  proof (cases res)
    case (Inl e)
    then show ?thesis using that(1) res fin by (simp add: room_reconfigure_def)
  next
    case (Inr L)
    note r = res [unfolded Inr]
    note dL = reconfigure_delivery [OF room_ok_delivery [OF ok] r]
    obtain after ord where a: "finalized L = Some after" "prefix after ord" "causal L ord"
      using order_ok [OF delivery_okD(1,2) [OF dL(1)]] by blast
    define kept where "kept = common_prefix_len fin after"
    have "length ord \<le> lin_len L"
      using a(3) lin_len_card [OF delivery_okD(1) [OF dL(1)]] distinct_card [of ord] card_mono [of "nodes_of L" "set ord"]
      by (simp add: causal_def)
    then have k: "kept \<le> lin_len L" using common_prefix_len_le [of fin after] prefix_length_le [OF a(2)] by (simp add: kept_def)
    let ?r = "refolded (en_proj V) r L after kept"
    have "room_ok (r\<lparr> lin := L, finalized_proj := z, finalized_len := kept \<rparr>) = room_ok (r\<lparr> lin := L, finalized_len := kept \<rparr>)" for z
      by (simp add: room_ok_def)
    then have okr: "room_ok ?r" using room_ok_reconfigured [OF ok r k] by (simp add: refolded_def)
    obtain r' where r': "advance V ?r = (Inr (), r')" "room_ok r'" using advance_ok [OF okr, of V] by auto
    have "room_reconfigure V r through ix = (Inr \<lparr> rc_kept = kept, rc_dropped = finalized_len r - kept \<rparr>, r')"
      using fin r a(1) r'(1) by (simp add: room_reconfigure_def Let_def kept_def [symmetric] refolded_def split: if_splits)
    then show ?thesis using that(2) r fin a(1) kept_def okr r' by blast
  qed
qed

lemma room_reconfigure_keeps:
  assumes "room_ok r" "room_reconfigure V r through ix = (x, r')"
  shows "room_ok r' \<and> never_stuck x"
  using room_reconfigure_cases [OF assms(1), of through ix V "room_ok r' \<and> never_stuck x"] assms by fastforce

lemma checkpoint_keeps:
  assumes ok: "room_ok r" and run: "checkpoint V r = (x, r')"
  shows "room_ok r' \<and> never_stuck x"
proof -
  obtain out where "order (lin r) = Some out" using order_ok [OF delivery_okD(1,2) [OF room_ok_delivery [OF ok]]] by blast
  then have "needs_checkpoint r \<noteq> None" by (auto simp: needs_checkpoint_def Let_def)
  then obtain b where b: "needs_checkpoint r = Some b" by blast
  show ?thesis
  proof (cases b)
    case True
    then have "local_append V r [] = (x, r')" using run b by (simp add: checkpoint_def)
    then show ?thesis by (rule local_append_keeps [OF ok])
  qed (use run b ok in \<open>auto simp: checkpoint_def\<close>)
qed

section \<open>Runs\<close>

text \<open>The steps of a room, whatever they return.\<close>

inductive room_step :: "('e, 's, 'oe, 'f, 'pe, 'p, 'st) room_env \<Rightarrow> ('s, 'f, 'p) room \<Rightarrow> ('s, 'f, 'p) room \<Rightarrow> bool" for V where
  Append: "local_append V r op = (x, r') \<Longrightarrow> room_step V r r'"
| Inbound: "on_inbound V r from msg = (x, r') \<Longrightarrow> room_step V r r'"
| Reconfigure: "room_reconfigure V r through ix = (x, r') \<Longrightarrow> room_step V r r'"
| Checkpoint: "checkpoint V r = (x, r') \<Longrightarrow> room_step V r r'"
| Poll: "poll_finalized r = (x, r') \<Longrightarrow> room_step V r r'"

inductive_cases room_stepE: "room_step V r r'"

lemma room_step_keeps: "room_step V r r' \<Longrightarrow> room_ok r \<Longrightarrow> room_ok r'"
  by (erule room_stepE)
    (auto simp: poll_finalized_def dest: local_append_keeps on_inbound_keeps room_reconfigure_keeps checkpoint_keeps)

lemma room_run_keeps: "(room_step V)\<^sup>*\<^sup>* r r' \<Longrightarrow> room_ok r \<Longrightarrow> room_ok r'"
  by (induction rule: rtranclp_induct) (auto dest: room_step_keeps)

end
