(* ===== verification/Kv_Projection.thy ===== *)
theory Kv_Projection
  imports Room_Invariant
begin

text \<open>
  What a room expects of a projection (\<open>projection.rs\<close>) and the two projections of \<open>testkit.rs\<close>: a key-value
  map folded from \<open>PUT\<close> and \<open>DEL\<close> ops, and a counter of mutations.
\<close>

section \<open>The contract of a projection\<close>

text \<open>
  \<open>apply\<close> depends on the snapshot, the node and the payload alone, a refused op leaves the snapshot as it
  was, and \<open>reset_to\<close> gives the checkpoint back.
\<close>

locale pure_projection =
  fixes P :: "('pe, 'p, 'st) projection"
  assumes snapshot_reset: "pj_snapshot P (pj_reset P p s) = s"
    and apply_pure: "pj_snapshot P p = pj_snapshot P q \<Longrightarrow>
      pj_snapshot P (snd (pj_apply P p n b)) = pj_snapshot P (snd (pj_apply P q n b))"
    and apply_refused: "pj_apply P p n b = (Inl e, p') \<Longrightarrow> pj_snapshot P p' = pj_snapshot P p"
begin

lemma fold_op_pure:
  assumes "pj_snapshot P p = pj_snapshot P q" "\<forall>n \<in> set ns. payload_of r n = payload_of r' n"
  shows "pj_snapshot P (fold (fold_op P r) ns p) = pj_snapshot P (fold (fold_op P r') ns q)"
  using assms
proof (induction ns arbitrary: p q)
  case (Cons n ns)
  have "pj_snapshot P (fold_op P r n p) = pj_snapshot P (fold_op P r' n q)"
    using Cons.prems apply_pure [OF Cons.prems(1)] by (simp add: fold_op_def)
  then show ?case using Cons by simp
qed simp

text \<open>Resetting to a checkpoint and folding on is folding on.\<close>

lemma fold_after_reset:
  "pj_snapshot P (fold (fold_op P r) ns (pj_reset P p (pj_snapshot P q))) = pj_snapshot P (fold (fold_op P r) ns q)"
  by (rule fold_op_pure) (simp_all add: snapshot_reset)

end

section \<open>The key-value projection\<close>

definition OP_PUT :: byte where "OP_PUT = 0"
definition OP_DEL :: byte where "OP_DEL = 1"

definition kv_put :: "bytes \<Rightarrow> bytes \<Rightarrow> bytes" where
  "kv_put k v = varint_write [OP_PUT] (word_of_nat (length k)) @ k @ v"

definition kv_del :: "bytes \<Rightarrow> bytes" where
  "kv_del k = [OP_DEL] @ k"

datatype kv_error = KvError

record kv_projection =
  kv_state :: "(bytes, bytes) btmap"

definition kv_apply :: "kv_projection \<Rightarrow> node_id \<Rightarrow> bytes \<Rightarrow> (kv_error, unit, kv_projection) outcome" where
  "kv_apply p n payload =
     (case payload of
        [] \<Rightarrow> (Inl KvError, p)
      | tag # rest \<Rightarrow>
          if tag = OP_PUT then
            (case varint_read rest of
               Inl _ \<Rightarrow> (Inl KvError, p)
             | Inr (klen, rest) \<Rightarrow>
                 if length rest < unat klen then (Inl KvError, p)
                 else (Inr (), p\<lparr> kv_state := bt_insert (take (unat klen) rest) (drop (unat klen) rest) (kv_state p) \<rparr>))
          else if tag = OP_DEL then (Inr (), p\<lparr> kv_state := bt_remove rest (kv_state p) \<rparr>)
          else (Inl KvError, p))"

definition kv_proj :: "(kv_error, kv_projection, (bytes, bytes) btmap) projection" where
  "kv_proj = \<lparr> pj_apply = kv_apply, pj_snapshot = kv_state, pj_reset = (\<lambda>p s. p\<lparr> kv_state := s \<rparr>) \<rparr>"

interpretation kv: pure_projection kv_proj
proof (unfold_locales, goal_cases)
  case (2 p q n b)
  then have "p = q" by (simp add: kv_proj_def)
  then show ?case by simp
next
  case (3 p n b e p')
  then show ?case
    by (auto simp: kv_proj_def kv_apply_def split: list.splits if_splits sum.splits prod.splits)
qed (simp add: kv_proj_def)

section \<open>The counter\<close>

text \<open>The count wraps in a release build.\<close>

datatype never = Never

definition counter_proj :: "(never, nat, nat) projection" where
  "counter_proj = \<lparr> pj_apply = (\<lambda>c n b. (Inr (), add64 c 1)), pj_snapshot = (\<lambda>c. c), pj_reset = (\<lambda>c s. s) \<rparr>"

interpretation counter: pure_projection counter_proj
  by unfold_locales (auto simp: counter_proj_def)

lemma kv_apply_ops:
  assumes "length k < 2 ^ 64"
  shows "kv_apply p n (kv_put k v) = (Inr (), p\<lparr> kv_state := bt_insert k v (kv_state p) \<rparr>)"
    "kv_apply p n (kv_del k) = (Inr (), p\<lparr> kv_state := bt_remove k (kv_state p) \<rparr>)"
proof -
  have "kv_put k v = OP_PUT # varint_write [] (word_of_nat (length k)) @ k @ v"
    unfolding kv_put_def by (subst varint_write_append) simp
  moreover have "unat (word_of_nat (length k) :: u64) = length k" using assms by (simp add: unsigned_of_nat take_bit_nat_eq_self)
  ultimately show "kv_apply p n (kv_put k v) = (Inr (), p\<lparr> kv_state := bt_insert k v (kv_state p) \<rparr>)"
    by (simp add: kv_apply_def varint_read_write)
  show "kv_apply p n (kv_del k) = (Inr (), p\<lparr> kv_state := bt_remove k (kv_state p) \<rparr>)"
    by (simp add: kv_apply_def kv_del_def OP_PUT_def OP_DEL_def)
qed

end
