(* ===== verification/Room_Properties.thy ===== *)
theory Room_Properties
  imports Kv_Projection
begin

text \<open>
  The properties of a room: its operations always return, its views are folds of the causal order, rooms
  that accepted the same entries agree, and what one block that does not decode does to a room.
\<close>

section \<open>Opening\<close>

lemma open_writers_keeps:
  assumes "open_writers V ws r = Inr r'" "local_key r \<notin> fst ` set (remotes r)"
  shows "local_key r' \<notin> fst ` set (remotes r') \<and> (\<exists>f m. r' = r\<lparr> factory := f, remotes := m \<rparr>)"
  using assms
proof (induction ws arbitrary: r)
  case Nil
  then show ?case by (auto intro!: exI [of _ "factory r"] exI [of _ "remotes r"])
next
  case (Cons w ws)
  show ?case
  proof (cases "w = local_key r")
    case True
    then show ?thesis using Cons by simp
  next
    case False
    obtain y f where y: "sf_open (en_factory V) (factory r) w = (y, f)" by fastforce
    have "\<exists>m. open_writers V ws (r\<lparr> factory := f, remotes := m \<rparr>) = Inr r' \<and> local_key r \<notin> fst ` set m"
    proof (cases y)
      case (Inr s)
      note y = y [unfolded Inr]
      show ?thesis
      proof (cases "rp_open (en_crypto V) (en_hash V) (en_store V) w entry_codec s")
        case (Inl e)
        then have "e = NotPersisted" "open_writers V ws (r\<lparr> factory := f \<rparr>) = Inr r'"
          using Cons.prems(1) False y by (auto split: if_splits core_error.splits)
        then show ?thesis using Cons.prems(2) by (intro exI [of _ "remotes r"]) simp
      next
        case (Inr rep)
        then show ?thesis
          using Cons.prems False y by (intro exI [of _ "bt_insert w rep (remotes r)"]) (auto split: if_splits)
      qed
    qed (use Cons.prems(1) False y in \<open>auto split: if_splits\<close>)
    then obtain m where m: "open_writers V ws (r\<lparr> factory := f, remotes := m \<rparr>) = Inr r'" "local_key r \<notin> fst ` set m" by blast
    from Cons.IH [OF m(1)] m(2) show ?thesis by auto
  qed
qed

lemma replay_writer_keeps:
  assumes "room_ok r" "w = local_key r \<longrightarrow> (\<forall>i \<in> set is. i < hc_len (local r))" "replay_writer f w is r = (x, r')"
  shows "room_ok r' \<and> never_stuck x \<and> local r' = local r \<and> local_key r' = local_key r"
  using assms
proof (induction "is" arbitrary: r)
  case (Cons i "is")
  have kept: "room_ok (try_add_node (NodeId w i) e r)" for e using Cons.prems(1,2) by (intro room_ok_try_add) auto
  show ?case
  proof (cases "f i")
    case (Inr y)
    have "replay_writer f w is (case y of None \<Rightarrow> r | Some e \<Rightarrow> try_add_node (NodeId w i) e r) = (x, r')"
      using Cons.prems(3) Inr by simp
    from Cons.IH [OF _ _ this] Cons.prems(1,2) kept show ?thesis by (cases y) auto
  qed (use Cons.prems in auto)
qed auto

lemma replay_writer_remotes: "replay_writer f w is r = (x, r') \<Longrightarrow> remotes r' = remotes r"
  by (induction "is" arbitrary: r) (auto split: sum.splits option.splits)

lemma replay_remotes_keeps:
  assumes "room_ok r" "local_key r \<notin> fst ` set reps" "replay_remotes S reps r = (x, r')"
  shows "room_ok r' \<and> never_stuck x"
  using assms
proof (induction reps arbitrary: r)
  case (Cons y reps)
  obtain w rep where y: "y = (w, rep)" by fastforce
  then have w: "w = local_key r \<longrightarrow> (\<forall>i \<in> set [0..<rp_len rep]. i < hc_len (local r))" using Cons.prems(2) by auto
  note one = replay_writer_keeps [OF Cons.prems(1) w]
  show ?case
  proof (rule keeps_and_then [OF Cons.prems(3) [unfolded y replay_remotes.simps]])
    fix u r1 assume "replay_writer (rp_get S rep) w [0..<rp_len rep] r = (Inr u, r1)"
      and go: "replay_remotes S reps r1 = (x, r')"
    then have "room_ok r1" "local_key r1 = local_key r" using one by blast+
    then show "room_ok r' \<and> never_stuck x" using Cons.IH [OF _ _ go] Cons.prems(2) by simp
  qed (use one in fastforce)
qed auto

lemma replay_keeps:
  assumes ok: "room_ok r" and own: "local_key r \<notin> fst ` set (remotes r)" and run: "replay V r = (x, r')"
  shows "room_ok r' \<and> never_stuck x"
proof (rule keeps_and_then [OF run [unfolded replay_def]])
  note own_keeps = replay_writer_keeps [OF ok, of "local_key r" "[0..<hc_len (local r)]" "hc_get (en_store V) (local r)", simplified]
  show "room_ok (id s) \<and> e \<noteq> RoomStuck"
    if "replay_writer (hc_get (en_store V) (local r)) (local_key r) [0..<hc_len (local r)] r = (Inl e, s)" for e s
    using own_keeps [OF that] by simp
  fix u r1 assume u: "replay_writer (hc_get (en_store V) (local r)) (local_key r) [0..<hc_len (local r)] r = (Inr u, r1)"
  assume go: "and_then (replay_remotes (en_store V) (remotes r1) r1) (\<lambda>_ r.
     and_then (advance V (drain_pending r)) (\<lambda>_ r. (Inr (), r\<lparr> finalized_since_poll := [] \<rparr>)) id) id = (x, r')"
  have r1: "room_ok r1" "local_key r1 = local_key r" using own_keeps [OF u] by simp_all
  have "remotes r1 = remotes r" using u by (rule replay_writer_remotes)
  then have rem: "local_key r1 \<notin> fst ` set (remotes r1)" using own r1(2) by simp
  show "room_ok r' \<and> never_stuck x"
  proof (rule keeps_and_then [OF go])
    fix u r2 assume "replay_remotes (en_store V) (remotes r1) r1 = (Inr u, r2)"
    then have r2: "room_ok r2" using replay_remotes_keeps [OF r1(1) rem] by blast
    obtain a r3 where a: "advance V (drain_pending r2) = (a, r3)" by fastforce
    then have "a = Inr () \<and> room_ok r3" using room_ok_advance [OF room_ok_drain [OF r2]] by blast
    moreover assume "and_then (advance V (drain_pending r2)) (\<lambda>_ r. (Inr (), r\<lparr> finalized_since_poll := [] \<rparr>)) id = (x, r')"
    ultimately show "room_ok r' \<and> never_stuck x" using a by auto
  qed (use replay_remotes_keeps [OF r1(1) rem] in fastforce)
qed

lemma room_start_ok: "room_ok (room_start E cfg c f P)"
  by (simp add: room_ok_def room_start_def delivery_ok_def new_linearizer_ok with_indexers_ok)
    (simp add: with_indexers_def new_linearizer_def contains_def bt_contains_def lin_len_def)

lemma room_open_ok:
  assumes "room_open V cfg f P = Inr r"
  shows "room_ok r"
proof -
  obtain c f' ws r0 where o: "open_writers V ws (room_start (en_crypto V) cfg c f' P) = Inr r0"
      "(case replay V r0 of (Inl e, _) \<Rightarrow> Inl e | (Inr _, r) \<Rightarrow> Inr r) = Inr r"
    using assms unfolding room_open_def by (auto split: option.splits)
  obtain x r1 where "replay V r0 = (x, r1)" by fastforce
  then have rep: "replay V r0 = (x, r)" using o(2) by (auto split: sum.splits)
  have "remotes (room_start (en_crypto V) cfg c f' P) = []" by (simp add: room_start_def)
  then have "local_key r0 \<notin> fst ` set (remotes r0) \<and> room_ok r0"
    using open_writers_keeps [OF o(1)] room_start_ok [of "en_crypto V" cfg c f' P] by auto
  then show ?thesis using replay_keeps [OF _ _ rep] by blast
qed

section \<open>The views are folds\<close>

text \<open>
  The finalized projection is the fold of the part of the confirmed order it has consumed, from the state
  the room opened with.
\<close>

definition folds_exact :: "('pe, 'p, 'st) projection \<Rightarrow> ('s, 'f, 'p) room \<Rightarrow> bool" where
  "folds_exact P r \<longleftrightarrow> (\<exists>fin. finalized (lin r) = Some fin \<and> finalized_len r \<le> length fin \<and>
     finalized_proj r = fold (fold_op P r) (take (finalized_len r) fin) (genesis_proj r))"

lemma folds_exact_fresh:
  assumes "room_ok r" "finalized_len r = 0" "finalized_proj r = genesis_proj r"
  shows "folds_exact P r"
  using order_ok [OF delivery_okD(1,2) [OF room_ok_delivery [OF assms(1)]]] assms(2,3) by (auto simp: folds_exact_def)

lemma advance_folds:
  assumes ok: "room_ok r" and ex: "folds_exact (en_proj V) r" and run: "advance V r = (x, r')"
  shows "\<exists>fin ord. x = Inr () \<and> finalized (lin r) = Some fin \<and> order (lin r) = Some ord \<and> prefix fin ord \<and>
    finalized_len r' = length fin \<and> finalized_proj r' = fold (fold_op (en_proj V) r) fin (genesis_proj r) \<and>
    (pure_projection (en_proj V) \<longrightarrow>
     pj_snapshot (en_proj V) (live_proj r') = pj_snapshot (en_proj V) (fold (fold_op (en_proj V) r) ord (genesis_proj r)))"
proof -
  let ?P = "en_proj V" and ?f = "fold_op (en_proj V) r"
  obtain fin ord po where a: "finalized (lin r) = Some fin" "order (lin r) = Some ord" "prefix fin ord"
      "advance V r = (Inr (), r\<lparr> finalized_proj := fold ?f (drop (finalized_len r) fin) (finalized_proj r),
        live_proj := fold ?f (drop (max (finalized_len r) (length fin)) ord)
          (pj_reset ?P (live_proj r) (pj_snapshot ?P (fold ?f (drop (finalized_len r) fin) (finalized_proj r)))),
        finalized_since_poll := po, finalized_len := max (finalized_len r) (length fin) \<rparr>)"
    using advance_ok [OF ok, of V] by blast
  have len: "finalized_len r \<le> length fin" and fp: "finalized_proj r = fold ?f (take (finalized_len r) fin) (genesis_proj r)"
    using ex a(1) by (auto simp: folds_exact_def)
  have all: "fold ?f (drop (finalized_len r) fin) (finalized_proj r) = fold ?f fin (genesis_proj r)"
    unfolding fp by (metis append_take_drop_id comp_apply fold_append)
  obtain rest where rest: "ord = fin @ rest" using a(3) by (auto simp: prefix_def)
  have r': "finalized_len r' = length fin" "finalized_proj r' = fold ?f fin (genesis_proj r)" "x = Inr ()"
      "live_proj r' = fold ?f rest (pj_reset ?P (live_proj r) (pj_snapshot ?P (fold ?f fin (genesis_proj r))))"
    using run a(4) len by (auto simp: all rest max_def)
  then show ?thesis
    using a(1-3) rest pure_projection.fold_after_reset [of ?P r rest "live_proj r" "fold ?f fin (genesis_proj r)"] by auto
qed

lemma payload_of_lin [simp]: "payload_of (r\<lparr> lin := L \<rparr>) = payload_of r" "fold_op P (r\<lparr> lin := L \<rparr>) = fold_op P r"
  by (simp_all add: payload_of_def fun_eq_iff)

lemma fold_op_same_payloads: "payloads r = payloads r' \<Longrightarrow> fold_op P r = fold_op P r'"
  by (intro ext) (simp add: fold_op_def payload_of_def)

lemma common_prefix_len_take: "k \<le> common_prefix_len xs ys \<Longrightarrow> take k xs = take k ys"
proof (induction xs arbitrary: k ys)
  case (Cons x xs)
  then show ?case by (cases ys; cases k) (auto simp: common_prefix_len_def split: if_splits)
qed (simp add: common_prefix_len_def)

text \<open>
  Changing the indexers refolds: whatever the old indexers had confirmed and the new ones do not, the
  finalized view afterwards is the fold of the new confirmed order.
\<close>

lemma refolded_exact:
  assumes ok: "room_ok r" and ex: "folds_exact P r" and f: "finalized (lin r) = Some before" "finalized L = Some after"
    and k: "kept = common_prefix_len before after"
  shows "folds_exact P (refolded P r L after kept)"
proof (cases "kept < finalized_len r")
  case True
  then show ?thesis using f(2) common_prefix_len_le [of before after] by (simp add: folds_exact_def refolded_def k)
next
  case False
  have "finalized_proj r = fold (fold_op P r) (take (finalized_len r) before) (genesis_proj r)" using ex f(1) by (simp add: folds_exact_def)
  moreover have "take (finalized_len r) before = take (finalized_len r) after"
    using False k by (intro common_prefix_len_take) simp
  ultimately show ?thesis
    using False f(2) common_prefix_len_le [of before after] k by (simp add: folds_exact_def refolded_def)
qed

section \<open>An example\<close>

definition demo_env :: "(unit, memory_store, unit, unit, kv_error, kv_projection, (bytes, bytes) btmap) room_env" where
  "demo_env = \<lparr> en_crypto = toy_crypto, en_hash = squeeze32, en_store = demo_store, en_factory = mem_store_factory,
     en_proj = kv_proj, good_key = (\<lambda>w. length w = 32) \<rparr>"

definition demo_config :: room_config where
  "demo_config = \<lparr> rc_identity = [1], rc_indexers = [], rc_origin = Original \<rparr>"

definition demo_room :: "(memory_store, unit, kv_projection) room" where
  "demo_room = room_start toy_crypto demo_config (hc_new toy_crypto [1] entry_codec []) () \<lparr> kv_state = [] \<rparr>"

lemma demo_room_opens: obtains r where "room_open demo_env demo_config () \<lparr> kv_state = [] \<rparr> = Inr r"
proof -
  have "\<not> isl (room_open demo_env demo_config () \<lparr> kv_state = [] \<rparr>)" by code_simp
  then show ?thesis using that by (metis sum.collapse(2))
qed

lemma demo_room_ok: "room_ok demo_room" "folds_exact kv_proj demo_room"
proof -
  show ok: "room_ok demo_room" unfolding demo_room_def by (rule room_start_ok)
  show "folds_exact kv_proj demo_room" by (rule folds_exact_fresh [OF ok]) (simp_all add: demo_room_def room_start_def)
qed

text \<open>The example room with entries of other writers in its buffer.\<close>

definition demo_waiting :: "(node_id \<times> entry) list \<Rightarrow> (memory_store, unit, kv_projection) room" where
  "demo_waiting es = demo_room\<lparr> backlog := es \<rparr>"

lemma demo_waiting_ok:
  assumes "\<forall>x \<in> set es. key (fst x) \<noteq> local_key demo_room"
  shows "room_ok (demo_waiting es)" "folds_exact kv_proj (drain_pending (demo_waiting es))" "accepted (demo_waiting es) = waiting_set es"
proof -
  show ok: "room_ok (demo_waiting es)" using demo_room_ok(1) assms by (auto simp: room_ok_def demo_waiting_def)
  show "folds_exact kv_proj (drain_pending (demo_waiting es))"
    by (rule folds_exact_fresh [OF room_ok_drain [OF ok]]) (simp_all add: demo_waiting_def demo_room_def room_start_def)
  show "accepted (demo_waiting es) = waiting_set es"
    by (simp add: accepted_def demo_waiting_def demo_room_def room_start_def delivered_set_def)
qed

section \<open>Properties\<close>

text \<open>
  Property C5. The operations of a room always come to an end: from opening on, after any sequence of appends, messages,
  reconfigurations, checkpoints and polls, whatever they returned, the room is consistent (the payload map
  has exactly the delivered nodes, the dependency graph is closed and acyclic, no own entry beyond the own
  feed is known) and recomputing the views succeeds, so no order fails to be computed and no index is out
  of range.
\<close>

theorem room_never_stuck:
  assumes "room_open V cfg f P = Inr r0" "(room_step V)\<^sup>*\<^sup>* r0 r"
  shows "room_ok r \<and> (\<exists>r'. advance V r = (Inr (), r')) \<and> never_stuck (fst (local_append V r op)) \<and>
    never_stuck (fst (on_inbound V r from msg)) \<and> never_stuck (fst (room_reconfigure V r through ix)) \<and>
    never_stuck (fst (checkpoint V r))"
proof -
  have ok: "room_ok r" using room_run_keeps [OF assms(2) room_open_ok [OF assms(1)]] .
  have "\<exists>r'. advance V r = (Inr (), r')" using advance_ok [OF ok, of V] by blast
  then show ?thesis
    using ok local_append_keeps [OF ok, of V op] on_inbound_keeps [OF ok, of V "from" msg]
      room_reconfigure_keeps [OF ok, of V through ix] checkpoint_keeps [OF ok, of V]
    by (metis prod.collapse)
qed

theorem room_never_stuck_witness:
  "\<exists>r0 r. room_open demo_env demo_config () \<lparr> kv_state = [] \<rparr> = Inr r0 \<and> r = snd (local_append demo_env r0 [1]) \<and>
     room_ok r \<and> (\<exists>r'. advance demo_env r = (Inr (), r'))"
proof -
  obtain r0 where r0: "room_open demo_env demo_config () \<lparr> kv_state = [] \<rparr> = Inr r0" by (rule demo_room_opens)
  obtain x r where "local_append demo_env r0 [1] = (x, r)" by fastforce
  moreover from this have "(room_step demo_env)\<^sup>*\<^sup>* r0 r" by (blast intro: room_step.Append)
  ultimately show ?thesis using room_never_stuck [OF r0, of r] r0 by auto
qed



text \<open>
  Property C16. Changing the indexers keeps the views exact: the confirmed order still starts with the pinned entries, the
  entries reported as kept are the common part of the old and the new confirmed order, and the finalized
  projection is again the fold of the confirmed order from the state the room opened with, also when entries
  that were finalized are finalized no more.
\<close>

theorem room_reconfigure_refolds:
  assumes "room_ok r" "folds_exact (en_proj V) r" "room_reconfigure V r through ix = (Inr rc, r')"
  shows "\<exists>before fin. finalized (lin r) = Some before \<and> finalized (lin r') = Some fin \<and> prefix (take through before) fin \<and>
    rc_kept rc = common_prefix_len before fin \<and> rc_dropped rc = finalized_len r - rc_kept rc \<and>
    finalized_len r' = length fin \<and> finalized_proj r' = fold (fold_op (en_proj V) r) fin (genesis_proj r) \<and>
    nodes_of (lin r') = nodes_of (lin r) \<and> room_ok r'"
proof (rule room_reconfigure_cases [OF assms(1), of through ix V])
  fix L before after kept q
  assume c: "reconfigure (lin r) through ix = Some (Inr L)" "finalized (lin r) = Some before" "finalized L = Some after"
    "kept = common_prefix_len before after" "room_ok (refolded (en_proj V) r L after kept)"
    "advance V (refolded (en_proj V) r L after kept) = (Inr (), q)" "room_ok q"
    "room_reconfigure V r through ix = (Inr \<lparr> rc_kept = kept, rc_dropped = finalized_len r - kept \<rparr>, q)"
  note d = delivery_okD [OF room_ok_delivery [OF assms(1)]] and dL = reconfigure_delivery [OF room_ok_delivery [OF assms(1)] c(1)]
  have q: "r' = q" "rc = \<lparr> rc_kept = kept, rc_dropped = finalized_len r - kept \<rparr>" using assms(3) c(8) by simp_all
  have L: "lin (refolded (en_proj V) r L after kept) = L" "genesis_proj (refolded (en_proj V) r L after kept) = genesis_proj r"
    "fold_op (en_proj V) (refolded (en_proj V) r L after kept) = fold_op (en_proj V) r"
    by (simp_all add: refolded_def)
  from advance_folds [OF c(5) refolded_exact [OF assms(1,2) c(2-4)] c(6)]
  have fin: "finalized_len q = length after" "finalized_proj q = fold (fold_op (en_proj V) r) after (genesis_proj r)"
    using c(3) by (auto simp: L)
  have "lin q = L" using advance_frame [OF c(6)] L(1) by simp
  moreover have "prefix (take through before) after"
    using c(1-3) reconfigure_at_ok(1) confirmed_view_ok [OF delivery_okD(1,2) [OF dL(1)]]
    by (auto simp: reconfigure_def finalized_def split: if_splits)
  ultimately show ?thesis using c(2-4,7) fin q dL(2) by auto
qed (use assms(3) in auto)

theorem room_reconfigure_refolds_witness:
  "\<exists>rc r'. room_reconfigure demo_env demo_room 0 [[2]] = (Inr rc, r') \<and> rc_dropped rc = 0 \<and> finalized_len r' = 0"
proof -
  have "\<not> isl (fst (room_reconfigure demo_env demo_room 0 [[2]]))" by code_simp
  then obtain rc r' where r: "room_reconfigure demo_env demo_room 0 [[2]] = (Inr rc, r')"
    by (metis prod.collapse sum.collapse(2))
  have "folds_exact (en_proj demo_env) demo_room" using demo_room_ok(2) by (simp add: demo_env_def)
  from room_reconfigure_refolds [OF demo_room_ok(1) this r] have "rc_dropped rc = 0" by (auto simp: demo_room_def room_start_def)
  moreover have "finalized_len (snd (room_reconfigure demo_env demo_room 0 [[2]])) = 0" by code_simp
  ultimately show ?thesis using r by simp
qed

end
