(* ===== verification/Room_Sync.thy ===== *)
theory Room_Sync
  imports Room_Properties
begin

text \<open>
  Rooms and the logs below them: an appended entry reaches a peer, a checkpoint settles, and a signed block
  that is not an entry keeps a room from being opened again.
\<close>

section \<open>Replaying a block that does not decode\<close>

context byte_store
begin

lemma rp_get_undecodable:
  assumes inv: "rp_inv E H ok content r cs" and i: "i < length cs" and dec: "decode (rp_codec r) (cs ! i) = Inl e"
  shows "isl (rp_get S r i)"
proof (cases "st_get S (rp_store r) i")
  case (Inr x)
  have "ok (rp_store r)" "content (rp_store r) i = Some (cs ! i)" using inv i by (auto simp: rp_inv_def)
  then have "x = Some (cs ! i)" using get_law [OF _ Inr] by simp
  then show ?thesis using Inr i dec rp_inv_len [OF inv] by (simp add: rp_get_def)
qed (use i rp_inv_len [OF inv] in \<open>simp add: rp_get_def\<close>)

end

lemma replay_writer_isl: "i \<in> set is \<Longrightarrow> isl (f i) \<Longrightarrow> isl (fst (replay_writer f w is r))"
  by (induction "is" arbitrary: r) (auto split: sum.split)

lemma fst_and_then_isl: "isl (fst m) \<Longrightarrow> isl (fst (and_then m f fail))"
  by (cases "(m, f, fail)" rule: and_then.cases) auto

lemma replay_remotes_isl:
  assumes "(w, rep) \<in> set reps" "i < rp_len rep" "isl (rp_get S rep i)"
  shows "isl (fst (replay_remotes S reps r :: (('e, 'oe) room_error, unit, ('s, 'f, 'p) room) outcome))"
  using assms
proof (induction reps arbitrary: r)
  case (Cons y reps)
  obtain w' rep' where y: "y = (w', rep')" by fastforce
  let ?m = "replay_writer (rp_get S rep') w' [0..<rp_len rep'] r :: (('e, 'oe) room_error, unit, ('s, 'f, 'p) room) outcome"
  show ?case
  proof (cases "rep' = rep")
    case True
    then have "isl (fst ?m)" using Cons.prems(2,3) by (intro replay_writer_isl [of i]) auto
    then show ?thesis unfolding y replay_remotes.simps by (rule fst_and_then_isl)
  next
    case False
    then show ?thesis using Cons y by (cases ?m; cases "fst ?m") auto
  qed
qed simp

lemma replay_isl:
  fixes V :: "('e, 's, 'oe, 'f, 'pe, 'p, 'st) room_env"
  assumes "bt_get (remotes r) w = Some rep" "i < rp_len rep" "isl (rp_get (en_store V) rep i)"
  shows "isl (fst (replay V r))"
proof -
  obtain x r1 where x: "(replay_writer (hc_get (en_store V) (local r)) (local_key r) [0..<hc_len (local r)] r
      :: (('e, 'oe) room_error, unit, ('s, 'f, 'p) room) outcome) = (x, r1)" by fastforce
  have "(w, rep) \<in> set (remotes r1)" using assms(1) replay_writer_remotes [OF x] by (simp add: map_of_SomeD)
  then have "isl (fst (replay_remotes (en_store V) (remotes r1) r1 :: (('e, 'oe) room_error, unit, ('s, 'f, 'p) room) outcome))"
    using assms(2,3) by (rule replay_remotes_isl)
  then show ?thesis using x by (cases x) (auto simp: replay_def fst_and_then_isl)
qed

lemma rp_open_no_storage_error:
  assumes "\<And>k. \<exists>x. st_get S s k = Inr x"
  shows "rp_open E H S pk cd s \<noteq> Inl (Storage e)"
proof -
  obtain a b where "st_get S s KEY_TREE = Inr a" "st_get S s KEY_META = Inr b" using assms by metis
  then show ?thesis by (auto simp: rp_open_def Let_def split: option.splits if_splits)
qed

lemma rp_open_codec:
  assumes "rp_open E H S pk cd s = Inr r"
  shows "rp_codec r = cd"
proof -
  obtain a b where ab: "st_get S s KEY_TREE = Inr a" "st_get S s KEY_META = Inr b"
    using assms by (cases "st_get S s KEY_TREE"; cases "st_get S s KEY_META") (auto simp: rp_open_def)
  then show ?thesis using assms by (auto simp: rp_open_def Let_def split: option.splits if_splits)
qed

section \<open>Taking a block\<close>

context total_store
begin

lemma rp_persist_total:
  assumes "ok (rp_store r)" "fits (serialize (rp_tree r))" "fits (encode_replica_meta (rp_head r))"
  shows "\<exists>s. rp_persist S r = (Inr (), r\<lparr> rp_store := s \<rparr>)"
proof -
  have k: "KEY_TREE < 2 ^ 64" "KEY_META < 2 ^ 64" by (simp_all add: KEY_TREE_def KEY_META_def)
  obtain s1 where s1: "st_put S (rp_store r) KEY_TREE (serialize (rp_tree r)) = (Inr (), s1)" using put_total [OF assms(1) k(1) assms(2)] by blast
  then have "ok s1" using put_law [OF assms(1) k(1) assms(2)] by blast
  then obtain s2 where "st_put S s1 KEY_META (encode_replica_meta (rp_head r)) = (Inr (), s2)" using put_total [OF _ k(2) assms(3)] by blast
  then show ?thesis using s1 by (auto simp: rp_persist_def map_fst_def)
qed

end

text \<open>A block that verifies, offered to a room whose replica of the writer is just before it.\<close>

lemma ingest_accepts:
  fixes V :: "('e, 's, 'oe, 'f, 'pe, 'p, 'st) room_env"
  assumes st: "total_store (en_store V) ok content fits" "\<forall>b. fits b" and rep: "bt_get (remotes q) w = Some rep"
    and inv: "rp_inv (en_crypto V) (en_hash V) ok content rep cs" and len: "length cs < KEY_USERDATA"
    and v: "verify_block (en_crypto V) (en_hash V) (rp_public rep) h (length cs) bs p"
  obtains rep' where
    "ingest_remote_block V q w h (length cs) bs p =
       (case decode entry_codec bs of
          Inl e \<Rightarrow> (Inl (EntryError e), set_replica w q rep')
        | Inr e \<Rightarrow> (Inr True, touch (try_add_node (NodeId w (length cs)) e (set_replica w q rep'))))"
    "rp_inv (en_crypto V) (en_hash V) ok content rep' (cs @ [bs])" "rp_public rep' = rp_public rep" "rp_codec rep' = rp_codec rep"
    "rp_head rep' = (if Suc (length cs) = sh_length h \<and> root_of (en_hash V) (cs @ [bs]) = sh_root h then Some h else rp_head rep)"
    "content (rp_store rep') KEY_TREE = Some (serialize (rp_tree rep'))"
    "content (rp_store rep') KEY_META = Some (encode_replica_meta (rp_head rep'))"
proof -
  let ?E = "en_crypto V" and ?H = "en_hash V" and ?S = "en_store V"
  have k: "log_keys (Suc (length cs))" using len by (simp add: log_keys_def)
  have bs: "byte_store ?S ok content fits" using st(1) by (rule total_store.axioms)
  obtain r1 where r1: "rp_add_block ?E ?H ?S rep h (length cs) bs p = (Inr True, r1)"
    using total_store.rp_add_block_total [OF st(1) inv k _ v] st(2) by blast
  note a = byte_store.rp_add_block_ok [OF bs inv k _ r1]
  have a: "rp_inv ?E ?H ok content r1 (cs @ [bs])" "rp_public r1 = rp_public rep" "rp_codec r1 = rp_codec rep"
      "rp_head r1 = (if Suc (length cs) = sh_length h \<and> root_of ?H (cs @ [bs]) = sh_root h then Some h else rp_head rep)"
    using a st(2) by auto
  have "ok (rp_store r1)" using a(1) by (simp add: rp_inv_def)
  then obtain s where s: "rp_persist ?S r1 = (Inr (), r1\<lparr> rp_store := s \<rparr>)" using total_store.rp_persist_total [OF st(1)] st(2) by blast
  have "log_keys (length (cs @ [bs]))" using k by simp
  from byte_store.rp_persist_ok [OF bs a(1) this _ _ s] st(2) obtain s' where s':
      "r1\<lparr> rp_store := s \<rparr> = r1\<lparr> rp_store := s' \<rparr>" "ok s'" "content s' KEY_TREE = Some (serialize (rp_tree r1))"
      "content s' KEY_META = Some (encode_replica_meta (rp_head r1))" "\<forall>i < length (cs @ [bs]). content s' i = Some ((cs @ [bs]) ! i)"
    by blast
  have ss: "s' = s" using s'(1) by (metis replica.select_convs(3) replica.simps(9) replica.surjective replica.update_convs(3))
  show ?thesis
  proof (rule that [of "r1\<lparr> rp_store := s \<rparr>"])
    show "ingest_remote_block V q w h (length cs) bs p =
       (case decode entry_codec bs of
          Inl e \<Rightarrow> (Inl (EntryError e), set_replica w q (r1\<lparr> rp_store := s \<rparr>))
        | Inr e \<Rightarrow> (Inr True, touch (try_add_node (NodeId w (length cs)) e (set_replica w q (r1\<lparr> rp_store := s \<rparr>)))))"
      using rep r1 s by (simp add: ingest_remote_block_def replica_of_def map_fst_def)
    show "rp_inv ?E ?H ok content (r1\<lparr> rp_store := s \<rparr>) (cs @ [bs])" using a(1) s'(2,5) unfolding ss rp_inv_def by auto
  qed (use a s'(3,4) ss in auto)
qed

section \<open>Appending\<close>

text \<open>The steps of an append that succeeds.\<close>

lemma local_append_Inr:
  fixes V :: "('e, 's, 'oe, 'f, 'pe, 'p, 'st) room_env"
  assumes ok: "room_ok r" and run: "local_append V r op = (Inr out, r')"
  obtains j c1 c L where "own_recovery r = None"
    "0 < hc_len (local r) \<longrightarrow> contains (lin r) (NodeId (local_key r) (hc_len (local r) - 1))"
    "hc_append (en_crypto V) (en_hash V) (en_store V) (local r) \<lparr> ent_heads = heads (lin r), ent_payload = op \<rparr> = (Inr j, c1)"
    "hc_persist (en_store V) c1 = (Inr (), c)" "add (lin r) (NodeId (local_key r) (hc_len (local r))) (heads (lin r)) = Inr L"
    "lin r' = L" "local r' = c" "local_key r' = local_key r" "own_recovery r' = None"
    "payloads r' = bt_insert (NodeId (local_key r) (hc_len (local r))) op (payloads r)"
    "new_entry_messages (en_store V) r' (hc_len (local r)) = (Inr out :: (('e, 'oe) room_error, outbound list) result)"
    "remotes r' = remotes r" "backlog r' = backlog r" "genesis_proj r' = genesis_proj r"
    "advance V (touch (r\<lparr> local := c, lin := L, payloads := bt_insert (NodeId (local_key r) (hc_len (local r))) op (payloads r) \<rparr>)) = (Inr (), r')"
proof -
  have g: "(own_recovery r \<noteq> None) = False"
      "(0 < hc_len (local r) \<and> \<not> contains (lin r) (NodeId (local_key r) (hc_len (local r) - 1))) = False"
    using run by (auto simp: local_append_def Let_def split: if_splits)
  then obtain L where L: "add (lin r) (NodeId (local_key r) (hc_len (local r))) (heads (lin r)) = Inr L" using own_add [OF ok] by blast
  let ?n = "NodeId (local_key r) (hc_len (local r))"
  note run = run [unfolded local_append_def Let_def g if_False]
  from run obtain j c1 where c1: "map_fst CoreError (hc_append (en_crypto V) (en_hash V) (en_store V) (local r)
      \<lparr> ent_heads = heads (lin r), ent_payload = op \<rparr>) = ((Inr j, c1) :: (('e, 'oe) room_error, _, _) outcome)"
    unfolding and_then_Inr_iff by blast
  note run = run [unfolded c1 and_then.simps]
  from run obtain u c where c: "map_fst CoreError (hc_persist (en_store V) c1) = ((Inr u, c) :: (('e, 'oe) room_error, _, _) outcome)"
    unfolding and_then_Inr_iff by blast
  have u: "u = ()" by simp
  note c = c [unfolded u]
  note run = run [unfolded c and_then.simps]
  have rest: "and_then (advance V (touch (r\<lparr> local := c, lin := L, payloads := bt_insert ?n op (payloads r) \<rparr>)))
      (\<lambda>_ r1. (new_entry_messages (en_store V) r1 (hc_len (local r)), r1)) id = (Inr out, r')"
    using run L by simp
  note c = c1 [unfolded map_fst_Inr] c [unfolded map_fst_Inr]
  from rest obtain r1 where a: "advance V (touch (r\<lparr> local := c, lin := L, payloads := bt_insert (NodeId (local_key r) (hc_len (local r))) op (payloads r) \<rparr>)) = (Inr (), r')"
    "new_entry_messages (en_store V) r' (hc_len (local r)) = (Inr out :: (('e, 'oe) room_error, outbound list) result)"
    by auto
  have "own_recovery r = None" using g(1) by blast
  then have "own_recovery r' = None" using advance_frame [OF a(1)] by (simp add: touch_def)
  then show ?thesis using that [OF _ _ c L] g advance_frame [OF a(1)] a by (auto simp: touch_def)
qed

lemma mem_heads: "dag_ok L \<Longrightarrow> m \<in> set (heads L) \<longleftrightarrow> contains L m \<and> (\<forall>c. m \<notin> dep_of L c)"
proof -
  assume ok: "dag_ok L"
  have "m \<in> set (map fst (deps L)) \<longleftrightarrow> contains L m" by (auto simp: contains_def bt_contains_iff)
  then show ?thesis
    using dag_ok_dependents [OF ok, of m] by (auto simp: heads_def split: option.splits)
qed

text \<open>An entry that references every head is the only head.\<close>

lemma heads_after_add:
  assumes ok: "dag_ok L" and add: "add L n (heads L) = Inr L'"
  shows "heads L' = [n]"
proof -
  note eff = add_effect [OF add] and dd = add_deps_delivered [OF ok add]
  have ok': "dag_ok L'" using add_ok [OF ok add] .
  have "set (heads L') = {n}"
  proof (intro equalityI subsetI)
    fix m assume "m \<in> set (heads L')"
    then have m: "contains L' m" "\<forall>c. m \<notin> dep_of L' c" using mem_heads [OF ok'] by auto
    show "m \<in> {n}"
    proof (rule ccontr)
      assume "m \<notin> {n}"
      then have "contains L m" "m \<notin> dep_set n (heads L)" using m(1) spec [OF m(2), of n] by (auto simp: eff(1,2))
      moreover have "m \<notin> dep_of L c" for c using m(2) dd(1) by (cases "c = n") (auto simp: eff(2) dest: dep_of_contains split: if_splits)
      ultimately show False using mem_heads [OF ok, of m] \<open>m \<notin> {n}\<close> by (auto simp: dep_set_def)
    qed
  next
    fix m assume "m \<in> {n}"
    then show "m \<in> set (heads L')" using mem_heads [OF ok', of n] dd(3,4) by (auto simp: eff(1,2) split: if_splits)
  qed
  moreover have "distinct (heads L')"
    using bt_inv_distinct [OF dag_okD(1) [OF ok']] by (simp add: heads_def)
  ultimately have "length (heads L') = 1" using distinct_card [of "heads L'"] by simp
  then show ?thesis using \<open>set (heads L') = {n}\<close> by (auto simp: length_Suc_conv)
qed

text \<open>Appending on a backend that works.\<close>

lemma new_entry_messages_ok:
  fixes V :: "('e, 's, 'oe, 'f, 'pe, 'p, 'st) room_env"
  assumes st: "total_store (en_store V) ok content fits" and inv: "core_inv (en_crypto V) (en_hash V) ok content (local r) (bs @ [b])"
    and has: "hc_has (local r) (length bs)" and sz: "2 * Suc (length bs) < 2 ^ 64"
  shows "\<exists>h p. new_entry_messages (en_store V) r (length bs) = (Inr [\<lparr> ob_msg = Head (local_key r) h, ob_to = Gossip \<rparr>,
      \<lparr> ob_msg = Block (local_key r) h (length bs) b p, ob_to = Clients \<rparr>] :: (('e, 'oe) room_error, outbound list) result) \<and>
    head_for (en_crypto V) (en_hash V) (public (local r)) h (bs @ [b]) \<and>
    verify_block (en_crypto V) (en_hash V) (public (local r)) h (length bs) b p"
proof -
  let ?E = "en_crypto V" and ?H = "en_hash V" and ?S = "en_store V"
  have t: "tree_ok ?H (bs @ [b]) (hc_tree (local r))" "ok (hc_store (local r))" using inv by (simp_all add: core_inv_def)
  obtain h where h: "head (local r) = Some h" "head_for ?E ?H (public (local r)) h (bs @ [b])"
    using core_inv_nonempty [OF inv] core_inv_head [OF inv] by auto
  have "content (hc_store (local r)) (length bs) = Some b" using inv has by (auto simp: core_inv_def hc_has_def)
  moreover obtain x where "st_get ?S (hc_store (local r)) (length bs) = Inr x" using total_store.get_total [OF st t(2)] by blast
  moreover from this have "x = content (hc_store (local r)) (length bs)"
    using byte_store.get_law [OF total_store.axioms(1) [OF st] t(2)] by blast
  ultimately have blk: "hc_block ?S (local r) (length bs) = Inr (Some b)" using has by (simp add: hc_block_def)
  obtain p where p: "proof_of (hc_tree (local r)) (length bs) = Some (Some p)" "block p = length bs"
      "verify_proof ?H p ((bs @ [b]) ! length bs) (root_of ?H (bs @ [b]))"
    using proof_of_ok [OF t(1), of "length bs"] sz by auto
  then have "verify_block ?E ?H (public (local r)) h (length bs) b p" using h(2) by (simp add: verify_block_def head_for_def)
  then show ?thesis using h blk p(1) by (intro exI [of _ h] exI [of _ p]) (simp add: new_entry_messages_def hc_proof_def)
qed

lemma local_append_total:
  fixes V :: "('e, 's, 'oe, 'f, 'pe, 'p, 'st) room_env"
  assumes st: "total_store (en_store V) ok content fits" "\<forall>b. fits b" and E: "sig_correct (en_crypto V)"
    and ok: "room_ok r" and g: "own_recovery r = None"
      "0 < hc_len (local r) \<longrightarrow> contains (lin r) (NodeId (local_key r) (hc_len (local r) - 1))"
    and inv: "core_inv (en_crypto V) (en_hash V) ok content (local r) bs"
    and cod: "hc_codec (local r) = entry_codec" "public (local r) = local_key r"
    and sz: "Suc (length bs) < KEY_USERDATA" "2 * Suc (length bs) < 2 ^ 64"
    and b: "b = encode entry_codec \<lparr> ent_heads = heads (lin r), ent_payload = op \<rparr>"
  shows "\<exists>h p r'. local_append V r op = (Inr [\<lparr> ob_msg = Head (local_key r) h, ob_to = Gossip \<rparr>,
        \<lparr> ob_msg = Block (local_key r) h (length bs) b p, ob_to = Clients \<rparr>], r') \<and>
    contains (lin r') (NodeId (local_key r) (length bs)) \<and> core_inv (en_crypto V) (en_hash V) ok content (local r') (bs @ [b]) \<and>
    head_for (en_crypto V) (en_hash V) (local_key r) h (bs @ [b]) \<and>
    verify_block (en_crypto V) (en_hash V) (local_key r) h (length bs) b p"
proof -
  let ?E = "en_crypto V" and ?H = "en_hash V" and ?S = "en_store V" and ?e = "\<lparr> ent_heads = heads (lin r), ent_payload = op \<rparr>"
  have B: "byte_store ?S ok content fits" using st(1) by (rule total_store.axioms)
  have len: "hc_len (local r) = length bs" using core_inv_len [OF inv] by (simp add: hc_len_def)
  let ?n = "NodeId (local_key r) (length bs)"
  have k: "log_keys (Suc (length bs))" using sz(1) by (simp add: log_keys_def)
  obtain c1 where c1: "hc_append ?E ?H ?S (local r) ?e = (Inr (length bs), c1)"
    using total_store.hc_append_total [OF st(1) inv k] st(2) by blast
  have a: "core_inv ?E ?H ok content c1 (bs @ [b])" "hc_has c1 (length bs)" "same_writer (local r) c1"
    using byte_store.hc_append_ok [OF B inv E k _ c1] st(2) cod(1) b by auto
  obtain c where c: "hc_persist ?S c1 = (Inr (), c)" using total_store.hc_persist_total [OF st(1) a(1)] st(2) by blast
  have k2: "log_keys (length (bs @ [b]))" using k by simp
  have inv2: "core_inv ?E ?H ok content c (bs @ [b])" "c = c1\<lparr> hc_store := hc_store c \<rparr>"
    using byte_store.hc_persist_ok [OF B a(1) k2 _ _ _ c] st(2) by auto
  have has: "hc_has c (length bs)" "public c = local_key r"
    using a(2,3) cod(2) by (subst inv2(2), simp add: hc_has_def, subst inv2(2), simp add: same_writer_def)
  obtain L where L: "add (lin r) ?n (heads (lin r)) = Inr L" using own_add [OF ok g(2)] len by auto
  let ?r = "r\<lparr> local := c, lin := L, payloads := bt_insert ?n op (payloads r) \<rparr>"
  have "hc_len c = Suc (hc_len (local r))" using core_inv_len [OF inv2(1)] len by (simp add: hc_len_def)
  then have "room_ok (touch ?r)" using room_ok_appended [OF ok, of "heads (lin r)" L c op] L len by simp
  then obtain r' where r': "advance V (touch ?r) = (Inr (), r')" using advance_ok [of "touch ?r" V] by blast
  note fr = advance_frame [OF r', unfolded touch_def, simplified]
  obtain h p where m: "new_entry_messages ?S r' (length bs) = (Inr [\<lparr> ob_msg = Head (local_key r') h, ob_to = Gossip \<rparr>,
      \<lparr> ob_msg = Block (local_key r') h (length bs) b p, ob_to = Clients \<rparr>] :: (('e, 'oe) room_error, outbound list) result)"
    "head_for ?E ?H (public (local r')) h (bs @ [b])" "verify_block ?E ?H (public (local r')) h (length bs) b p"
    using new_entry_messages_ok [OF st(1), of r' bs b] inv2(1) has(1) sz(2) fr by blast
  have guard: "(0 < hc_len (local r) \<and> \<not> contains (lin r) (NodeId (local_key r) (hc_len (local r) - 1))) = False" using g(2) by blast
  have "local_append V r op = (new_entry_messages ?S r' (length bs), r')"
    unfolding local_append_def Let_def g(1) guard using c1 c L r' len by (simp add: map_fst_def)
  moreover have "contains L ?n" using add_effect(1) [OF L] by simp
  ultimately show ?thesis using m inv2(1) has(2) fr by auto
qed

text \<open>A peer takes the block of a writer it follows.\<close>

lemma peer_takes_block:
  fixes V :: "('e, 's, 'oe, 'f, 'pe, 'p, 'st) room_env"
  assumes st: "total_store (en_store V) ok content fits" "\<forall>b. fits b" and ok: "room_ok q" and w: "local_key q \<noteq> w"
    and rep: "bt_get (remotes q) w = Some rep" "rp_inv (en_crypto V) (en_hash V) ok content rep bs" "rp_public rep = w"
    and sz: "length bs < KEY_USERDATA" and h: "head_for (en_crypto V) (en_hash V) w h (bs @ [b])"
    and v: "verify_block (en_crypto V) (en_hash V) w h (length bs) b p" and dec: "decode entry_codec b = Inr e"
    and new: "\<not> contains (lin q) (NodeId w (length bs))"
  shows "\<exists>q' rep'. on_inbound V q from (Block w h (length bs) b p) =
      (Inr [\<lparr> ob_msg = Block w h (length bs) b p, ob_to = Clients \<rparr>], q') \<and>
    bt_get (remotes q') w = Some rep' \<and> rp_inv (en_crypto V) (en_hash V) ok content rep' (bs @ [b]) \<and> rp_head rep' = Some h \<and>
    (full_deps (NodeId w (length bs)) e \<subseteq> nodes_of (lin q) \<longrightarrow>
     contains (lin q') (NodeId w (length bs)) \<and> room_payload q' (NodeId w (length bs)) = Some (ent_payload e))"
proof -
  let ?n = "NodeId w (length bs)"
  obtain rep' where r': "ingest_remote_block V q w h (length bs) b p =
       (case decode entry_codec b of
          Inl e \<Rightarrow> (Inl (EntryError e), set_replica w q rep')
        | Inr e \<Rightarrow> (Inr True, touch (try_add_node ?n e (set_replica w q rep'))))"
    and inv: "rp_inv (en_crypto V) (en_hash V) ok content rep' (bs @ [b])" and hd: "rp_head rep' = Some h"
    by (rule ingest_accepts [OF st rep(1,2) sz, of h b p]) (use rep(3) h v in \<open>auto simp: head_for_def\<close>)
  define q1 where "q1 = touch (try_add_node ?n e (set_replica w q rep'))"
  have ok1: "room_ok q1" using room_ok_try_add [of "set_replica w q rep'" ?n e] ok w by (simp add: q1_def)
  obtain q' where q': "advance V (drain_pending q1) = (Inr (), q')" using advance_ok [OF room_ok_drain [OF ok1], of V] by blast
  note fr = advance_frame [OF q']
  have run: "on_inbound V q from (Block w h (length bs) b p) = (Inr [\<lparr> ob_msg = Block w h (length bs) b p, ob_to = Clients \<rparr>], q')"
    using r' dec w q' by (simp add: on_inbound_def q1_def)
  have "bt_get (remotes q') w = Some rep'" using fr by (simp add: q1_def touch_def set_replica_def)
  moreover have "contains (lin q') ?n \<and> room_payload q' ?n = Some (ent_payload e)" if deps: "full_deps ?n e \<subseteq> nodes_of (lin q)"
  proof -
    have lin: "lin (set_replica w q rep') = lin q" "payloads (set_replica w q rep') = payloads q" by (simp_all add: set_replica_def)
    obtain L where L: "add (lin q) ?n (ent_heads e) = Inr L"
      using add_succeeds [OF delivery_okD(1) [OF room_ok_delivery [OF ok]] new deps] by blast
    then have "lin q1 = L" "payloads q1 = bt_insert ?n (ent_payload e) (payloads q)"
      by (simp_all add: q1_def touch_def try_add_node_def lin)
    then have "(?n, full_deps ?n e, ent_payload e) \<in> delivered_set (lin q1) (payloads q1)"
      using deliver_one(2) [OF room_ok_delivery [OF ok] L] by simp
    then have "(?n, full_deps ?n e, ent_payload e) \<in> delivered_set (lin (drain_pending q1)) (payloads (drain_pending q1))"
      using drain_pending_delivered [OF room_ok_delivery [OF ok1]] by blast
    then show ?thesis using fr by (simp add: mem_delivered_set room_payload_def)
  qed
  ultimately show ?thesis using run inv hd by blast
qed

section \<open>Properties\<close>

text \<open>
  Property C35. One signed block that is not an entry keeps a room from being opened again: the block is accepted by the
  writer's replica and made durable before it is decoded, the message then fails with the codec error and
  nothing is delivered; the replica that the persisted state gives back holds the block, and replaying any
  room that has this replica fails.
\<close>

theorem undecodable_block_blocks_reopen:
  assumes "total_store (en_store V) ok content fits" "\<forall>b. fits b" "w \<noteq> local_key r" "bt_get (remotes r) w = Some rep"
    and "rp_inv (en_crypto V) (en_hash V) ok content rep cs" "rp_public rep = w" "length cs < KEY_USERDATA"
    and "head_for (en_crypto V) (en_hash V) w h (cs @ [bs])" "wf_head h"
    and "verify_block (en_crypto V) (en_hash V) w h (length cs) bs p"
    and "decode entry_codec bs = Inl e" "hash32 (en_hash V)" "sized (cs @ [bs])"
  shows "\<exists>r' rep' rep''. on_inbound V r from (Block w h (length cs) bs p) = (Inl (EntryError e), r') \<and>
    lin r' = lin r \<and> backlog r' = backlog r \<and> bt_get (remotes r') w = Some rep' \<and>
    rp_open (en_crypto V) (en_hash V) (en_store V) w entry_codec (rp_store rep') = Inr rep'' \<and> rp_len rep'' = Suc (length cs) \<and>
    (\<forall>q. bt_get (remotes q) w = Some rep'' \<longrightarrow> isl (fst (replay V q)))"
proof -
  let ?E = "en_crypto V" and ?H = "en_hash V" and ?S = "en_store V"
  have b: "byte_store ?S ok content fits" using assms(1) by (rule total_store.axioms)
  obtain rep' where rep': "ingest_remote_block V r w h (length cs) bs p =
       (case decode entry_codec bs of
          Inl e \<Rightarrow> (Inl (EntryError e), set_replica w r rep')
        | Inr e \<Rightarrow> (Inr True, touch (try_add_node (NodeId w (length cs)) e (set_replica w r rep'))))"
    and inv: "rp_inv ?E ?H ok content rep' (cs @ [bs])" "rp_public rep' = w" and hd: "rp_head rep' = Some h"
    and st: "content (rp_store rep') KEY_TREE = Some (serialize (rp_tree rep'))"
      "content (rp_store rep') KEY_META = Some (encode_replica_meta (rp_head rep'))"
    by (rule ingest_accepts [OF assms(1,2,4,5,7), of h bs p]) (use assms(6,8,10) in \<open>auto simp: head_for_def\<close>)
  have st': "ok (rp_store rep')" "\<forall>i < length (cs @ [bs]). content (rp_store rep') i = Some ((cs @ [bs]) ! i)"
    using inv(1) by (simp_all add: rp_inv_def)
  have wf: "\<forall>h'. rp_head rep' = Some h' \<longrightarrow> wf_head h'" using hd assms(9) by simp
  have open_cases: "(\<exists>se. rp_open ?E ?H ?S (rp_public rep') entry_codec (rp_store rep') = Inl (Storage se)) \<or>
      (\<exists>r'. rp_open ?E ?H ?S (rp_public rep') entry_codec (rp_store rep') = Inr r' \<and> rp_head r' = rp_head rep' \<and>
        rp_inv ?E ?H ok content r' (case rp_head rep' of Some h \<Rightarrow> take (sh_length h) (cs @ [bs]) | None \<Rightarrow> cs @ [bs]))"
    using byte_store.rp_open_ok [OF b inv(1) assms(12,13) wf st'(1) st st'(2) refl] .
  have "sh_length h = Suc (length cs)" using assms(8) by (simp add: head_for_def)
  moreover have "rp_open ?E ?H ?S w entry_codec (rp_store rep') \<noteq> Inl (Storage se)" for se
    using total_store.get_total [OF assms(1) st'(1)] by (rule rp_open_no_storage_error)
  ultimately obtain rep'' where rep'': "rp_open ?E ?H ?S w entry_codec (rp_store rep') = Inr rep''" "rp_inv ?E ?H ok content rep'' (cs @ [bs])"
    using open_cases hd inv(2) by auto
  have "rp_codec rep'' = entry_codec" using rep''(1) by (rule rp_open_codec)
  then have "isl (rp_get ?S rep'' (length cs))"
    using byte_store.rp_get_undecodable [OF b rep''(2), of "length cs" e] assms(11) by simp
  then have "isl (fst (replay V q))" if "bt_get (remotes q) w = Some rep''" for q
    using that rp_inv_len [OF rep''(2)] by (intro replay_isl [where i = "length cs"]) (simp_all add: rp_len_def)
  moreover have "on_inbound V r from (Block w h (length cs) bs p) = (Inl (EntryError e), set_replica w r rep')"
    using rep' assms(3,11) by (simp add: on_inbound_def)
  ultimately show ?thesis using rep'' rp_inv_len [OF rep''(2)] by (auto simp: set_replica_def rp_len_def)
qed

text \<open>A room of the second identity that follows the log of the first and has none of its blocks yet.\<close>

definition demo_follower :: "bytes list \<Rightarrow> (memory_store, unit, kv_projection) room" where
  "demo_follower cs =
     (room_start toy_crypto \<lparr> rc_identity = [2], rc_indexers = [], rc_origin = Original \<rparr> (hc_new toy_crypto [2] entry_codec []) ()
        \<lparr> kv_state = [] \<rparr>)
     \<lparr> remotes := [(public_of toy_crypto [1],
        \<lparr> rp_public = public_of toy_crypto [1], rp_codec = entry_codec, rp_store = map (\<lambda>i. (i, cs ! i)) [0..<length cs],
          rp_tree = tree_of squeeze32 cs, rp_head = None \<rparr>)] \<rparr>"

theorem undecodable_block_blocks_reopen_witness:
  "let p = the (the (proof_of (tree_of squeeze32 [[]]) 0)); w = public_of toy_crypto [1]
   in decode entry_codec [] = Inl Eof \<and>
      (\<exists>r' rep' rep''. on_inbound demo_env (demo_follower []) [9] (Block w (demo_head 0 [[]]) 0 [] p) = (Inl (EntryError Eof), r') \<and>
         bt_get (remotes r') w = Some rep' \<and>
         rp_open toy_crypto squeeze32 demo_store w entry_codec (rp_store rep') = Inr rep'' \<and>
         (\<forall>q. bt_get (remotes q) w = Some rep'' \<longrightarrow> isl (fst (replay demo_env q))))"
proof -
  let ?w = "public_of toy_crypto [1]" and ?h = "demo_head 0 [[]]" and ?r = "demo_follower []"
  define p where "p = the (the (proof_of (tree_of squeeze32 [[]]) 0))"
  define rep :: "(entry, memory_store) replica" where "rep = \<lparr> rp_public = ?w, rp_codec = entry_codec, rp_store = [], rp_tree = tree_of squeeze32 [], rp_head = None \<rparr>"
  have env: "en_crypto demo_env = toy_crypto" "en_hash demo_env = squeeze32" "en_store demo_env = demo_store" by (simp_all add: demo_env_def)
  have w: "?w \<noteq> local_key ?r" by code_simp
  have rep: "bt_get (remotes ?r) ?w = Some rep" by (simp add: demo_follower_def rep_def)
  have inv: "rp_inv toy_crypto squeeze32 bt_inv bt_get rep []" by (simp add: rp_inv_def rep_def tree_of_ok)
  have pk: "rp_public rep = ?w" by (simp add: rep_def)
  have h: "head_for toy_crypto squeeze32 ?w ?h ([] @ [[]])" "wf_head ?h" using demo_head_for(1,2) [of 0 "[[]]"] by simp_all
  obtain q where "proof_of (tree_of squeeze32 [[]]) 0 = Some (Some q)" "block q = 0" "verify_proof squeeze32 q [] (root_of squeeze32 [[]])"
    using proof_of_ok [OF tree_of_ok, of 0 "[[]]" squeeze32] by auto
  then have v: "verify_block toy_crypto squeeze32 ?w ?h (length ([] :: bytes list)) [] p"
    using h(1) by (simp add: verify_block_def head_for_def p_def)
  have dec: "decode entry_codec [] = Inl Eof" by code_simp
  have "length ([] :: bytes list) < KEY_USERDATA" by (simp add: KEY_USERDATA_def)
  moreover have "sized ([] @ [[]])" by (simp add: sized_def)
  ultimately show ?thesis
    using undecodable_block_blocks_reopen [of demo_env bt_inv bt_get "\<lambda>_. True", unfolded env,
        OF demo.total_store_axioms _ w rep inv pk _ h v dec hash32_squeeze32, of "[9]"] dec
    by (simp add: Let_def p_def [symmetric]) blast
qed

text \<open>
  Property C19. Checkpoints settle: after a checkpoint the room asks for no other one, so polling with the confirmation
  stalled does not add one checkpoint after the other. The appended entry references every head and is the only head afterwards.
\<close>

theorem checkpoint_settles:
  assumes "room_ok r" "checkpoint V r = (Inr out, r')"
  shows "needs_checkpoint r' = Some False \<and> checkpoint V r' = (Inr [], r') \<and>
    (out \<noteq> [] \<longrightarrow> heads (lin r') = [NodeId (local_key r) (hc_len (local r))])"
proof -
  obtain b where b: "needs_checkpoint r = Some b" using assms(2) by (auto simp: checkpoint_def split: option.splits)
  show ?thesis
  proof (cases b)
    case True
    then have run: "local_append V r [] = (Inr out, r')" using assms(2) b by (simp add: checkpoint_def)
    obtain j c1 c L where s: "hc_append (en_crypto V) (en_hash V) (en_store V) (local r) \<lparr> ent_heads = heads (lin r), ent_payload = [] \<rparr> = (Inr j, c1)"
      "hc_persist (en_store V) c1 = (Inr (), c)" "add (lin r) (NodeId (local_key r) (hc_len (local r))) (heads (lin r)) = Inr L"
      "lin r' = L" "local r' = c" "local_key r' = local_key r"
      by (rule local_append_Inr [OF assms(1) run])
    have "hc_len c1 = Suc (hc_len (local r))"
      using s(1) by (auto simp: hc_append_def Let_def core_put_Inr resign_and_Inr resign_def hc_len_def append_def split: option.splits)
    then have len: "hc_len (local r') = Suc (hc_len (local r))" using hc_persist_len [OF s(2)] s(5) by (auto simp: hc_len_def)
    have h: "heads (lin r') = [NodeId (local_key r) (hc_len (local r))]"
      using heads_after_add [OF delivery_okD(1) [OF room_ok_delivery [OF assms(1)]] s(3)] s(4) by simp
    then have "needs_checkpoint r' = Some False" using len s(6) by (simp add: needs_checkpoint_def)
    then show ?thesis using h by (simp add: checkpoint_def)
  next
    case False
    then show ?thesis using assms(2) b by (auto simp: checkpoint_def)
  qed
qed

theorem checkpoint_settles_witness:
  "\<exists>out r'. checkpoint demo_env demo_room = (Inr out, r') \<and> needs_checkpoint r' = Some False"
proof -
  have "\<not> isl (fst (checkpoint demo_env demo_room))" by code_simp
  then obtain out r' where r: "checkpoint demo_env demo_room = (Inr out, r')" by (metis prod.collapse sum.collapse(2))
  from checkpoint_settles [OF demo_room_ok(1) r] r show ?thesis by simp
qed

text \<open>
  Property C10. An appended entry reaches the peers: on a backend that works and takes every value, appending succeeds and
  advertises the new head and the new block; a peer room that follows the writer and holds its earlier blocks
  takes the block message, holds the extended log with the new head as its verified head, passes the block on
  to its clients, and delivers the entry with its payload as soon as what it references is delivered there.
\<close>

theorem append_reaches_peer:
  assumes "total_store (en_store V) ok content fits" "\<forall>b. fits b" "sig_correct (en_crypto V)"
    and "room_ok r" "own_recovery r = None" "0 < hc_len (local r) \<longrightarrow> contains (lin r) (NodeId (local_key r) (hc_len (local r) - 1))"
    and "core_inv (en_crypto V) (en_hash V) ok content (local r) bs" "hc_codec (local r) = entry_codec" "public (local r) = local_key r"
    and "Suc (length bs) < KEY_USERDATA" "2 * Suc (length bs) < 2 ^ 64"
    and "decode entry_codec (encode entry_codec e) = Inr e" "e = \<lparr> ent_heads = heads (lin r), ent_payload = op \<rparr>"
    and "room_ok q" "local_key q \<noteq> local_key r" "bt_get (remotes q) (local_key r) = Some rep"
    and "rp_inv (en_crypto V) (en_hash V) ok content rep bs" "rp_public rep = local_key r"
    and "n = NodeId (local_key r) (length bs)" "\<not> contains (lin q) n"
  shows "\<exists>h p r' q' rep'. local_append V r op = (Inr [\<lparr> ob_msg = Head (local_key r) h, ob_to = Gossip \<rparr>,
        \<lparr> ob_msg = Block (local_key r) h (length bs) (encode entry_codec e) p, ob_to = Clients \<rparr>], r') \<and>
    contains (lin r') n \<and> core_inv (en_crypto V) (en_hash V) ok content (local r') (bs @ [encode entry_codec e]) \<and>
    on_inbound V q from (Block (local_key r) h (length bs) (encode entry_codec e) p) =
      (Inr [\<lparr> ob_msg = Block (local_key r) h (length bs) (encode entry_codec e) p, ob_to = Clients \<rparr>], q') \<and>
    bt_get (remotes q') (local_key r) = Some rep' \<and>
    rp_inv (en_crypto V) (en_hash V) ok content rep' (bs @ [encode entry_codec e]) \<and> rp_head rep' = Some h \<and>
    (full_deps n e \<subseteq> nodes_of (lin q) \<longrightarrow> contains (lin q') n \<and> room_payload q' n = Some op)"
proof -
  obtain h p r' where a: "local_append V r op = (Inr [\<lparr> ob_msg = Head (local_key r) h, ob_to = Gossip \<rparr>,
        \<lparr> ob_msg = Block (local_key r) h (length bs) (encode entry_codec e) p, ob_to = Clients \<rparr>], r')"
      "contains (lin r') (NodeId (local_key r) (length bs))"
      "core_inv (en_crypto V) (en_hash V) ok content (local r') (bs @ [encode entry_codec e])"
      "head_for (en_crypto V) (en_hash V) (local_key r) h (bs @ [encode entry_codec e])"
      "verify_block (en_crypto V) (en_hash V) (local_key r) h (length bs) (encode entry_codec e) p"
    using local_append_total [OF assms(1-11), of "encode entry_codec e" op] assms(13) by blast
  have "length bs < KEY_USERDATA" using assms(10) by simp
  from peer_takes_block [OF assms(1,2,14-18) this a(4,5) assms(12), of "from"] assms(13,19,20) a(1-3)
  show ?thesis by auto
qed

theorem append_reaches_peer_witness:
  "\<exists>h p r' q'. local_append demo_env demo_room (kv_put [1] [2]) = (Inr [\<lparr> ob_msg = Head (local_key demo_room) h, ob_to = Gossip \<rparr>,
        \<lparr> ob_msg = Block (local_key demo_room) h 0 (encode entry_codec \<lparr> ent_heads = [], ent_payload = kv_put [1] [2] \<rparr>) p, ob_to = Clients \<rparr>], r') \<and>
     on_inbound demo_env (demo_follower []) [9]
       (Block (local_key demo_room) h 0 (encode entry_codec \<lparr> ent_heads = [], ent_payload = kv_put [1] [2] \<rparr>) p) =
       (Inr [\<lparr> ob_msg = Block (local_key demo_room) h 0 (encode entry_codec \<lparr> ent_heads = [], ent_payload = kv_put [1] [2] \<rparr>) p,
              ob_to = Clients \<rparr>], q') \<and>
     room_payload q' (NodeId (local_key demo_room) 0) = Some (kv_put [1] [2])"
proof -
  let ?r = demo_room and ?q = "demo_follower []" and ?w = "public_of toy_crypto [1]"
  define e where "e = \<lparr> ent_heads = heads (lin ?r), ent_payload = kv_put [1] [2] \<rparr>"
  define rep :: "(entry, memory_store) replica" where
    "rep = \<lparr> rp_public = ?w, rp_codec = entry_codec, rp_store = [], rp_tree = tree_of squeeze32 [], rp_head = None \<rparr>"
  have env: "en_crypto demo_env = toy_crypto" "en_hash demo_env = squeeze32" "en_store demo_env = demo_store" by (simp_all add: demo_env_def)
  have key: "local_key ?r = ?w" "own_recovery ?r = None" "hc_codec (local ?r) = entry_codec" "public (local ?r) = local_key ?r" "hc_len (local ?r) = 0"
    by (simp_all add: demo_room_def room_start_def demo_config_def hc_new_def hc_len_def tree_ok_len [OF tree_ok_empty])
  have he: "heads (lin ?r) = []" by (simp add: demo_room_def room_start_def demo_config_def new_linearizer_def heads_def)
  have inv: "core_inv toy_crypto squeeze32 bt_inv bt_get (local ?r) []"
    using core_inv_new [of bt_inv "[]" toy_crypto squeeze32 bt_get "[1]" entry_codec] by (simp add: demo_room_def room_start_def)
  have dec: "decode entry_codec (encode entry_codec e) = Inr e" unfolding e_def he by code_simp
  have okq: "room_ok ?q" unfolding demo_follower_def using room_start_ok by simp
  have w: "local_key ?q \<noteq> local_key ?r" by code_simp
  have rep: "bt_get (remotes ?q) (local_key ?r) = Some rep" by (simp add: demo_follower_def rep_def key)
  have rinv: "rp_inv toy_crypto squeeze32 bt_inv bt_get rep []" by (simp add: rp_inv_def rep_def tree_of_ok)
  have pk: "rp_public rep = local_key ?r" by (simp add: rep_def key)
  have new: "\<not> contains (lin ?q) (NodeId (local_key ?r) 0)"
    by (simp add: demo_follower_def room_start_def new_linearizer_def contains_def bt_contains_def)
  have sz: "Suc (length ([] :: bytes list)) < KEY_USERDATA" "2 * Suc (length ([] :: bytes list)) < 2 ^ 64" by (simp_all add: KEY_USERDATA_def)
  have len: "0 < hc_len (local ?r) \<longrightarrow> contains (lin ?r) (NodeId (local_key ?r) (hc_len (local ?r) - 1))" using key(5) by simp
  have fits: "\<forall>b :: bytes. True" by simp
  have node: "NodeId (local_key ?r) 0 = NodeId (local_key ?r) (length ([] :: bytes list))" by simp
  from append_reaches_peer [of demo_env bt_inv bt_get "\<lambda>_. True", unfolded env, OF demo.total_store_axioms fits sig_correct_toy
      demo_room_ok(1) key(2) len inv key(3,4) sz dec e_def okq w rep rinv pk node new, of "[9]"]
  show ?thesis by (auto simp: e_def he full_deps_def)
qed

end
