(* ===== verification/Disk_Factory.thy ===== *)
theory Disk_Factory
  imports Room_Sync Log_Store
begin

text \<open>
  The durable store factories of crate \<open>roomnet\<close> (\<open>store.rs\<close>): \<open>DiskStoreFactory\<close>, one log-structured store per
  writer in a directory, the file names it gives the writers, and \<open>CachedFactory\<close>, which mirrors the stores
  of any other factory into such a directory. The directory of the operating system is a parameter.
\<close>

section \<open>File names of writers\<close>

text \<open>A file name as the bytes of its UTF-8 text.\<close>

definition hex_digit :: "nat \<Rightarrow> byte" where
  "hex_digit d = word_of_nat (if d < 10 then 48 + d else 87 + d)"

definition hex :: "bytes \<Rightarrow> bytes" where
  "hex ks = concat (map (\<lambda>b. [hex_digit (unat b div 16), hex_digit (unat b mod 16)]) ks)"

definition digit_value :: "byte \<Rightarrow> nat option" where
  "digit_value c =
     (let n = unat c
      in if 48 \<le> n \<and> n \<le> 57 then Some (n - 48)
         else if 97 \<le> n \<and> n \<le> 102 then Some (n - 87)
         else if 65 \<le> n \<and> n \<le> 70 then Some (n - 55) else None)"

text \<open>\<open>u8::from_str_radix(_, 16)\<close> on two bytes: a leading plus sign is allowed.\<close>

definition from_radix16 :: "byte \<Rightarrow> byte \<Rightarrow> byte option" where
  "from_radix16 a b =
     (if a = 43 then map_option word_of_nat (digit_value b)
      else Option.bind (digit_value a) (\<lambda>x. map_option (\<lambda>y. word_of_nat (16 * x + y)) (digit_value b)))"

definition char_boundary :: "bytes \<Rightarrow> nat \<Rightarrow> bool" where
  "char_boundary s i \<longleftrightarrow> i = 0 \<or> i = length s \<or> (i < length s \<and> s ! i AND 0xC0 \<noteq> 0x80)"

text \<open>The outer \<open>None\<close> is the panic of slicing inside a character.\<close>

fun unhex_loop :: "bytes \<Rightarrow> nat list \<Rightarrow> bytes option option" where
  "unhex_loop s [] = Some (Some [])"
| "unhex_loop s (i # is) =
     (if \<not> char_boundary s (2 * i) \<or> \<not> char_boundary s (2 * i + 2) then None
      else case from_radix16 (s ! (2 * i)) (s ! (2 * i + 1)) of
             None \<Rightarrow> Some None
           | Some b \<Rightarrow> map_option (map_option (Cons b)) (unhex_loop s is))"

definition unhex :: "bytes \<Rightarrow> bytes option option" where
  "unhex s = (if length s \<noteq> 64 then Some None else unhex_loop s [0..<32])"

text \<open>\<open>known_writers\<close> of the disk factory, given the names in its directory.\<close>

fun known_writers :: "bytes list \<Rightarrow> bytes list option" where
  "known_writers [] = Some []"
| "known_writers (name # names) =
     (case unhex name of
        None \<Rightarrow> None
      | Some None \<Rightarrow> known_writers names
      | Some (Some w) \<Rightarrow> map_option (Cons w) (known_writers names))"

section \<open>The factories\<close>

text \<open>
  A directory: opening a file by name, creating it when absent, and listing the names that are valid UTF-8;
  a directory that cannot be read lists nothing.
\<close>

record ('e, 'h, 'd) directory =
  fd_open :: "'d \<Rightarrow> bytes \<Rightarrow> ('e, 'h, 'd) outcome"
  fd_names :: "'d \<Rightarrow> bytes list"

text \<open>\<open>LogStore::open(StdFile::open(dir.join(hex(writer)))?)\<close>; the result has the directory as it is then.\<close>

definition disk_open :: "('e, 'h, 'd) directory \<Rightarrow> ('e, 'h) file_ops \<Rightarrow> 'd \<Rightarrow> bytes \<Rightarrow> ('e, 'h log_store, 'd) outcome" where
  "disk_open D F d w =
     and_then (fd_open D d (hex w)) (\<lambda>h d.
       case open_log F h of (Inl e, _) \<Rightarrow> (Inl e, d) | (Inr s, _) \<Rightarrow> (Inr s, d)) id"

definition disk_factory :: "('e, 'h, 'd) directory \<Rightarrow> ('e, 'h) file_ops \<Rightarrow> ('e, 'h log_store, 'd) store_factory" where
  "disk_factory D F = \<lparr> sf_open = disk_open D F, sf_writers = (\<lambda>d. known_writers (fd_names D d)) \<rparr>"

datatype ('oe, 'e) cached_open_error = InnerError 'oe | CacheError 'e

definition cached_open :: "('oe, 's, 'f) store_factory \<Rightarrow> ('e, 'h, 'd) directory \<Rightarrow> ('e, 'h) file_ops \<Rightarrow> 'f \<times> 'd \<Rightarrow> bytes \<Rightarrow>
    (('oe, 'e) cached_open_error, ('s, 'h log_store) tee, 'f \<times> 'd) outcome" where
  "cached_open G D F = (\<lambda>(f, d) w.
     and_then (map_fst InnerError (sf_open G f w)) (\<lambda>prim f.
       and_then (map_fst CacheError (disk_open D F d w)) (\<lambda>c d.
         (Inr \<lparr> primary = prim, cache = c \<rparr>, (f, d))) (Pair f)) (\<lambda>f. (f, d)))"

definition cached_writers :: "('oe, 's, 'f) store_factory \<Rightarrow> ('e, 'h, 'd) directory \<Rightarrow> 'f \<times> 'd \<Rightarrow> bytes list option" where
  "cached_writers G D = (\<lambda>(f, d).
     Option.bind (sf_writers G f) (\<lambda>ws.
       map_option (\<lambda>cs. fold bs_insert cs (bs_collect ws)) (known_writers (fd_names D d))))"

definition cached_factory :: "('oe, 's, 'f) store_factory \<Rightarrow> ('e, 'h, 'd) directory \<Rightarrow> ('e, 'h) file_ops \<Rightarrow>
    (('oe, 'e) cached_open_error, ('s, 'h log_store) tee, 'f \<times> 'd) store_factory" where
  "cached_factory G D F = \<lparr> sf_open = cached_open G D F, sf_writers = cached_writers G D \<rparr>"

section \<open>Lemmas\<close>

lemma hex_digit_facts:
  assumes "d < 16"
  shows "digit_value (hex_digit d) = Some d" "hex_digit d \<noteq> 43" "hex_digit d AND 0xC0 \<noteq> 0x80"
proof -
  have "d \<in> set [0..<16]" using assms by simp
  moreover have "\<forall>d \<in> set [0..<16]. digit_value (hex_digit d) = Some d \<and> hex_digit d \<noteq> 43 \<and> hex_digit d AND 0xC0 \<noteq> 0x80"
    by code_simp
  ultimately show "digit_value (hex_digit d) = Some d" "hex_digit d \<noteq> 43" "hex_digit d AND 0xC0 \<noteq> 0x80" by blast+
qed

lemma byte_div_mod: "unat (b :: byte) div 16 < 16" "unat b mod 16 < 16" "(word_of_nat (16 * (unat b div 16) + unat b mod 16) :: byte) = b"
proof -
  have "unat b < 256" using unsigned_less [of b] by simp
  then show "unat b div 16 < 16" by (simp add: less_mult_imp_div_less)
  show "(word_of_nat (16 * (unat b div 16) + unat b mod 16) :: byte) = b" unfolding mult_div_mod_eq by simp
qed simp

lemma hex_nth:
  "i < length k \<Longrightarrow> hex k ! (2 * i) = hex_digit (unat (k ! i) div 16) \<and> hex k ! Suc (2 * i) = hex_digit (unat (k ! i) mod 16)"
proof (induction k arbitrary: i)
  case (Cons b k)
  then show ?case by (cases i) (simp_all add: hex_def)
qed simp

lemma hex_length: "length (hex k) = 2 * length k"
  by (induction k) (simp_all add: hex_def)

lemma char_boundary_hex:
  assumes "i \<le> length k"
  shows "char_boundary (hex k) (2 * i)"
proof (cases "i = length k")
  case False
  then have "i < length k" using assms by simp
  then have "hex k ! (2 * i) AND 0xC0 \<noteq> 0x80" using hex_nth hex_digit_facts(3) byte_div_mod(1) by metis
  then show ?thesis using \<open>i < length k\<close> by (simp add: char_boundary_def hex_length)
qed (simp add: char_boundary_def hex_length)

lemma unhex_loop_hex:
  "\<forall>i \<in> set is. i < length k \<Longrightarrow> unhex_loop (hex k) is = Some (Some (map (\<lambda>i. k ! i) is))"
proof (induction "is")
  case (Cons i "is")
  then have i: "i < length k" by simp
  have b: "char_boundary (hex k) (2 * i)" "char_boundary (hex k) (2 * Suc i)" using i by (intro char_boundary_hex; simp)+
  have "from_radix16 (hex k ! (2 * i)) (hex k ! Suc (2 * i)) = Some (k ! i)"
    using hex_nth [OF i] hex_digit_facts(1,2) byte_div_mod [of "k ! i"] by (simp add: from_radix16_def del: of_nat_add of_nat_mult)
  then show ?case using Cons b by simp
qed simp

lemma known_writers_hex: "list_all (\<lambda>k. length k = 32) ks \<Longrightarrow> known_writers (map hex ks) = Some ks"
proof (induction ks)
  case (Cons k ks)
  then have "unhex (hex k) = Some (Some (map (\<lambda>i. k ! i) [0..<length k]))" by (simp add: unhex_def hex_length unhex_loop_hex)
  then show ?case using Cons by (simp add: map_nth)
qed simp

lemma known_writers_None: "\<lbrakk>unhex name = None; name \<in> set names\<rbrakk> \<Longrightarrow> known_writers names = None"
  by (induction names) (auto split: option.splits)

section \<open>An example\<close>

text \<open>A directory held in memory.\<close>

definition mem_dir :: "(fault, bytes, (bytes \<times> bytes) list) directory" where
  "mem_dir = \<lparr> fd_open = (\<lambda>d n. case map_of d n of Some h \<Rightarrow> (Inr h, d) | None \<Rightarrow> (Inr [], d @ [(n, [])])), fd_names = map fst \<rparr>"

definition disk_env :: "(fault, bytes log_store, fault, (bytes \<times> bytes) list, kv_error, kv_projection, (bytes, bytes) btmap) room_env" where
  "disk_env = \<lparr> en_crypto = toy_crypto, en_hash = squeeze32, en_store = log_ops mem_file, en_factory = disk_factory mem_dir mem_file,
     en_proj = kv_proj, good_key = (\<lambda>w. length w = 32) \<rparr>"

definition stray_name :: bytes where
  "stray_name = [0x61, 0xC3, 0xA9] @ replicate 61 0x61"

section \<open>Properties\<close>

text \<open>
  Property C36. A stray file can keep a room from opening: with a file in the directory whose name has 64 bytes and whose third
  byte lies inside a character, listing the writers panics, and the room cannot be opened although its own log
  can.
\<close>

theorem stray_file_name_blocks_open:
  assumes "en_factory V = disk_factory D F" "open_local V (rc_identity cfg) d = Inr (c, d')"
    and "name \<in> set (fd_names D d')" "length name = 64" "name ! 2 AND 0xC0 = 0x80"
  shows "room_open V cfg d P = Inl RoomPanic"
proof -
  have "[0..<32 :: nat] = 0 # [Suc 0..<32]" by (rule upt_conv_Cons) simp
  then have "unhex name = None" using assms(4,5) by (simp add: unhex_def char_boundary_def numeral_2_eq_2)
  then have "known_writers (fd_names D d') = None" using assms(3) by (rule known_writers_None)
  then show ?thesis using assms(1,2) by (simp add: room_open_def disk_factory_def)
qed

theorem stray_file_name_blocks_open_witness: "room_open disk_env demo_config [(stray_name, [])] \<lparr> kv_state = [] \<rparr> = Inl RoomPanic"
proof -
  have "case open_local disk_env (rc_identity demo_config) [(stray_name, [])] of
      Inl _ \<Rightarrow> False | Inr (c, d') \<Rightarrow> stray_name \<in> set (fd_names mem_dir d')"
    by code_simp
  then obtain c d' where o: "open_local disk_env (rc_identity demo_config) [(stray_name, [])] = Inr (c, d')" "stray_name \<in> set (fd_names mem_dir d')"
    by (auto split: sum.splits)
  show ?thesis
    by (rule stray_file_name_blocks_open [OF _ o]) (simp add: disk_env_def, simp add: stray_name_def, simp add: stray_name_def)
qed

text \<open>
  Property C32. A room recovers from the local cache alone: when the inner factory has lost its stores, lists no writer and opens
  empty ones, the cached factory still lists exactly the writers with a file in the cache directory, and the store
  it opens for a writer reads everything the cached log of that writer held.
\<close>

theorem cache_recovers_lost_stores:
  assumes "sync_file F data" "byte_store P okp contp fits32"
    and "sf_writers G f = Some []" "sf_open G f w = (Inr fresh, f')" "okp fresh" "contp fresh = Map.empty"
    and "fd_names D d = map hex ks" "list_all (\<lambda>k. length k = 32) ks"
    and "fd_open D d (hex w) = (Inr h, d')" "log_ok data s" "data h = data (log_file s)"
  shows "cached_writers G D (f, d) = Some (bs_collect ks) \<and>
    (\<forall>t fd k v. cached_open G D F (f, d) w = (Inr t, fd) \<and> tee_get P (log_ops F) t k = Inr v \<longrightarrow> v = log_content data s k)"
proof (intro conjI allI impI)
  show "cached_writers G D (f, d) = Some (bs_collect ks)"
    using assms(3,7) known_writers_hex [OF assms(8)] by (simp add: cached_writers_def bs_collect_def)
next
  fix t fd k v
  assume t: "cached_open G D F (f, d) w = (Inr t, fd) \<and> tee_get P (log_ops F) t k = Inr v"
  obtain c h' where c: "open_log F h = (Inr c, h')" "t = \<lparr> primary = fresh, cache = c \<rparr>"
    using t assms(4,9) by (auto simp: cached_open_def disk_open_def split: prod.splits sum.splits)
  have same: "log_ok data c \<and> log_content data c = log_content data s"
    using sync_file.open_log_ok [OF assms(1) c(1)] assms(10,11) by (simp add: log_ok_def log_content_def replays_def)
  have "log_get F c k = Inr v"
    using t c(2) byte_store.get_law [OF assms(2,5), of k] assms(6) by (auto simp: tee_get_def log_ops_def split: option.splits)
  then show "v = log_content data s k" using sync_file.log_get_ok [OF assms(1)] same by metis
qed

theorem cache_recovers_lost_stores_witness:
  "let w = replicate 32 7; s = \<lparr> log_file = encode_record 0 KIND_PUT [5, 6], log_index = [(0, (13, 2))], log_end = 15, log_dead = 0 \<rparr>;
       d = [(hex w, encode_record 0 KIND_PUT [5, 6])]
   in cached_writers (mem_store_factory :: (unit, memory_store, unit) store_factory) mem_dir ((), d) = Some [w] \<and>
      (\<exists>t fd. cached_open (mem_store_factory :: (unit, memory_store, unit) store_factory) mem_dir mem_file ((), d) w = (Inr t, fd) \<and>
         tee_get (mem_store :: (unit, memory_store) store) (log_ops mem_file) t 0 = Inr (Some [5, 6]) \<and> log_content (\<lambda>f. f) s 0 = Some [5, 6])"
proof -
  let ?w = "replicate 32 7 :: bytes" and ?f = "encode_record 0 KIND_PUT [5, 6]"
  let ?s = "\<lparr> log_file = ?f, log_index = [(0, (13, 2))], log_end = 15, log_dead = 0 \<rparr> :: bytes log_store" and ?d = "[(hex ?w, ?f)]"
  let ?G = "mem_store_factory :: (unit, memory_store, unit) store_factory" and ?P = "mem_store :: (unit, memory_store) store"
  have ok: "log_ok (\<lambda>f. f) ?s"
    using replay_put [of 0 "[5, 6]" "[]" 0 "[]" 0] by (simp add: log_ok_def replays_def replay_short)
  have g: "sf_writers ?G () = Some []" "sf_open ?G () ?w = (Inr [], ())" by (simp_all add: mem_store_factory_def)
  have d: "fd_names mem_dir ?d = map hex [?w]" "fd_open mem_dir ?d (hex ?w) = (Inr ?f, ?d)" by (simp_all add: mem_dir_def)
  have "case cached_open ?G mem_dir mem_file ((), ?d) ?w of (Inr t, _) \<Rightarrow> tee_get ?P (log_ops mem_file) t 0 = Inr (Some [5, 6]) | _ \<Rightarrow> False"
    by code_simp
  then obtain t fd where t: "cached_open ?G mem_dir mem_file ((), ?d) ?w = (Inr t, fd)" "tee_get ?P (log_ops mem_file) t 0 = Inr (Some [5, 6])"
    by (auto split: prod.splits sum.splits)
  have fits: "byte_store ?P bt_inv bt_get fits32" by unfold_locales (auto simp: mem_store_def bt_inv_card finite_dom_map_of)
  have p: "bt_inv ([] :: memory_store)" "bt_get ([] :: memory_store) = Map.empty" "list_all (\<lambda>k. length k = 32) [?w]"
    "(\<lambda>f. f) ?f = (\<lambda>f. f) (log_file ?s)"
    by simp_all
  note recovers = cache_recovers_lost_stores [OF memf.sync_file_axioms fits g p(1,2) d(1) p(3) d(2) ok p(4)]
  have "cached_writers ?G mem_dir ((), ?d) = Some (bs_collect [?w])" using recovers by (rule conjunct1)
  moreover have "Some [5, 6] = log_content (\<lambda>f. f) ?s 0" using recovers [THEN conjunct2] t by blast
  ultimately show ?thesis using t unfolding Let_def bs_collect_def by (intro conjI exI [of _ t] exI [of _ fd]) simp_all
qed

end
