(* ===== verification/Room_Restart.thy ===== *)
theory Room_Restart
  imports Room_Sync
begin

text \<open>
  Restarting a room: which rooms have their state in their stores, and that opening a room over these stores
  gives it back, order, views and logs, without any peer.
\<close>

section \<open>Rooms that are in their stores\<close>

text \<open>The records \<open>persist\<close> writes.\<close>

definition persisted :: "('s \<Rightarrow> nat \<Rightarrow> bytes option) \<Rightarrow> (entry, 's) hypercore \<Rightarrow> bool" where
  "persisted content c \<longleftrightarrow> content (hc_store c) KEY_META = Some (encode_meta c) \<and>
     content (hc_store c) KEY_TREE = Some (serialize (hc_tree c)) \<and> content (hc_store c) KEY_PRESENCE = Some (bf_serialize (presence c))"

text \<open>The own log: complete and persisted, or never written.\<close>

definition stored_core :: "crypto \<Rightarrow> hashfun \<Rightarrow> ('s \<Rightarrow> bool) \<Rightarrow> ('s \<Rightarrow> nat \<Rightarrow> bytes option) \<Rightarrow> (entry, 's) hypercore \<Rightarrow>
    bytes list \<Rightarrow> bool" where
  "stored_core E H ok content c bs \<longleftrightarrow>
     core_inv E H ok content c bs \<and> (\<forall>i < length bs. hc_has c i) \<and> hc_codec c = entry_codec \<and> hc_prologue c = None \<and>
     (\<forall>h. head c = Some h \<longrightarrow> length (sh_sig h) = 64) \<and>
     (persisted content c \<or> bs = [] \<and> content (hc_store c) KEY_META = None)"

text \<open>The log of another writer: verified up to its end and persisted.\<close>

definition stored_replica :: "crypto \<Rightarrow> hashfun \<Rightarrow> ('s \<Rightarrow> bool) \<Rightarrow> ('s \<Rightarrow> nat \<Rightarrow> bytes option) \<Rightarrow> (entry, 's) replica \<Rightarrow>
    bytes \<Rightarrow> bytes list \<Rightarrow> bool" where
  "stored_replica E H ok content rep w cs \<longleftrightarrow>
     rp_inv E H ok content rep cs \<and> rp_public rep = w \<and> (\<exists>h. rp_head rep = Some h \<and> wf_head h \<and> sh_length h = length cs) \<and>
     content (rp_store rep) KEY_TREE = Some (serialize (rp_tree rep)) \<and>
     content (rp_store rep) KEY_META = Some (encode_replica_meta (rp_head rep))"

text \<open>The entries in a log.\<close>

definition feed_entries :: "bytes \<Rightarrow> bytes list \<Rightarrow> (node_id \<times> node_id set \<times> bytes) set" where
  "feed_entries w bs =
     {(NodeId w i, full_deps (NodeId w i) e, ent_payload e) | i e. i < length bs \<and> decode entry_codec (bs ! i) = Inr e}"

definition feed_ok :: "bytes list \<Rightarrow> bool" where
  "feed_ok bs \<longleftrightarrow> sized bs \<and> (\<forall>b \<in> set bs. \<not> isl (decode entry_codec b))"

definition room_writers :: "('s, 'f, 'p) room \<Rightarrow> bytes set" where
  "room_writers r = insert (local_key r) (fst ` set (remotes r))"

definition durable :: "('e, 's, 'oe, 'f, 'pe, 'p, 'st) room_env \<Rightarrow> ('s \<Rightarrow> bool) \<Rightarrow> ('s \<Rightarrow> nat \<Rightarrow> bytes option) \<Rightarrow>
    (bytes \<Rightarrow> bytes list) \<Rightarrow> ('s, 'f, 'p) room \<Rightarrow> bool" where
  "durable V ok content feeds r \<longleftrightarrow>
     stored_core (en_crypto V) (en_hash V) ok content (local r) (feeds (local_key r)) \<and> public (local r) = local_key r \<and>
     bt_inv (remotes r) \<and> local_key r \<notin> fst ` set (remotes r) \<and>
     (\<forall>w rep. bt_get (remotes r) w = Some rep \<longrightarrow> stored_replica (en_crypto V) (en_hash V) ok content rep w (feeds w)) \<and>
     (\<forall>w \<in> room_writers r. feed_ok (feeds w)) \<and>
     accepted r = (\<Union>w \<in> room_writers r. feed_entries w (feeds w))"

text \<open>Everything that can be delivered is, and the views are the folds of the orders.\<close>

definition up_to_date :: "('e, 's, 'oe, 'f, 'pe, 'p, 'st) room_env \<Rightarrow> ('s, 'f, 'p) room \<Rightarrow> bool" where
  "up_to_date V r \<longleftrightarrow> room_ok r \<and> (\<forall>x \<in> set (backlog r). blocked (lin r) x) \<and>
     (\<exists>fin ord. finalized (lin r) = Some fin \<and> order (lin r) = Some ord \<and> finalized_len r = length fin \<and>
        finalized_proj r = fold (fold_op (en_proj V) r) fin (genesis_proj r) \<and>
        pj_snapshot (en_proj V) (live_proj r) = pj_snapshot (en_proj V) (fold (fold_op (en_proj V) r) ord (genesis_proj r)))"

section \<open>What is accepted determines an up-to-date room\<close>

lemma consistent_feeds: "consistent (\<Union>w \<in> W. feed_entries w (feeds w))"
  unfolding consistent_def feed_entries_def by auto

lemma consistent_insert: "consistent A \<Longrightarrow> n \<notin> fst ` A \<Longrightarrow> consistent (insert (n, x) A)"
  unfolding consistent_def by (auto intro: rev_image_eqI)

lemma advance_up_to_date:
  assumes "room_ok r" "folds_exact (en_proj V) (drain_pending r)" "pure_projection (en_proj V)" "advance V (drain_pending r) = (x, r')"
  shows "x = Inr () \<and> up_to_date V r'"
proof -
  note fr = advance_frame [OF assms(4)]
  have f: "fold_op (en_proj V) r' = fold_op (en_proj V) (drain_pending r)" using fr by (intro fold_op_same_payloads) simp
  note d = drain_pending_ok [OF room_ok_delivery [OF assms(1)]]
  have "room_ok r'" using room_ok_advance [OF room_ok_drain [OF assms(1)] assms(4)] by simp
  moreover from advance_folds [OF room_ok_drain [OF assms(1)] assms(2,4)] have "x = Inr () \<and>
     (\<exists>fin ord. finalized (lin r') = Some fin \<and> order (lin r') = Some ord \<and> finalized_len r' = length fin \<and>
        finalized_proj r' = fold (fold_op (en_proj V) r') fin (genesis_proj r') \<and>
        pj_snapshot (en_proj V) (live_proj r') = pj_snapshot (en_proj V) (fold (fold_op (en_proj V) r') ord (genesis_proj r')))"
    using assms(3) fr f by auto
  ultimately show ?thesis using d(4) fr by (auto simp: up_to_date_def)
qed

lemma up_to_date_determined:
  assumes u: "up_to_date V r1" "up_to_date V r2" and acc: "accepted r1 = accepted r2" "consistent (accepted r1)"
    and conf: "indexers (lin r2) = indexers (lin r1)" "base (lin r2) = base (lin r1)" "base_clock (lin r2) = base_clock (lin r1)"
    and g: "genesis_proj r2 = genesis_proj r1"
  shows "lin r2 = lin r1 \<and> payloads r2 = payloads r1 \<and> finalized_len r2 = finalized_len r1 \<and> finalized_proj r2 = finalized_proj r1 \<and>
    pj_snapshot (en_proj V) (live_proj r2) = pj_snapshot (en_proj V) (live_proj r1)"
proof -
  have ok: "delivery_ok (lin r1) (payloads r1)" "delivery_ok (lin r2) (payloads r2)"
      "\<forall>x \<in> set (backlog r1). blocked (lin r1) x" "\<forall>x \<in> set (backlog r2). blocked (lin r2) x"
    using u by (auto simp: up_to_date_def room_ok_def)
  have "delivered_set (lin r1) (payloads r1) = delivered_set (lin r2) (payloads r2)"
    using settled_contains [OF ok(1,2) _ ok(4)] settled_contains [OF ok(2,1) _ ok(3)] acc by auto
  from delivered_set_determines [OF ok(1,2) this conf] have same: "lin r2 = lin r1" "payloads r2 = payloads r1" by auto
  moreover have "fold_op (en_proj V) r2 = fold_op (en_proj V) r1" using same(2) by (rule fold_op_same_payloads)
  ultimately show ?thesis using u g unfolding up_to_date_def by auto
qed

section \<open>Replaying logs\<close>

text \<open>Deliveries change the order, the payloads and the buffer only.\<close>

definition redelivered :: "('s, 'f, 'p) room \<Rightarrow> ('s, 'f, 'p) room \<Rightarrow> bool" where
  "redelivered r r' \<longleftrightarrow> (\<exists>L pl es. r' = r\<lparr> lin := L, payloads := pl, backlog := es \<rparr> \<and> same_config (lin r) L)"

lemma redelivered_refl [simp]: "redelivered r r"
  by (auto simp: redelivered_def intro!: exI [of _ "lin r"] exI [of _ "payloads r"] exI [of _ "backlog r"])

lemma redelivered_trans: "redelivered r r' \<Longrightarrow> redelivered r' r'' \<Longrightarrow> redelivered r r''"
  unfolding redelivered_def by (fastforce intro: same_config_trans)

lemma redelivered_try_add: "redelivered r (try_add_node n e r)"
proof (cases "add (lin r) n (ent_heads e)")
  case (Inl err)
  show ?thesis
    using Inl redelivered_refl [of r]
    by (cases err) (auto simp: try_add_node_def redelivered_def intro!: exI [of _ "lin r"] exI [of _ "payloads r"])
next
  case (Inr L)
  then show ?thesis
    by (auto simp: try_add_node_def redelivered_def same_config_add intro!: exI [of _ L] exI [of _ "backlog r"])
qed

lemma redelivered_drain: "room_ok r \<Longrightarrow> redelivered r (drain_pending r)"
  using drain_pending_ok(2) [OF room_ok_delivery, of r]
  by (cases "drain_loop (backlog r) (lin r) (payloads r)") (auto simp: redelivered_def drain_pending_def)

lemma redelivered_fields:
  assumes "redelivered r r'"
  shows "local r' = local r" "local_key r' = local_key r" "remotes r' = remotes r" "genesis_proj r' = genesis_proj r"
    "finalized_len r' = finalized_len r" "finalized_proj r' = finalized_proj r" "same_config (lin r) (lin r')"
  using assms by (auto simp: redelivered_def)

lemma accepted_nodes: "delivery_ok (lin r) (payloads r) \<Longrightarrow> contains (lin r) n \<Longrightarrow> n \<in> fst ` accepted r"
  using delivered_setI [of "lin r" "payloads r" n] by (force simp: accepted_def)

lemma accepted_try_add:
  assumes "delivery_ok (lin r) (payloads r)" "n \<notin> fst ` accepted r"
  shows "accepted (try_add_node n e r) = insert (n, full_deps n e, ent_payload e) (accepted r)"
proof (cases "add (lin r) n (ent_heads e)")
  case (Inl err)
  have "\<not> contains (lin r) n" using accepted_nodes assms by blast
  then have "err \<noteq> Duplicate m" for m using Inl by (auto simp: add_Inl)
  then have "try_add_node n e r = r\<lparr> backlog := backlog r @ [(n, e)] \<rparr>" using Inl by (cases err) (simp add: try_add_node_def; blast)+
  then show ?thesis by (simp add: accepted_def)
next
  case (Inr L)
  then show ?thesis using deliver_one(2) [OF assms(1) Inr] by (simp add: try_add_node_def accepted_def)
qed

lemma replay_entries_of:
  fixes r :: "('s, 'f, 'p) room"
  assumes "room_ok r" "\<forall>i \<in> set is. f i = Inr (Some (e i))" "distinct is" "\<forall>i \<in> set is. NodeId w i \<notin> fst ` accepted r"
    and "w = local_key r \<longrightarrow> (\<forall>i \<in> set is. i < hc_len (local r))"
  shows "\<exists>r'. replay_writer f w is r = ((Inr (), r') :: (('e, 'oe) room_error, unit, ('s, 'f, 'p) room) outcome) \<and> room_ok r' \<and> redelivered r r' \<and>
    accepted r' = accepted r \<union> (\<lambda>i. (NodeId w i, full_deps (NodeId w i) (e i), ent_payload (e i))) ` set is"
  using assms
proof (induction "is" arbitrary: r)
  case (Cons i "is")
  let ?r = "try_add_node (NodeId w i) (e i) r"
  have acc: "accepted ?r = insert (NodeId w i, full_deps (NodeId w i) (e i), ent_payload (e i)) (accepted r)"
    using accepted_try_add [OF room_ok_delivery [OF Cons.prems(1)]] Cons.prems(4) by simp
  have ok: "room_ok ?r" using Cons.prems(1,5) by (intro room_ok_try_add) auto
  have new: "\<forall>j \<in> set is. NodeId w j \<notin> fst ` accepted ?r" using acc Cons.prems(3,4) by auto
  have own: "w = local_key ?r \<longrightarrow> (\<forall>i \<in> set is. i < hc_len (local ?r))" using Cons.prems(5) by simp
  from Cons.IH [OF ok _ _ new own] Cons.prems(2,3) obtain r' where r': "replay_writer f w is ?r = ((Inr (), r') :: (('e, 'oe) room_error, unit, ('s, 'f, 'p) room) outcome)" "room_ok r'" "redelivered ?r r'"
      "accepted r' = accepted ?r \<union> (\<lambda>i. (NodeId w i, full_deps (NodeId w i) (e i), ent_payload (e i))) ` set is"
    by auto
  then show ?case using Cons.prems(2) acc redelivered_trans [OF redelivered_try_add r'(3)] by auto
qed simp

lemma replay_feed:
  fixes r :: "('s, 'f, 'p) room"
  assumes "room_ok r" "feed_ok bs" "\<And>i e. i < length bs \<Longrightarrow> decode entry_codec (bs ! i) = Inr e \<Longrightarrow> f i = Inr (Some e)"
    and "\<And>i. NodeId w i \<notin> fst ` accepted r" "w = local_key r \<Longrightarrow> length bs \<le> hc_len (local r)"
  shows "\<exists>r'. replay_writer f w [0..<length bs] r = ((Inr (), r') :: (('e, 'oe) room_error, unit, ('s, 'f, 'p) room) outcome) \<and> room_ok r' \<and> redelivered r r' \<and>
    accepted r' = accepted r \<union> feed_entries w bs"
proof -
  define e where "e = (\<lambda>i. projr (decode entry_codec (bs ! i)))"
  have e: "decode entry_codec (bs ! i) = Inr (e i)" if "i < length bs" for i
    using assms(2) that by (auto simp: feed_ok_def e_def)
  have "\<exists>r'. replay_writer f w [0..<length bs] r = ((Inr (), r') :: (('e, 'oe) room_error, unit, ('s, 'f, 'p) room) outcome) \<and> room_ok r' \<and> redelivered r r' \<and>
      accepted r' = accepted r \<union> (\<lambda>i. (NodeId w i, full_deps (NodeId w i) (e i), ent_payload (e i))) ` set [0..<length bs]"
  proof (rule replay_entries_of [OF assms(1)])
    show "\<forall>i \<in> set [0..<length bs]. f i = Inr (Some (e i))" using assms(3) e by simp
    show "w = local_key r \<longrightarrow> (\<forall>i \<in> set [0..<length bs]. i < hc_len (local r))" using assms(5) by auto
  qed (use assms(4) in simp_all)
  moreover have "(\<lambda>i. (NodeId w i, full_deps (NodeId w i) (e i), ent_payload (e i))) ` set [0..<length bs] = feed_entries w bs"
    using e unfolding feed_entries_def by fastforce
  ultimately show ?thesis by simp
qed

lemma feed_entries_key: "(n, x) \<in> feed_entries w bs \<Longrightarrow> key n = w"
  by (auto simp: feed_entries_def)

lemma replay_remote_feeds:
  fixes r :: "('s, 'f, 'p) room"
  assumes "room_ok r" "distinct (map fst reps)" "local_key r \<notin> fst ` set reps"
    and "\<And>w rep. (w, rep) \<in> set reps \<Longrightarrow> feed_ok (feeds w) \<and> rp_len rep = length (feeds w) \<and>
      (\<forall>i e. i < length (feeds w) \<longrightarrow> decode entry_codec (feeds w ! i) = Inr e \<longrightarrow> rp_get S rep i = Inr (Some e))"
    and "\<And>n. n \<in> fst ` accepted r \<Longrightarrow> key n \<notin> fst ` set reps"
  shows "\<exists>r'. replay_remotes S reps r = ((Inr (), r') :: (('e, 'oe) room_error, unit, ('s, 'f, 'p) room) outcome) \<and> room_ok r' \<and> redelivered r r' \<and>
    accepted r' = accepted r \<union> (\<Union>w \<in> fst ` set reps. feed_entries w (feeds w))"
  using assms
proof (induction reps arbitrary: r)
  case (Cons x reps)
  obtain w rep where x: "x = (w, rep)" by fastforce
  note one = Cons.prems(4) [of w rep]
  have "\<exists>r'. replay_writer (rp_get S rep) w [0..<length (feeds w)] r = ((Inr (), r') :: (('e, 'oe) room_error, unit, ('s, 'f, 'p) room) outcome) \<and> room_ok r' \<and> redelivered r r' \<and>
      accepted r' = accepted r \<union> feed_entries w (feeds w)"
    using Cons.prems(1,3,5) one x by (intro replay_feed) (auto dest!: Cons.prems(5) [OF imageI])
  then obtain r1 where r1: "replay_writer (rp_get S rep) w [0..<rp_len rep] r = ((Inr (), r1) :: (('e, 'oe) room_error, unit, ('s, 'f, 'p) room) outcome)" "room_ok r1" "redelivered r r1"
      "accepted r1 = accepted r \<union> feed_entries w (feeds w)"
    using one x by auto
  have "\<exists>r'. replay_remotes S reps r1 = ((Inr (), r') :: (('e, 'oe) room_error, unit, ('s, 'f, 'p) room) outcome) \<and> room_ok r' \<and> redelivered r1 r' \<and>
      accepted r' = accepted r1 \<union> (\<Union>w \<in> fst ` set reps. feed_entries w (feeds w))"
  proof (rule Cons.IH [OF r1(2)])
    show "key n \<notin> fst ` set reps" if "n \<in> fst ` accepted r1" for n
      using that r1(4) Cons.prems(2,5) x by (auto dest!: feed_entries_key) (metis fst_conv image_eqI)
  qed (use Cons.prems x redelivered_fields [OF r1(3)] in auto)
  then show ?case using r1 x redelivered_trans [OF r1(3)] by auto
qed simp

section \<open>Opening the logs\<close>

context total_store
begin

lemma hc_get_entry:
  assumes "core_inv E H ok content c bs" "hc_has c i" "decode (hc_codec c) (bs ! i) = Inr e"
  shows "hc_get S c i = Inr (Some e)"
proof -
  have "ok (hc_store c)" "content (hc_store c) i = Some (bs ! i)" using assms(1,2) by (auto simp: core_inv_def hc_has_def)
  then show ?thesis using assms(2,3) get_eq [of "hc_store c" i] by (simp add: hc_get_def)
qed

lemma rp_get_entry:
  assumes "rp_inv E H ok content rep cs" "i < length cs" "decode (rp_codec rep) (cs ! i) = Inr e"
  shows "rp_get S rep i = Inr (Some e)"
proof -
  have "ok (rp_store rep)" "content (rp_store rep) i = Some (cs ! i)" using assms(1,2) by (auto simp: rp_inv_def)
  then show ?thesis using assms(2,3) get_eq [of "rp_store rep" i] rp_inv_len [OF assms(1)] by (simp add: rp_get_def)
qed

text \<open>The own log comes back, or a fresh one in place of one that was never written.\<close>

lemma reopen_core:
  assumes "stored_core E H ok content c bs" "hash32 H" "sized bs"
  shows "\<exists>c'. core_inv E H ok content c' bs \<and> (\<forall>i < length bs. hc_has c' i) \<and> hc_codec c' = entry_codec \<and>
    (hc_open E H S (author c) entry_codec (hc_store c) = Inr c' \<or>
     hc_open E H S (author c) entry_codec (hc_store c) = Inl NotPersisted \<and> c' = hc_new E (author c) entry_codec (hc_store c))"
proof (cases "persisted content c")
  case True
  have inv: "core_inv E H ok content c bs" "ok (hc_store c)" using assms(1) by (auto simp: stored_core_def core_inv_def)
  have "(\<exists>c'. hc_open E H S (author c) entry_codec (hc_store c) = Inr c' \<and> core_inv E H ok content c' bs \<and>
       (\<forall>i. hc_has c' i = hc_has c i) \<and> hc_codec c' = entry_codec)"
    using hc_open_ok [OF inv(1) assms(2,3), of "hc_store c" entry_codec] inv(2) assms(1) True hc_open_total [OF inv(2), of E H "author c" entry_codec]
    by (auto simp: stored_core_def persisted_def)
  then show ?thesis using assms(1) by (auto simp: stored_core_def)
next
  case False
  then have c: "bs = []" "ok (hc_store c)" "content (hc_store c) KEY_META = None" using assms(1) by (auto simp: stored_core_def core_inv_def)
  have "hc_open E H S (author c) entry_codec (hc_store c) = Inl NotPersisted" using c(2,3) by (simp add: hc_open_def get_eq)
  moreover have "core_inv E H ok content (hc_new E (author c) entry_codec (hc_store c)) []" using c(2) by (rule core_inv_new)
  ultimately show ?thesis using c(1) by (auto simp: hc_new_def)
qed

lemma reopen_replica:
  assumes "stored_replica E H ok content rep w cs" "hash32 H" "sized cs"
  shows "\<exists>rep'. rp_open E H S w entry_codec (rp_store rep) = Inr rep' \<and> rp_inv E H ok content rep' cs \<and> rp_codec rep' = entry_codec"
proof -
  obtain h where r: "rp_inv E H ok content rep cs" "rp_public rep = w" "rp_head rep = Some h" "wf_head h" "sh_length h = length cs"
      "content (rp_store rep) KEY_TREE = Some (serialize (rp_tree rep))"
      "content (rp_store rep) KEY_META = Some (encode_replica_meta (rp_head rep))"
    using assms(1) by (auto simp: stored_replica_def)
  have s: "ok (rp_store rep)" "\<forall>i < length cs. content (rp_store rep) i = Some (cs ! i)" using r(1) by (auto simp: rp_inv_def)
  have no: "rp_open E H S w entry_codec (rp_store rep) \<noteq> Inl (Storage e)" for e
    using get_eq [OF s(1)] by (intro rp_open_no_storage_error) blast
  have wf: "\<forall>h. rp_head rep = Some h \<longrightarrow> wf_head h" using r(3,4) by simp
  from rp_open_ok [OF r(1) assms(2,3) wf s(1) r(6,7) s(2) refl, of entry_codec] no r(2,3,5)
  obtain rep' where "rp_open E H S w entry_codec (rp_store rep) = Inr rep'" "rp_inv E H ok content rep' cs" by auto
  then show ?thesis using rp_open_codec [of E H S w entry_codec "rp_store rep" rep'] by blast
qed

end

text \<open>The replicas of all listed writers but the own one.\<close>

lemma open_writers_all:
  assumes "\<And>w. w \<in> set ws \<Longrightarrow> w \<noteq> local_key r \<Longrightarrow> good_key V w \<and> sf_open (en_factory V) (factory r) w = (Inr (st w), factory r) \<and>
      rp_open (en_crypto V) (en_hash V) (en_store V) w entry_codec (st w) = Inr (G w)"
  shows "open_writers V ws r = Inr (r\<lparr> remotes := fold (\<lambda>w. bt_insert w (G w)) (filter (\<lambda>w. w \<noteq> local_key r) ws) (remotes r) \<rparr>)"
  using assms
proof (induction ws arbitrary: r)
  case (Cons w ws)
  show ?case
  proof (cases "w = local_key r")
    case False
    let ?r = "r\<lparr> remotes := bt_insert w (G w) (remotes r) \<rparr>"
    have "open_writers V ws ?r = Inr (?r\<lparr> remotes := fold (\<lambda>w. bt_insert w (G w)) (filter (\<lambda>w. w \<noteq> local_key ?r) ws) (remotes ?r) \<rparr>)"
      using Cons.prems by (intro Cons.IH) auto
    moreover have "r\<lparr> factory := factory r, remotes := m \<rparr> = r\<lparr> remotes := m \<rparr>" for m by simp
    ultimately show ?thesis using Cons.prems [of w] False by simp
  qed (use Cons in simp)
qed simp

lemma fold_bt_insert:
  assumes "bt_inv m"
  shows "bt_inv (fold (\<lambda>w. bt_insert w (G w)) ws m)"
    "bt_get (fold (\<lambda>w. bt_insert w (G w)) ws m) w = (if w \<in> set ws then Some (G w) else bt_get m w)"
  using assms by (induction ws arbitrary: m) auto

section \<open>Replaying a whole room\<close>

lemma up_to_date_poll [simp]: "up_to_date V (r\<lparr> finalized_since_poll := x \<rparr>) = up_to_date V r"
  by (simp add: up_to_date_def)

lemma room_start_empty:
  "accepted (room_start E cfg c f P) = {}" "accepted ((room_start E cfg c f P)\<lparr> remotes := m \<rparr>) = {}"
  by (auto simp: accepted_def delivered_set_def room_start_def with_indexers_def new_linearizer_def contains_def bt_contains_def)

lemma replay_restores:
  fixes V :: "('e, 's, 'oe, 'f, 'pe, 'p, 'st) room_env"
  assumes ok: "room_ok r" and empty: "accepted r = {}" and fresh: "finalized_len r = 0" "finalized_proj r = genesis_proj r"
    and P: "pure_projection (en_proj V)" and m: "bt_inv (remotes r)" "local_key r \<notin> fst ` set (remotes r)"
    and own: "feed_ok (feeds (local_key r))" "hc_len (local r) = length (feeds (local_key r))"
      "\<And>i e. i < length (feeds (local_key r)) \<Longrightarrow> decode entry_codec (feeds (local_key r) ! i) = Inr e \<Longrightarrow> hc_get (en_store V) (local r) i = Inr (Some e)"
    and rem: "\<And>w rep. (w, rep) \<in> set (remotes r) \<Longrightarrow> feed_ok (feeds w) \<and> rp_len rep = length (feeds w) \<and>
      (\<forall>i e. i < length (feeds w) \<longrightarrow> decode entry_codec (feeds w ! i) = Inr e \<longrightarrow> rp_get (en_store V) rep i = Inr (Some e))"
  shows "\<exists>r'. replay V r = (Inr (), r') \<and> up_to_date V r' \<and> accepted r' = (\<Union>w \<in> room_writers r. feed_entries w (feeds w)) \<and>
    same_config (lin r) (lin r') \<and> local r' = local r \<and> local_key r' = local_key r \<and> remotes r' = remotes r \<and>
    genesis_proj r' = genesis_proj r \<and> finalized_since_poll r' = []"
proof -
  let ?S = "en_store V"
  obtain r1 where r1: "replay_writer (hc_get ?S (local r)) (local_key r) [0..<hc_len (local r)] r =
      ((Inr (), r1) :: (('e, 'oe) room_error, unit, ('s, 'f, 'p) room) outcome)"
      "room_ok r1" "redelivered r r1" "accepted r1 = feed_entries (local_key r) (feeds (local_key r))"
    using replay_feed [OF ok own(1), of "hc_get ?S (local r)" "local_key r"] own(2,3) empty by auto
  note f1 = redelivered_fields [OF r1(3)]
  have "\<exists>r'. replay_remotes ?S (remotes r1) r1 = ((Inr (), r') :: (('e, 'oe) room_error, unit, ('s, 'f, 'p) room) outcome) \<and>
      room_ok r' \<and> redelivered r1 r' \<and> accepted r' = accepted r1 \<union> (\<Union>w \<in> fst ` set (remotes r1). feed_entries w (feeds w))"
  proof (rule replay_remote_feeds [OF r1(2)])
    show "distinct (map fst (remotes r1))" using bt_inv_distinct [OF m(1)] f1(3) by simp
    show "key n \<notin> fst ` set (remotes r1)" if "n \<in> fst ` accepted r1" for n
      using that r1(4) m(2) f1(3) by (auto dest!: feed_entries_key) (metis fst_conv image_eqI)
  qed (use m(2) f1 rem in auto)
  then obtain r2 where r2: "replay_remotes ?S (remotes r1) r1 = ((Inr (), r2) :: (('e, 'oe) room_error, unit, ('s, 'f, 'p) room) outcome)"
      "room_ok r2" "redelivered r1 r2" "accepted r2 = (\<Union>w \<in> room_writers r. feed_entries w (feeds w))"
    using r1(4) f1(3) by (auto simp: room_writers_def)
  note f2 = redelivered_fields [OF redelivered_trans [OF r1(3) r2(3)]]
  have con: "consistent (accepted r2)" unfolding r2(4) by (rule consistent_feeds)
  note d = drain_pending_ok [OF room_ok_delivery [OF r2(2)]]
  obtain x r3 where r3: "advance V (drain_pending r2) = (x, r3)" by fastforce
  have "folds_exact (en_proj V) (drain_pending r2)"
    using room_ok_drain [OF r2(2)] f2(4-6) fresh by (intro folds_exact_fresh) simp_all
  from advance_up_to_date [OF r2(2) this P r3] have u: "x = Inr ()" "up_to_date V r3" by simp_all
  note f3 = advance_frame [OF r3]
  have "accepted r3 = accepted r2" using d(5) [OF con] f3 by (simp add: accepted_def)
  moreover have "same_config (lin r) (lin r3)" using same_config_trans [OF f2(7) d(2)] f3 by simp
  ultimately show ?thesis
    using r1(1) r2 r3 u f2 f3 by (intro exI [of _ "r3\<lparr> finalized_since_poll := [] \<rparr>"]) (simp add: replay_def accepted_def)
qed

section \<open>Restarting\<close>

text \<open>A factory that gives back the stores of a room and lists its writers, the own one or not.\<close>

definition keeps_stores :: "('e, 's, 'oe, 'f, 'pe, 'p, 'st) room_env \<Rightarrow> 'f \<Rightarrow> ('s, 'f, 'p) room \<Rightarrow> bool" where
  "keeps_stores V f r \<longleftrightarrow>
     sf_open (en_factory V) f (local_key r) = (Inr (hc_store (local r)), f) \<and>
     (\<forall>w rep. bt_get (remotes r) w = Some rep \<longrightarrow> good_key V w \<and> sf_open (en_factory V) f w = (Inr (rp_store rep), f)) \<and>
     (\<exists>ws. sf_writers (en_factory V) f = Some ws \<and> set ws - {local_key r} = fst ` set (remotes r))"

lemma restart_opens:
  fixes V :: "('e, 's, 'oe, 'f, 'pe, 'p, 'st) room_env"
  assumes st: "total_store (en_store V) ok content fits" "hash32 (en_hash V)" and d: "durable V ok content feeds r"
    and id: "rc_identity cfg = author (local r)" and k: "keeps_stores V f r"
  obtains c ws m where "open_local V (rc_identity cfg) f = Inr (c, f)" "sf_writers (en_factory V) f = Some ws"
    "open_writers V ws (room_start (en_crypto V) cfg c f P) = Inr ((room_start (en_crypto V) cfg c f P)\<lparr> remotes := m \<rparr>)"
    "core_inv (en_crypto V) (en_hash V) ok content c (feeds (local_key r))" "\<forall>i < length (feeds (local_key r)). hc_has c i"
    "hc_codec c = entry_codec" "bt_inv m" "fst ` set m = fst ` set (remotes r)"
    "\<forall>w rep. (w, rep) \<in> set m \<longrightarrow> rp_inv (en_crypto V) (en_hash V) ok content rep (feeds w) \<and> rp_codec rep = entry_codec"
proof -
  let ?E = "en_crypto V" and ?H = "en_hash V" and ?S = "en_store V" and ?w = "local_key r"
  have dd: "stored_core ?E ?H ok content (local r) (feeds ?w)" "public (local r) = ?w" "bt_inv (remotes r)"
      "\<And>w rep. bt_get (remotes r) w = Some rep \<Longrightarrow> stored_replica ?E ?H ok content rep w (feeds w)"
      "\<And>w. w \<in> room_writers r \<Longrightarrow> sized (feeds w)"
    using d by (auto simp: durable_def feed_ok_def)
  have key: "public_of ?E (rc_identity cfg) = ?w" using dd(1,2) id by (auto simp: stored_core_def core_inv_def)
  obtain c where c: "core_inv ?E ?H ok content c (feeds ?w)" "\<forall>i < length (feeds ?w). hc_has c i" "hc_codec c = entry_codec"
      "hc_open ?E ?H ?S (author (local r)) entry_codec (hc_store (local r)) = Inr c \<or>
       hc_open ?E ?H ?S (author (local r)) entry_codec (hc_store (local r)) = Inl NotPersisted \<and>
         c = hc_new ?E (author (local r)) entry_codec (hc_store (local r))"
    using total_store.reopen_core [OF st(1) dd(1) st(2) dd(5)] by (auto simp: room_writers_def)
  have local: "open_local V (rc_identity cfg) f = Inr (c, f)"
    using c(4) k key id by (auto simp: open_local_def keeps_stores_def)
  obtain ws where ws: "sf_writers (en_factory V) f = Some ws" "set ws - {?w} = fst ` set (remotes r)"
    using k by (auto simp: keeps_stores_def)
  define st where "st = (\<lambda>w. rp_store (the (bt_get (remotes r) w)))"
  define G where "G = (\<lambda>w. projr (rp_open ?E ?H ?S w entry_codec (st w)))"
  have reop: "good_key V w \<and> sf_open (en_factory V) f w = (Inr (st w), f) \<and> rp_open ?E ?H ?S w entry_codec (st w) = Inr (G w) \<and>
      rp_inv ?E ?H ok content (G w) (feeds w) \<and> rp_codec (G w) = entry_codec" if w: "w \<in> set ws" "w \<noteq> ?w" for w
  proof -
    have "w \<in> fst ` set (remotes r)" using w ws(2) by blast
    then obtain rep where rep: "bt_get (remotes r) w = Some rep" "w \<in> room_writers r"
      using bt_get_iff [OF dd(3)] by (auto simp: room_writers_def)
    then show ?thesis
      using total_store.reopen_replica [OF assms(1) dd(4) [OF rep(1)] assms(2) dd(5) [OF rep(2)]] k
      by (auto simp: keeps_stores_def st_def G_def)
  qed
  let ?r0 = "room_start ?E cfg c f P" and ?m = "fold (\<lambda>w. bt_insert w (G w)) (filter (\<lambda>w. w \<noteq> ?w) ws) []"
  have r0: "local_key ?r0 = ?w" "factory ?r0 = f" "remotes ?r0 = []" using key by (simp_all add: room_start_def)
  have ow: "open_writers V ws ?r0 = Inr (?r0\<lparr> remotes := ?m \<rparr>)" using open_writers_all [of ws ?r0 V st G] reop r0 by simp
  have m: "bt_inv ?m" "\<And>w. bt_get ?m w = (if w \<in> set ws \<and> w \<noteq> ?w then Some (G w) else None)"
    using fold_bt_insert [of "[]" G "filter (\<lambda>w. w \<noteq> ?w) ws"] by auto
  have mem: "(w, rep) \<in> set ?m \<longleftrightarrow> w \<in> set ws \<and> w \<noteq> ?w \<and> rep = G w" for w rep
    using bt_get_iff [OF m(1), of w rep] m(2) [of w] by (auto split: if_splits)
  have "fst ` set ?m = fst ` set (remotes r)" unfolding ws(2) [symmetric] using mem by (force simp: image_iff)
  then show ?thesis by (rule that [OF local ws(1) ow c(1-3) m(1)]) (use mem reop in auto)
qed

lemma restart_restores:
  assumes "total_store (en_store V) ok content fits" "hash32 (en_hash V)" "pure_projection (en_proj V)"
    and "durable V ok content feeds r" "keeps_stores V f r" "rc_identity cfg = author (local r)"
  shows "\<exists>r'. room_open V cfg f P = Inr r' \<and> up_to_date V r' \<and> accepted r' = accepted r \<and>
    indexers (lin r') = (if rc_indexers cfg = [] then None else Some (bs_collect (rc_indexers cfg))) \<and>
    base (lin r') = [] \<and> base_clock (lin r') = [] \<and> genesis_proj r' = P \<and>
    (\<forall>w. writer_len r' w = writer_len r w) \<and> finalized_since_poll r' = []"
proof -
  let ?E = "en_crypto V" and ?H = "en_hash V" and ?w = "local_key r"
  obtain c ws m where o: "open_local V (rc_identity cfg) f = Inr (c, f)" "sf_writers (en_factory V) f = Some ws"
      "open_writers V ws (room_start ?E cfg c f P) = Inr ((room_start ?E cfg c f P)\<lparr> remotes := m \<rparr>)"
      "core_inv ?E ?H ok content c (feeds ?w)" "\<forall>i < length (feeds ?w). hc_has c i" "hc_codec c = entry_codec" "bt_inv m"
      "fst ` set m = fst ` set (remotes r)"
      "\<forall>w rep. (w, rep) \<in> set m \<longrightarrow> rp_inv ?E ?H ok content rep (feeds w) \<and> rp_codec rep = entry_codec"
    by (rule restart_opens [OF assms(1,2,4,6,5), of P])
  have d: "public (local r) = ?w" "local_key r \<notin> fst ` set (remotes r)" "\<And>w. w \<in> room_writers r \<Longrightarrow> feed_ok (feeds w)"
      "accepted r = (\<Union>w \<in> room_writers r. feed_entries w (feeds w))" "core_inv ?E ?H ok content (local r) (feeds ?w)"
      "bt_inv (remotes r)" "\<And>w rep. bt_get (remotes r) w = Some rep \<Longrightarrow> rp_inv ?E ?H ok content rep (feeds w)"
    using assms(4) by (auto simp: durable_def stored_core_def stored_replica_def)
  let ?r = "(room_start ?E cfg c f P)\<lparr> remotes := m \<rparr>"
  have r: "local_key ?r = ?w" "remotes ?r = m" "local ?r = c" "genesis_proj ?r = P"
    using d(1,5) assms(6) by (simp_all add: room_start_def core_inv_def)
  have W: "room_writers ?r = room_writers r" using r o(8) by (simp add: room_writers_def)
  have len: "hc_len c = length (feeds ?w)" "\<And>w rep. (w, rep) \<in> set m \<Longrightarrow> rp_len rep = length (feeds w)"
    using core_inv_len [OF o(4)] o(9) by (auto simp: hc_len_def rp_len_def dest: rp_inv_len)
  have "\<exists>r'. replay V ?r = (Inr (), r') \<and> up_to_date V r' \<and> accepted r' = (\<Union>w \<in> room_writers ?r. feed_entries w (feeds w)) \<and>
      same_config (lin ?r) (lin r') \<and> local r' = local ?r \<and> local_key r' = local_key ?r \<and> remotes r' = remotes ?r \<and>
      genesis_proj r' = genesis_proj ?r \<and> finalized_since_poll r' = []"
  proof (rule replay_restores [OF _ room_start_empty(2)])
    show "room_ok ?r" using room_start_ok by simp
    show "hc_get (en_store V) (local ?r) i = Inr (Some e)" if "i < length (feeds (local_key ?r))" "decode entry_codec (feeds (local_key ?r) ! i) = Inr e" for i e
      using that total_store.hc_get_entry [OF assms(1) o(4)] o(5,6) r by simp
    show "feed_ok (feeds w) \<and> rp_len rep = length (feeds w) \<and>
        (\<forall>i e. i < length (feeds w) \<longrightarrow> decode entry_codec (feeds w ! i) = Inr e \<longrightarrow> rp_get (en_store V) rep i = Inr (Some e))"
      if w: "(w, rep) \<in> set (remotes ?r)" for w rep
    proof -
      have "w \<in> room_writers r" using w r(2) o(8) by (force simp: room_writers_def)
      then show ?thesis using w r(2) d(3) len(2) total_store.rp_get_entry [OF assms(1)] o(9) by fastforce
    qed
  qed (use r o(7,8) d(2,3) len(1) assms(3) in \<open>auto simp: room_start_def room_writers_def\<close>)
  then obtain r' where r': "replay V ?r = (Inr (), r')" "up_to_date V r'" "accepted r' = accepted r" "same_config (lin ?r) (lin r')"
      "local r' = c" "local_key r' = ?w" "remotes r' = m" "genesis_proj r' = P" "finalized_since_poll r' = []"
    using r W d(4) by auto
  have conf: "indexers (lin r') = (if rc_indexers cfg = [] then None else Some (bs_collect (rc_indexers cfg)))"
      "base (lin r') = []" "base_clock (lin r') = []"
    using r'(4) by (auto simp: same_config_def room_start_def with_indexers_def new_linearizer_def)
  have "writer_len r' w = writer_len r w" for w
  proof (cases "w \<in> fst ` set (remotes r)")
    case True
    then obtain rep rep' where rep: "bt_get (remotes r) w = Some rep" "bt_get m w = Some rep'"
      using o(8) bt_get_iff [OF o(7)] bt_get_iff [OF d(6)] by (metis (no_types, lifting) imageE prod.collapse)
    have "rp_len rep' = length (feeds w)" using rep(2) len(2) map_of_SomeD by fast
    moreover have "w \<noteq> ?w" using True d(2) by blast
    ultimately show ?thesis
      using r'(6,7) rep rp_inv_len [OF d(7) [OF rep(1)]] by (simp add: writer_len_def rp_len_def)
  next
    case False
    then have "bt_get (remotes r) w = None" "bt_get m w = None" using o(8) by (simp_all add: map_of_eq_None_iff)
    then show ?thesis using r'(5-7) len(1) core_inv_len [OF d(5)] by (simp add: writer_len_def hc_len_def)
  qed
  then show ?thesis using o(1-3) r' conf by (intro exI [of _ r']) (auto simp: room_open_def)
qed

section \<open>Appending keeps a room in its stores\<close>

lemma feed_entries_snoc:
  assumes "decode entry_codec b = Inr e"
  shows "feed_entries w (bs @ [b]) = insert (NodeId w (length bs), full_deps (NodeId w (length bs)) e, ent_payload e) (feed_entries w bs)"
  using assms unfolding feed_entries_def by (auto simp: nth_append less_Suc_eq split: if_splits)

lemma stored_core_append:
  fixes c :: "(entry, 's) hypercore"
  assumes st: "total_store S ok content fits" "\<forall>b. fits b" and E: "sig_correct E"
    and c: "stored_core E H ok content c bs" "Suc (length bs) < KEY_USERDATA"
    and run: "hc_append E H S c e = (Inr j, c1)" "hc_persist S c1 = (Inr (), c2)"
  shows "stored_core E H ok content c2 (bs @ [encode entry_codec e]) \<and> public c2 = public c \<and> author c2 = author c"
proof -
  let ?bs = "bs @ [encode entry_codec e]"
  have B: "byte_store S ok content fits" using st(1) by (rule total_store.axioms)
  have k: "log_keys (Suc (length bs))" "log_keys (length ?bs)" using c(2) by (simp_all add: log_keys_def)
  have i: "core_inv E H ok content c bs" "hc_codec c = entry_codec" "\<forall>i < length bs. hc_has c i" "hc_prologue c = None"
    using c(1) by (simp_all add: stored_core_def)
  have a: "core_inv E H ok content c1 ?bs" "\<forall>j. hc_has c1 j \<longleftrightarrow> hc_has c j \<or> j = length bs" "same_writer c c1"
      "head c1 = Some (own_head E H c1 ?bs)"
    using byte_store.hc_append_ok [OF B i(1) E k(1) _ run(1)] st(2) i(2) by auto
  have p: "core_inv E H ok content c2 ?bs" "c2 = c1\<lparr> hc_store := hc_store c2 \<rparr>"
      "content (hc_store c2) = (content (hc_store c1))(KEY_TREE \<mapsto> serialize (hc_tree c1), KEY_PRESENCE \<mapsto> bf_serialize (presence c1), KEY_META \<mapsto> encode_meta c1)"
    using byte_store.hc_persist_ok [OF B a(1) k(2) _ _ _ run(2)] st(2) by auto
  have same: "hc_tree c2 = hc_tree c1" "presence c2 = presence c1" "head c2 = head c1" "fork c2 = fork c1" "hc_prologue c2 = hc_prologue c1"
      "hc_codec c2 = hc_codec c1" "public c2 = public c1" "author c2 = author c1"
    by (subst p(2), simp)+
  have "persisted content c2"
    using p(3) same by (simp add: persisted_def encode_meta_def KEY_TREE_def KEY_PRESENCE_def KEY_META_def)
  moreover have "hc_has c2 i" if "i < length ?bs" for i using that a(2) i(3) same(1,2) by (auto simp: hc_has_def less_Suc_eq)
  ultimately show ?thesis
    using p(1) same a(3,4) i(2,4) E by (auto simp: stored_core_def same_writer_def own_head_def sig_correct_def)
qed

lemma local_append_durable:
  assumes st: "total_store (en_store V) ok content fits" "\<forall>b. fits b"
    and E: "sig_correct (en_crypto V)"
    and r: "room_ok r" "durable V ok content feeds r" "local_append V r op = (Inr out, r')"
    and e: "e = \<lparr> ent_heads = heads (lin r), ent_payload = op \<rparr>" "b = encode entry_codec e" "decode entry_codec b = Inr e"
    and sz: "sized (feeds (local_key r) @ [b])" "Suc (length (feeds (local_key r))) < KEY_USERDATA"
  shows "durable V ok content (feeds(local_key r := feeds (local_key r) @ [b])) r'"
proof -
  let ?w = "local_key r" and ?bs = "feeds (local_key r)" and ?n = "NodeId (local_key r) (hc_len (local r))"
  obtain j c1 c L where s: "hc_append (en_crypto V) (en_hash V) (en_store V) (local r) \<lparr> ent_heads = heads (lin r), ent_payload = op \<rparr> = (Inr j, c1)"
    "hc_persist (en_store V) c1 = (Inr (), c)" "add (lin r) ?n (heads (lin r)) = Inr L"
    "lin r' = L" "local r' = c" "local_key r' = local_key r" "payloads r' = bt_insert ?n op (payloads r)"
    "remotes r' = remotes r" "backlog r' = backlog r"
    by (rule local_append_Inr [OF r(1,3)])
  note d = r(2) [unfolded durable_def]
  have sc: "stored_core (en_crypto V) (en_hash V) ok content (local r) ?bs" using d by simp
  have nk: "?w \<notin> fst ` set (remotes r)" using d by blast
  have "core_inv (en_crypto V) (en_hash V) ok content (local r) ?bs" using sc by (simp add: stored_core_def)
  then have len: "hc_len (local r) = length ?bs" by (simp add: hc_len_def core_inv_len)
  have "add (lin r) ?n (ent_heads e) = Inr L" "ent_payload e = op" using s(3) e(1) by simp_all
  then have acc: "accepted r' = insert (NodeId ?w (length ?bs), full_deps (NodeId ?w (length ?bs)) e, ent_payload e) (accepted r)"
    using deliver_one(2) [OF room_ok_delivery [OF r(1)], of ?n e L] s(4,7,9) by (simp add: accepted_def len)
  have W: "room_writers r' = room_writers r" "?w \<in> room_writers r" using s(6,8) by (simp_all add: room_writers_def)
  let ?F = "feeds(?w := ?bs @ [b])"
  have "(\<Union>w \<in> room_writers r. feed_entries w (?F w)) =
      insert (NodeId ?w (length ?bs), full_deps (NodeId ?w (length ?bs)) e, ent_payload e) (\<Union>w \<in> room_writers r. feed_entries w (feeds w))"
    using feed_entries_snoc [OF e(3), of ?w ?bs] W(2) by (auto split: if_splits)
  then have "accepted r' = (\<Union>w \<in> room_writers r. feed_entries w (?F w))" using acc d by simp
  moreover have "stored_core (en_crypto V) (en_hash V) ok content c (?bs @ [b]) \<and> public c = public (local r)"
    using stored_core_append [OF st E sc sz(2) s(1,2)] e(1,2) by simp
  moreover have "feed_ok (?bs @ [b])" using d W(2) sz(1) e(3) by (auto simp: feed_ok_def)
  moreover have "w \<noteq> ?w" if "bt_get (remotes r) w = Some rep" for w rep
    using map_of_SomeD [OF that] nk by force
  ultimately show ?thesis unfolding durable_def W(1) using d s(5,6,8) by auto
qed

text \<open>So does taking the next block of another writer under a head that ends with it.\<close>

lemma taken_block_durable:
  assumes st: "total_store (en_store V) ok content fits" "\<forall>b. fits b"
    and r: "room_ok r" "durable V ok content feeds r" "w \<noteq> local_key r" "bt_get (remotes r) w = Some rep"
    and h: "head_for (en_crypto V) (en_hash V) w h (feeds w @ [b])" "wf_head h"
      "verify_block (en_crypto V) (en_hash V) w h (length (feeds w)) b p"
    and b: "decode entry_codec b = Inr e" "sized (feeds w @ [b])" "length (feeds w) < KEY_USERDATA"
    and run: "on_inbound V r from (Block w h (length (feeds w)) b p) = (Inr out, r')"
  shows "durable V ok content (feeds(w := feeds w @ [b])) r'"
proof -
  let ?cs = "feeds w" and ?n = "NodeId w (length (feeds w))"
  note d = r(2) [unfolded durable_def]
  have rep: "rp_inv (en_crypto V) (en_hash V) ok content rep ?cs" "rp_public rep = w" using d r(4) by (auto simp: stored_replica_def)
  obtain rep' where i: "ingest_remote_block V r w h (length ?cs) b p =
       (case decode entry_codec b of
          Inl e \<Rightarrow> (Inl (EntryError e), set_replica w r rep')
        | Inr e \<Rightarrow> (Inr True, touch (try_add_node ?n e (set_replica w r rep'))))"
    and rep': "rp_inv (en_crypto V) (en_hash V) ok content rep' (?cs @ [b])" "rp_public rep' = rp_public rep" "rp_head rep' = Some h"
      "content (rp_store rep') KEY_TREE = Some (serialize (rp_tree rep'))"
      "content (rp_store rep') KEY_META = Some (encode_replica_meta (rp_head rep'))"
    by (rule ingest_accepts [OF st r(4) rep(1) b(3), of h b p]) (use rep(2) h(1,3) in \<open>auto simp: head_for_def\<close>)
  define s where "s = set_replica w r rep'"
  define q where "q = touch (try_add_node ?n e s)"
  have s: "room_ok s" "accepted s = accepted r" "local s = local r" "local_key s = local_key r" "remotes s = bt_insert w rep' (remotes r)"
    using r(1) by (simp_all add: s_def accepted_def) (simp_all add: set_replica_def)
  have new: "?n \<notin> fst ` accepted r" using d by (auto simp: feed_entries_def)
  then have acc: "accepted q = insert (?n, full_deps ?n e, ent_payload e) (accepted r)"
    using accepted_try_add [OF room_ok_delivery [OF s(1)], of ?n e] s(2) by (simp add: q_def touch_def accepted_def)
  have ok: "room_ok q" using room_ok_try_add [OF s(1), of ?n e] s(4) r(3) by (simp add: q_def)
  have a: "advance V (drain_pending q) = (Inr (), r')"
    using run i b(1) r(3) by (auto simp: on_inbound_def q_def s_def split: prod.splits sum.splits)
  note fr = advance_frame [OF a]
  have W: "room_writers r' = room_writers r" "w \<in> room_writers r"
    using fr s(4,5) r(4) by (auto simp: room_writers_def q_def touch_def dest!: map_of_SomeD intro: rev_image_eqI)
  let ?F = "feeds(w := ?cs @ [b])"
  have A: "accepted r = (\<Union>v \<in> room_writers r. feed_entries v (feeds v))" using d by blast
  have con: "consistent (accepted q)" unfolding acc by (rule consistent_insert [OF _ new]) (simp only: A consistent_feeds)
  have "accepted r' = accepted q" using drain_pending_ok(5) [OF room_ok_delivery [OF ok] con] fr by (simp add: accepted_def)
  moreover have "(\<Union>v \<in> room_writers r. feed_entries v (?F v)) =
      insert (?n, full_deps ?n e, ent_payload e) (\<Union>v \<in> room_writers r. feed_entries v (feeds v))"
    using feed_entries_snoc [OF b(1), of w ?cs] W(2) by (auto split: if_splits)
  ultimately have "accepted r' = (\<Union>v \<in> room_writers r. feed_entries v (?F v))" using acc d by simp
  moreover have "stored_replica (en_crypto V) (en_hash V) ok content rep' w (?cs @ [b])"
    using rep' rep(2) h(1,2) by (simp add: stored_replica_def head_for_def)
  moreover have "feed_ok (?cs @ [b])" using d W(2) b(1,2) by (auto simp: feed_ok_def)
  moreover have "local r' = local r" "local_key r' = local_key r" "remotes r' = bt_insert w rep' (remotes r)"
    using fr s(3-5) by (simp_all add: q_def touch_def)
  moreover have "local_key r \<notin> fst ` set (remotes r')" using W(1) d r(3) \<open>remotes r' = _\<close> by auto
  ultimately show ?thesis unfolding durable_def W(1) using d r(3) by auto
qed

text \<open>A room that has finalized nothing yet is up to date after an append, unless something waits.\<close>

lemma appended_up_to_date:
  assumes "room_ok r" "pure_projection (en_proj V)" "finalized_len r = 0" "finalized_proj r = genesis_proj r" "backlog r = []"
    and "local_append V r op = (Inr out, r')"
  shows "up_to_date V r'"
proof -
  obtain c L where s: "lin r' = L" "local r' = c" "local_key r' = local_key r" "backlog r' = backlog r" "genesis_proj r' = genesis_proj r"
    "advance V (touch (r\<lparr> local := c, lin := L, payloads := bt_insert (NodeId (local_key r) (hc_len (local r))) op (payloads r) \<rparr>)) = (Inr (), r')"
    by (rule local_append_Inr [OF assms(1,6)])
  let ?q = "touch (r\<lparr> local := c, lin := L, payloads := bt_insert (NodeId (local_key r) (hc_len (local r))) op (payloads r) \<rparr>)"
  have ok: "room_ok r'" using local_append_keeps [OF assms(1,6)] by simp
  note fr = advance_frame [OF s(6)]
  then have q: "room_ok ?q" using ok s(1-4) assms(3) by (simp add: room_ok_def touch_def)
  have "folds_exact (en_proj V) ?q" using q assms(3,4) by (intro folds_exact_fresh) (simp_all add: touch_def)
  note f = advance_folds [OF q this s(6)]
  have "fold_op (en_proj V) r' = fold_op (en_proj V) ?q" using fr by (intro fold_op_same_payloads) simp
  then show ?thesis using f fr ok s(4) assms(2,5) by (auto simp: up_to_date_def)
qed

section \<open>An example\<close>

text \<open>Stores kept on a shelf, and a room over them.\<close>

definition shelf_factory :: "(unit, memory_store, (bytes \<times> memory_store) list) store_factory" where
  "shelf_factory = \<lparr> sf_open = (\<lambda>f w. (Inr (case map_of f w of Some s \<Rightarrow> s | None \<Rightarrow> []), f)), sf_writers = (\<lambda>f. Some (map fst f)) \<rparr>"

definition shelf_env :: "(unit, memory_store, unit, (bytes \<times> memory_store) list, kv_error, kv_projection, (bytes, bytes) btmap) room_env" where
  "shelf_env = \<lparr> en_crypto = toy_crypto, en_hash = squeeze32, en_store = demo_store, en_factory = shelf_factory,
     en_proj = kv_proj, good_key = (\<lambda>w. length w = 32) \<rparr>"

definition shelf_room :: "(memory_store, (bytes \<times> memory_store) list, kv_projection) room" where
  "shelf_room = room_start toy_crypto demo_config (hc_new toy_crypto [1] entry_codec []) [] \<lparr> kv_state = [] \<rparr>"

lemma shelf_env_simps [simp]:
  "en_crypto shelf_env = toy_crypto" "en_hash shelf_env = squeeze32" "en_store shelf_env = demo_store"
  "en_factory shelf_env = shelf_factory" "en_proj shelf_env = kv_proj"
  by (simp_all add: shelf_env_def)

lemma shelf_room_durable: "room_ok shelf_room" "durable shelf_env bt_inv bt_get (\<lambda>_. []) shelf_room"
proof -
  show "room_ok shelf_room" unfolding shelf_room_def by (rule room_start_ok)
  have "core_inv toy_crypto squeeze32 bt_inv bt_get (hc_new toy_crypto [1] entry_codec []) []" by (rule core_inv_new) simp
  moreover have "accepted shelf_room = {}" unfolding shelf_room_def by (rule room_start_empty(1))
  ultimately show "durable shelf_env bt_inv bt_get (\<lambda>_. []) shelf_room"
    by (simp add: durable_def stored_core_def feed_ok_def feed_entries_def sized_def shelf_room_def room_start_def hc_new_def demo_config_def)
qed

lemma shelf_appended:
  obtains h p r' where "local_append shelf_env shelf_room (kv_put [1] [2]) = (Inr [\<lparr> ob_msg = Head (local_key shelf_room) h, ob_to = Gossip \<rparr>,
      \<lparr> ob_msg = Block (local_key shelf_room) h 0 (encode entry_codec \<lparr> ent_heads = [], ent_payload = kv_put [1] [2] \<rparr>) p, ob_to = Clients \<rparr>], r')"
    "durable shelf_env bt_inv bt_get ((\<lambda>_. [])(local_key shelf_room := [encode entry_codec \<lparr> ent_heads = [], ent_payload = kv_put [1] [2] \<rparr>])) r'"
proof -
  let ?r = shelf_room and ?e = "\<lparr> ent_heads = [], ent_payload = kv_put [1] [2] \<rparr> :: entry"
  have r: "own_recovery ?r = None" "hc_len (local ?r) = 0" "hc_codec (local ?r) = entry_codec" "public (local ?r) = local_key ?r" "heads (lin ?r) = []"
    by (simp_all add: shelf_room_def room_start_def demo_config_def hc_new_def hc_len_def tree_ok_len [OF tree_ok_empty] new_linearizer_def heads_def)
  have inv: "core_inv toy_crypto squeeze32 bt_inv bt_get (local ?r) []"
    using core_inv_new [of bt_inv "[]" toy_crypto squeeze32 bt_get "[1]" entry_codec] by (simp add: shelf_room_def room_start_def)
  have sz: "Suc (length ([] :: bytes list)) < KEY_USERDATA" "2 * Suc (length ([] :: bytes list)) < 2 ^ 64" by (simp_all add: KEY_USERDATA_def)
  have fits: "\<forall>b :: bytes. True" by simp
  have len: "0 < hc_len (local ?r) \<longrightarrow> contains (lin ?r) (NodeId (local_key ?r) (hc_len (local ?r) - 1))" using r(2) by simp
  from local_append_total [of shelf_env bt_inv bt_get "\<lambda>_. True", unfolded shelf_env_simps, OF demo.total_store_axioms fits sig_correct_toy
      shelf_room_durable(1) r(1) len inv r(3,4) sz refl, of "kv_put [1] [2]", unfolded r(5)]
  obtain h p r' where a: "local_append shelf_env ?r (kv_put [1] [2]) = (Inr [\<lparr> ob_msg = Head (local_key ?r) h, ob_to = Gossip \<rparr>,
      \<lparr> ob_msg = Block (local_key ?r) h 0 (encode entry_codec ?e) p, ob_to = Clients \<rparr>], r')" by auto
  have dec: "decode entry_codec (encode entry_codec ?e) = Inr ?e" by code_simp
  have sized: "sized ([] @ [encode entry_codec ?e])" by code_simp
  from local_append_durable [of shelf_env bt_inv bt_get "\<lambda>_. True", unfolded shelf_env_simps, OF demo.total_store_axioms fits sig_correct_toy
      shelf_room_durable a, of ?e, unfolded r(5), OF refl refl dec sized sz(1)]
  show thesis by (intro that [OF a]) simp
qed

lemma shelf_heads: "heads (lin shelf_room) = []" "hc_len (local shelf_room) = 0"
  by (simp_all add: shelf_room_def room_start_def demo_config_def hc_new_def hc_len_def tree_ok_len [OF tree_ok_empty] new_linearizer_def heads_def)

lemma shelf_append_fields:
  assumes "local_append shelf_env shelf_room op = (Inr out, r')"
  shows "remotes r' = []" "author (local r') = [1]" "genesis_proj r' = \<lparr> kv_state = [] \<rparr>" "base (lin r') = []" "base_clock (lin r') = []" "indexers (lin r') = None"
proof -
  obtain j c1 c L where s: "hc_append (en_crypto shelf_env) (en_hash shelf_env) (en_store shelf_env) (local shelf_room)
      \<lparr> ent_heads = heads (lin shelf_room), ent_payload = op \<rparr> = (Inr j, c1)" "hc_persist (en_store shelf_env) c1 = (Inr (), c)"
    "add (lin shelf_room) (NodeId (local_key shelf_room) (hc_len (local shelf_room))) (heads (lin shelf_room)) = Inr L"
    "lin r' = L" "local r' = c" "remotes r' = remotes shelf_room" "genesis_proj r' = genesis_proj shelf_room"
    by (rule local_append_Inr [OF shelf_room_durable(1) assms])
  have r: "lin shelf_room = new_linearizer" "remotes shelf_room = []" "genesis_proj shelf_room = \<lparr> kv_state = [] \<rparr>" "author (local shelf_room) = [1]"
    by (simp_all add: shelf_room_def room_start_def demo_config_def hc_new_def)
  show "base (lin r') = []" "base_clock (lin r') = []" "indexers (lin r') = None"
    using same_config_add [OF s(3)] s(4) r(1) by (simp_all add: same_config_def new_linearizer_def)
  have sc: "stored_core toy_crypto squeeze32 bt_inv bt_get (local shelf_room) []" using shelf_room_durable(2) by (simp add: durable_def)
  have fits: "\<forall>b :: bytes. True" "Suc (length ([] :: bytes list)) < KEY_USERDATA" by (simp_all add: KEY_USERDATA_def)
  have "author c = author (local shelf_room)"
    using stored_core_append [OF demo.total_store_axioms fits(1) sig_correct_toy sc fits(2) s(1,2) [unfolded shelf_env_simps]] by (rule conjunct2 [OF conjunct2])
  then show "author (local r') = [1]" using s(5) r(4) by simp
  show "remotes r' = []" "genesis_proj r' = \<lparr> kv_state = [] \<rparr>" using s(6,7) r(2,3) by simp_all
qed

section \<open>Properties\<close>





end
