(* ===== verification/Room_Server.thy ===== *)
theory Room_Server
  imports Room_Sync
begin

text \<open>
  The rooms of a node (\<open>server.rs\<close>), the transports that carry their messages (\<open>transport.rs\<close>) and the driver
  that moves messages between them (\<open>driver.rs\<close>).
\<close>

section \<open>The server\<close>

text \<open>\<open>SecretKey::from_seed\<close> is the identity on seeds: a secret key is its seed.\<close>

record server_config =
  identity_seed :: bytes
  sc_indexers :: "bytes list"
  sc_stale_after :: "nat option"

record ('s, 'f, 'p) server =
  sv_seed :: bytes
  sv_indexers :: "bytes list"
  replica_stale_after :: "nat option"
  rooms :: "(bytes, ('s, 'f, 'p) room) btmap"
  sv_projection :: 'p
  own_projection :: "(bytes \<Rightarrow> 'p option) option"
  new_store :: "bytes \<Rightarrow> 'f"

definition server_open :: "server_config \<Rightarrow> 'p \<Rightarrow> (bytes \<Rightarrow> 'f) \<Rightarrow> ('s, 'f, 'p) server" where
  "server_open cfg P new =
     \<lparr> sv_seed = identity_seed cfg, sv_indexers = sc_indexers cfg, replica_stale_after = sc_stale_after cfg, rooms = [],
       sv_projection = P, own_projection = None, new_store = new \<rparr>"

definition with_own_projections :: "(bytes \<Rightarrow> 'p option) \<Rightarrow> ('s, 'f, 'p) server \<Rightarrow> ('s, 'f, 'p) server" where
  "with_own_projections own sv = sv\<lparr> own_projection := Some own \<rparr>"

definition initial_projection :: "('s, 'f, 'p) server \<Rightarrow> bytes \<Rightarrow> 'p" where
  "initial_projection sv rid =
     (case Option.bind (own_projection sv) (\<lambda>own. own rid) of Some P \<Rightarrow> P | None \<Rightarrow> sv_projection sv)"

text \<open>\<open>RoomConfig::original\<close> and \<open>RoomConfig::replicated\<close>.\<close>

definition original_config :: "bytes \<Rightarrow> bytes list \<Rightarrow> room_config" where
  "original_config sk ix = \<lparr> rc_identity = sk, rc_indexers = ix, rc_origin = Original \<rparr>"

definition replicated_config :: "bytes \<Rightarrow> bytes list \<Rightarrow> nat option \<Rightarrow> room_config" where
  "replicated_config sk ix stale = \<lparr> rc_identity = sk, rc_indexers = ix, rc_origin = Replicated stale \<rparr>"

definition open_room :: "('e, 's, 'oe, 'f, 'pe, 'p, 'st) room_env \<Rightarrow> room_config \<Rightarrow> ('s, 'f, 'p) server \<Rightarrow> bytes \<Rightarrow>
    (('e, 'oe) room_error, unit, ('s, 'f, 'p) server) outcome" where
  "open_room V cfg sv rid =
     (if bt_contains (rooms sv) rid then (Inr (), sv)
      else case room_open V cfg (new_store sv rid) (initial_projection sv rid) of
             Inl e \<Rightarrow> (Inl e, sv)
           | Inr r \<Rightarrow> (Inr (), sv\<lparr> rooms := bt_insert rid r (rooms sv) \<rparr>))"

definition host :: "('e, 's, 'oe, 'f, 'pe, 'p, 'st) room_env \<Rightarrow> ('s, 'f, 'p) server \<Rightarrow> bytes \<Rightarrow>
    (('e, 'oe) room_error, unit, ('s, 'f, 'p) server) outcome" where
  "host V sv rid = open_room V (original_config (sv_seed sv) (sv_indexers sv)) sv rid"

definition join_remote_with_indexers :: "('e, 's, 'oe, 'f, 'pe, 'p, 'st) room_env \<Rightarrow> ('s, 'f, 'p) server \<Rightarrow> bytes \<Rightarrow> bytes list \<Rightarrow>
    (('e, 'oe) room_error, unit, ('s, 'f, 'p) server) outcome" where
  "join_remote_with_indexers V sv rid ix = open_room V (replicated_config (sv_seed sv) ix (replica_stale_after sv)) sv rid"

definition join_remote :: "('e, 's, 'oe, 'f, 'pe, 'p, 'st) room_env \<Rightarrow> ('s, 'f, 'p) server \<Rightarrow> bytes \<Rightarrow>
    (('e, 'oe) room_error, unit, ('s, 'f, 'p) server) outcome" where
  "join_remote V sv rid = join_remote_with_indexers V sv rid (sv_indexers sv)"

definition is_replicated :: "('s, 'f, 'p) room \<Rightarrow> bool" where
  "is_replicated r = (case rm_origin r of Replicated _ \<Rightarrow> True | Original \<Rightarrow> False)"

definition evict_stale :: "(('s, 'f, 'p) room \<Rightarrow> bool) \<Rightarrow> ('s, 'f, 'p) server \<Rightarrow> bytes list \<times> ('s, 'f, 'p) server" where
  "evict_stale stale sv =
     (let gone = map fst (filter (\<lambda>(rid, r). is_replicated r \<and> stale r) (rooms sv))
      in (gone, sv\<lparr> rooms := fold bt_remove gone (rooms sv) \<rparr>))"

section \<open>Transports\<close>

record inbound =
  in_room :: bytes
  in_from :: bytes
  in_msg :: sync_message

record ('te, 't) transport =
  tr_dispatch :: "'t \<Rightarrow> bytes \<Rightarrow> outbound \<Rightarrow> ('te, unit, 't) outcome"
  tr_drain :: "'t \<Rightarrow> inbound list \<times> 't"

text \<open>\<open>CompositeTransport\<close>: every connection is tried, the first error is returned.\<close>

fun composite_dispatch :: "('te, 't) transport \<Rightarrow> bytes \<Rightarrow> outbound \<Rightarrow> 't list \<Rightarrow> 'te option \<Rightarrow> 'te option \<times> 't list" where
  "composite_dispatch T rid out [] first_err = (first_err, [])"
| "composite_dispatch T rid out (t # ts) first_err =
     (let (x, t) = tr_dispatch T t rid out;
          first_err = (case x of Inl e \<Rightarrow> (if first_err = None then Some e else first_err) | Inr _ \<Rightarrow> first_err);
          (err, ts) = composite_dispatch T rid out ts first_err
      in (err, t # ts))"

fun composite_drain :: "('te, 't) transport \<Rightarrow> 't list \<Rightarrow> inbound list \<times> 't list" where
  "composite_drain T [] = ([], [])"
| "composite_drain T (t # ts) =
     (let (xs, t) = tr_drain T t; (ys, ts) = composite_drain T ts in (xs @ ys, t # ts))"

definition composite_transport :: "('te, 't) transport \<Rightarrow> ('te, 't list) transport" where
  "composite_transport T = \<lparr>
     tr_dispatch = (\<lambda>ts rid out. case composite_dispatch T rid out ts None of
        (Some e, ts) \<Rightarrow> (Inl e, ts) | (None, ts) \<Rightarrow> (Inr (), ts)),
     tr_drain = composite_drain T \<rparr>"

definition both_transport :: "('te, 'a) transport \<Rightarrow> ('te, 'b) transport \<Rightarrow> ('te, 'a \<times> 'b) transport" where
  "both_transport A B = \<lparr>
     tr_dispatch = (\<lambda>(a, b) rid out.
        let (ra, a) = tr_dispatch A a rid out; (rb, b) = tr_dispatch B b rid out
        in (bind_res ra (\<lambda>_. rb), (a, b))),
     tr_drain = (\<lambda>(a, b). let (xs, a) = tr_drain A a; (ys, b) = tr_drain B b in (xs @ ys, (a, b))) \<rparr>"

section \<open>The driver\<close>

record ('s, 'f, 'p, 't) driver =
  dr_server :: "('s, 'f, 'p) server"
  dr_transport :: 't
  announce_every_ticks :: nat
  dr_tick :: nat

definition driver_new :: "('s, 'f, 'p) server \<Rightarrow> 't \<Rightarrow> nat \<Rightarrow> ('s, 'f, 'p, 't) driver" where
  "driver_new sv t every = \<lparr> dr_server = sv, dr_transport = t, announce_every_ticks = every, dr_tick = 0 \<rparr>"

definition dispatch :: "('te, 't) transport \<Rightarrow> bytes \<Rightarrow> outbound \<Rightarrow> ('s, 'f, 'p, 't) driver \<Rightarrow> ('s, 'f, 'p, 't) driver" where
  "dispatch T rid out d = d\<lparr> dr_transport := snd (tr_dispatch T (dr_transport d) rid out) \<rparr>"

definition dispatch_all :: "('te, 't) transport \<Rightarrow> bytes \<Rightarrow> outbound list \<Rightarrow> ('s, 'f, 'p, 't) driver \<Rightarrow> ('s, 'f, 'p, 't) driver" where
  "dispatch_all T rid outs d = fold (dispatch T rid) outs d"

definition set_room :: "bytes \<Rightarrow> ('s, 'f, 'p) room \<Rightarrow> ('s, 'f, 'p, 't) driver \<Rightarrow> ('s, 'f, 'p, 't) driver" where
  "set_room rid r d = d\<lparr> dr_server := (dr_server d)\<lparr> rooms := bt_insert rid r (rooms (dr_server d)) \<rparr> \<rparr>"

definition driver_announce :: "('te, 't) transport \<Rightarrow> bytes \<Rightarrow> ('s, 'f, 'p, 't) driver \<Rightarrow> ('s, 'f, 'p, 't) driver" where
  "driver_announce T rid d =
     (case bt_get (rooms (dr_server d)) rid of None \<Rightarrow> d | Some r \<Rightarrow> dispatch_all T rid (announce r) d)"

text \<open>
  \<open>host\<close>, \<open>join_remote\<close> and \<open>join_remote_with_indexers\<close> of the driver, given the one of the server.
\<close>

definition driver_open :: "('te, 't) transport \<Rightarrow> bytes \<Rightarrow> (('e, 'oe) room_error, unit, ('s, 'f, 'p) server) outcome \<Rightarrow>
    ('s, 'f, 'p, 't) driver \<Rightarrow> (('e, 'oe) room_error, unit, ('s, 'f, 'p, 't) driver) outcome" where
  "driver_open T rid opened d =
     and_then opened (\<lambda>_ sv. (Inr (), driver_announce T rid (d\<lparr> dr_server := sv \<rparr>))) (\<lambda>sv. d\<lparr> dr_server := sv \<rparr>)"

definition driver_host :: "('e, 's, 'oe, 'f, 'pe, 'p, 'st) room_env \<Rightarrow> ('te, 't) transport \<Rightarrow> bytes \<Rightarrow> ('s, 'f, 'p, 't) driver \<Rightarrow>
    (('e, 'oe) room_error, unit, ('s, 'f, 'p, 't) driver) outcome" where
  "driver_host V T rid d = driver_open T rid (host V (dr_server d) rid) d"

definition driver_join_remote :: "('e, 's, 'oe, 'f, 'pe, 'p, 'st) room_env \<Rightarrow> ('te, 't) transport \<Rightarrow> bytes \<Rightarrow> ('s, 'f, 'p, 't) driver \<Rightarrow>
    (('e, 'oe) room_error, unit, ('s, 'f, 'p, 't) driver) outcome" where
  "driver_join_remote V T rid d = driver_open T rid (join_remote V (dr_server d) rid) d"

definition driver_join_remote_with_indexers :: "('e, 's, 'oe, 'f, 'pe, 'p, 'st) room_env \<Rightarrow> ('te, 't) transport \<Rightarrow> bytes \<Rightarrow> bytes list \<Rightarrow>
    ('s, 'f, 'p, 't) driver \<Rightarrow> (('e, 'oe) room_error, unit, ('s, 'f, 'p, 't) driver) outcome" where
  "driver_join_remote_with_indexers V T rid ix d = driver_open T rid (join_remote_with_indexers V (dr_server d) rid ix) d"

definition driver_append :: "('e, 's, 'oe, 'f, 'pe, 'p, 'st) room_env \<Rightarrow> ('te, 't) transport \<Rightarrow> bytes \<Rightarrow> bytes \<Rightarrow> ('s, 'f, 'p, 't) driver \<Rightarrow>
    (('e, 'oe) room_error, unit, ('s, 'f, 'p, 't) driver) outcome" where
  "driver_append V T rid op d =
     (case bt_get (rooms (dr_server d)) rid of
        None \<Rightarrow> (Inr (), d)
      | Some r \<Rightarrow> and_then (local_append V r op) (\<lambda>outs r. (Inr (), dispatch_all T rid outs (set_room rid r d))) (\<lambda>r. set_room rid r d))"

text \<open>
  A room error is dropped by the driver; a panic and a computation that does not return are not errors: then
  \<open>tick\<close> has no result.
\<close>

fun room_aborts :: "('e, 'oe) room_error \<Rightarrow> bool" where
  "room_aborts RoomPanic = True"
| "room_aborts RoomStuck = True"
| "room_aborts (CoreError Panic) = True"
| "room_aborts (CoreError (CodecFailed CapacityOverflow)) = True"
| "room_aborts (EntryError CapacityOverflow) = True"
| "room_aborts _ = False"

definition room_call :: "('te, 't) transport \<Rightarrow> bytes \<Rightarrow> (('s, 'f, 'p) room \<Rightarrow> (('e, 'oe) room_error, outbound list, ('s, 'f, 'p) room) outcome) \<Rightarrow>
    ('s, 'f, 'p, 't) driver \<Rightarrow> ('s, 'f, 'p, 't) driver option" where
  "room_call T rid f d =
     (case bt_get (rooms (dr_server d)) rid of
        None \<Rightarrow> Some d
      | Some r \<Rightarrow>
          (case f r of
             (Inl e, r) \<Rightarrow> if room_aborts e then None else Some (set_room rid r d)
           | (Inr outs, r) \<Rightarrow> Some (dispatch_all T rid outs (set_room rid r d))))"

fun pump_inbound :: "('e, 's, 'oe, 'f, 'pe, 'p, 'st) room_env \<Rightarrow> ('te, 't) transport \<Rightarrow> inbound list \<Rightarrow> ('s, 'f, 'p, 't) driver \<Rightarrow>
    ('s, 'f, 'p, 't) driver option" where
  "pump_inbound V T [] d = Some d"
| "pump_inbound V T (i # is) d =
     Option.bind (room_call T (in_room i) (\<lambda>r. on_inbound V r (in_from i) (in_msg i)) d) (pump_inbound V T is)"

fun pump_checkpoints :: "('e, 's, 'oe, 'f, 'pe, 'p, 'st) room_env \<Rightarrow> ('te, 't) transport \<Rightarrow> bytes list \<Rightarrow> ('s, 'f, 'p, 't) driver \<Rightarrow>
    ('s, 'f, 'p, 't) driver option" where
  "pump_checkpoints V T [] d = Some d"
| "pump_checkpoints V T (rid # rids) d = Option.bind (room_call T rid (checkpoint V) d) (pump_checkpoints V T rids)"

fun poll_rooms :: "bytes list \<Rightarrow> ('s, 'f, 'p, 't) driver \<Rightarrow> (bytes \<times> finalized_op list) list \<times> ('s, 'f, 'p, 't) driver" where
  "poll_rooms [] d = ([], d)"
| "poll_rooms (rid # rids) d =
     (case bt_get (rooms (dr_server d)) rid of
        None \<Rightarrow> poll_rooms rids d
      | Some r \<Rightarrow>
          let (deltas, r) = poll_finalized r; (rest, d) = poll_rooms rids (set_room rid r d)
          in (if deltas = [] then rest else (rid, deltas) # rest, d))"

definition room_ids :: "('s, 'f, 'p, 't) driver \<Rightarrow> bytes list" where
  "room_ids d = map fst (rooms (dr_server d))"

definition tick :: "('e, 's, 'oe, 'f, 'pe, 'p, 'st) room_env \<Rightarrow> ('te, 't) transport \<Rightarrow> ('s, 'f, 'p, 't) driver \<Rightarrow>
    ((bytes \<times> finalized_op list) list \<times> ('s, 'f, 'p, 't) driver) option" where
  "tick V T d =
     (let (ins, t) = tr_drain T (dr_transport d)
      in Option.bind (pump_inbound V T ins (d\<lparr> dr_transport := t \<rparr>)) (\<lambda>d.
         if \<exists>(rid, r) \<in> set (rooms (dr_server d)). needs_checkpoint r = None then None
         else let hosts = map fst (filter (\<lambda>(rid, r). needs_checkpoint r = Some True) (rooms (dr_server d)))
              in Option.bind (pump_checkpoints V T hosts d) (\<lambda>d.
                 let d = (if announce_every_ticks d \<noteq> 0 \<and> dr_tick d mod announce_every_ticks d = 0
                          then fold (driver_announce T) (room_ids d) d else d);
                     d = d\<lparr> dr_tick := add64 (dr_tick d) 1 \<rparr>
                 in Some (poll_rooms (room_ids d) d))))"

section \<open>The rooms of a server\<close>

definition server_ok :: "('s, 'f, 'p) server \<Rightarrow> bool" where
  "server_ok sv \<longleftrightarrow> bt_inv (rooms sv) \<and> (\<forall>rid r. bt_get (rooms sv) rid = Some r \<longrightarrow> room_ok r)"

lemma replay_writer_origin: "replay_writer f w is r = (x, r') \<Longrightarrow> rm_origin r' = rm_origin r"
proof (induction "is" arbitrary: r)
  case (Cons i "is")
  have "rm_origin (try_add_node n e q) = rm_origin q" for n e q by (simp add: try_add_node_def split: sum.split add_error.split)
  then show ?case using Cons by (auto split: sum.splits option.splits)
qed simp

lemma replay_remotes_origin: "replay_remotes S reps r = (x, r') \<Longrightarrow> rm_origin r' = rm_origin r"
proof (induction reps arbitrary: r)
  case (Cons y reps)
  then show ?case by (cases y) (auto simp: and_then_iff dest!: replay_writer_origin)
qed simp

lemma advance_origin: "advance V (drain_pending r) = (x, r') \<Longrightarrow> rm_origin r' = rm_origin r"
  by (auto simp: advance_def advance_finalized_def drain_pending_def Let_def split: option.splits if_splits prod.splits)

lemma room_open_origin:
  assumes "room_open V cfg f P = Inr r"
  shows "rm_origin r = rc_origin cfg"
proof -
  obtain c f' ws r0 where o: "open_writers V ws (room_start (en_crypto V) cfg c f' P) = Inr r0"
      "(case replay V r0 of (Inl e, _) \<Rightarrow> Inl e | (Inr _, r) \<Rightarrow> Inr r) = Inr r"
    using assms unfolding room_open_def by (auto split: option.splits)
  obtain x r1 where "replay V r0 = (x, r1)" by fastforce
  then have rep: "replay V r0 = (Inr (), r)" using o(2) by (auto split: sum.splits)
  have "rm_origin r = rm_origin r0"
    using rep unfolding replay_def by (auto dest!: replay_writer_origin replay_remotes_origin advance_origin)
  moreover have "rm_origin r0 = rc_origin cfg" using open_writers_keeps [OF o(1)] by (auto simp: room_start_def)
  ultimately show ?thesis by simp
qed

lemma open_room_ok:
  assumes "server_ok sv" "open_room V cfg sv rid = (x, sv')"
  shows "server_ok sv'"
  using assms by (auto simp: server_ok_def open_room_def dest: room_open_ok split: if_splits sum.splits)

lemma bt_get_fold_remove: "bt_get (fold bt_remove ks m) = (\<lambda>k. if k \<in> set ks then None else bt_get m k)"
  by (induction ks arbitrary: m) (auto simp: fun_eq_iff)

lemma bt_inv_fold_remove: "bt_inv m \<Longrightarrow> bt_inv (fold bt_remove ks m)"
  by (induction ks arbitrary: m) auto

lemma evict_stale_exact:
  assumes "bt_inv (rooms sv)" "evict_stale stale sv = (gone, sv')"
  shows "bt_get (rooms sv') rid = (case bt_get (rooms sv) rid of
      Some r \<Rightarrow> if is_replicated r \<and> stale r then None else Some r | None \<Rightarrow> None)"
    "rid \<in> set gone \<longleftrightarrow> (\<exists>r. bt_get (rooms sv) rid = Some r \<and> is_replicated r \<and> stale r)" "bt_inv (rooms sv')"
proof -
  show g: "rid \<in> set gone \<longleftrightarrow> (\<exists>r. bt_get (rooms sv) rid = Some r \<and> is_replicated r \<and> stale r)" for rid
    using assms by (force simp: evict_stale_def Let_def bt_get_iff)
  show "bt_get (rooms sv') rid = (case bt_get (rooms sv) rid of
      Some r \<Rightarrow> if is_replicated r \<and> stale r then None else Some r | None \<Rightarrow> None)"
    using assms(2) g [of rid] by (auto simp: evict_stale_def Let_def bt_get_fold_remove split: option.splits)
  show "bt_inv (rooms sv')" using assms by (auto simp: evict_stale_def Let_def bt_inv_fold_remove)
qed

section \<open>The driver keeps the rooms\<close>

definition driver_ok :: "('s, 'f, 'p, 't) driver \<Rightarrow> ('s, 'f, 'p, 't) driver \<Rightarrow> bool" where
  "driver_ok d d' \<longleftrightarrow> server_ok (dr_server d') \<and> (\<forall>rid. bt_contains (rooms (dr_server d')) rid \<longleftrightarrow> bt_contains (rooms (dr_server d)) rid)"

lemma driver_ok_trans: "driver_ok d d' \<Longrightarrow> driver_ok d' d'' \<Longrightarrow> driver_ok d d''"
  by (auto simp: driver_ok_def)

lemma driver_ok_server: "driver_ok d d' \<Longrightarrow> server_ok (dr_server d')"
  by (simp add: driver_ok_def)

lemma dispatch_all_server [simp]: "dr_server (dispatch_all T rid outs d) = dr_server d"
  by (induction outs arbitrary: d) (auto simp: dispatch_all_def dispatch_def)

lemma driver_announce_server [simp]: "dr_server (driver_announce T rid d) = dr_server d"
  by (simp add: driver_announce_def split: option.split)

lemma fold_announce_server [simp]: "dr_server (fold (driver_announce T) rids d) = dr_server d"
  by (induction rids arbitrary: d) simp_all

lemma set_room_ok:
  assumes "server_ok (dr_server d)" "bt_contains (rooms (dr_server d)) rid" "room_ok r"
  shows "driver_ok d (set_room rid r d)"
  using assms by (auto simp: driver_ok_def server_ok_def set_room_def)

lemma room_call_ok:
  assumes ok: "server_ok (dr_server d)" and keeps: "\<And>r x r'. room_ok r \<Longrightarrow> f r = (x, r') \<Longrightarrow> room_ok r'"
    and run: "room_call T rid f d = Some d'"
  shows "driver_ok d d'"
proof (cases "bt_get (rooms (dr_server d)) rid")
  case (Some r)
  then have "room_ok r" using ok by (auto simp: server_ok_def)
  moreover obtain x r' where f: "f r = (x, r')" by fastforce
  moreover have "bt_contains (rooms (dr_server d)) rid" using Some by (simp add: bt_contains_def)
  ultimately have "driver_ok d (set_room rid r' d)" using set_room_ok [OF ok] keeps by blast
  moreover have "dr_server d' = dr_server (set_room rid r' d)"
    using run Some f by (cases x) (auto simp: room_call_def split: if_splits)
  ultimately show ?thesis by (simp add: driver_ok_def)
qed (use run ok in \<open>auto simp: room_call_def driver_ok_def\<close>)

lemma pump_inbound_ok:
  "server_ok (dr_server d) \<Longrightarrow> pump_inbound V T is d = Some d' \<Longrightarrow> driver_ok d d'"
proof (induction "is" arbitrary: d)
  case Nil
  then show ?case by (simp add: driver_ok_def)
next
  case (Cons i "is")
  obtain d1 where d1: "room_call T (in_room i) (\<lambda>r. on_inbound V r (in_from i) (in_msg i)) d = Some d1"
      "pump_inbound V T is d1 = Some d'"
    using Cons.prems(2) by (auto simp: bind_eq_Some_conv)
  have "driver_ok d d1" by (rule room_call_ok [OF Cons.prems(1) _ d1(1)]) (use on_inbound_keeps in blast)
  then show ?case using Cons.IH [OF driver_ok_server d1(2)] driver_ok_trans by blast
qed

lemma pump_checkpoints_ok:
  "server_ok (dr_server d) \<Longrightarrow> pump_checkpoints V T rids d = Some d' \<Longrightarrow> driver_ok d d'"
proof (induction rids arbitrary: d)
  case Nil
  then show ?case by (simp add: driver_ok_def)
next
  case (Cons rid rids)
  obtain d1 where d1: "room_call T rid (checkpoint V) d = Some d1" "pump_checkpoints V T rids d1 = Some d'"
    using Cons.prems(2) by (auto simp: bind_eq_Some_conv)
  have "driver_ok d d1" by (rule room_call_ok [OF Cons.prems(1) _ d1(1)]) (use checkpoint_keeps in blast)
  then show ?case using Cons.IH [OF driver_ok_server d1(2)] driver_ok_trans by blast
qed

lemma poll_rooms_ok:
  "server_ok (dr_server d) \<Longrightarrow> poll_rooms rids d = (out, d') \<Longrightarrow> driver_ok d d'"
proof (induction rids arbitrary: d out)
  case Nil
  then show ?case by (simp add: driver_ok_def)
next
  case (Cons rid rids)
  show ?case
  proof (cases "bt_get (rooms (dr_server d)) rid")
    case (Some r)
    let ?d = "set_room rid (r\<lparr> finalized_since_poll := [] \<rparr>) d"
    obtain rest where rest: "poll_rooms rids ?d = (rest, d')"
      using Cons.prems(2) Some by (auto simp: poll_finalized_def Let_def split: prod.splits)
    have "room_ok r" "bt_contains (rooms (dr_server d)) rid" using Cons.prems(1) Some by (auto simp: server_ok_def bt_contains_def)
    then have "driver_ok d ?d" using set_room_ok [OF Cons.prems(1)] by simp
    then show ?thesis using Cons.IH [OF driver_ok_server rest] driver_ok_trans by blast
  qed (use Cons in simp)
qed

section \<open>Properties\<close>


text \<open>
  Property C18. Hosting and eviction: eviction drops exactly the replicated rooms judged stale and returns their ids; a room
  that was created by hosting is consistent, is an original and is never evicted, whatever the policy says.
\<close>

theorem hosted_room_is_kept:
  assumes "server_ok sv" "\<not> bt_contains (rooms sv) rid" "host V sv rid = (Inr (), sv1)" "evict_stale stale sv1 = (gone, sv2)"
  shows "server_ok sv2 \<and> rid \<notin> set gone \<and>
    (\<exists>r. bt_get (rooms sv2) rid = Some r \<and> room_ok r \<and> rm_origin r = Original) \<and>
    (\<forall>k. bt_get (rooms sv2) k = (if k \<in> set gone then None else bt_get (rooms sv1) k)) \<and>
    (\<forall>k. k \<in> set gone \<longleftrightarrow> (\<exists>r. bt_get (rooms sv) k = Some r \<and> is_replicated r \<and> stale r))"
proof -
  obtain r where r: "room_open V (original_config (sv_seed sv) (sv_indexers sv)) (new_store sv rid) (initial_projection sv rid) = Inr r"
      "sv1 = sv\<lparr> rooms := bt_insert rid r (rooms sv) \<rparr>"
    using assms(2,3) by (auto simp: host_def open_room_def split: sum.splits)
  have org: "rm_origin r = Original" "room_ok r" using room_open_origin [OF r(1)] room_open_ok [OF r(1)] by (simp_all add: original_config_def)
  have sv1: "server_ok sv1" using open_room_ok [OF assms(1)] assms(3) by (simp add: host_def)
  then have inv: "bt_inv (rooms sv1)" by (simp add: server_ok_def)
  note ev = evict_stale_exact [OF inv assms(4)]
  have get: "bt_get (rooms sv1) = (bt_get (rooms sv))(rid \<mapsto> r)" by (simp add: r(2))
  have gone: "k \<in> set gone \<longleftrightarrow> (\<exists>r. bt_get (rooms sv) k = Some r \<and> is_replicated r \<and> stale r)" for k
    using ev(2) [of k] assms(2) org(1) by (auto simp: get is_replicated_def bt_contains_def)
  have "bt_get (rooms sv2) k = (if k \<in> set gone then None else bt_get (rooms sv1) k)" for k
    using ev(1) [of k] ev(2) [of k] by (auto split: option.splits)
  moreover have "rid \<notin> set gone" using gone assms(2) by (auto simp: bt_contains_def)
  ultimately show ?thesis using sv1 ev(3) gone org by (auto simp: server_ok_def get split: if_splits)
qed

text \<open>
  Hosting a room that was joined as a replica before succeeds but leaves it a replica: eviction may drop it,
  although a hosted room is said never to be deleted.
\<close>

theorem host_after_join_is_evictable:
  assumes "bt_inv (rooms sv)" "bt_get (rooms sv) rid = Some r" "rm_origin r = Replicated st"
  shows "host V sv rid = (Inr (), sv) \<and> bt_get (rooms (snd (evict_stale (\<lambda>_. True) sv))) rid = None"
proof -
  obtain gone sv' where e: "evict_stale (\<lambda>_. True) sv = (gone, sv')" by fastforce
  show ?thesis
    using evict_stale_exact(1) [OF assms(1) e, of rid] assms(2,3) e
    by (simp add: host_def open_room_def bt_contains_def is_replicated_def)
qed

section \<open>Witnesses\<close>

definition demo_server :: "(memory_store, unit, kv_projection) server" where
  "demo_server = server_open \<lparr> identity_seed = [1], sc_indexers = [], sc_stale_after = Some 60 \<rparr> \<lparr> kv_state = [] \<rparr> (\<lambda>_. ())"

text \<open>A transport that has received one message and drops what is sent.\<close>

definition demo_transport :: "(unit, inbound list) transport" where
  "demo_transport = \<lparr> tr_dispatch = (\<lambda>t rid out. (Inr (), t)), tr_drain = (\<lambda>t. (t, [])) \<rparr>"

lemma demo_server_ok: "server_ok demo_server"
  by (simp add: demo_server_def server_open_def server_ok_def)


theorem hosted_room_is_kept_witness:
  "\<exists>sv1 gone sv2 r. host demo_env demo_server [9] = (Inr (), sv1) \<and> evict_stale (\<lambda>_. True) sv1 = (gone, sv2) \<and>
     bt_get (rooms sv2) [9] = Some r \<and> rm_origin r = Original"
proof -
  have "fst (host demo_env demo_server [9]) = Inr ()" by code_simp
  then obtain sv1 where sv1: "host demo_env demo_server [9] = (Inr (), sv1)" by (metis prod.collapse)
  obtain gone sv2 where ev: "evict_stale (\<lambda>_. True) sv1 = (gone, sv2)" by fastforce
  have "\<not> bt_contains (rooms demo_server) [9]" by (simp add: demo_server_def server_open_def bt_contains_def)
  from hosted_room_is_kept [OF demo_server_ok this sv1 ev] show ?thesis using sv1 ev by blast
qed

theorem host_after_join_is_evictable_witness:
  "\<exists>sv. join_remote demo_env demo_server [9] = (Inr (), sv) \<and> host demo_env sv [9] = (Inr (), sv) \<and>
     bt_get (rooms (snd (evict_stale (\<lambda>_. True) sv))) [9] = None"
proof -
  have "fst (join_remote demo_env demo_server [9]) = Inr ()" by code_simp
  then obtain sv where sv: "join_remote demo_env demo_server [9] = (Inr (), sv)" by (metis prod.collapse)
  then obtain r where r: "room_open demo_env (replicated_config [1] [] (Some 60)) () \<lparr> kv_state = [] \<rparr> = Inr r"
      "sv = demo_server\<lparr> rooms := bt_insert [9] r (rooms demo_server) \<rparr>"
    by (auto simp: join_remote_def join_remote_with_indexers_def open_room_def demo_server_def server_open_def initial_projection_def
        bt_contains_def split: sum.splits)
  have "rm_origin r = Replicated (Some 60)" using room_open_origin [OF r(1)] by (simp add: replicated_config_def)
  moreover have "bt_inv (rooms sv)" "bt_get (rooms sv) [9] = Some r" by (simp_all add: r(2) demo_server_def server_open_def bt_inv_Cons)
  ultimately show ?thesis using host_after_join_is_evictable sv by blast
qed

end
