(* ===== verification/Ws_Relay.thy ===== *)
theory Ws_Relay
  imports Room_Server
begin

text \<open>
  The WebSocket transport (\<open>ws.rs\<close>): the frames, the client side, and the bookkeeping of the relay. A
  connection is a number, the channels are queues; accepting a connection, a binary message on it and its
  end are the events of the sockets.
\<close>

section \<open>Frames\<close>

definition encode_frame :: "bytes \<Rightarrow> bytes \<Rightarrow> sync_message \<Rightarrow> bytes" where
  "encode_frame room from msg = room @ from @ wire_encode msg"

text \<open>The outer \<open>None\<close> is the panic of the decoder.\<close>

definition parse_frame :: "bytes \<Rightarrow> inbound option option" where
  "parse_frame buf =
     (if length buf < 64 then Some None
      else case wire_decode (drop 64 buf) of
             Inl WirePanic \<Rightarrow> None
           | Inl _ \<Rightarrow> Some None
           | Inr msg \<Rightarrow> Some (Some \<lparr> in_room = take 32 buf, in_from = take 32 (drop 32 buf), in_msg = msg \<rparr>))"

section \<open>The client\<close>

record ws_client =
  wc_local_id :: bytes
  wc_outbound :: "bytes list"
  wc_inbound :: "inbound list"

definition wc_dispatch :: "ws_client \<Rightarrow> bytes \<Rightarrow> outbound \<Rightarrow> (unit, unit, ws_client) outcome" where
  "wc_dispatch t room out =
     (case ob_to out of
        Clients \<Rightarrow> (Inr (), t)
      | _ \<Rightarrow> (Inr (), t\<lparr> wc_outbound := wc_outbound t @ [encode_frame room (wc_local_id t) (ob_msg out)] \<rparr>))"

definition wc_drain :: "ws_client \<Rightarrow> inbound list \<times> ws_client" where
  "wc_drain t = (wc_inbound t, t\<lparr> wc_inbound := [] \<rparr>)"

text \<open>One binary message from the socket; \<open>None\<close> is a panic of the reader.\<close>

definition wc_receive :: "ws_client \<Rightarrow> bytes \<Rightarrow> ws_client option" where
  "wc_receive t data =
     map_option (\<lambda>x. case x of None \<Rightarrow> t | Some inb \<Rightarrow> t\<lparr> wc_inbound := wc_inbound t @ [inb] \<rparr>) (parse_frame data)"

definition ws_transport :: "(unit, ws_client) transport" where
  "ws_transport = \<lparr> tr_dispatch = wc_dispatch, tr_drain = wc_drain \<rparr>"

section \<open>The relay\<close>

text \<open>The state of the reader of one connection.\<close>

record ws_reader =
  wr_registered :: "bytes option"
  wr_rooms :: "bytes btset"

record ws_server =
  ws_local_id :: bytes
  conns :: "(bytes, nat) btmap"
  seen :: "bytes btset"
  present :: "(bytes, bytes btset) btmap"
  ws_inbound :: "inbound list"
  readers :: "(nat, ws_reader) btmap"
  channels :: "(nat, bytes list) btmap"

definition ws_new :: "bytes \<Rightarrow> ws_server" where
  "ws_new lid = \<lparr> ws_local_id = lid, conns = [], seen = [], present = [], ws_inbound = [], readers = [], channels = [] \<rparr>"

definition ws_accept :: "nat \<Rightarrow> ws_server \<Rightarrow> ws_server" where
  "ws_accept c s =
     s\<lparr> readers := bt_insert c \<lparr> wr_registered = None, wr_rooms = [] \<rparr> (readers s), channels := bt_insert c [] (channels s) \<rparr>"

definition present_insert :: "bytes \<Rightarrow> bytes \<Rightarrow> (bytes, bytes btset) btmap \<Rightarrow> (bytes, bytes btset) btmap" where
  "present_insert room peer m = bt_insert room (bs_insert peer (case bt_get m room of None \<Rightarrow> [] | Some ps \<Rightarrow> ps)) m"

definition ws_record :: "nat \<Rightarrow> ws_reader \<Rightarrow> inbound \<Rightarrow> ws_server \<Rightarrow> ws_server" where
  "ws_record c rd inb s =
     (let s = (if wr_registered rd = None then s\<lparr> conns := bt_insert (in_from inb) c (conns s) \<rparr> else s);
          rd = (if wr_registered rd = None then rd\<lparr> wr_registered := Some (in_from inb) \<rparr> else rd);
          s = (if in_room inb \<in> set (wr_rooms rd) then s
               else s\<lparr> present := present_insert (in_room inb) (in_from inb) (present s) \<rparr>);
          rd = rd\<lparr> wr_rooms := bs_insert (in_room inb) (wr_rooms rd) \<rparr>
      in s\<lparr> seen := bs_insert (in_room inb) (seen s), ws_inbound := ws_inbound s @ [inb], readers := bt_insert c rd (readers s) \<rparr>)"

text \<open>One binary message on connection \<open>c\<close>; \<open>None\<close> is a panic of its reader.\<close>

definition ws_receive :: "nat \<Rightarrow> bytes \<Rightarrow> ws_server \<Rightarrow> ws_server option" where
  "ws_receive c data s =
     (case bt_get (readers s) c of
        None \<Rightarrow> Some s
      | Some rd \<Rightarrow> map_option (\<lambda>x. case x of None \<Rightarrow> s | Some inb \<Rightarrow> ws_record c rd inb s) (parse_frame data))"

definition present_remove :: "bytes \<Rightarrow> bytes \<Rightarrow> (bytes, bytes btset) btmap \<Rightarrow> (bytes, bytes btset) btmap" where
  "present_remove peer room m =
     (case bt_get m room of
        None \<Rightarrow> m
      | Some ps \<Rightarrow> let ps = bs_remove peer ps in if ps = [] then bt_remove room m else bt_insert room ps m)"

text \<open>The end of connection \<open>c\<close>.\<close>

definition ws_close :: "nat \<Rightarrow> ws_server \<Rightarrow> ws_server" where
  "ws_close c s =
     (case bt_get (readers s) c of
        None \<Rightarrow> s
      | Some rd \<Rightarrow>
          let s = (case wr_registered rd of
                     None \<Rightarrow> s
                   | Some peer \<Rightarrow>
                       s\<lparr> conns := (if bt_get (conns s) peer = Some c then bt_remove peer (conns s) else conns s),
                          present := fold (present_remove peer) (wr_rooms rd) (present s) \<rparr>)
          in s\<lparr> readers := bt_remove c (readers s) \<rparr>)"

definition seen_rooms :: "ws_server \<Rightarrow> bytes list" where
  "seen_rooms s = seen s"

definition clients_by_room :: "ws_server \<Rightarrow> (bytes \<times> nat) list" where
  "clients_by_room s = map (\<lambda>(room, ps). (room, length ps)) (present s)"

definition send_to :: "bytes \<Rightarrow> nat \<Rightarrow> ws_server \<Rightarrow> ws_server" where
  "send_to fr c s =
     (case bt_get (channels s) c of None \<Rightarrow> s | Some q \<Rightarrow> s\<lparr> channels := bt_insert c (q @ [fr]) (channels s) \<rparr>)"

definition ws_dispatch :: "ws_server \<Rightarrow> bytes \<Rightarrow> outbound \<Rightarrow> (unit, unit, ws_server) outcome" where
  "ws_dispatch s room out =
     (let frame = encode_frame room (ws_local_id s) (ob_msg out)
      in case ob_to out of
           Peer p \<Rightarrow> (Inr (), case bt_get (conns s) p of None \<Rightarrow> s | Some c \<Rightarrow> send_to frame c s)
         | _ \<Rightarrow> (Inr (), fold (send_to frame) (map snd (conns s)) s))"

definition ws_drain :: "ws_server \<Rightarrow> inbound list \<times> ws_server" where
  "ws_drain s = (ws_inbound s, s\<lparr> ws_inbound := [] \<rparr>)"

definition ws_server_transport :: "(unit, ws_server) transport" where
  "ws_server_transport = \<lparr> tr_dispatch = ws_dispatch, tr_drain = ws_drain \<rparr>"

section \<open>Lemmas\<close>

lemma parse_encode_frame:
  assumes "length room = 32" "length from = 32" "wf_message m"
  shows "parse_frame (encode_frame room from m) = Some (Some \<lparr> in_room = room, in_from = from, in_msg = m \<rparr>)"
  using assms wire_decode_encode [OF assms(3), of "[]"] by (simp add: parse_frame_def encode_frame_def)

section \<open>Properties\<close>

text \<open>
  Property C33. A request and its reply through the relay: the frame a client sends is parsed by the relay as the same message
  in the same room from that client; a reply addressed to the client is put on the channel of the client's
  connection and on no other, and the client parses it as the reply, coming from the relay.
\<close>

theorem relay_routes_reply:
  assumes "length room = 32" "length (wc_local_id t) = 32" "length (ws_local_id s) = 32" "wf_message m" "wf_message reply"
    and "ob_to out = Gossip \<or> ob_to out = Peer p" "ob_msg out = m"
    and "bt_get (readers s) c = Some \<lparr> wr_registered = None, wr_rooms = rs \<rparr>" "bt_get (channels s) c = Some []"
  shows "\<exists>f s' s''. snd (wc_dispatch t room out) = t\<lparr> wc_outbound := wc_outbound t @ [f] \<rparr> \<and> ws_receive c f s = Some s' \<and>
    ws_inbound s' = ws_inbound s @ [\<lparr> in_room = room, in_from = wc_local_id t, in_msg = m \<rparr>] \<and> room \<in> set (seen_rooms s') \<and>
    ws_dispatch s' room \<lparr> ob_msg = reply, ob_to = Peer (wc_local_id t) \<rparr> = (Inr (), s'') \<and>
    (\<exists>g. bt_get (channels s'') c = Some [g] \<and>
       wc_receive t g = Some (t\<lparr> wc_inbound := wc_inbound t @ [\<lparr> in_room = room, in_from = ws_local_id s, in_msg = reply \<rparr>] \<rparr>)) \<and>
    (\<forall>c'. c' \<noteq> c \<longrightarrow> bt_get (channels s'') c' = bt_get (channels s) c')"
proof -
  let ?f = "encode_frame room (wc_local_id t) m" and ?g = "encode_frame room (ws_local_id s) reply"
  let ?inb = "\<lparr> in_room = room, in_from = wc_local_id t, in_msg = m \<rparr>"
  define s' where "s' = ws_record c \<lparr> wr_registered = None, wr_rooms = rs \<rparr> ?inb s"
  have f: "snd (wc_dispatch t room out) = t\<lparr> wc_outbound := wc_outbound t @ [?f] \<rparr>" using assms(6,7) by (auto simp: wc_dispatch_def)
  have s': "ws_receive c ?f s = Some s'" using assms(8) parse_encode_frame [OF assms(1,2,4)] by (simp add: ws_receive_def s'_def)
  have fields: "ws_inbound s' = ws_inbound s @ [?inb]" "room \<in> set (seen_rooms s')" "bt_get (conns s') (wc_local_id t) = Some c"
      "channels s' = channels s" "ws_local_id s' = ws_local_id s"
    by (simp_all add: s'_def ws_record_def Let_def seen_rooms_def)
  have d: "ws_dispatch s' room \<lparr> ob_msg = reply, ob_to = Peer (wc_local_id t) \<rparr> = (Inr (), s'\<lparr> channels := bt_insert c [?g] (channels s) \<rparr>)"
    using fields assms(9) by (simp add: ws_dispatch_def Let_def send_to_def)
  have "wc_receive t ?g = Some (t\<lparr> wc_inbound := wc_inbound t @ [\<lparr> in_room = room, in_from = ws_local_id s, in_msg = reply \<rparr>] \<rparr>)"
    using parse_encode_frame [OF assms(1,3,5)] by (simp add: wc_receive_def)
  then show ?thesis using f s' fields(1,2) d by (intro exI [of _ ?f] exI [of _ s'] exI [of _ "s'\<lparr> channels := bt_insert c [?g] (channels s) \<rparr>"]) simp
qed

theorem relay_routes_reply_witness:
  "let t = \<lparr> wc_local_id = replicate 32 1, wc_outbound = [], wc_inbound = [] \<rparr>; s = ws_accept 5 (ws_new (replicate 32 2));
       room = replicate 32 9
   in \<exists>f s'. snd (wc_dispatch t room \<lparr> ob_msg = Have (replicate 32 1) 3, ob_to = Gossip \<rparr>) = t\<lparr> wc_outbound := [f] \<rparr> \<and>
      ws_receive 5 f s = Some s' \<and> ws_inbound s' = [\<lparr> in_room = room, in_from = replicate 32 1, in_msg = Have (replicate 32 1) 3 \<rparr>]"
proof -
  let ?t = "\<lparr> wc_local_id = replicate 32 1, wc_outbound = [], wc_inbound = [] \<rparr>" and ?s = "ws_accept 5 (ws_new (replicate 32 2))"
  have r: "bt_get (readers ?s) 5 = Some \<lparr> wr_registered = None, wr_rooms = [] \<rparr>" "bt_get (channels ?s) 5 = Some []"
    "ws_inbound ?s = []" "length (ws_local_id ?s) = 32"
    by (simp_all add: ws_accept_def ws_new_def)
  from relay_routes_reply [of "replicate 32 9" ?t ?s "Have (replicate 32 1) 3" "Have (replicate 32 1) 4"
      "\<lparr> ob_msg = Have (replicate 32 1) 3, ob_to = Gossip \<rparr>" "[]" 5 "[]"] r
  show ?thesis by (simp add: Let_def) blast
qed



end
