(* ===== verification/Spec2Isabelle.thy ===== *)
theory Spec2Isabelle
  imports Codec Consensus Log_Store Manifest_Core Hyperbee_Views Disk_Factory Room_Restart Ws_Relay
begin

text \<open>
  A verification library for the workspace \<open>hypercore-rs\<close>: signed append-only logs, their Merkle trees
  and proofs, the stores they live in, an ordered key/value store on a log, the causal linearization of several
  logs into one view, and the rooms that replicate such views between peers.

  \<^bold>\<open>The program.\<close> The crates build on each other, and so do the theories:

  \<^item> \<open>crates/codec\<close>: varints, frames, tagged records and the \<open>Codec\<close> trait. Theory \<^verbatim>\<open>Codec\<close>.
  \<^item> \<open>crates/merkle\<close>: \<open>flat.rs\<close> numbers the nodes of a forest of complete binary trees (theory
    \<^verbatim>\<open>Flat\<close>, over naturals and over 64-bit words); \<open>tree.rs\<close> and \<open>lib.rs\<close> hold the node store with
    append, truncate, reorg, seek, repair mode and serialization (theory \<^verbatim>\<open>Merkle\<close>); \<open>proof.rs\<close> and the
    generators in \<open>tree.rs\<close> are the inclusion, node, seek and upgrade proofs (theory \<^verbatim>\<open>Merkle_Proof\<close>).
  \<^item> \<open>crates/storage\<close>: the \<open>Store\<close> trait, \<open>MemoryStore\<close> and \<open>TeeStore\<close> (theory \<^verbatim>\<open>Store\<close>), the
    log-structured store of \<open>log.rs\<close> (theory \<^verbatim>\<open>Log_Store\<close>) and the paged bitfield of \<open>bitfield.rs\<close>
    (theory \<^verbatim>\<open>Bitfield\<close>).
  \<^item> \<open>crates/identity\<close>: signer manifests with quorums (theory \<^verbatim>\<open>Identity\<close>).
  \<^item> \<open>crates/hypercore\<close>: the single-writer log of \<open>core.rs\<close>, \<open>stream.rs\<close> and \<open>snapshot.rs\<close> (definitions in
    theory \<^verbatim>\<open>Hypercore\<close>, the log itself in \<^verbatim>\<open>Hypercore_Log\<close>, purge, migration, recovery, user data, streams
    and snapshots in \<^verbatim>\<open>Hypercore_Views\<close>), the verifying reader of \<open>replica.rs\<close> (theory \<^verbatim>\<open>Replica\<close>) and
    the multi-signer log of \<open>manifest_core.rs\<close> (theory \<^verbatim>\<open>Manifest_Core\<close>).
  \<^item> \<open>crates/autobase\<close>: the causal DAG of nodes of several writers (theory \<^verbatim>\<open>Linearizer\<close>) and the
    confirmation rules, the finalized view and reconfiguration (theory \<^verbatim>\<open>Consensus\<close>).
  \<^item> \<open>crates/hyperbee\<close>: the copy-on-write B-tree in a log. Theory \<^verbatim>\<open>Btree\<close> has the node encoding and the tree
    algorithms of \<open>btree.rs\<close> over a log of nodes, \<^verbatim>\<open>Btree_Log\<close> relates them to the abstract tree (locales
    \<open>node_log\<close> and \<open>bee_store\<close>), \<^verbatim>\<open>Hyperbee\<close> has the store on a hypercore, \<^verbatim>\<open>Hyperbee_Map\<close> its refinement of a
    finite map (locales \<open>bee_ops\<close> and \<open>bee_total\<close>), \<^verbatim>\<open>Hyperbee_Iter\<close> the lazy iterator and \<^verbatim>\<open>Hyperbee_Views\<close>
    versions, differences, sub-databases and batches.
  \<^item> \<open>crates/roomnet\<close>: the entries and sync messages of \<open>entry.rs\<close>, \<open>sync.rs\<close> and \<open>wire.rs\<close> (theory \<^verbatim>\<open>Wire\<close>), the
    room of \<open>room.rs\<close> with \<open>config.rs\<close>, \<open>projection.rs\<close> and the traits of \<open>store.rs\<close> (definitions in theory
    \<^verbatim>\<open>Room\<close>, causal delivery in \<^verbatim>\<open>Room_Delivery\<close>, the invariant in \<^verbatim>\<open>Room_Invariant\<close>, the views in
    \<^verbatim>\<open>Room_Properties\<close>, synchronization in \<^verbatim>\<open>Room_Sync\<close>, restarts in \<^verbatim>\<open>Room_Restart\<close>), the projections of
    \<open>testkit.rs\<close> with the contract of a projection as the locale \<open>pure_projection\<close> (theory \<^verbatim>\<open>Kv_Projection\<close>),
    the durable factories of \<open>store.rs\<close> (theory \<^verbatim>\<open>Disk_Factory\<close>), \<open>server.rs\<close>, \<open>transport.rs\<close> and
    \<open>driver.rs\<close> (theory \<^verbatim>\<open>Room_Server\<close>), and the frames, the client and the bookkeeping of the relay of
    \<open>ws.rs\<close> (theory \<^verbatim>\<open>Ws_Relay\<close>).

  Theory \<^verbatim>\<open>Prelude\<close> has the shared types (\<open>bytes\<close>, \<open>result\<close>, \<open>outcome\<close>), little-endian integers and the
  error monads; theory \<^verbatim>\<open>Ordered\<close> is the sorted association list that models \<open>BTreeMap\<close> and \<open>BTreeSet\<close>.

  \<^bold>\<open>How the code is modelled.\<close> A struct is a record with the fields of the struct, an enum a datatype, a
  method a function that takes the state and returns the result together with the new state
  (\<open>('err, 'a, 's) outcome\<close>). A \<open>Result\<close> is a sum with the error on the left; a panic that can be reached
  is a value of its own (\<open>Panic\<close> in \<open>core_error\<close>, \<open>None\<close> in an outer option where the function cannot
  otherwise fail), so that its absence is something to prove. Lengths and indices are naturals; where the
  width matters they are 64-bit words (\<open>Flat\<close>, \<open>Codec\<close>) or the wrap-around is written out (\<open>add64\<close>), and
  the theorems carry the bound they need. Loops are structural recursion over the list or the range they
  iterate; the loops over the proof nodes, the Kahn sort, the searches over the DAG and the binary search
  are functions with a termination proof or with fuel, and the properties state that the fuel suffices
  (the result is \<open>Some\<close>), not merely that a result is right if there is one. The recursions of the B-tree
  follow sequence numbers read from the log and are partial functions in which \<open>None\<close> is not returning; on
  a well-formed tree they are shown to return. An update appends at most 90 blocks, which bounds a tree of
  \<open>2 ^ 62\<close> entries or \<open>2 ^ 56\<close> updates away from the reserved keys of the log. In a room \<open>RoomStuck\<close> stands for
  a linearization that does not return and \<open>RoomPanic\<close> for a panic of the room; the loop that drains the
  buffer of a room terminates because a pass that makes progress shortens the buffer. An allocation with
  a count read from the input is the panic it is in the code (\<open>CapacityOverflow\<close>, \<open>WirePanic\<close>). The sockets of
  the WebSocket transport are events: a connection accepted, a message received, a connection ended.

  \<^bold>\<open>Parameters and hypotheses.\<close> BLAKE3 is a function \<open>H\<close> on byte strings and ed25519 the record
  \<open>crypto\<close>. Soundness theorems assume \<open>collision_free H X\<close> for the finite set \<open>X\<close> of inputs that the two
  parties hashed, that hashes have 32 bytes where layouts depend on it, \<open>sig_correct\<close> (a signature made with a
  key verifies under its public key) and \<open>unforged\<close> (a signature shown to the verifier that verifies is
  over a message the author signed). The storage backend is a record of operations whose contract is the
  locale \<open>byte_store\<close>; \<open>MemoryStore\<close>, \<open>TeeStore\<close> and \<open>LogStore\<close> are interpretations of it. A file is the
  record \<open>file_ops\<close> with \<open>MemFile\<close> as its instance. A room takes its projection, its store factory and the test
  which byte strings are public keys as the record \<open>room_env\<close>; a transport is the record \<open>transport\<close> of its two
  operations, and a directory of files the record \<open>directory\<close>.

  \<^bold>\<open>What is shown.\<close>
  \<^item> Encodings: varints, records, trees, bitfields, log metadata and user data are read back as written;
    which malformed inputs give which error.
  \<^item> Trees: appending builds the reference tree of the block list, truncation the tree of the prefix, reorg
    the tree of the other log; the root hash commits to the block list; generated proofs verify and accepted
    proofs are right, so a proof forger has a hash collision.
  \<^item> Stores: the log-structured store refines a finite map, also across reopening and torn writes, and its
    file is bounded; the bitfield refines a set of indices.
  \<^item> Logs: append, commit, truncate, persist and reopen, migration, recovery, snapshots and streams refine
    operations on the list of blocks; an author that only uses these operations never signs two heads that
    conflict, so no fork proof against it verifies.
  \<^item> Replication: a replica accepts only blocks its author signed, follows upgrades and reorgs only to heads
    that share the blocks it keeps, and completes when it is offered the blocks of a log; a multi-signer
    head counts only with a quorum of distinct signers.
  \<^item> Linearization: delivery keeps the DAG closed and acyclic and is confluent; the order returns, lists
    every node once in causal order and starts with the finalized prefix, which reconfiguration keeps.
  \<^item> The key/value store: puts and deletes refine updates of a finite map and keep the B-tree well formed over
    any backend, batches are atomic, old versions stay readable, differences, ranges, sub-databases and the
    iterator are exact.
  \<^item> Rooms: every state reached from opening keeps the invariant and no operation fails to return; rooms that
    accepted the same entries have the same orders and the same finalized and live views, the folds of
    these orders; a reconfiguration refolds the finalized view; an appended entry reaches a peer; checkpoints
    settle; a room opened over the stores it left comes back with its orders, views and logs, and an
    append that returned is not lost; ticks of the driver keep the rooms of a server, hosted rooms are not
    evicted, and the relay delivers replies to the client they are for.
  \<^item> Defects found: the divergence of \<open>quorum_degree\<close> with one indexer, the mis-ordered base that
    \<open>reconfigure_at\<close> accepts, the data loss of an interrupted compaction, the fork counter reset by \<open>purge\<close>,
    the panic of \<open>open\<close>, the panic of the message decoder on a large count, the signed block that keeps a room
    from reopening, the file name that makes opening panic, the joined room that hosting leaves evictable
    and the reconnected client that vanishes from its rooms are theorems of their theories.

  \<^bold>\<open>Not modelled.\<close> \<open>RangeProof\<close> of \<open>proof.rs\<close>; \<open>roomnet/native/mod.rs\<close> (asynchronous glue over the iroh network
  stack), the sockets, tasks and scheduling of \<open>ws.rs\<close>; \<open>storage/opfs.rs\<close> and \<open>StdFile\<close> (files of the browser
  and of the operating system, whose contract is the locale \<open>sync_file\<close>) and the creation of directories; the
  trait \<open>ProjectionSink\<close>, which nothing in the workspace implements; examples and tests. The writes of an open
  store are in the state of its handle: that a later open sees them is the hypothesis \<open>keeps_stores\<close> of the
  restart theorems.
\<close>

end
